(* ===== verification/Prelude.thy ===== *)
theory Prelude
  imports Main "HOL-Library.Word" "HOL-Library.Signed_Division"
begin

text \<open>
  Shared material of the Nachos development: the ways a kernel routine can fail, the
  sequencing of fallible routines, the C integer helpers of \<^verbatim>\<open>threads/utility.h\<close> and the
  generic lemmas on lists that the component theories use.
\<close>

section \<open>Failures\<close>

text \<open>
  \<^verbatim>\<open>ASSERT\<close> (\<^verbatim>\<open>threads/utility.h\<close>) prints a message and aborts the simulator. A routine that
  can abort, or that can follow a bad pointer or leave an array, returns a value of
  \<open>error + 'a\<close>; every such place of the source is a branch of its own.
\<close>

datatype error =
    AssertFailed      \<comment> \<open>an \<^verbatim>\<open>ASSERT\<close> of the source does not hold\<close>
  | BadPointer        \<comment> \<open>a NULL or dangling pointer is dereferenced\<close>
  | OutOfBounds       \<comment> \<open>an array is indexed outside its extent\<close>
  | ArithmeticTrap    \<comment> \<open>the host processor traps (\<^verbatim>\<open>INT_MIN / -1\<close>)\<close>
  | Deadlock          \<comment> \<open>the code loops or waits for an event that nothing can raise\<close>
  | LeavesCpu         \<comment> \<open>the routine stops the simulator or gives up the processor instead of returning\<close>

type_synonym 'a res = "error + 'a"

text \<open>
  Sequencing: the first failure ends the routine. The type of failures is left open, since the
  converter of object files has its own.
\<close>

definition bindE :: "'e + 'a \<Rightarrow> ('a \<Rightarrow> 'e + 'b) \<Rightarrow> 'e + 'b" where
  "bindE m f = (case m of Inl e \<Rightarrow> Inl e | Inr x \<Rightarrow> f x)"

definition ASSERT :: "bool \<Rightarrow> 'a res \<Rightarrow> 'a res" where
  "ASSERT b m = (if b then m else Inl AssertFailed)"

lemma bindE_simps [simp]:
  "bindE (Inl e) f = Inl e"
  "bindE (Inr x) f = f x"
  by (simp_all add: bindE_def)

lemma bindE_eq_Inr [simp]:
  "bindE m f = Inr y \<longleftrightarrow> (\<exists>x. m = Inr x \<and> f x = Inr y)"
  by (cases m) auto

lemma bindE_eq_Inl:
  "bindE m f = Inl e \<longleftrightarrow> m = Inl e \<or> (\<exists>x. m = Inr x \<and> f x = Inl e)"
  by (cases m) auto

lemma bindE_assoc: "bindE (bindE m f) g = bindE m (\<lambda>x. bindE (f x) g)"
  by (cases m) auto

lemma ASSERT_simps [simp]:
  "ASSERT True m = m"
  "ASSERT False m = Inl AssertFailed"
  by (simp_all add: ASSERT_def)

lemma ASSERT_eq_Inr [simp]: "ASSERT b m = Inr y \<longleftrightarrow> b \<and> m = Inr y"
  by (simp add: ASSERT_def)

section \<open>Integer helpers of utility.h\<close>

text \<open>
  \<^verbatim>\<open>divRoundDown\<close> and \<^verbatim>\<open>divRoundUp\<close> divide C integers, so they truncate towards zero
  (\<open>sdiv\<close>, \<open>smod\<close>).
\<close>

definition divRoundDown :: "int \<Rightarrow> int \<Rightarrow> int" where
  "divRoundDown n s = n sdiv s"

definition divRoundUp :: "int \<Rightarrow> int \<Rightarrow> int" where
  "divRoundUp n s = n sdiv s + (if n smod s > 0 then 1 else 0)"

lemma sdiv_nonneg: "0 \<le> n \<Longrightarrow> 0 < s \<Longrightarrow> n sdiv s = n div s" for n s :: int
  by (simp add: signed_divide_int_def sgn_if)

lemma smod_nonneg: "0 \<le> n \<Longrightarrow> 0 < s \<Longrightarrow> n smod s = n mod s" for n s :: int
  by (cases "n = 0") (simp_all add: signed_modulo_int_def sgn_if)

lemma divRoundDown_nonneg: "0 \<le> n \<Longrightarrow> 0 < s \<Longrightarrow> divRoundDown n s = n div s"
  by (simp add: divRoundDown_def sdiv_nonneg)

lemma divRoundUp_nonneg:
  "0 \<le> n \<Longrightarrow> 0 < s \<Longrightarrow> divRoundUp n s = n div s + (if n mod s = 0 then 0 else 1)"
  by (auto simp: divRoundUp_def sdiv_nonneg smod_nonneg not_less intro: antisym)

lemma divRoundUp_bounds:
  assumes "0 \<le> n" and "0 < s"
  shows "n \<le> divRoundUp n s * s" and "divRoundUp n s * s < n + s"
proof -
  have "n = s * (n div s) + n mod s" by simp
  moreover have "0 \<le> n mod s" "n mod s < s"
    using assms by simp_all
  ultimately show "n \<le> divRoundUp n s * s" "divRoundUp n s * s < n + s"
    using assms unfolding divRoundUp_nonneg [OF assms] by (simp_all add: algebra_simps; linarith)+
qed

section \<open>Lists\<close>

lemma nth_list_update_if:
  "i < length xs \<Longrightarrow> xs[i := x] ! j = (if i = j then x else xs ! j)"
  by simp

lemma takeWhile_dropWhile_insert_set [simp]:
  "set (takeWhile P xs @ x # dropWhile P xs) = insert x (set xs)"
proof -
  have "set (takeWhile P xs) \<union> set (dropWhile P xs) = set xs"
    by (metis set_append takeWhile_dropWhile_id)
  then show ?thesis by auto
qed

section \<open>Loops over an index range\<close>

text \<open>
  \<^verbatim>\<open>for (int i = 0; i < n; i++)\<close> with a body that cannot change \<open>n\<close> runs over
  \<open>range_int n\<close>; \<open>foldE\<close> threads the state through a body that can fail.
\<close>

definition range_int :: "int \<Rightarrow> int list" where
  "range_int n = map int [0..<nat n]"

fun foldE :: "('x \<Rightarrow> 's \<Rightarrow> 'e + 's) \<Rightarrow> 'x list \<Rightarrow> 's \<Rightarrow> 'e + 's" where
  "foldE f [] s = Inr s"
| "foldE f (x # xs) s = bindE (f x s) (foldE f xs)"

lemma set_range_int [simp]: "set (range_int n) = {i. 0 \<le> i \<and> i < n}"
  by (auto simp: range_int_def intro: image_eqI [of _ _ "nat _"])

lemma distinct_range_int [simp]: "distinct (range_int n)"
  by (simp add: range_int_def distinct_map)

lemma length_range_int [simp]: "length (range_int n) = nat n"
  by (simp add: range_int_def)

lemma nth_range_int [simp]: "i < nat n \<Longrightarrow> range_int n ! i = int i"
  by (simp add: range_int_def)

lemma range_int_Suc: "range_int (int (Suc k)) = range_int (int k) @ [int k]"
  unfolding range_int_def nat_int by simp

lemma foldE_append: "foldE f (xs @ ys) s = bindE (foldE f xs s) (foldE f ys)"
proof (induction xs arbitrary: s)
  case (Cons x xs)
  then show ?case by (cases "f x s") auto
qed simp

text \<open>A loop whose body keeps an invariant and never fails.\<close>

lemma foldE_inv:
  assumes "P [] s"
    and "\<And>ys y zs t. xs = ys @ y # zs \<Longrightarrow> P ys t \<Longrightarrow> \<exists>t'. f y t = Inr t' \<and> P (ys @ [y]) t'"
  shows "\<exists>t. foldE f xs s = Inr t \<and> P xs t"
proof -
  have "\<exists>t. foldE f ys s = Inr t \<and> P ys t" if "xs = ys @ zs" for ys zs
    using that
  proof (induction ys arbitrary: zs rule: rev_induct)
    case (snoc y ys)
    then obtain t where t: "foldE f ys s = Inr t" "P ys t" by auto
    with assms(2) [of ys y zs t] snoc.prems show ?case by (auto simp: foldE_append)
  qed (use assms(1) in simp)
  from this [of xs "[]"] show ?thesis by simp
qed

text \<open>A routine called \<open>n\<close> times, its results collected.\<close>

fun repeatE :: "('s \<Rightarrow> ('b \<times> 's) res) \<Rightarrow> nat \<Rightarrow> 's \<Rightarrow> ('b list \<times> 's) res" where
  "repeatE f 0 s = Inr ([], s)"
| "repeatE f (Suc n) s =
     bindE (f s) (\<lambda>(x, s1). bindE (repeatE f n s1) (\<lambda>(xs, s2). Inr (x # xs, s2)))"

lemma sorted_range_int [simp]: "sorted (range_int n)"
  by (auto simp: range_int_def sorted_iff_nth_mono)

section \<open>Bytes and words\<close>

unbundle bit_operations_syntax

text \<open>
  Byte \<open>k\<close> of a word, counted from the least significant one, and the words that two or
  four bytes make, least significant byte first.
\<close>

definition byte_of :: "nat \<Rightarrow> 'a::len word \<Rightarrow> 8 word" where
  "byte_of k w = ucast (drop_bit (8 * k) w)"

definition le16 :: "8 word \<Rightarrow> 8 word \<Rightarrow> 16 word" where
  "le16 b0 b1 = ucast b0 OR push_bit 8 (ucast b1)"

definition le32 :: "8 word \<Rightarrow> 8 word \<Rightarrow> 8 word \<Rightarrow> 8 word \<Rightarrow> 32 word" where
  "le32 b0 b1 b2 b3 =
     ucast b0 OR push_bit 8 (ucast b1) OR push_bit 16 (ucast b2) OR push_bit 24 (ucast b3)"

lemma bit_byte_of: "bit (byte_of k w) n \<longleftrightarrow> n < 8 \<and> bit w (8 * k + n)"
  by (auto simp: byte_of_def bit_simps)

lemma bit_beyond_8: "bit (b :: 8 word) n \<Longrightarrow> n < 8"
  using bit_imp_le_length by fastforce

lemma bit_le16: "bit (le16 b0 b1) n \<longleftrightarrow> (if n < 8 then bit b0 n else bit b1 (n - 8))"
  by (auto simp: le16_def bit_simps dest: bit_beyond_8)

lemma bit_le32: "bit (le32 b0 b1 b2 b3) n \<longleftrightarrow>
    (if n < 8 then bit b0 n else if n < 16 then bit b1 (n - 8)
     else if n < 24 then bit b2 (n - 16) else bit b3 (n - 24))"
  by (auto simp: le32_def bit_simps dest: bit_beyond_8)

lemma le16_byte_of [simp]: "le16 (byte_of 0 w) (byte_of (Suc 0) w) = w" for w :: "16 word"
proof (rule bit_word_eqI)
  fix n assume "n < LENGTH(16)"
  then show "bit (le16 (byte_of 0 w) (byte_of (Suc 0) w)) n = bit w n"
    by (auto simp: bit_le16 bit_byte_of)
qed

lemma le32_byte_of [simp]:
  "le32 (byte_of 0 w) (byte_of (Suc 0) w) (byte_of 2 w) (byte_of 3 w) = w" for w :: "32 word"
proof (rule bit_word_eqI)
  fix n assume "n < LENGTH(32)"
  then show "bit (le32 (byte_of 0 w) (byte_of (Suc 0) w) (byte_of 2 w) (byte_of 3 w)) n = bit w n"
    by (auto simp: bit_le32 bit_byte_of)
qed

lemma byte_of_le32 [simp]:
  "byte_of 0 (le32 b0 b1 b2 b3) = b0" "byte_of (Suc 0) (le32 b0 b1 b2 b3) = b1"
  "byte_of 2 (le32 b0 b1 b2 b3) = b2" "byte_of 3 (le32 b0 b1 b2 b3) = b3"
  by (rule bit_word_eqI; simp add: bit_le32 bit_byte_of)+

lemma byte_of_le16 [simp]: "byte_of 0 (le16 b0 b1) = b0" "byte_of (Suc 0) (le16 b0 b1) = b1"
  by (rule bit_word_eqI; simp add: bit_le16 bit_byte_of)+

text \<open>Writing a run of bytes into an array.\<close>

definition poke :: "nat \<Rightarrow> 'b list \<Rightarrow> 'b list \<Rightarrow> 'b list" where
  "poke a bs m = take a m @ bs @ drop (a + length bs) m"

lemma length_poke [simp]: "a + length bs \<le> length m \<Longrightarrow> length (poke a bs m) = length m"
  by (simp add: poke_def)

lemma nth_poke:
  "a + length bs \<le> length m \<Longrightarrow> i < length m \<Longrightarrow>
   poke a bs m ! i = (if a \<le> i \<and> i < a + length bs then bs ! (i - a) else m ! i)"
  by (auto simp: poke_def nth_append min_def)

lemma take_drop_poke_same [simp]:
  "a + length bs \<le> length m \<Longrightarrow> take (length bs) (drop a (poke a bs m)) = bs"
  by (simp add: poke_def)

lemma take_drop_poke_other:
  assumes "a + length bs \<le> length m" and "c + n \<le> length m" and "c + n \<le> a \<or> a + length bs \<le> c"
  shows "take n (drop c (poke a bs m)) = take n (drop c m)"
  using assms by (intro nth_equalityI) (auto simp: nth_poke)

section \<open>The sector size\<close>

text \<open>\<^verbatim>\<open>SectorSize\<close> of \<^verbatim>\<open>machine/disk.h\<close> is also the page size of the machine.\<close>

definition SectorSize :: nat where "SectorSize = 128"

section \<open>Words and integers in bytes\<close>

text \<open>The bytes of an array of words in memory, least significant byte first.\<close>

definition word_bytes :: "32 word \<Rightarrow> 8 word list" where
  "word_bytes w = [byte_of 0 w, byte_of 1 w, byte_of 2 w, byte_of 3 w]"

fun words_of :: "8 word list \<Rightarrow> 32 word list" where
  "words_of (a # b # c # d # bs) = le32 a b c d # words_of bs"
| "words_of _ = []"

definition fits_int :: "int \<Rightarrow> bool" where
  "fits_int n \<longleftrightarrow> - (2 ^ 31) \<le> n \<and> n < 2 ^ 31"

definition int_bytes :: "int \<Rightarrow> 8 word list" where
  "int_bytes n = word_bytes (word_of_int n)"

lemma length_word_bytes [simp]: "length (word_bytes w) = 4"
  by (simp add: word_bytes_def)

lemma length_int_bytes [simp]: "length (int_bytes n) = 4"
  by (simp add: int_bytes_def)

lemma words_of_word_bytes [simp]: "words_of (word_bytes w @ bs) = w # words_of bs"
  by (simp add: word_bytes_def)

lemma words_of_concat [simp]: "words_of (concat (map word_bytes ws)) = ws"
  by (induction ws) simp_all

lemma sint_word_of_int_fits: "fits_int n \<Longrightarrow> sint (word_of_int n :: 32 word) = n"
  by (simp add: fits_int_def sint_sbintrunc' signed_take_bit_int_eq_self)

lemma fits_int_sint [simp]: "fits_int (sint (w :: 32 word))"
  using sint_ge [of w] sint_less [of w] by (simp add: fits_int_def)

lemma length_concat_const: "(\<And>x. x \<in> set xs \<Longrightarrow> length (f x) = n) \<Longrightarrow> length (concat (map f xs)) = n * length xs"
  by (induction xs) auto

lemma length_words_of: "length (words_of bs) = length bs div 4"
  by (induction bs rule: words_of.induct) auto

end
