(* ===== verification/LinkedList.thy ===== *)
theory LinkedList
  imports Prelude "HOL-Library.Multiset"
begin

text \<open>
  The singly linked list of \<^verbatim>\<open>threads/list.{h,cc}\<close>, on an explicit heap of list elements:
  the ready list, the wait queues, the pending interrupts and the mailboxes of Nachos are all
  such lists. The first part translates the routines pointer by pointer; the second gives the
  sequence of (key, item) pairs a list stands for, and the third proves that every routine
  returns and does on the sequence what its comment in the source says.
\<close>

section \<open>The pointer structure\<close>

text \<open>
  \<^verbatim>\<open>class ListElement\<close>: a pointer is an address or \<open>None\<close> for NULL, and so is the
  \<^verbatim>\<open>void *item\<close>. The heap hands out addresses in increasing order (\<open>brk\<close> is the next
  one); a deleted element is unmapped.
\<close>

record 'a ListElement =
  elem_next :: "nat option"
  elem_key :: int
  elem_item :: "'a option"

record 'a lheap =
  cells :: "nat \<Rightarrow> 'a ListElement option"
  brk :: nat

record List =
  list_first :: "nat option"
  list_last :: "nat option"

type_synonym 'a lstate = "'a lheap \<times> List"

definition deref :: "nat option \<Rightarrow> 'a lheap \<Rightarrow> 'a ListElement res" where
  "deref p h = (case p of None \<Rightarrow> Inl BadPointer
     | Some a \<Rightarrow> (case cells h a of None \<Rightarrow> Inl BadPointer | Some e \<Rightarrow> Inr e))"

definition put :: "nat \<Rightarrow> 'a ListElement \<Rightarrow> 'a lheap \<Rightarrow> 'a lheap" where
  "put a e h = h\<lparr>cells := (cells h)(a \<mapsto> e)\<rparr>"

text \<open>The assignment \<^verbatim>\<open>p->next = q\<close>.\<close>

definition set_next :: "nat option \<Rightarrow> nat option \<Rightarrow> 'a lheap \<Rightarrow> 'a lheap res" where
  "set_next p q h = bindE (deref p h) (\<lambda>e. Inr (put (the p) (e\<lparr>elem_next := q\<rparr>) h))"

definition delete :: "nat option \<Rightarrow> 'a lheap \<Rightarrow> 'a lheap" where
  "delete p h = (case p of None \<Rightarrow> h | Some a \<Rightarrow> h\<lparr>cells := (cells h)(a := None)\<rparr>)"

section \<open>The routines of list.cc\<close>

definition new_ListElement :: "'a option \<Rightarrow> int \<Rightarrow> 'a lheap \<Rightarrow> nat \<times> 'a lheap" where
  "new_ListElement itemPtr sortKey h =
     (brk h, put (brk h) \<lparr>elem_next = None, elem_key = sortKey, elem_item = itemPtr\<rparr> h\<lparr>brk := Suc (brk h)\<rparr>)"

definition List_List :: List where
  "List_List = \<lparr>list_first = None, list_last = None\<rparr>"

definition List_IsEmpty :: "List \<Rightarrow> bool" where
  "List_IsEmpty l = (list_first l = None)"

definition List_Append :: "'a option \<Rightarrow> 'a lstate \<Rightarrow> 'a lstate res" where
  "List_Append itm s = (let (h, l) = s; (e, h1) = new_ListElement itm 0 h in
     if List_IsEmpty l then Inr (h1, \<lparr>list_first = Some e, list_last = Some e\<rparr>)
     else bindE (set_next (list_last l) (Some e) h1) (\<lambda>h2. Inr (h2, l\<lparr>list_last := Some e\<rparr>)))"

definition List_Prepend :: "'a option \<Rightarrow> 'a lstate \<Rightarrow> 'a lstate res" where
  "List_Prepend itm s = (let (h, l) = s; (e, h1) = new_ListElement itm 0 h in
     if List_IsEmpty l then Inr (h1, \<lparr>list_first = Some e, list_last = Some e\<rparr>)
     else bindE (set_next (Some e) (list_first l) h1) (\<lambda>h2. Inr (h2, l\<lparr>list_first := Some e\<rparr>)))"

text \<open>
  The walk of \<^verbatim>\<open>SortedInsert\<close>. On a cyclic structure it would not end: \<open>None\<close>.
\<close>

partial_function (option) insert_walk ::
    "nat \<Rightarrow> int \<Rightarrow> nat option \<Rightarrow> 'a lheap \<Rightarrow> List \<Rightarrow> 'a lstate res option" where
  "insert_walk e k p h l =
     (case deref p h of Inl err \<Rightarrow> Some (Inl err)
      | Inr c \<Rightarrow>
          (case elem_next c of
             None \<Rightarrow> Some (bindE (set_next (list_last l) (Some e) h)
                             (\<lambda>h1. Inr (h1, l\<lparr>list_last := Some e\<rparr>)))
           | Some n \<Rightarrow>
               (case deref (Some n) h of Inl err \<Rightarrow> Some (Inl err)
                | Inr cn \<Rightarrow>
                    if k < elem_key cn
                    then Some (bindE (set_next (Some e) (Some n) h)
                           (\<lambda>h1. bindE (set_next p (Some e) h1) (\<lambda>h2. Inr (h2, l))))
                    else insert_walk e k (Some n) h l)))"

definition List_SortedInsert :: "'a option \<Rightarrow> int \<Rightarrow> 'a lstate \<Rightarrow> 'a lstate res option" where
  "List_SortedInsert itm sortKey s = (let (h, l) = s; (e, h1) = new_ListElement itm sortKey h in
     if List_IsEmpty l then Some (Inr (h1, \<lparr>list_first = Some e, list_last = Some e\<rparr>))
     else (case deref (list_first l) h1 of Inl err \<Rightarrow> Some (Inl err)
           | Inr c \<Rightarrow>
               if sortKey < elem_key c
               then Some (bindE (set_next (Some e) (list_first l) h1)
                      (\<lambda>h2. Inr (h2, l\<lparr>list_first := Some e\<rparr>)))
               else insert_walk e sortKey (list_first l) h1 l))"

text \<open>
  \<^verbatim>\<open>SortedRemove(keyPtr)\<close> returns the item (or NULL) and stores the key through \<open>keyPtr\<close>
  when it is given and the list has an element; the stored key is the second component.
\<close>

definition List_SortedRemove :: "bool \<Rightarrow> 'a lstate \<Rightarrow> ('a option \<times> int option \<times> 'a lstate) res" where
  "List_SortedRemove keyPtr s = (let (h, l) = s in
     if List_IsEmpty l then Inr (None, None, s)
     else bindE (deref (list_first l) h) (\<lambda>element.
       let thing = elem_item element;
           l' = (if list_first l = list_last l then \<lparr>list_first = None, list_last = None\<rparr>
                 else l\<lparr>list_first := elem_next element\<rparr>);
           stored = (if keyPtr then Some (elem_key element) else None)
       in Inr (thing, stored, (delete (list_first l) h, l'))))"

definition List_Remove :: "'a lstate \<Rightarrow> ('a option \<times> 'a lstate) res" where
  "List_Remove s = bindE (List_SortedRemove False s) (\<lambda>(thing, _, s'). Inr (thing, s'))"

text \<open>\<^verbatim>\<open>Mapcar\<close> applies a function for its effect on some state.\<close>

partial_function (option) mapcar_walk ::
    "('a option \<Rightarrow> 's \<Rightarrow> 's) \<Rightarrow> nat option \<Rightarrow> 'a lheap \<Rightarrow> 's \<Rightarrow> 's res option" where
  "mapcar_walk func p h \<sigma> =
     (case p of None \<Rightarrow> Some (Inr \<sigma>)
      | Some a \<Rightarrow> (case deref p h of Inl err \<Rightarrow> Some (Inl err)
                  | Inr c \<Rightarrow> mapcar_walk func (elem_next c) h (func (elem_item c) \<sigma>)))"

definition List_Mapcar :: "('a option \<Rightarrow> 's \<Rightarrow> 's) \<Rightarrow> 'a lstate \<Rightarrow> 's \<Rightarrow> 's res option" where
  "List_Mapcar func s \<sigma> = mapcar_walk func (list_first (snd s)) (fst s) \<sigma>"

text \<open>The destructor: \<^verbatim>\<open>while (Remove() != NULL) ;\<close>.\<close>

partial_function (option) List_destroy :: "'a lstate \<Rightarrow> 'a lstate res option" where
  "List_destroy s =
     (case List_Remove s of Inl err \<Rightarrow> Some (Inl err)
      | Inr (thing, s') \<Rightarrow> (case thing of None \<Rightarrow> Some (Inr s') | Some _ \<Rightarrow> List_destroy s'))"

section \<open>The sequence a list stands for\<close>

text \<open>
  A list stands for the sequence of its (key, item) pairs. \<open>keyed_insert\<close> is what the
  comment of \<^verbatim>\<open>SortedInsert\<close> describes: the new pair goes in front of the first one with a
  bigger key.
\<close>

definition keyed_insert :: "int \<times> 'b \<Rightarrow> (int \<times> 'b) list \<Rightarrow> (int \<times> 'b) list" where
  "keyed_insert kx xs =
     takeWhile (\<lambda>y. fst y \<le> fst kx) xs @ kx # dropWhile (\<lambda>y. fst y \<le> fst kx) xs"

abbreviation sorted_keys :: "(int \<times> 'b) list \<Rightarrow> bool" where
  "sorted_keys xs \<equiv> sorted (map fst xs)"

lemma keyed_insert_Nil [simp]: "keyed_insert kx [] = [kx]"
  by (simp add: keyed_insert_def)

lemma keyed_insert_Cons [simp]:
  "keyed_insert kx (y # ys) = (if fst y \<le> fst kx then y # keyed_insert kx ys else kx # y # ys)"
  by (simp add: keyed_insert_def)

lemma keyed_insert_not_Nil [simp]: "keyed_insert kx xs \<noteq> []"
  by (simp add: keyed_insert_def)

lemma length_keyed_insert [simp]: "length (keyed_insert kx xs) = Suc (length xs)"
  by (induction xs) auto

lemma set_keyed_insert [simp]: "set (keyed_insert kx xs) = insert kx (set xs)"
  by (induction xs) auto

lemma sorted_keyed_insert [simp]: "sorted_keys xs \<Longrightarrow> sorted_keys (keyed_insert kx xs)"
  by (induction xs) auto

lemma map_snd_keyed_insert_set:
  "set (map snd (keyed_insert kx xs)) = insert (snd kx) (set (map snd xs))"
  by (induction xs) auto

lemma distinct_snd_keyed_insert [simp]:
  "distinct (map snd (keyed_insert kx xs)) \<longleftrightarrow>
     snd kx \<notin> set (map snd xs) \<and> distinct (map snd xs)"
  by (induction xs) auto

text \<open>Items of the same key keep their order of arrival: first in, first out.\<close>

lemma keyed_insert_fifo:
  "sorted_keys xs \<Longrightarrow>
   filter (\<lambda>y. fst y = k) (keyed_insert (k, x) xs) = filter (\<lambda>y. fst y = k) xs @ [(k, x)]"
proof (induction xs)
  case (Cons y ys)
  have "fst y > k \<Longrightarrow> filter (\<lambda>y. fst y = k) ys = []"
    using Cons.prems by (fastforce simp: filter_empty_conv)
  with Cons show ?case by auto
qed simp

lemma keyed_insert_other:
  "k' \<noteq> k \<Longrightarrow> filter (\<lambda>y. fst y = k') (keyed_insert (k, x) xs) = filter (\<lambda>y. fst y = k') xs"
  by (induction xs) auto

text \<open>On a sorted list the pairs in front have keys at most the new one, the rest bigger keys.\<close>

lemma dropWhile_le_greater:
  "sorted_keys xs \<Longrightarrow> y \<in> set (dropWhile (\<lambda>y. fst y \<le> k) xs) \<Longrightarrow> k < fst y"
proof (induction xs)
  case (Cons z zs)
  then show ?case by (cases "fst z \<le> k") (auto simp: not_le)
qed simp

section \<open>Representation\<close>

text \<open>
  \<open>lseg c p ts q\<close>: from \<open>p\<close> the \<open>next\<close> pointers run through the elements
  \<open>ts\<close> (address, key, item) and arrive at \<open>q\<close>.
\<close>

fun lseg :: "(nat \<Rightarrow> 'a ListElement option) \<Rightarrow> nat option \<Rightarrow>
    (nat \<times> int \<times> 'a option) list \<Rightarrow> nat option \<Rightarrow> bool" where
  "lseg c p [] q \<longleftrightarrow> p = q"
| "lseg c p ((a, k, x) # ts) q \<longleftrightarrow> p = Some a \<and>
     (\<exists>n. c a = Some \<lparr>elem_next = n, elem_key = k, elem_item = x\<rparr> \<and> lseg c n ts q)"

lemma lseg_append [simp]:
  "lseg c p (ts @ us) q \<longleftrightarrow> (\<exists>r. lseg c p ts r \<and> lseg c r us q)"
  by (induction ts arbitrary: p) fastforce+

lemma lseg_upd_other [simp]:
  "a \<notin> fst ` set ts \<Longrightarrow> lseg (c(a := v)) p ts q = lseg c p ts q"
  by (induction ts arbitrary: p) auto

lemma lseg_mapped: "lseg c p ts q \<Longrightarrow> a \<in> fst ` set ts \<Longrightarrow> c a \<noteq> None"
proof (induction ts arbitrary: p)
  case (Cons t ts)
  obtain b k x where t: "t = (b, k, x)" by (cases t) auto
  with Cons.prems(1) obtain n where n: "c b \<noteq> None" "lseg c n ts q" by auto
  show ?case
  proof (cases "a = b")
    case False
    with Cons.prems(2) t have "a \<in> fst ` set ts" by auto
    with n(2) show ?thesis by (rule Cons.IH)
  qed (use n in simp)
qed simp

text \<open>
  \<open>repr s ts\<close>: the list of state \<open>s\<close> consists of the elements \<open>ts\<close>, its \<open>last\<close>
  pointer is right, and every mapped address is below the next one to be handed out.
\<close>

definition repr :: "'a lstate \<Rightarrow> (nat \<times> int \<times> 'a option) list \<Rightarrow> bool" where
  "repr s ts \<longleftrightarrow> lseg (cells (fst s)) (list_first (snd s)) ts None \<and> distinct (map fst ts) \<and>
     (\<forall>a. cells (fst s) a \<noteq> None \<longrightarrow> a < brk (fst s)) \<and>
     list_last (snd s) = (if ts = [] then None else Some (fst (last ts)))"

definition list_of :: "'a lstate \<Rightarrow> (int \<times> 'a option) list \<Rightarrow> bool" where
  "list_of s xs \<longleftrightarrow> (\<exists>ts. repr s ts \<and> xs = map snd ts)"

text \<open>The addresses a list occupies; everything else on the heap is the frame.\<close>

definition same_outside :: "nat set \<Rightarrow> 'a lheap \<Rightarrow> 'a lheap \<Rightarrow> bool" where
  "same_outside A h h' \<longleftrightarrow> brk h \<le> brk h' \<and> (\<forall>b. b \<notin> A \<longrightarrow> b < brk h \<longrightarrow> cells h' b = cells h b)"

lemma repr_below: "repr s ts \<Longrightarrow> a \<in> fst ` set ts \<Longrightarrow> a < brk (fst s)"
  unfolding repr_def by (meson lseg_mapped)

lemma repr_fresh: "repr s ts \<Longrightarrow> brk (fst s) \<notin> fst ` set ts"
  using repr_below by blast

lemmas list_defs = List_Append_def List_Prepend_def List_SortedInsert_def List_SortedRemove_def
  List_IsEmpty_def new_ListElement_def put_def set_next_def deref_def delete_def Let_def

lemma deref_Some [simp]: "cells h a = Some e \<Longrightarrow> deref (Some a) h = Inr e"
  by (simp add: deref_def)

lemma repr_empty_iff: "repr s ts \<Longrightarrow> List_IsEmpty (snd s) \<longleftrightarrow> ts = []"
  by (cases ts) (auto simp: repr_def List_IsEmpty_def)

section \<open>The routines on the sequence\<close>

lemma repr_snocE:
  assumes "repr (h, l) ts" and "ts \<noteq> []"
  obtains us a k y where "ts = us @ [(a, k, y)]" "lseg (cells h) (list_first l) us (Some a)"
    "cells h a = Some \<lparr>elem_next = None, elem_key = k, elem_item = y\<rparr>"
    "a \<notin> fst ` set us" "list_last l = Some a" "a < brk h"
proof -
  obtain us t where ts: "ts = us @ [t]"
    using assms(2) by (cases ts rule: rev_cases) auto
  obtain a k y where t: "t = (a, k, y)"
    by (cases t) auto
  have "a < brk h"
    using repr_below [OF assms(1), of a] by (simp add: ts t)
  with that [of us a k y] assms(1) show ?thesis
    by (auto simp: repr_def ts t)
qed

lemma List_Append_repr:
  assumes r: "repr (h, l) ts"
  shows "\<exists>h' l'. List_Append x (h, l) = Inr (h', l') \<and> repr (h', l') (ts @ [(brk h, 0, x)]) \<and>
    same_outside (fst ` set ts) h h'"
proof (cases "ts = []")
  case True
  with r show ?thesis
    by (auto simp: repr_def list_defs same_outside_def)
next
  case False
  from r False show ?thesis
  proof (rule repr_snocE)
    fix us a k y
    assume "ts = us @ [(a, k, y)]" "lseg (cells h) (list_first l) us (Some a)"
      "cells h a = Some \<lparr>elem_next = None, elem_key = k, elem_item = y\<rparr>"
      "a \<notin> fst ` set us" "list_last l = Some a" "a < brk h"
    with r repr_fresh [OF r] repr_empty_iff [OF r] show ?thesis
      by (auto simp: repr_def list_defs same_outside_def less_Suc_eq)
  qed
qed

lemma List_Prepend_repr:
  assumes r: "repr (h, l) ts"
  shows "\<exists>h' l'. List_Prepend x (h, l) = Inr (h', l') \<and> repr (h', l') ((brk h, 0, x) # ts) \<and>
    same_outside {} h h'"
proof -
  have "brk h \<notin> fst ` set ts" using repr_fresh [OF r] by simp
  then show ?thesis
    using r repr_empty_iff [OF r]
    by (cases ts) (auto simp: repr_def list_defs same_outside_def less_Suc_eq image_iff)
qed

text \<open>
  One lemma about the walk: at an element all of whose predecessors, and itself, have keys at most
  \<open>k\<close>, it ends and puts the new element \<open>e\<close> at its place among the elements behind.
\<close>

lemma insert_walk_lseg:
  assumes "lseg (cells h) (list_first l) (us @ (a, j, y) # vs) None"
    and "distinct (map fst (us @ (a, j, y) # vs))"
    and "e \<notin> fst ` set (us @ (a, j, y) # vs)"
    and "cells h e = Some \<lparr>elem_next = None, elem_key = k, elem_item = x\<rparr>"
    and "list_last l = Some (fst (last ((a, j, y) # vs)))"
  defines "le \<equiv> \<lambda>t. fst (snd t) \<le> k"
  shows "\<exists>h' l'. insert_walk e k (Some a) h l = Some (Inr (h', l')) \<and>
    lseg (cells h') (list_first l')
      (us @ (a, j, y) # takeWhile le vs @ (e, k, x) # dropWhile le vs) None \<and>
    list_last l' = Some (fst (last (takeWhile le vs @ (e, k, x) # dropWhile le vs))) \<and>
    brk h' = brk h \<and> (\<forall>b. b \<noteq> e \<and> b \<notin> fst ` set ((a, j, y) # vs) \<longrightarrow> cells h' b = cells h b) \<and>
    dom (cells h') = dom (cells h)"
  using assms(1-5)
proof (induction vs arbitrary: us a j y)
  case Nil
  then show ?case
    by (auto simp: insert_walk.simps list_defs)
next
  case (Cons v vs)
  obtain b i z where v: "v = (b, i, z)" by (cases v) auto
  from Cons.prems(1) v obtain n
    where ca: "cells h a = Some \<lparr>elem_next = Some b, elem_key = j, elem_item = y\<rparr>"
      and cb: "cells h b = Some \<lparr>elem_next = n, elem_key = i, elem_item = z\<rparr>"
      and vs: "lseg (cells h) n vs None" by auto
  show ?case
  proof (cases "i \<le> k")
    case True
    have "insert_walk e k (Some a) h l = insert_walk e k (Some b) h l"
      using True by (subst insert_walk.simps) (simp add: ca cb)
    moreover have "lseg (cells h) (list_first l) ((us @ [(a, j, y)]) @ (b, i, z) # vs) None"
      using Cons.prems(1) by (simp add: v)
    ultimately show ?thesis
      using Cons.IH [of "us @ [(a, j, y)]" b i z] Cons.prems True
      by (auto simp: v le_def split: if_splits)
  next
    case False
    then have "insert_walk e k (Some a) h l =
        Some (bindE (set_next (Some e) (Some b) h)
           (\<lambda>h1. bindE (set_next (Some a) (Some e) h1) (\<lambda>h2. Inr (h2, l))))"
      by (subst insert_walk.simps) (simp add: ca cb)
    with Cons.prems False ca cb vs show ?thesis
      by (auto simp: v le_def list_defs image_Un)
  qed
qed

definition place :: "nat \<times> int \<times> 'a option \<Rightarrow> (nat \<times> int \<times> 'a option) list \<Rightarrow>
    (nat \<times> int \<times> 'a option) list" where
  "place t ts = takeWhile (\<lambda>u. fst (snd u) \<le> fst (snd t)) ts @ t #
     dropWhile (\<lambda>u. fst (snd u) \<le> fst (snd t)) ts"

lemma place_simps [simp]:
  "place t [] = [t]"
  "place t (u # us) = (if fst (snd u) \<le> fst (snd t) then u # place t us else t # u # us)"
  by (simp_all add: place_def)

lemma map_snd_place: "map snd (place t ts) = keyed_insert (snd t) (map snd ts)"
  by (induction ts) auto

lemma set_place: "set (place t ts) = insert t (set ts)"
  by (induction ts) auto

lemma distinct_place:
  "fst t \<notin> fst ` set ts \<Longrightarrow> distinct (map fst ts) \<Longrightarrow> distinct (map fst (place t ts))"
  by (induction ts) (auto simp: set_place)

lemma List_SortedInsert_repr:
  assumes r: "repr (h, l) ts"
  shows "\<exists>h' l'. List_SortedInsert x k (h, l) = Some (Inr (h', l')) \<and>
    repr (h', l') (place (brk h, k, x) ts) \<and> same_outside (fst ` set ts) h h'"
proof (cases ts)
  case Nil
  with r show ?thesis
    by (auto simp: repr_def list_defs same_outside_def place_def)
next
  case (Cons t us)
  obtain a j y where t: "t = (a, j, y)" by (cases t) auto
  define h1 where "h1 = snd (new_ListElement x k h)"
  have h1: "cells h1 = (cells h)(brk h \<mapsto> \<lparr>elem_next = None, elem_key = k, elem_item = x\<rparr>)"
    "brk h1 = Suc (brk h)"
    by (auto simp: h1_def new_ListElement_def put_def)
  have fresh: "brk h \<notin> fst ` set ts" using repr_fresh [OF r] by simp
  have new: "new_ListElement x k h = (brk h, h1)"
    by (simp add: h1_def new_ListElement_def)
  have seg: "lseg (cells h1) (list_first l) ((a, j, y) # us) None"
    using r fresh by (auto simp: h1 repr_def Cons t simp del: lseg.simps)
  then have fst_l: "list_first l = Some a" and ne: "\<not> List_IsEmpty l"
    by (auto simp: List_IsEmpty_def)
  from seg obtain n where ca: "cells h1 a = Some \<lparr>elem_next = n, elem_key = j, elem_item = y\<rparr>"
    and segn: "lseg (cells h1) n us None"
    by auto
  show ?thesis
  proof (cases "k < j")
    case True
    with r fresh show ?thesis
      by (auto simp: List_SortedInsert_def new ne fst_l ca h1 set_next_def put_def deref_def
          place_def Cons t repr_def same_outside_def less_Suc_eq)
  next
    case False
    then have ins: "List_SortedInsert x k (h, l) = insert_walk (brk h) k (Some a) h1 l"
      by (simp add: List_SortedInsert_def new ne fst_l ca)
    have "\<exists>h' l'. insert_walk (brk h) k (Some a) h1 l = Some (Inr (h', l')) \<and>
      lseg (cells h') (list_first l') ([] @ (a, j, y) # takeWhile (\<lambda>t. fst (snd t) \<le> k) us @
        (brk h, k, x) # dropWhile (\<lambda>t. fst (snd t) \<le> k) us) None \<and>
      list_last l' = Some (fst (last (takeWhile (\<lambda>t. fst (snd t) \<le> k) us @
        (brk h, k, x) # dropWhile (\<lambda>t. fst (snd t) \<le> k) us))) \<and>
      brk h' = brk h1 \<and> (\<forall>b. b \<noteq> brk h \<and> b \<notin> fst ` set ((a, j, y) # us) \<longrightarrow>
        cells h' b = cells h1 b) \<and> dom (cells h') = dom (cells h1)"
      by (rule insert_walk_lseg) (use r fresh seg in \<open>auto simp: h1 repr_def Cons t\<close>)
    then obtain h' l' where w: "insert_walk (brk h) k (Some a) h1 l = Some (Inr (h', l'))"
        "lseg (cells h') (list_first l') (place (brk h, k, x) ts) None"
        "list_last l' = Some (fst (last (place (brk h, k, x) ts)))"
        "brk h' = Suc (brk h)" "\<And>b. b \<noteq> brk h \<Longrightarrow> b \<notin> fst ` set ts \<Longrightarrow> cells h' b = cells h b"
        "dom (cells h') = insert (brk h) (dom (cells h))"
      using False by (auto simp: place_def Cons t h1)
    have "cells h' b \<noteq> None \<Longrightarrow> b < brk h'" for b
      using w(6) r by (auto simp: w(4) repr_def less_Suc_eq domIff)
    moreover have "distinct (map fst (place (brk h, k, x) ts))"
      using r fresh by (intro distinct_place) (auto simp: repr_def)
    ultimately have "repr (h', l') (place (brk h, k, x) ts)"
      using w by (auto simp: repr_def place_def)
    then show ?thesis
      using ins w by (auto simp: same_outside_def)
  qed
qed

lemma List_SortedRemove_empty:
  "repr (h, l) [] \<Longrightarrow> List_SortedRemove kp (h, l) = Inr (None, None, (h, l))"
  using repr_empty_iff [of "(h, l)" "[]"] by (simp add: List_SortedRemove_def)

lemma List_SortedRemove_repr:
  assumes r: "repr (h, l) ((a, k, x) # ts)"
  shows "\<exists>h' l'. List_SortedRemove kp (h, l) = Inr (x, if kp then Some k else None, (h', l')) \<and>
    repr (h', l') ts \<and> cells h' a = None \<and> same_outside {a} h h'"
proof -
  have "list_first l = list_last l \<longleftrightarrow> ts = []"
    using r by (cases ts rule: rev_cases) (auto simp: repr_def)
  with r show ?thesis
    by (cases ts) (auto simp: repr_def list_defs same_outside_def split: if_splits)
qed

lemma mapcar_walk_lseg:
  "lseg (cells h) p ts None \<Longrightarrow>
   mapcar_walk func p h \<sigma> = Some (Inr (fold (\<lambda>t. func (snd (snd t))) ts \<sigma>))"
proof (induction ts arbitrary: p \<sigma>)
  case Nil
  then show ?case by (simp add: mapcar_walk.simps)
next
  case (Cons t ts)
  then show ?case
    by (cases t) (subst mapcar_walk.simps, auto)
qed

lemma List_Mapcar_repr:
  "repr s ts \<Longrightarrow> List_Mapcar func s \<sigma> = Some (Inr (fold (\<lambda>t. func (snd (snd t))) ts \<sigma>))"
  by (simp add: List_Mapcar_def repr_def mapcar_walk_lseg)

lemma List_destroy_repr:
  assumes "repr (h, l) ts" and "\<forall>t \<in> set ts. snd (snd t) \<noteq> None"
  shows "\<exists>h' l'. List_destroy (h, l) = Some (Inr (h', l')) \<and> repr (h', l') [] \<and>
    (\<forall>a \<in> fst ` set ts. cells h' a = None) \<and> same_outside (fst ` set ts) h h'"
  using assms
proof (induction ts arbitrary: h l)
  case Nil
  then show ?case
    by (simp add: List_destroy.simps List_Remove_def List_SortedRemove_empty same_outside_def)
next
  case (Cons t ts)
  obtain a k x where t: "t = (a, k, Some x)"
    using Cons.prems(2) by (cases t) auto
  obtain h1 l1 where rm: "List_SortedRemove False (h, l) = Inr (Some x, None, (h1, l1))"
      and r1: "repr (h1, l1) ts" and a: "cells h1 a = None" and o1: "same_outside {a} h h1"
    using List_SortedRemove_repr [OF Cons.prems(1) [unfolded t], of False] by auto
  obtain h' l' where d: "List_destroy (h1, l1) = Some (Inr (h', l'))" "repr (h', l') []"
      "\<forall>b \<in> fst ` set ts. cells h' b = None" and o2: "same_outside (fst ` set ts) h1 h'"
    using Cons.IH [OF r1] Cons.prems(2) by auto
  have "a < brk h" "a \<notin> fst ` set ts"
    using repr_below [OF Cons.prems(1), of a] Cons.prems(1) by (auto simp: t repr_def)
  with a o1 o2 have "cells h' a = None" "same_outside (fst ` set (t # ts)) h h'"
    by (auto simp: same_outside_def t)
  with d show ?case
    by (subst List_destroy.simps) (auto simp: List_Remove_def rm t)
qed

section \<open>The interface the kernel relies on\<close>

text \<open>
  What the scheduler, the synchronisation objects and the interrupt simulation use of a list.
  \<open>insert_all\<close> runs a batch of insertions.
\<close>

fun insert_all :: "('b \<Rightarrow> int \<Rightarrow> 's \<Rightarrow> 's res option) \<Rightarrow> (int \<times> 'b) list \<Rightarrow> 's \<Rightarrow> 's res option" where
  "insert_all ins [] s = Some (Inr s)"
| "insert_all ins ((k, x) # kxs) s =
     (case ins x k s of Some (Inr s') \<Rightarrow> insert_all ins kxs s' | r \<Rightarrow> r)"

locale keyed_list =
  fixes models :: "'s \<Rightarrow> (int \<times> 'a option) list \<Rightarrow> bool"
    and app :: "'a option \<Rightarrow> 's \<Rightarrow> 's res"
    and pre :: "'a option \<Rightarrow> 's \<Rightarrow> 's res"
    and ins :: "'a option \<Rightarrow> int \<Rightarrow> 's \<Rightarrow> 's res option"
    and rem :: "'s \<Rightarrow> ('a option \<times> 's) res"
  assumes app: "models s xs \<Longrightarrow> \<exists>s'. app x s = Inr s' \<and> models s' (xs @ [(0, x)])"
    and pre: "models s xs \<Longrightarrow> \<exists>s'. pre x s = Inr s' \<and> models s' ((0, x) # xs)"
    and ins: "models s xs \<Longrightarrow> \<exists>s'. ins x k s = Some (Inr s') \<and> models s' (keyed_insert (k, x) xs)"
    and rem_Nil: "models s [] \<Longrightarrow> rem s = Inr (None, s)"
    and rem_Cons: "models s ((k, x) # xs) \<Longrightarrow> \<exists>s'. rem s = Inr (x, s') \<and> models s' xs"
begin

lemma drain_models:
  "models s xs \<Longrightarrow> \<exists>s'. repeatE rem (length xs) s = Inr (map snd xs, s') \<and> models s' []"
proof (induction xs arbitrary: s)
  case (Cons y ys)
  obtain k x where y: "y = (k, x)" by (cases y) auto
  obtain s1 where "rem s = Inr (x, s1)" "models s1 ys"
    using rem_Cons Cons.prems y by blast
  moreover from this obtain s2 where "repeatE rem (length ys) s1 = Inr (map snd ys, s2)" "models s2 []"
    using Cons.IH by blast
  ultimately show ?case by (simp add: y)
qed simp

lemma insert_all_models:
  "models s xs \<Longrightarrow> \<exists>s'. insert_all ins kxs s = Some (Inr s') \<and> models s' (fold keyed_insert kxs xs)"
proof (induction kxs arbitrary: s xs)
  case (Cons kx kxs)
  obtain k x where kx: "kx = (k, x)" by (cases kx) auto
  obtain s1 where "ins x k s = Some (Inr s1)" "models s1 (keyed_insert (k, x) xs)"
    using ins Cons.prems by blast
  with Cons.IH [of s1] show ?case by (auto simp: kx)
qed simp

end

text \<open>Inserting one by one is the stable sort by key.\<close>

lemma mset_keyed_insert [simp]: "mset (keyed_insert kx xs) = add_mset kx (mset xs)"
  by (induction xs) auto

lemma fold_keyed_insert_props:
  "sorted_keys xs \<Longrightarrow> sorted_keys (fold keyed_insert kxs xs) \<and>
    mset (fold keyed_insert kxs xs) = mset xs + mset kxs \<and>
    filter (\<lambda>y. fst y = k) (fold keyed_insert kxs xs) =
      filter (\<lambda>y. fst y = k) xs @ filter (\<lambda>y. fst y = k) kxs"
proof (induction kxs arbitrary: xs)
  case (Cons kx kxs)
  obtain j x where kx: "kx = (j, x)" by (cases kx) auto
  have "sorted_keys (keyed_insert kx xs)"
    using Cons.prems by simp
  with Cons.IH [of "keyed_insert kx xs"] Cons.prems show ?case
    using keyed_insert_fifo [of xs j x] keyed_insert_other [of k j x xs] by (auto simp: kx)
qed simp

lemma fold_keyed_insert: "fold keyed_insert kxs [] = sort_key fst kxs"
proof (rule sym, rule properties_for_sort_key)
  show "mset (fold keyed_insert kxs []) = mset kxs"
    using fold_keyed_insert_props [of "[]" kxs] by simp
  show "sorted_keys (fold keyed_insert kxs [])"
    using fold_keyed_insert_props [of "[]" kxs] by simp
  fix k :: "int \<times> 'a"
  show "filter (\<lambda>x. fst k = fst x) (fold keyed_insert kxs []) = filter (\<lambda>x. fst k = fst x) kxs"
    using fold_keyed_insert_props [of "[]" kxs "fst k"] by (simp add: eq_commute [of "fst k"])
qed

context keyed_list
begin

lemma stable_priority_queue:
  assumes "models s []"
  shows "\<exists>s1 s2. insert_all ins kxs s = Some (Inr s1) \<and>
    repeatE rem (length kxs) s1 = Inr (map snd (sort_key fst kxs), s2) \<and> models s2 []"
proof -
  obtain s1 where s1: "insert_all ins kxs s = Some (Inr s1)" "models s1 (sort_key fst kxs)"
    using insert_all_models [OF assms, of kxs] by (auto simp: fold_keyed_insert)
  from drain_models [OF s1(2)] s1(1) show ?thesis by auto
qed

end

text \<open>The pointer lists of \<^verbatim>\<open>list.cc\<close> provide the interface.\<close>

interpretation nlist: keyed_list list_of List_Append List_Prepend List_SortedInsert List_Remove
proof unfold_locales
  fix s :: "'a lstate" and xs x k
  assume "list_of s xs"
  then obtain ts where ts: "repr (fst s, snd s) ts" "xs = map snd ts"
    by (auto simp: list_of_def)
  show "\<exists>s'. List_Append x s = Inr s' \<and> list_of s' (xs @ [(0, x)])"
    using List_Append_repr [OF ts(1), of x] ts(2) by (fastforce simp: list_of_def)
  show "\<exists>s'. List_Prepend x s = Inr s' \<and> list_of s' ((0, x) # xs)"
    using List_Prepend_repr [OF ts(1), of x] ts(2) by (fastforce simp: list_of_def)
  show "\<exists>s'. List_SortedInsert x k s = Some (Inr s') \<and> list_of s' (keyed_insert (k, x) xs)"
    using List_SortedInsert_repr [OF ts(1), of x k] ts(2)
    by (fastforce simp: list_of_def map_snd_place)
next
  fix s :: "'a lstate"
  assume "list_of s []"
  then show "List_Remove s = Inr (None, s)"
    using List_SortedRemove_empty [of "fst s" "snd s" False]
    by (auto simp: list_of_def List_Remove_def)
next
  fix s :: "'a lstate" and k x xs
  assume "list_of s ((k, x) # xs)"
  then obtain a ts where "repr (fst s, snd s) ((a, k, x) # ts)" "xs = map snd ts"
    by (auto simp: list_of_def)
  from List_SortedRemove_repr [OF this(1), of False] this(2)
  show "\<exists>s'. List_Remove s = Inr (x, s') \<and> list_of s' xs"
    by (fastforce simp: list_of_def List_Remove_def)
qed

section \<open>Properties\<close>

text \<open>The heap and list object after \<^verbatim>\<open>new List\<close>.\<close>

definition empty_state :: "'a lstate" where
  "empty_state = (\<lparr>cells = (\<lambda>_. None), brk = 0\<rparr>, List_List)"

lemma list_of_empty: "list_of empty_state []"
  by (simp add: list_of_def repr_def empty_state_def List_List_def)

text \<open>
  C14. A sorted list is a stable priority queue. From an empty list, any batch of
  \<^verbatim>\<open>SortedInsert\<close> calls returns, without a bad pointer, and as many \<^verbatim>\<open>Remove\<close> calls then hand
  out exactly the inserted items in order of their keys, items of one key in the order of
  their arrival, and leave the list empty.
\<close>

theorem list_priority_queue:
  assumes "list_of s []"
  shows "\<exists>s1 s2. insert_all List_SortedInsert kxs s = Some (Inr s1) \<and>
    repeatE List_Remove (length kxs) s1 = Inr (map snd (sort_key fst kxs), s2) \<and>
    list_of s2 [] \<and> List_Remove s2 = Inr (None, s2)"
  using nlist.stable_priority_queue [OF assms, of kxs] nlist.rem_Nil by fast

theorem list_priority_queue_witness:
  "\<exists>s1 s2. insert_all List_SortedInsert [(3, Some ''a''), (1, Some ''b''), (3, Some ''c'')] empty_state = Some (Inr s1) \<and>
     repeatE List_Remove 3 s1 = Inr ([Some ''b'', Some ''a'', Some ''c''], s2)"
  using list_priority_queue [OF list_of_empty, of "[(3, Some ''a''), (1, Some ''b''), (3, Some ''c'')]"]
  by (auto simp: numeral_3_eq_3)

text \<open>
  \<^verbatim>\<open>Append\<close> and \<^verbatim>\<open>Remove\<close> make a first-in first-out queue on the pointer structure, with
  \<^verbatim>\<open>Prepend\<close> putting an item in front: a list that stands for a sequence stands for the
  sequence with the item at its end, or at its front; removing takes the front item.
\<close>

theorem list_queue:
  assumes "list_of s xs"
  shows "\<exists>s1 s2 s3 s4. List_Append x s = Inr s1 \<and> list_of s1 (xs @ [(0, x)]) \<and>
    List_Prepend y s1 = Inr s2 \<and> List_Remove s2 = Inr (y, s3) \<and> list_of s3 (xs @ [(0, x)]) \<and>
    repeatE List_Remove (Suc (length xs)) s3 = Inr (map snd xs @ [x], s4) \<and> list_of s4 []"
proof -
  obtain s1 where s1: "List_Append x s = Inr s1" "list_of s1 (xs @ [(0, x)])" using nlist.app [OF assms] by blast
  obtain s2 where s2: "List_Prepend y s1 = Inr s2" "list_of s2 ((0, y) # xs @ [(0, x)])" using nlist.pre [OF s1(2)] by blast
  obtain s3 where s3: "List_Remove s2 = Inr (y, s3)" "list_of s3 (xs @ [(0, x)])" using nlist.rem_Cons [OF s2(2)] by blast
  obtain s4 where "repeatE List_Remove (length (xs @ [(0, x)])) s3 = Inr (map snd (xs @ [(0, x)]), s4)" "list_of s4 []"
    using nlist.drain_models [OF s3(2)] by blast
  then have "repeatE List_Remove (Suc (length xs)) s3 = Inr (map snd xs @ [x], s4) \<and> list_of s4 []"
    by (simp only: length_append_singleton map_append list.map snd_conv)
  with s1 s2(1) s3 show ?thesis by blast
qed

theorem list_queue_witness:
  "\<exists>s1 s2. List_Append (Some ''a'') empty_state = Inr s1 \<and> List_Prepend (Some ''b'') s1 = Inr s2 \<and>
     (\<exists>s3. List_Remove s2 = Inr (Some ''b'', s3))"
  using list_queue [OF list_of_empty, of "Some ''a''" "Some ''b''"] by auto

end
