(* ===== verification/Interrupt.thy ===== *)
theory Interrupt
  imports LinkedList
begin

text \<open>
  The interrupt hardware of \<^verbatim>\<open>machine/interrupt.{h,cc}\<close>, with the counters of
  \<^verbatim>\<open>machine/stats.{h,cc}\<close> it advances. Device handlers and \<^verbatim>\<open>Thread::Yield\<close> are function
  pointers or calls out of this component, so they are arguments of the routines; the locale
  \<open>interrupt_handlers\<close> states what the simulation relies on, and its interpretation is in
  the theories of the devices. The pending interrupts are a sorted list (\<^theory_text>\<open>LinkedList\<close>),
  here as the sequence it stands for.
\<close>

section \<open>State\<close>

record Statistics =
  totalTicks :: int
  idleTicks :: int
  systemTicks :: int
  userTicks :: int
  numDiskReads :: int
  numDiskWrites :: int
  numConsoleCharsRead :: int
  numConsoleCharsWritten :: int
  numPageFaults :: int
  numPacketsSent :: int
  numPacketsRecvd :: int
  numPageOuts :: int
  numPageIns :: int

definition Statistics_Statistics :: Statistics where
  "Statistics_Statistics = \<lparr>totalTicks = 0, idleTicks = 0, systemTicks = 0, userTicks = 0,
     numDiskReads = 0, numDiskWrites = 0, numConsoleCharsRead = 0, numConsoleCharsWritten = 0,
     numPageFaults = 0, numPacketsSent = 0, numPacketsRecvd = 0, numPageOuts = 0, numPageIns = 0\<rparr>"

definition UserTick :: int where "UserTick = 1"
definition SystemTick :: int where "SystemTick = 10"
definition RotationTime :: int where "RotationTime = 500"
definition SeekTime :: int where "SeekTime = 500"
definition ConsoleTime :: int where "ConsoleTime = 100"
definition NetworkTime :: int where "NetworkTime = 100"
definition TimerTicks :: int where "TimerTicks = 100"

lemmas tick_defs = UserTick_def SystemTick_def RotationTime_def SeekTime_def ConsoleTime_def
  NetworkTime_def TimerTicks_def

datatype IntStatus = IntOff | IntOn
datatype MachineStatus = IdleMode | SystemMode | UserMode
datatype IntType = TimerInt | DiskInt | ConsoleWriteInt | ConsoleReadInt | NetworkSendInt
  | NetworkRecvInt

text \<open>The handlers a device simulator can pass to \<^verbatim>\<open>Schedule\<close>.\<close>

datatype HandlerPtr = TimerHandler | DiskDone | ConsoleReadPoll | ConsoleWriteDone
  | NetworkReadPoll | NetworkSendDone

record PendingInterrupt =
  pi_handler :: HandlerPtr
  pi_arg :: int
  pi_when :: int
  pi_type :: IntType

record Interrupt =
  stats :: Statistics
  level :: IntStatus
  pending :: "(int \<times> PendingInterrupt) list"
  inHandler :: bool
  yieldOnReturn :: bool
  status :: MachineStatus

type_synonym 'a int_handler = "HandlerPtr \<Rightarrow> int \<Rightarrow> 'a Interrupt_scheme \<Rightarrow> 'a Interrupt_scheme res"

abbreviation now :: "'a Interrupt_scheme \<Rightarrow> int" where
  "now s \<equiv> totalTicks (stats s)"

section \<open>The routines of interrupt.cc\<close>

definition Interrupt_Interrupt :: "Statistics \<Rightarrow> Interrupt" where
  "Interrupt_Interrupt st = \<lparr>stats = st, level = IntOff, pending = [], inHandler = False,
     yieldOnReturn = False, status = SystemMode\<rparr>"

definition ChangeLevel :: "IntStatus \<Rightarrow> IntStatus \<Rightarrow> 'a Interrupt_scheme \<Rightarrow> 'a Interrupt_scheme" where
  "ChangeLevel old lv s = s\<lparr>level := lv\<rparr>"

definition YieldOnReturn :: "'a Interrupt_scheme \<Rightarrow> 'a Interrupt_scheme res" where
  "YieldOnReturn s = ASSERT (inHandler s) (Inr (s\<lparr>yieldOnReturn := True\<rparr>))"

definition Schedule :: "HandlerPtr \<Rightarrow> int \<Rightarrow> int \<Rightarrow> IntType \<Rightarrow> 'a Interrupt_scheme \<Rightarrow>
    'a Interrupt_scheme res" where
  "Schedule hf a fromNow ty s =
     (let w = now s + fromNow;
          toOccur = \<lparr>pi_handler = hf, pi_arg = a, pi_when = w, pi_type = ty\<rparr>
      in ASSERT (fromNow > 0) (Inr (s\<lparr>pending := keyed_insert (w, toOccur) (pending s)\<rparr>)))"

text \<open>
  \<^verbatim>\<open>CheckIfDue(advanceClock)\<close>. \<open>dl\<close> is \<^verbatim>\<open>machine->DelayedLoad(0, 0)\<close>, called when there is a
  machine (\<^verbatim>\<open>USER_PROGRAM\<close>), and the identity otherwise. Putting an interrupt back is a
  \<^verbatim>\<open>SortedInsert\<close>.
\<close>

definition fire :: "('a Interrupt_scheme \<Rightarrow> 'a Interrupt_scheme res) \<Rightarrow> 'a int_handler \<Rightarrow>
    PendingInterrupt \<Rightarrow> 'a Interrupt_scheme \<Rightarrow> 'a Interrupt_scheme res" where
  "fire dl run toOccur s =
     (let old = status s in
      bindE (dl s) (\<lambda>s1.
      bindE (run (pi_handler toOccur) (pi_arg toOccur) (s1\<lparr>inHandler := True, status := SystemMode\<rparr>)) (\<lambda>s2.
      Inr (s2\<lparr>status := old, inHandler := False\<rparr>))))"

definition CheckIfDue :: "('a Interrupt_scheme \<Rightarrow> 'a Interrupt_scheme res) \<Rightarrow> 'a int_handler \<Rightarrow>
    bool \<Rightarrow> 'a Interrupt_scheme \<Rightarrow> (bool \<times> 'a Interrupt_scheme) res" where
  "CheckIfDue dl run advanceClock s = ASSERT (level s = IntOff)
     (case pending s of
        [] \<Rightarrow> Inr (False, s)
      | (w, toOccur) # rest \<Rightarrow>
          let s1 = s\<lparr>pending := rest\<rparr>;
              putBack = (\<lambda>t. t\<lparr>pending := keyed_insert (w, toOccur) (pending t)\<rparr>)
          in if \<not> advanceClock \<and> w > now s then Inr (False, putBack s1)
             else
               let s2 = (if advanceClock \<and> w > now s
                         then s1\<lparr>stats := (stats s1)\<lparr>idleTicks := idleTicks (stats s1) + (w - now s),
                                totalTicks := w\<rparr>\<rparr>
                         else s1)
               in if status s2 = IdleMode \<and> pi_type toOccur = TimerInt \<and> pending s2 = []
                  then Inr (False, putBack s2)
                  else bindE (fire dl run toOccur s2) (\<lambda>s3. Inr (True, s3)))"

text \<open>\<^verbatim>\<open>while (CheckIfDue(FALSE)) ;\<close>\<close>

partial_function (option) due_loop :: "('a Interrupt_scheme \<Rightarrow> 'a Interrupt_scheme res) \<Rightarrow>
    'a int_handler \<Rightarrow> 'a Interrupt_scheme \<Rightarrow> 'a Interrupt_scheme res option" where
  "due_loop dl run s =
     (case CheckIfDue dl run False s of Inl e \<Rightarrow> Some (Inl e)
      | Inr (b, s') \<Rightarrow> if b then due_loop dl run s' else Some (Inr s'))"

definition advance_time :: "'a Interrupt_scheme \<Rightarrow> 'a Interrupt_scheme" where
  "advance_time s =
     (let st = stats s in
      s\<lparr>stats := if status s = SystemMode
         then st\<lparr>totalTicks := totalTicks st + SystemTick, systemTicks := systemTicks st + SystemTick\<rparr>
         else st\<lparr>totalTicks := totalTicks st + UserTick, userTicks := userTicks st + UserTick\<rparr>\<rparr>)"

text \<open>
  \<^verbatim>\<open>OneTick\<close>: \<open>yield\<close> is \<^verbatim>\<open>currentThread->Yield()\<close>.
\<close>

definition OneTick :: "('a Interrupt_scheme \<Rightarrow> 'a Interrupt_scheme res) \<Rightarrow> 'a int_handler \<Rightarrow>
    ('a Interrupt_scheme \<Rightarrow> 'a Interrupt_scheme res) \<Rightarrow> 'a Interrupt_scheme \<Rightarrow>
    'a Interrupt_scheme res option" where
  "OneTick dl run yield s =
     (let old = status s in
      case due_loop dl run (ChangeLevel IntOn IntOff (advance_time s)) of
        None \<Rightarrow> None
      | Some (Inl e) \<Rightarrow> Some (Inl e)
      | Some (Inr s1) \<Rightarrow>
          let s2 = ChangeLevel IntOff IntOn s1
          in Some (if yieldOnReturn s2
             then bindE (yield (s2\<lparr>yieldOnReturn := False, status := SystemMode\<rparr>))
                    (\<lambda>s3. Inr (s3\<lparr>status := old\<rparr>))
             else Inr s2))"

definition SetLevel :: "('a Interrupt_scheme \<Rightarrow> 'a Interrupt_scheme res) \<Rightarrow> 'a int_handler \<Rightarrow>
    ('a Interrupt_scheme \<Rightarrow> 'a Interrupt_scheme res) \<Rightarrow> IntStatus \<Rightarrow> 'a Interrupt_scheme \<Rightarrow>
    (IntStatus \<times> 'a Interrupt_scheme) res option" where
  "SetLevel dl run yield lv s =
     (let old = level s in
      if \<not> (lv = IntOff \<or> \<not> inHandler s) then Some (Inl AssertFailed)
      else let s1 = ChangeLevel old lv s
           in if lv = IntOn \<and> old = IntOff
              then map_option (\<lambda>r. bindE r (\<lambda>s2. Inr (old, s2))) (OneTick dl run yield s1)
              else Some (Inr (old, s1)))"

definition Enable :: "('a Interrupt_scheme \<Rightarrow> 'a Interrupt_scheme res) \<Rightarrow> 'a int_handler \<Rightarrow>
    ('a Interrupt_scheme \<Rightarrow> 'a Interrupt_scheme res) \<Rightarrow> 'a Interrupt_scheme \<Rightarrow>
    'a Interrupt_scheme res option" where
  "Enable dl run yield s =
     map_option (\<lambda>r. bindE r (\<lambda>(_, s1). Inr s1)) (SetLevel dl run yield IntOn s)"

text \<open>
  \<^verbatim>\<open>Idle\<close>: the flag of the result says whether the machine goes on; \<open>False\<close> is
  \<^verbatim>\<open>Halt\<close>, which does not return.
\<close>

definition Idle :: "('a Interrupt_scheme \<Rightarrow> 'a Interrupt_scheme res) \<Rightarrow> 'a int_handler \<Rightarrow>
    'a Interrupt_scheme \<Rightarrow> (bool \<times> 'a Interrupt_scheme) res option" where
  "Idle dl run s =
     (case CheckIfDue dl run True (s\<lparr>status := IdleMode\<rparr>) of
        Inl e \<Rightarrow> Some (Inl e)
      | Inr (fired, s1) \<Rightarrow>
          if fired
          then map_option (\<lambda>r. bindE r (\<lambda>s2. Inr (True, s2\<lparr>yieldOnReturn := False, status := SystemMode\<rparr>)))
                 (due_loop dl run s1)
          else Some (Inr (False, s1)))"

section \<open>What the simulation relies on\<close>

text \<open>The four clocks, which only the interrupt hardware advances.\<close>

definition clocks :: "'a Interrupt_scheme \<Rightarrow> int \<times> int \<times> int \<times> int" where
  "clocks s = (totalTicks (stats s), idleTicks (stats s), systemTicks (stats s), userTicks (stats s))"

definition clock_balance :: "'a Interrupt_scheme \<Rightarrow> bool" where
  "clock_balance s \<longleftrightarrow>
     totalTicks (stats s) = idleTicks (stats s) + systemTicks (stats s) + userTicks (stats s)"

text \<open>Later interrupts: a handler may add some, all strictly in the future.\<close>

definition adds_future :: "'a Interrupt_scheme \<Rightarrow> 'a Interrupt_scheme \<Rightarrow> bool" where
  "adds_future s s' \<longleftrightarrow> (\<exists>new. pending s' = fold keyed_insert new (pending s) \<and>
     (\<forall>x \<in> set new. fst x > now s))"

definition due :: "'a Interrupt_scheme \<Rightarrow> (int \<times> PendingInterrupt) list" where
  "due s = filter (\<lambda>x. fst x \<le> now s) (pending s)"

text \<open>
  What a tick is for: call the handlers of the interrupts \<open>ps\<close> one after the other, each after the
  interrupt has been taken from the front of the pending ones. The last look at the clock takes
  out the next interrupt and puts it back behind those of the same time.
\<close>

fun serve :: "('a Interrupt_scheme \<Rightarrow> 'a Interrupt_scheme res) \<Rightarrow> 'a int_handler \<Rightarrow> PendingInterrupt list \<Rightarrow>
    'a Interrupt_scheme \<Rightarrow> 'a Interrupt_scheme res" where
  "serve dl run [] s = Inr s"
| "serve dl run (p # ps) s =
     bindE (dl (s\<lparr>pending := tl (pending s)\<rparr>)) (\<lambda>s1.
     bindE (run (pi_handler p) (pi_arg p) (s1\<lparr>inHandler := True, status := SystemMode\<rparr>)) (\<lambda>s2.
     serve dl run ps (s2\<lparr>status := status s, inHandler := False\<rparr>)))"

fun put_back :: "(int \<times> 'b) list \<Rightarrow> (int \<times> 'b) list" where
  "put_back [] = []"
| "put_back (x # xs) = keyed_insert x xs"

lemma clocks_eqD: "clocks s' = clocks s \<Longrightarrow> now s' = now s"
  by (simp add: clocks_def)

lemma clock_balance_cong: "clocks s' = clocks s \<Longrightarrow> clock_balance s' = clock_balance s"
  by (simp add: clocks_def clock_balance_def)

lemma filter_keyed_insert_out [simp]: "\<not> P kx \<Longrightarrow> filter P (keyed_insert kx xs) = filter P xs"
proof -
  assume "\<not> P kx"
  moreover have "filter P (takeWhile Q xs) @ filter P (dropWhile Q xs) = filter P xs" for Q
    by (metis filter_append takeWhile_dropWhile_id)
  ultimately show ?thesis by (simp add: keyed_insert_def)
qed

lemma filter_fold_keyed_insert_out:
  "\<forall>x \<in> set new. \<not> P x \<Longrightarrow> filter P (fold keyed_insert new xs) = filter P xs"
  by (induction new arbitrary: xs) auto

lemma keyed_insert_front: "\<forall>y \<in> set xs. fst kx < fst y \<Longrightarrow> keyed_insert kx xs = kx # xs"
  by (cases xs) auto

lemma filter_keyed_insert_in: "sorted_keys xs \<Longrightarrow> P kx \<Longrightarrow> filter P (keyed_insert kx xs) = keyed_insert kx (filter P xs)"
proof (induction xs)
  case (Cons y ys)
  show ?case
  proof (cases "fst y \<le> fst kx")
    case False
    then have "fst kx < fst y" by simp
    then have "\<forall>z \<in> set (filter P (y # ys)). fst kx < fst z" using Cons.prems(1) by (auto intro: less_le_trans)
    then show ?thesis using False Cons.prems(2) by (subst keyed_insert_front) simp_all
  qed (use Cons in simp)
qed simp

lemma filter_fold_keyed_insert_in:
  "sorted_keys xs \<Longrightarrow> \<forall>x \<in> set new. P x \<Longrightarrow> filter P (fold keyed_insert new xs) = fold keyed_insert new (filter P xs)"
  by (induction new arbitrary: xs) (simp_all add: filter_keyed_insert_in)

lemma set_put_back [simp]: "set (put_back xs) = set xs" and sorted_put_back: "sorted_keys xs \<Longrightarrow> sorted_keys (put_back xs)"
  by (cases xs; auto simp: sorted_keyed_insert)+

lemma sorted_fold_keyed_insert:
  "sorted_keys xs \<Longrightarrow> sorted_keys (fold keyed_insert new xs)"
  by (induction new arbitrary: xs) auto

lemma adds_future_refl [simp]: "adds_future s s"
  unfolding adds_future_def by (rule exI [of _ "[]"]) simp

lemma adds_future_trans:
  assumes "adds_future s t" and "adds_future t u" and "now t = now s"
  shows "adds_future s u"
proof -
  obtain n1 n2 where "pending t = fold keyed_insert n1 (pending s)" "\<forall>x \<in> set n1. fst x > now s"
    "pending u = fold keyed_insert n2 (pending t)" "\<forall>x \<in> set n2. fst x > now t"
    using assms(1,2) unfolding adds_future_def by blast
  then show ?thesis
    unfolding adds_future_def by (intro exI [of _ "n1 @ n2"]) (auto simp: assms(3))
qed

lemma adds_future_pending_eq:
  "adds_future s t \<Longrightarrow> pending u = pending t \<Longrightarrow> pending r = pending s \<Longrightarrow> now r = now s \<Longrightarrow> adds_future r u"
  by (simp add: adds_future_def)

lemma Schedule_adds_future:
  assumes "Schedule hf a d ty s = Inr s'"
  shows "adds_future s s' \<and> clocks s' = clocks s \<and> level s' = level s"
proof -
  from assms have "d > 0" and s': "s' = s\<lparr>pending := keyed_insert
      (now s + d, \<lparr>pi_handler = hf, pi_arg = a, pi_when = now s + d, pi_type = ty\<rparr>) (pending s)\<rparr>"
    by (auto simp: Schedule_def Let_def)
  then show ?thesis
    unfolding adds_future_def clocks_def
    by (auto intro!: exI [of _ "[(now s + d, \<lparr>pi_handler = hf, pi_arg = a, pi_when = now s + d, pi_type = ty\<rparr>)]"])
qed

lemma Schedule_ok: "d > 0 \<Longrightarrow> \<exists>s'. Schedule hf a d ty s = Inr s'"
  by (simp add: Schedule_def Let_def)

section \<open>The interrupt loop, for handlers that keep the contract\<close>

locale interrupt_handlers =
  fixes dl :: "'a Interrupt_scheme \<Rightarrow> 'a Interrupt_scheme res"
    and run :: "'a int_handler"
  assumes dl_keeps: "dl s = Inr s' \<Longrightarrow>
      clocks s' = clocks s \<and> pending s' = pending s \<and> level s' = level s \<and> status s' = status s"
    and run_keeps: "run h a s = Inr s' \<Longrightarrow> inHandler s \<Longrightarrow> level s = IntOff \<Longrightarrow>
      clocks s' = clocks s \<and> adds_future s s' \<and> level s' = level s"
begin

lemma fire_keeps:
  assumes "fire dl run p s = Inr s'" and off: "level s = IntOff"
  shows "clocks s' = clocks s" and "adds_future s s'" and "level s' = level s"
    and "status s' = status s" and "inHandler s' = False"
proof -
  obtain s1 s2 where s1: "dl s = Inr s1"
    and s2: "run (pi_handler p) (pi_arg p) (s1\<lparr>inHandler := True, status := SystemMode\<rparr>) = Inr s2"
    and s': "s' = s2\<lparr>status := status s, inHandler := False\<rparr>"
    using assms(1) by (auto simp: fire_def Let_def)
  note d = dl_keeps [OF s1]
  have r: "clocks s2 = clocks s1 \<and> adds_future (s1\<lparr>inHandler := True, status := SystemMode\<rparr>) s2 \<and>
      level s2 = level s1"
    using run_keeps [OF s2] d off by (simp add: clocks_def)
  from d r show "clocks s' = clocks s" "level s' = level s" by (simp_all add: s' clocks_def)
  show "status s' = status s" "inHandler s' = False" by (simp_all add: s')
  from r have "adds_future (s1\<lparr>inHandler := True, status := SystemMode\<rparr>) s2" by simp
  from adds_future_pending_eq [OF this, of s' s] d show "adds_future s s'"
    by (simp add: s' clocks_def)
qed

lemma CheckIfDue_False_cases:
  assumes "CheckIfDue dl run False s = Inr (b, s')"
  obtains (none) "pending s = []" "b = False" "s' = s"
  | (later) w p rest where "pending s = (w, p) # rest" "w > now s" "b = False"
      "s' = s\<lparr>pending := keyed_insert (w, p) rest\<rparr>"
  | (daemon) w p where "pending s = [(w, p)]" "w \<le> now s" "status s = IdleMode" "pi_type p = TimerInt"
      "b = False" "s' = s"
  | (fires) w p rest where "pending s = (w, p) # rest" "w \<le> now s" "b = True"
      "fire dl run p (s\<lparr>pending := rest\<rparr>) = Inr s'"
proof (cases "pending s")
  case Nil
  with assms show ?thesis by (intro none) (simp_all add: CheckIfDue_def)
next
  case (Cons x rest)
  obtain w p where x: "x = (w, p)" by (cases x)
  show ?thesis
  proof (cases "w > now s")
    case True
    with assms Cons x show ?thesis by (intro later [of w p rest]) (simp_all add: CheckIfDue_def Let_def)
  next
    case le: False
    show ?thesis
    proof (cases "status s = IdleMode \<and> pi_type p = TimerInt \<and> rest = []")
      case True
      have "s\<lparr>pending := [(w, p)]\<rparr> = s" using Cons x True by simp
      with True assms Cons x le show ?thesis by (intro daemon [of w p]) (simp_all add: CheckIfDue_def Let_def)
    next
      case False
      then have "b = True \<and> fire dl run p (s\<lparr>pending := rest\<rparr>) = Inr s'"
        using assms Cons x le by (auto simp: CheckIfDue_def Let_def split: if_splits)
      with Cons x le show ?thesis by (intro fires [of w p rest]) simp_all
    qed
  qed
qed

lemma CheckIfDue_off: "CheckIfDue dl run adv s = Inr x \<Longrightarrow> level s = IntOff"
  by (simp add: CheckIfDue_def)

lemma CheckIfDue_fires_progress:
  assumes "CheckIfDue dl run False s = Inr (True, s')"
  shows "length (due s') < length (due s) \<and> clocks s' = clocks s \<and> level s' = IntOff \<and>
    (sorted_keys (pending s) \<longrightarrow> sorted_keys (pending s')) \<and> status s' = status s"
  using assms
proof (cases rule: CheckIfDue_False_cases)
  case (fires w p rest)
  have off: "level (s\<lparr>pending := rest\<rparr>) = IntOff" using CheckIfDue_off [OF assms] by simp
  note k = fire_keeps [OF fires(4) off]
  from k(2) obtain new where new: "pending s' = fold keyed_insert new rest" "\<forall>x \<in> set new. fst x > now s"
    by (auto simp: adds_future_def)
  have c: "clocks s' = clocks s" using k(1) by (simp add: clocks_def)
  have "due s' = filter (\<lambda>x. fst x \<le> now s) rest"
    using new by (auto simp: due_def clocks_eqD [OF c] intro!: filter_fold_keyed_insert_out)
  moreover have "due s = (w, p) # filter (\<lambda>x. fst x \<le> now s) rest"
    using fires by (simp add: due_def)
  moreover have "sorted_keys (pending s) \<longrightarrow> sorted_keys (pending s')"
    using fires(1) new(1) by (auto intro!: sorted_fold_keyed_insert)
  ultimately show ?thesis using c k off by simp
qed simp_all

lemma due_first:
  assumes "due s = x # ds" and "sorted_keys (pending s)"
  shows "\<exists>w p rest. pending s = (w, p) # rest \<and> w \<le> now s"
proof -
  have x: "x \<in> set (pending s)" "fst x \<le> now s"
    using arg_cong [OF assms(1), of set] by (auto simp: due_def)
  then obtain y rest where c: "pending s = y # rest" by (cases "pending s") auto
  then have "fst y \<le> fst x" using x(1) assms(2) by auto
  with c x(2) show ?thesis by (cases y) auto
qed

text \<open>
  The loop calls the handlers of exactly the interrupts that are due when it begins, in their
  order, although handlers schedule new ones; the others stay pending.
\<close>

lemma due_loop_serves:
  assumes "level s = IntOff" and "sorted_keys (pending s)" and "status s \<noteq> IdleMode"
  shows "due_loop dl run s =
    Some (bindE (serve dl run (map snd (due s)) s) (\<lambda>t. Inr (t\<lparr>pending := put_back (pending t)\<rparr>)))"
  using assms
proof (induction "length (due s)" arbitrary: s rule: less_induct)
  case less
  show ?case
  proof (cases "pending s")
    case Nil
    then show ?thesis using less.prems(1) by (subst due_loop.simps) (simp add: CheckIfDue_def due_def)
  next
    case (Cons x rest)
    obtain w p where x: "x = (w, p)" by (cases x)
    show ?thesis
    proof (cases "w > now s")
      case True
      then have "due s = []" using Cons x less.prems(2) by (auto simp: due_def filter_empty_conv)
      then show ?thesis
        using True Cons x less.prems(1) by (subst due_loop.simps) (simp add: CheckIfDue_def Let_def)
    next
      case False
      have d: "due s = (w, p) # filter (\<lambda>x. fst x \<le> now s) rest" using False Cons x by (simp add: due_def)
      have chk: "CheckIfDue dl run False s = bindE (fire dl run p (s\<lparr>pending := rest\<rparr>)) (\<lambda>t. Inr (True, t))"
        using False Cons x less.prems by (simp add: CheckIfDue_def Let_def)
      have sv: "serve dl run (map snd (due s)) s =
          bindE (fire dl run p (s\<lparr>pending := rest\<rparr>)) (serve dl run (map snd (filter (\<lambda>x. fst x \<le> now s) rest)))"
        using Cons x by (simp add: d fire_def Let_def bindE_assoc)
      show ?thesis
      proof (cases "fire dl run p (s\<lparr>pending := rest\<rparr>)")
        case (Inl e)
        then show ?thesis by (subst due_loop.simps) (simp add: chk sv)
      next
        case (Inr t)
        have "CheckIfDue dl run False s = Inr (True, t)" using chk Inr by simp
        note pr = CheckIfDue_fires_progress [OF this]
        note k = fire_keeps [OF Inr]
        obtain new where new: "pending t = fold keyed_insert new rest" "\<forall>x \<in> set new. now s < fst x" and cl: "clocks t = clocks s"
          using k(1,2) less.prems(1) by (auto simp: adds_future_def clocks_def)
        have "due t = filter (\<lambda>x. fst x \<le> now s) rest"
          unfolding due_def new(1) clocks_eqD [OF cl] by (rule filter_fold_keyed_insert_out) (use new(2) in force)
        moreover have "due_loop dl run t = Some (bindE (serve dl run (map snd (due t)) t) (\<lambda>t. Inr (t\<lparr>pending := put_back (pending t)\<rparr>)))"
          using less.hyps [of t] pr less.prems by auto
        ultimately show ?thesis using Inr by (subst due_loop.simps) (simp add: chk sv)
      qed
    qed
  qed
qed

lemma serve_keeps:
  assumes "serve dl run (map snd (due s)) s = Inr t" and "level s = IntOff" and "sorted_keys (pending s)"
  shows "clocks t = clocks s \<and> level t = IntOff \<and> status t = status s \<and>
    (\<exists>new. pending t = fold keyed_insert new (filter (\<lambda>x. now s < fst x) (pending s)) \<and> (\<forall>x \<in> set new. now s < fst x))"
  using assms
proof (induction "length (due s)" arbitrary: s rule: less_induct)
  case less
  show ?case
  proof (cases "due s")
    case Nil
    then have "filter (\<lambda>x. now s < fst x) (pending s) = pending s" by (auto simp: due_def filter_empty_conv filter_id_conv)
    then show ?thesis using Nil less.prems by (auto intro: exI [of _ "[]"])
  next
    case (Cons x ds)
    obtain w p rest where c: "pending s = (w, p) # rest" "w \<le> now s"
      using due_first [OF Cons less.prems(3)] by blast
    have d: "due s = (w, p) # filter (\<lambda>x. fst x \<le> now s) rest" using c by (simp add: due_def)
    obtain u where u: "fire dl run p (s\<lparr>pending := rest\<rparr>) = Inr u" "serve dl run (map snd (filter (\<lambda>x. fst x \<le> now s) rest)) u = Inr t"
      using less.prems(1) c by (auto simp: d fire_def Let_def)
    note k = fire_keeps [OF u(1)]
    obtain new where new: "pending u = fold keyed_insert new rest" "\<forall>x \<in> set new. now s < fst x" and cl: "clocks u = clocks s"
      using k(1,2) less.prems(2) by (auto simp: adds_future_def clocks_def)
    have du: "due u = filter (\<lambda>x. fst x \<le> now s) rest"
      using new by (auto simp: due_def clocks_eqD [OF cl] intro!: filter_fold_keyed_insert_out)
    have so: "sorted_keys rest" using less.prems(3) c by simp
    have hyp: "length (due u) < length (due s)" "serve dl run (map snd (due u)) u = Inr t" "level u = IntOff" "sorted_keys (pending u)"
      using u(2) k(3) less.prems(2) sorted_fold_keyed_insert [OF so] by (simp_all add: du d new(1))
    have ih: "clocks t = clocks u \<and> level t = IntOff \<and> status t = status u \<and>
        (\<exists>new'. pending t = fold keyed_insert new' (filter (\<lambda>x. now u < fst x) (pending u)) \<and> (\<forall>x \<in> set new'. now u < fst x))"
      by (rule less.hyps [OF hyp])
    have fl: "filter (\<lambda>x. now s < fst x) (pending u) = fold keyed_insert new (filter (\<lambda>x. now s < fst x) rest)"
      unfolding new(1) by (rule filter_fold_keyed_insert_in [OF so new(2)])
    from ih [unfolded clocks_eqD [OF cl] fl] obtain new' where
      n: "clocks t = clocks u" "level t = IntOff" "status t = status u" "\<forall>x \<in> set new'. now s < fst x"
        "pending t = fold keyed_insert new' (fold keyed_insert new (filter (\<lambda>x. now s < fst x) rest))"
      by (elim conjE exE)
    have "pending t = fold keyed_insert (new @ new') (filter (\<lambda>x. now s < fst x) (pending s))" using n(5) c by simp
    moreover have "\<forall>x \<in> set (new @ new'). now s < fst x" using n(4) new(2) by auto
    moreover have "status t = status s" using n(3) k(4) less.prems(2) by simp
    ultimately show ?thesis using n(1,2) cl by (intro conjI exI [of _ "new @ new'"]) (simp_all only:)
  qed
qed

lemma due_loop_returns: "\<exists>r. due_loop dl run s = Some r"
proof (induction "length (due s)" arbitrary: s rule: less_induct)
  case less
  show ?case
  proof (cases "CheckIfDue dl run False s")
    case (Inr x)
    obtain b s' where x: "x = (b, s')" by (cases x)
    show ?thesis
    proof (cases b)
      case True
      with CheckIfDue_fires_progress [of s s'] less [of s'] Inr x show ?thesis
        by (auto simp: due_loop.simps [of dl run s])
    qed (use Inr x in \<open>simp add: due_loop.simps [of dl run s]\<close>)
  qed (simp add: due_loop.simps [of dl run s])
qed

lemma OneTick_returns: "\<exists>r. OneTick dl run yield s = Some r"
  using due_loop_returns [of "ChangeLevel IntOn IntOff (advance_time s)"]
  by (auto simp: OneTick_def Let_def split: sum.splits)

lemma SetLevel_returns: "\<exists>r. SetLevel dl run yield lv s = Some r"
  using OneTick_returns [of yield "ChangeLevel (level s) lv s"] by (auto simp: SetLevel_def Let_def)

lemma OneTick_serves:
  assumes "sorted_keys (pending s)" and "status s \<noteq> IdleMode"
  defines "a \<equiv> ChangeLevel IntOn IntOff (advance_time s)"
  shows "OneTick dl run yield s = Some (bindE (serve dl run (map snd (due a)) a) (\<lambda>t.
      let s2 = t\<lparr>pending := put_back (pending t), level := IntOn\<rparr> in
      if yieldOnReturn s2 then bindE (yield (s2\<lparr>yieldOnReturn := False, status := SystemMode\<rparr>)) (\<lambda>s3. Inr (s3\<lparr>status := status s\<rparr>))
      else Inr s2))"
    and "serve dl run (map snd (due a)) a = Inr t \<Longrightarrow>
      now t = now s + (if status s = SystemMode then SystemTick else UserTick) \<and> (clock_balance s \<longrightarrow> clock_balance t) \<and> sorted_keys (pending t) \<and>
      (\<exists>new. pending t = fold keyed_insert new (filter (\<lambda>x. now t < fst x) (pending s)) \<and> (\<forall>x \<in> set new. now t < fst x))"
proof -
  have a: "level a = IntOff" "pending a = pending s" "status a = status s"
      "now a = now s + (if status s = SystemMode then SystemTick else UserTick)" "clock_balance s \<longrightarrow> clock_balance a"
    by (simp_all add: a_def ChangeLevel_def advance_time_def Let_def clock_balance_def tick_defs)
  have "due_loop dl run a = Some (bindE (serve dl run (map snd (due a)) a) (\<lambda>t. Inr (t\<lparr>pending := put_back (pending t)\<rparr>)))"
    by (rule due_loop_serves) (use a assms(1,2) in simp_all)
  then show "OneTick dl run yield s = Some (bindE (serve dl run (map snd (due a)) a) (\<lambda>t.
      let s2 = t\<lparr>pending := put_back (pending t), level := IntOn\<rparr> in
      if yieldOnReturn s2 then bindE (yield (s2\<lparr>yieldOnReturn := False, status := SystemMode\<rparr>)) (\<lambda>s3. Inr (s3\<lparr>status := status s\<rparr>))
      else Inr s2))"
    by (cases "serve dl run (map snd (due a)) a") (simp_all add: OneTick_def Let_def flip: a_def, simp_all add: ChangeLevel_def)
  assume "serve dl run (map snd (due a)) a = Inr t"
  from serve_keeps [OF this] a assms(1) obtain new where
    k: "clocks t = clocks a" "pending t = fold keyed_insert new (filter (\<lambda>x. now a < fst x) (pending s))" "\<forall>x \<in> set new. now a < fst x"
    by auto
  then show "now t = now s + (if status s = SystemMode then SystemTick else UserTick) \<and> (clock_balance s \<longrightarrow> clock_balance t) \<and> sorted_keys (pending t) \<and>
      (\<exists>new. pending t = fold keyed_insert new (filter (\<lambda>x. now t < fst x) (pending s)) \<and> (\<forall>x \<in> set new. now t < fst x))"
    using a clock_balance_cong [OF k(1)] assms(1) unfolding clocks_eqD [OF k(1)]
    by (auto intro!: sorted_fold_keyed_insert sorted_filter)
qed

end

text \<open>Whatever the handlers do, an interrupt that fires is the earliest one, and it is due.\<close>

lemma CheckIfDue_earliest:
  assumes "CheckIfDue dl run adv s = Inr (True, s')" and "sorted_keys (pending s)"
  obtains w p rest where "pending s = (w, p) # rest" and "\<forall>(v, q) \<in> set rest. w \<le> v"
    and "\<not> adv \<longrightarrow> w \<le> now s"
    and "\<exists>s2. fire dl run p s2 = Inr s' \<and> now s2 = (if adv then max w (now s) else now s) \<and> pending s2 = rest \<and>
      (clock_balance s \<longrightarrow> clock_balance s2)"
proof -
  obtain w p rest where c: "pending s = (w, p) # rest"
    using assms(1) by (auto simp: CheckIfDue_def split: list.splits)
  then have "\<forall>(v, q) \<in> set rest. w \<le> v" using assms(2) by auto
  moreover have "\<not> adv \<longrightarrow> w \<le> now s"
    using assms(1) c by (auto simp: CheckIfDue_def Let_def split: if_splits)
  moreover have "\<exists>s2. fire dl run p s2 = Inr s' \<and> now s2 = (if adv then max w (now s) else now s) \<and>
      pending s2 = rest \<and> (clock_balance s \<longrightarrow> clock_balance s2)"
    using assms(1) c
    by (cases "adv \<and> w > now s") (force simp: CheckIfDue_def Let_def clock_balance_def max_def split: if_splits)+
  ultimately show ?thesis using that c by blast
qed

end
