(* ===== verification/Machine.thy ===== *)
theory Machine
  imports Interrupt
begin

text \<open>
  The simulated workstation of \<^verbatim>\<open>machine/machine.{h,cc}\<close> and \<^verbatim>\<open>machine/translate.{h,cc}\<close>:
  registers, physical memory, address translation through a page table or a TLB, and the
  trap into the kernel. A page table is an array the kernel allocates and the machine points
  to, so \<open>pageTables\<close> is a store of such arrays and \<open>pageTable\<close> a pointer into it. The
  compile-time switch \<^verbatim>\<open>HOST_IS_BIG_ENDIAN\<close> is the argument \<open>big\<close>, and \<^verbatim>\<open>ExceptionHandler\<close>
  is the argument \<open>eh\<close>.
\<close>

section \<open>State\<close>

definition PageSize :: nat where "PageSize = SectorSize"
definition NumPhysPages :: nat where "NumPhysPages = 4"
definition MemorySize :: nat where "MemorySize = NumPhysPages * PageSize"
definition TLBSize :: nat where "TLBSize = 4"

lemmas size_defs = SectorSize_def PageSize_def NumPhysPages_def MemorySize_def TLBSize_def

datatype ExceptionType = NoException | SyscallException | PageFaultException | ReadOnlyException
  | BusErrorException | AddressErrorException | OverflowException | IllegalInstrException

definition StackReg :: nat where "StackReg = 29"
definition RetAddrReg :: nat where "RetAddrReg = 31"
definition NumGPRegs :: nat where "NumGPRegs = 32"
definition HiReg :: nat where "HiReg = 32"
definition LoReg :: nat where "LoReg = 33"
definition PCReg :: nat where "PCReg = 34"
definition NextPCReg :: nat where "NextPCReg = 35"
definition PrevPCReg :: nat where "PrevPCReg = 36"
definition LoadReg :: nat where "LoadReg = 37"
definition LoadValueReg :: nat where "LoadValueReg = 38"
definition BadVAddrReg :: nat where "BadVAddrReg = 39"
definition NumTotalRegs :: nat where "NumTotalRegs = 40"

lemmas reg_defs = StackReg_def RetAddrReg_def NumGPRegs_def HiReg_def LoReg_def PCReg_def
  NextPCReg_def PrevPCReg_def LoadReg_def LoadValueReg_def BadVAddrReg_def NumTotalRegs_def

record TranslationEntry =
  virtualPage :: "32 word"
  physicalPage :: "32 word"
  valid :: bool
  readOnly :: bool
  use :: bool
  dirty :: bool

record Machine = Interrupt +
  registers :: "32 word list"
  mainMemory :: "8 word list"
  tlb :: "TranslationEntry list option"
  pageTable :: "nat option"
  pageTables :: "nat \<Rightarrow> TranslationEntry list option"
  pageTableSize :: "32 word"
  singleStep :: bool

type_synonym 'a exn_handler = "ExceptionType \<Rightarrow> 'a Machine_scheme \<Rightarrow> 'a Machine_scheme res"

section \<open>machine.cc\<close>

text \<open>The bytes of the union \<^verbatim>\<open>checkit\<close>, read as a host integer.\<close>

definition host_load32 :: "bool \<Rightarrow> 8 word list \<Rightarrow> nat \<Rightarrow> 32 word" where
  "host_load32 big m a =
     (if big then le32 (m ! (a + 3)) (m ! (a + 2)) (m ! (a + 1)) (m ! a)
      else le32 (m ! a) (m ! (a + 1)) (m ! (a + 2)) (m ! (a + 3)))"

definition CheckEndian :: "bool \<Rightarrow> bool \<Rightarrow> unit res" where
  "CheckEndian HOST_IS_BIG_ENDIAN big =
     (let intword = host_load32 big [1, 2, 3, 4] 0
      in ASSERT (intword = (if HOST_IS_BIG_ENDIAN then 0x01020304 else 0x04030201)) (Inr ()))"

text \<open>
  The constructor: \<open>USE_TLB\<close> is the compile-time switch, \<open>i\<close> the interrupt hardware, \<open>pts\<close> the
  page tables the kernel has allocated, \<open>sz\<close> the value the uninitialised
  \<^verbatim>\<open>pageTableSize\<close> happens to have, and \<open>junk\<close> the uninitialised rest of a TLB entry.
\<close>

definition Machine_Machine :: "bool \<Rightarrow> bool \<Rightarrow> bool \<Rightarrow> bool \<Rightarrow> 32 word \<Rightarrow> TranslationEntry \<Rightarrow>
    (nat \<Rightarrow> TranslationEntry list option) \<Rightarrow> Interrupt \<Rightarrow> Machine res" where
  "Machine_Machine HOST_IS_BIG_ENDIAN big USE_TLB debug sz junk pts i =
     bindE (CheckEndian HOST_IS_BIG_ENDIAN big) (\<lambda>_. Inr (Interrupt.extend i
       \<lparr>registers = replicate NumTotalRegs 0, mainMemory = replicate MemorySize 0,
        tlb = (if USE_TLB then Some (replicate TLBSize (junk\<lparr>valid := False\<rparr>)) else None),
        pageTable = None, pageTables = pts, pageTableSize = sz, singleStep = debug\<rparr>))"

definition ReadRegister :: "int \<Rightarrow> 'a Machine_scheme \<Rightarrow> 32 word res" where
  "ReadRegister num s = ASSERT (0 \<le> num \<and> num < int NumTotalRegs) (Inr (registers s ! nat num))"

definition WriteRegister :: "int \<Rightarrow> 32 word \<Rightarrow> 'a Machine_scheme \<Rightarrow> 'a Machine_scheme res" where
  "WriteRegister num v s =
     ASSERT (0 \<le> num \<and> num < int NumTotalRegs) (Inr (s\<lparr>registers := (registers s)[nat num := v]\<rparr>))"

text \<open>\<^verbatim>\<open>registers[n] = v\<close> for a register number that the code does not check.\<close>

definition set_reg :: "nat \<Rightarrow> 32 word \<Rightarrow> 'a Machine_scheme \<Rightarrow> 'a Machine_scheme" where
  "set_reg n v s = s\<lparr>registers := (registers s)[n := v]\<rparr>"

abbreviation reg :: "'a Machine_scheme \<Rightarrow> nat \<Rightarrow> 32 word" where
  "reg s n \<equiv> registers s ! n"

text \<open>\<^verbatim>\<open>Machine::DelayedLoad\<close> of \<^verbatim>\<open>mipssim.cc\<close>; the first assignment uses a register as an index.\<close>

definition DelayedLoad :: "32 word \<Rightarrow> 32 word \<Rightarrow> 'a Machine_scheme \<Rightarrow> 'a Machine_scheme res" where
  "DelayedLoad nextReg nextValue s =
     (let n = unat (reg s LoadReg) in
      if n \<ge> length (registers s) then Inl OutOfBounds
      else let s1 = set_reg n (reg s LoadValueReg) s;
               s2 = set_reg LoadReg nextReg s1;
               s3 = set_reg LoadValueReg nextValue s2
           in Inr (set_reg 0 0 s3))"

definition RaiseException :: "'a exn_handler \<Rightarrow> ExceptionType \<Rightarrow> 32 word \<Rightarrow> 'a Machine_scheme \<Rightarrow>
    'a Machine_scheme res" where
  "RaiseException eh which badVAddr s =
     bindE (DelayedLoad 0 0 (set_reg BadVAddrReg badVAddr s)) (\<lambda>s1.
     bindE (eh which (s1\<lparr>status := SystemMode\<rparr>)) (\<lambda>s2.
     Inr (s2\<lparr>status := UserMode\<rparr>)))"

section \<open>translate.cc\<close>

definition WordToHost :: "bool \<Rightarrow> 32 word \<Rightarrow> 32 word" where
  "WordToHost HOST_IS_BIG_ENDIAN w =
     (if HOST_IS_BIG_ENDIAN then
        (drop_bit 24 w AND 0x000000ff) OR (drop_bit 8 w AND 0x0000ff00) OR
        (push_bit 8 w AND 0x00ff0000) OR (push_bit 24 w AND 0xff000000)
      else w)"

definition ShortToHost :: "bool \<Rightarrow> 16 word \<Rightarrow> 16 word" where
  "ShortToHost HOST_IS_BIG_ENDIAN w =
     (if HOST_IS_BIG_ENDIAN then (push_bit 8 w AND 0xff00) OR (drop_bit 8 w AND 0x00ff) else w)"

definition WordToMachine :: "bool \<Rightarrow> 32 word \<Rightarrow> 32 word" where
  "WordToMachine HOST_IS_BIG_ENDIAN w = WordToHost HOST_IS_BIG_ENDIAN w"

definition ShortToMachine :: "bool \<Rightarrow> 16 word \<Rightarrow> 16 word" where
  "ShortToMachine HOST_IS_BIG_ENDIAN w = ShortToHost HOST_IS_BIG_ENDIAN w"

text \<open>What the host does for \<^verbatim>\<open>*(unsigned short *) &mainMemory[a]\<close> and its word counterpart.\<close>

definition host_load16 :: "bool \<Rightarrow> 8 word list \<Rightarrow> nat \<Rightarrow> 16 word" where
  "host_load16 big m a = (if big then le16 (m ! (a + 1)) (m ! a) else le16 (m ! a) (m ! (a + 1)))"

definition host_bytes16 :: "bool \<Rightarrow> 16 word \<Rightarrow> 8 word list" where
  "host_bytes16 big w = (if big then rev else id) [byte_of 0 w, byte_of (Suc 0) w]"

definition host_bytes32 :: "bool \<Rightarrow> 32 word \<Rightarrow> 8 word list" where
  "host_bytes32 big w =
     (if big then rev else id) [byte_of 0 w, byte_of (Suc 0) w, byte_of 2 w, byte_of 3 w]"

text \<open>
  \<^verbatim>\<open>Machine::Translate\<close>. The entry found is in the page table or the TLB, and the
  use and dirty bits are set in place: \<open>lookup\<close> gives the entry and \<open>update\<close> stores it back.
\<close>

datatype entry_ref = InTable nat nat | InTLB nat

fun tlb_find :: "32 word \<Rightarrow> TranslationEntry list \<Rightarrow> nat \<Rightarrow> nat option" where
  "tlb_find vpn [] i = None"
| "tlb_find vpn (e # es) i =
     (if valid e \<and> virtualPage e = vpn then Some i else tlb_find vpn es (Suc i))"

definition find_entry :: "32 word \<Rightarrow> 'a Machine_scheme \<Rightarrow>
    (ExceptionType + entry_ref \<times> TranslationEntry) res" where
  "find_entry vpn s =
     (case tlb s of
        None \<Rightarrow>
          (case pageTable s of None \<Rightarrow> Inl AssertFailed
           | Some p \<Rightarrow>
             if vpn \<ge> pageTableSize s then Inr (Inl AddressErrorException)
             else (case pageTables s p of None \<Rightarrow> Inl BadPointer
                   | Some es \<Rightarrow>
                     if unat vpn \<ge> length es then Inl OutOfBounds
                     else if \<not> valid (es ! unat vpn) then Inr (Inl PageFaultException)
                     else Inr (Inr (InTable p (unat vpn), es ! unat vpn))))
      | Some es \<Rightarrow>
          (case tlb_find vpn (take TLBSize es) 0 of None \<Rightarrow> Inr (Inl PageFaultException)
           | Some i \<Rightarrow> Inr (Inr (InTLB i, es ! i))))"

fun update_entry :: "entry_ref \<Rightarrow> TranslationEntry \<Rightarrow> 'a Machine_scheme \<Rightarrow> 'a Machine_scheme" where
  "update_entry (InTable p i) e s =
     s\<lparr>pageTables := (pageTables s)(p := map_option (\<lambda>es. es[i := e]) (pageTables s p))\<rparr>"
| "update_entry (InTLB i) e s = s\<lparr>tlb := map_option (\<lambda>es. es[i := e]) (tlb s)\<rparr>"

definition Translate :: "32 word \<Rightarrow> nat \<Rightarrow> bool \<Rightarrow> 'a Machine_scheme \<Rightarrow>
    ((ExceptionType + nat) \<times> 'a Machine_scheme) res" where
  "Translate virtAddr sz writing s =
     (if sz = 4 \<and> virtAddr AND 3 \<noteq> 0 \<or> sz = 2 \<and> virtAddr AND 1 \<noteq> 0
      then Inr (Inl AddressErrorException, s)
      else
        ASSERT (tlb s = None \<or> pageTable s = None)
        (ASSERT (tlb s \<noteq> None \<or> pageTable s \<noteq> None)
        (let vpn = virtAddr div word_of_nat PageSize;
             offset = virtAddr mod word_of_nat PageSize
         in bindE (find_entry vpn s) (\<lambda>r.
            case r of Inl e \<Rightarrow> Inr (Inl e, s)
            | Inr (ref, entry) \<Rightarrow>
                if readOnly entry \<and> writing then Inr (Inl ReadOnlyException, s)
                else
                  let pageFrame = physicalPage entry
                  in if pageFrame \<ge> word_of_nat NumPhysPages then Inr (Inl BusErrorException, s)
                     else
                       let entry' = entry\<lparr>use := True, dirty := dirty entry \<or> writing\<rparr>;
                           s' = update_entry ref entry' s;
                           physAddr = pageFrame * word_of_nat PageSize + offset
                       in ASSERT (sint physAddr \<ge> 0 \<and> sint physAddr + int sz \<le> int MemorySize)
                            (Inr (Inr (unat physAddr), s'))))))"

text \<open>\<^verbatim>\<open>ReadMem\<close>: \<open>None\<close> is the result \<^verbatim>\<open>FALSE\<close>. A byte is a \<^verbatim>\<open>char\<close>, which is signed.\<close>

definition ReadMem :: "bool \<Rightarrow> 'a exn_handler \<Rightarrow> 32 word \<Rightarrow> nat \<Rightarrow> 'a Machine_scheme \<Rightarrow>
    (32 word option \<times> 'a Machine_scheme) res" where
  "ReadMem big eh addr sz s =
     bindE (Translate addr sz False s) (\<lambda>(r, s1).
       case r of
         Inl e \<Rightarrow> bindE (RaiseException eh e addr s1) (\<lambda>s2. Inr (None, s2))
       | Inr pa \<Rightarrow>
           if sz = 1 then Inr (Some (scast (mainMemory s1 ! pa)), s1)
           else if sz = 2 then Inr (Some (ucast (ShortToHost big (host_load16 big (mainMemory s1) pa))), s1)
           else if sz = 4 then Inr (Some (WordToHost big (host_load32 big (mainMemory s1) pa)), s1)
           else Inl AssertFailed)"

definition WriteMem :: "bool \<Rightarrow> 'a exn_handler \<Rightarrow> 32 word \<Rightarrow> nat \<Rightarrow> 32 word \<Rightarrow> 'a Machine_scheme \<Rightarrow>
    (bool \<times> 'a Machine_scheme) res" where
  "WriteMem big eh addr sz v s =
     bindE (Translate addr sz True s) (\<lambda>(r, s1).
       case r of
         Inl e \<Rightarrow> bindE (RaiseException eh e addr s1) (\<lambda>s2. Inr (False, s2))
       | Inr pa \<Rightarrow>
           if sz = 1 then Inr (True, s1\<lparr>mainMemory := poke pa [ucast (v AND 0xff)] (mainMemory s1)\<rparr>)
           else if sz = 2 then Inr (True, s1\<lparr>mainMemory :=
             poke pa (host_bytes16 big (ShortToMachine big (ucast (v AND 0xffff)))) (mainMemory s1)\<rparr>)
           else if sz = 4 then Inr (True, s1\<lparr>mainMemory :=
             poke pa (host_bytes32 big (WordToMachine big v)) (mainMemory s1)\<rparr>)
           else Inl AssertFailed)"

section \<open>The machine invariant\<close>

definition xlate_wf :: "'a Machine_scheme \<Rightarrow> bool" where
  "xlate_wf s \<longleftrightarrow>
     (case tlb s of
        None \<Rightarrow> (case pageTable s of None \<Rightarrow> False
                 | Some p \<Rightarrow> (case pageTables s p of None \<Rightarrow> False
                              | Some es \<Rightarrow> unat (pageTableSize s) \<le> length es))
      | Some es \<Rightarrow> length es = TLBSize \<and> pageTable s = None)"

definition cpu_wf :: "'a Machine_scheme \<Rightarrow> bool" where
  "cpu_wf s \<longleftrightarrow> length (registers s) = NumTotalRegs \<and> unat (reg s LoadReg) < NumGPRegs \<and>
     length (mainMemory s) = MemorySize"

text \<open>The entry that maps a virtual page, as the hardware sees it.\<close>

definition mapping_of :: "'a Machine_scheme \<Rightarrow> 32 word \<Rightarrow> TranslationEntry option" where
  "mapping_of s vpn = (case find_entry vpn s of Inr (Inr (_, e)) \<Rightarrow> Some e | _ \<Rightarrow> None)"

lemma xlate_wf_cong:
  "tlb s' = tlb s \<Longrightarrow> pageTable s' = pageTable s \<Longrightarrow> pageTables s' = pageTables s \<Longrightarrow>
   pageTableSize s' = pageTableSize s \<Longrightarrow> xlate_wf s' = xlate_wf s"
  unfolding xlate_wf_def by (simp only:)

lemma wf_updates [simp]:
  "xlate_wf (s\<lparr>registers := r\<rparr>) = xlate_wf s" "xlate_wf (s\<lparr>mainMemory := m\<rparr>) = xlate_wf s"
  "xlate_wf (s\<lparr>status := st\<rparr>) = xlate_wf s" "cpu_wf (s\<lparr>status := st\<rparr>) = cpu_wf s"
  by (simp_all add: cpu_wf_def cong: xlate_wf_cong)

lemma sint_small: "unat (w :: 32 word) < 2 ^ 31 \<Longrightarrow> sint w = int (unat w)"
proof -
  assume "unat w < 2 ^ 31"
  then have "uint w < 2 ^ 31" by (metis of_nat_less_iff of_nat_numeral of_nat_power uint_nat)
  moreover have "- (2 ^ 31) \<le> uint w" by (rule order_trans [of _ 0]) simp_all
  ultimately have "signed_take_bit 31 (uint w) = uint w" by (intro signed_take_bit_int_eq_self)
  then show ?thesis by (simp add: sint_uint)
qed

lemma and_3_iff: "(w :: 32 word) AND 3 = 0 \<longleftrightarrow> 4 dvd unat w"
proof -
  have "w AND 3 = take_bit 2 w"
    by (simp add: take_bit_eq_mask mask_eq_exp_minus_1)
  then show ?thesis
    by (simp add: word_unat_eq_iff take_bit_eq_mod unat_mod_distrib mod_eq_0_iff_dvd)
qed

lemma and_1_iff: "(w :: 32 word) AND 1 = 0 \<longleftrightarrow> 2 dvd unat w"
proof -
  have "w AND 1 = take_bit 1 w"
    by (simp add: take_bit_eq_mask mask_eq_exp_minus_1)
  then show ?thesis
    by (simp add: word_unat_eq_iff take_bit_eq_mod unat_mod_distrib mod_eq_0_iff_dvd)
qed

lemma frame_address:
  assumes "(f :: 32 word) < word_of_nat NumPhysPages"
  shows "unat (f * word_of_nat PageSize + va mod word_of_nat PageSize) = unat f * PageSize + unat va mod PageSize"
    and "unat f < NumPhysPages"
proof -
  show f: "unat f < NumPhysPages"
    using assms by (simp add: word_less_nat_alt size_defs)
  have "unat va mod 128 < 128" by simp
  moreover have le: "unat f * 128 \<le> 384" using f by (simp add: size_defs)
  ultimately have "unat f * 128 + unat va mod 128 < 512" by linarith
  then have "unat f * 128 + unat va mod 128 < 2 ^ 32" by simp
  moreover have "unat f * 128 < 2 ^ 32" using le by simp
  ultimately show "unat (f * word_of_nat PageSize + va mod word_of_nat PageSize) = unat f * PageSize + unat va mod PageSize"
    by (simp add: unat_word_ariths unat_mod_distrib size_defs)
qed

lemma frame_room:
  assumes "f < 4" and "n \<in> {1, 2, 4 :: nat}" and "n dvd va"
  shows "f * 128 + va mod 128 + n \<le> (512 :: nat)" and "n dvd f * 128 + va mod 128"
proof -
  have n: "n dvd 128" using assms(2) by auto
  then have d: "n dvd va mod 128" using assms(3) by (simp add: dvd_mod)
  then show "n dvd f * 128 + va mod 128" using n by (simp add: dvd_add)
  have lt: "va mod 128 < 128" by simp
  obtain k where k: "va mod 128 = n * k" using d by (auto elim: dvdE)
  have "n * k + n \<le> 128" using k lt assms(2) by auto
  with k have "va mod 128 + n \<le> 128" by simp
  moreover have "f * 128 \<le> 384" using assms(1) by simp
  ultimately show "f * 128 + va mod 128 + n \<le> 512" by linarith
qed

lemma tlb_find_Some: "tlb_find vpn es i = Some j \<Longrightarrow>
    i \<le> j \<and> j - i < length es \<and> valid (es ! (j - i)) \<and> virtualPage (es ! (j - i)) = vpn"
proof (induction es arbitrary: i)
  case (Cons e es)
  show ?case
  proof (cases "valid e \<and> virtualPage e = vpn")
    case False
    with Cons have "Suc i \<le> j \<and> j - Suc i < length es \<and> valid (es ! (j - Suc i)) \<and>
        virtualPage (es ! (j - Suc i)) = vpn" by simp
    moreover from this have "j - i = Suc (j - Suc i)" by linarith
    ultimately show ?thesis by simp
  qed (use Cons.prems in simp)
qed simp

lemma find_entry_total: "xlate_wf s \<Longrightarrow> \<exists>r. find_entry vpn s = Inr r"
  by (auto simp: find_entry_def xlate_wf_def word_le_nat_alt Let_def split: option.splits)

lemma find_entry_valid:
  "find_entry vpn s = Inr (Inr (ref, e)) \<Longrightarrow> xlate_wf s \<Longrightarrow> valid e"
  by (auto simp: find_entry_def xlate_wf_def split: option.splits if_splits dest!: tlb_find_Some)

lemma find_entry_exn: "find_entry vpn s = Inr (Inl e) \<Longrightarrow> e = AddressErrorException \<or> e = PageFaultException"
  by (auto simp: find_entry_def split: option.splits if_splits)

lemma update_entry_frame [simp]:
  "registers (update_entry ref e s) = registers s"
  "mainMemory (update_entry ref e s) = mainMemory s"
  "pageTable (update_entry ref e s) = pageTable s"
  "pageTableSize (update_entry ref e s) = pageTableSize s"
  "pending (update_entry ref e s) = pending s"
  "stats (update_entry ref e s) = stats s"
  "level (update_entry ref e s) = level s"
  "status (update_entry ref e s) = status s"
  by (cases ref; simp)+

lemma update_entry_xlate_wf [simp]:
  assumes "xlate_wf s" shows "xlate_wf (update_entry ref e s)"
proof (cases ref)
  case (InTable p i)
  with assms show ?thesis
    by (cases "pageTables s p") (auto simp: xlate_wf_def split: option.splits)
next
  case (InTLB i)
  with assms show ?thesis by (auto simp: xlate_wf_def split: option.splits)
qed

lemma Translate_cases:
  assumes wf: "xlate_wf s" and sz: "sz \<in> {1, 2, 4}"
  obtains (exn) e where "Translate va sz wr s = Inr (Inl e, s)" and "e \<noteq> NoException"
  | (ok) ref ent where
      "Translate va sz wr s = Inr (Inr (unat (physicalPage ent) * PageSize + unat va mod PageSize),
         update_entry ref (ent\<lparr>use := True, dirty := dirty ent \<or> wr\<rparr>) s)"
      "find_entry (va div word_of_nat PageSize) s = Inr (Inr (ref, ent))"
      "valid ent" "\<not> (readOnly ent \<and> wr)" "unat (physicalPage ent) < NumPhysPages" "sz dvd unat va"
proof (cases "sz = 4 \<and> va AND 3 \<noteq> 0 \<or> sz = 2 \<and> va AND 1 \<noteq> 0")
  case True
  then show ?thesis by (intro exn [of AddressErrorException]) (auto simp: Translate_def)
next
  case False
  then have dvd: "sz dvd unat va" using sz by (auto simp: and_3_iff and_1_iff)
  have asserts: "tlb s = None \<or> pageTable s = None" "tlb s \<noteq> None \<or> pageTable s \<noteq> None"
    using wf by (auto simp: xlate_wf_def split: option.splits)
  obtain r where r: "find_entry (va div word_of_nat PageSize) s = Inr r"
    using find_entry_total [OF wf] by blast
  show ?thesis
  proof (cases r)
    case (Inl e)
    with r False asserts find_entry_exn [of _ s e] show ?thesis
      by (intro exn [of e]) (auto simp: Translate_def Let_def)
  next
    case (Inr x)
    obtain ref ent where x: "x = (ref, ent)" by (cases x)
    note r = r [unfolded Inr x]
    show ?thesis
    proof (cases "readOnly ent \<and> wr \<or> physicalPage ent \<ge> word_of_nat NumPhysPages")
      case True
      with r False asserts show ?thesis
        by (intro exn [of "if readOnly ent \<and> wr then ReadOnlyException else BusErrorException"])
           (auto simp: Translate_def Let_def)
    next
      case fits: False
      let ?pa = "unat (physicalPage ent) * PageSize + unat va mod PageSize"
      have lt: "physicalPage ent < word_of_nat NumPhysPages" using fits by (simp add: not_le)
      note fa = frame_address(1) [OF lt, of va] frame_address(2) [OF lt]
      have room: "?pa + sz \<le> MemorySize"
        using frame_room(1) [of "unat (physicalPage ent)" sz "unat va"] fa(2) sz dvd
        by (simp add: size_defs)
      then have "?pa < 2 ^ 31" by (simp add: size_defs)
      then have "sint (physicalPage ent * word_of_nat PageSize + va mod word_of_nat PageSize) = int ?pa"
        by (subst sint_small) (simp_all only: fa(1))
      then have "sint (physicalPage ent * word_of_nat PageSize + va mod word_of_nat PageSize) \<ge> 0 \<and>
          sint (physicalPage ent * word_of_nat PageSize + va mod word_of_nat PageSize) + int sz \<le> int MemorySize"
        using room by linarith
      with r False asserts fits fa(1)
      have "Translate va sz wr s = Inr (Inr ?pa, update_entry ref (ent\<lparr>use := True, dirty := dirty ent \<or> wr\<rparr>) s)"
        by (simp add: Translate_def Let_def)
      then show ?thesis
        using fits r dvd fa(2) find_entry_valid [OF r wf] by (intro ok [of ent ref]) auto
    qed
  qed
qed

section \<open>Byte order\<close>

lemma bit_WordToHost_big: "bit (WordToHost True w) n \<longleftrightarrow>
    (if n < 8 then bit w (n + 24) else if n < 16 then bit w (n + 8)
     else if n < 24 then bit w (n - 8) else n < 32 \<and> bit w (n - 24))"
proof -
  have m: "(0xff :: 32 word) = mask 8" "(0xff00 :: 32 word) = push_bit 8 (mask 8)"
    "(0xff0000 :: 32 word) = push_bit 16 (mask 8)" "(0xff000000 :: 32 word) = push_bit 24 (mask 8)"
    by (simp_all add: mask_eq_exp_minus_1 push_bit_eq_mult)
  show ?thesis unfolding WordToHost_def m by (auto simp: bit_simps add.commute)
qed

lemma WordToHost_le32: "WordToHost True (le32 b0 b1 b2 b3) = le32 b3 b2 b1 b0"
proof (rule bit_word_eqI)
  fix n assume "n < LENGTH(32)"
  then show "bit (WordToHost True (le32 b0 b1 b2 b3)) n = bit (le32 b3 b2 b1 b0) n"
    by (auto simp: bit_WordToHost_big bit_le32)
qed

lemma ShortToHost_le16: "ShortToHost True (le16 b0 b1) = le16 b1 b0"
proof (rule bit_word_eqI)
  fix n assume "n < LENGTH(16)"
  moreover have m: "(0xff :: 16 word) = mask 8" "(0xff00 :: 16 word) = push_bit 8 (mask 8)"
    by (simp_all add: mask_eq_exp_minus_1 push_bit_eq_mult)
  ultimately show "bit (ShortToHost True (le16 b0 b1)) n = bit (le16 b1 b0) n"
    unfolding ShortToHost_def m by (auto simp: bit_simps bit_le16)
qed

text \<open>On either host a word read from memory is the little-endian one, and so is a word written.\<close>

lemma WordToHost_load [simp]:
  "WordToHost big (host_load32 big m a) = le32 (m ! a) (m ! (a + 1)) (m ! (a + 2)) (m ! (a + 3))"
  by (cases big) (simp_all add: host_load32_def WordToHost_le32, simp add: WordToHost_def)

lemma ShortToHost_load [simp]:
  "ShortToHost big (host_load16 big m a) = le16 (m ! a) (m ! (a + 1))"
  by (cases big) (simp_all add: host_load16_def ShortToHost_le16, simp add: ShortToHost_def)

lemma WordToMachine_bytes [simp]:
  "host_bytes32 big (WordToMachine big w) = [byte_of 0 w, byte_of (Suc 0) w, byte_of 2 w, byte_of 3 w]"
proof (cases big)
  case True
  have "WordToHost True (le32 (byte_of 0 w) (byte_of (Suc 0) w) (byte_of 2 w) (byte_of 3 w)) =
      le32 (byte_of 3 w) (byte_of 2 w) (byte_of (Suc 0) w) (byte_of 0 w)"
    by (rule WordToHost_le32)
  then show ?thesis using True by (simp add: host_bytes32_def WordToMachine_def)
qed (simp add: host_bytes32_def WordToMachine_def WordToHost_def)

lemma ShortToMachine_bytes [simp]:
  "host_bytes16 big (ShortToMachine big w) = [byte_of 0 w, byte_of (Suc 0) w]"
proof (cases big)
  case True
  have "ShortToHost True (le16 (byte_of 0 w) (byte_of (Suc 0) w)) = le16 (byte_of (Suc 0) w) (byte_of 0 w)"
    by (rule ShortToHost_le16)
  then show ?thesis using True by (simp add: host_bytes16_def ShortToMachine_def)
qed (simp add: host_bytes16_def ShortToMachine_def ShortToHost_def)

section \<open>Memory as bytes\<close>

text \<open>
  The value a read returns and the bytes a write stores, free of the host's byte order.
\<close>

definition value_at :: "8 word list \<Rightarrow> nat \<Rightarrow> nat \<Rightarrow> 32 word" where
  "value_at m pa sz =
     (if sz = 1 then scast (m ! pa)
      else if sz = 2 then ucast (le16 (m ! pa) (m ! (pa + 1)))
      else le32 (m ! pa) (m ! (pa + 1)) (m ! (pa + 2)) (m ! (pa + 3)))"

definition bytes_for :: "nat \<Rightarrow> 32 word \<Rightarrow> 8 word list" where
  "bytes_for sz v = map (\<lambda>k. byte_of k v) [0..<sz]"

text \<open>The part of a value that an access of \<open>sz\<close> bytes carries.\<close>

definition truncated :: "nat \<Rightarrow> 32 word \<Rightarrow> 32 word" where
  "truncated sz v = (if sz = 1 then signed_take_bit 7 v else if sz = 2 then take_bit 16 v else v)"

lemma bytes_for_unfold [simp]:
  "bytes_for (Suc 0) v = [byte_of 0 v]" "bytes_for 2 v = [byte_of 0 v, byte_of (Suc 0) v]"
  "bytes_for 4 v = [byte_of 0 v, byte_of (Suc 0) v, byte_of 2 v, byte_of 3 v]"
  by (simp_all add: bytes_for_def upt_rec numeral_2_eq_2 numeral_3_eq_3)

lemma length_bytes_for [simp]: "length (bytes_for sz v) = sz"
  by (simp add: bytes_for_def)

lemma byte_ucast_and: "ucast ((v :: 32 word) AND 0xff) = byte_of 0 v"
proof (rule bit_word_eqI)
  fix n assume "n < LENGTH(8)"
  moreover have m: "(0xff :: 32 word) = mask 8" by (simp add: mask_eq_exp_minus_1)
  ultimately show "bit (ucast (v AND 0xff) :: 8 word) n = bit (byte_of 0 v) n"
    unfolding m by (simp add: bit_simps bit_byte_of)
qed

lemma byte_ucast16_and: "k < 2 \<Longrightarrow> byte_of k (ucast ((v :: 32 word) AND 0xffff) :: 16 word) = byte_of k v"
proof (rule bit_word_eqI)
  fix n assume "k < 2" "n < LENGTH(8)"
  moreover have m: "(0xffff :: 32 word) = mask 16" by (simp add: mask_eq_exp_minus_1)
  ultimately show "bit (byte_of k (ucast (v AND 0xffff) :: 16 word)) n = bit (byte_of k v) n"
    unfolding m by (simp add: bit_simps bit_byte_of)
qed

lemma value_at_bytes_for:
  assumes "sz \<in> {1, 2, 4}" and "pa + sz \<le> length m"
  shows "value_at (poke pa (bytes_for sz v) m) pa sz = truncated sz v"
proof -
  consider "sz = 1" | "sz = 2" | "sz = 4" using assms(1) by auto
  then show ?thesis
  proof cases
    case 1
    have "scast (byte_of 0 v) = signed_take_bit 7 v"
      by (rule bit_word_eqI) (auto simp: bit_simps bit_byte_of min_def)
    then show ?thesis using 1 assms(2) by (simp add: value_at_def truncated_def nth_poke)
  next
    case 2
    have "ucast (le16 (byte_of 0 v) (byte_of (Suc 0) v)) = take_bit 16 v"
      by (rule bit_word_eqI) (auto simp: bit_simps bit_le16 bit_byte_of)
    then show ?thesis using 2 assms(2) by (simp add: value_at_def truncated_def nth_poke)
  qed (use assms(2) in \<open>simp add: value_at_def truncated_def nth_poke\<close>)
qed

lemma value_at_frame:
  assumes "sz \<in> {1, 2, 4}" and "pb + sz \<le> length m" and "pa + length bs \<le> length m"
    and "pb + sz \<le> pa \<or> pa + length bs \<le> pb"
  shows "value_at (poke pa bs m) pb sz = value_at m pb sz"
  using assms by (auto simp: value_at_def nth_poke)

lemma ReadMem_ok:
  assumes "Translate va sz False s = Inr (Inr pa, s1)" and "sz \<in> {1, 2, 4}"
  shows "ReadMem big eh va sz s = Inr (Some (value_at (mainMemory s1) pa sz), s1)"
  using assms by (auto simp: ReadMem_def value_at_def)

lemma WriteMem_ok:
  assumes "Translate va sz True s = Inr (Inr pa, s1)" and "sz \<in> {1, 2, 4}"
  shows "WriteMem big eh va sz v s = Inr (True, s1\<lparr>mainMemory := poke pa (bytes_for sz v) (mainMemory s1)\<rparr>)"
proof -
  from assms(2) consider "sz = 1" | "sz = 2" | "sz = 4" by auto
  then show ?thesis
    by cases (use assms in \<open>simp_all add: WriteMem_def byte_ucast_and byte_ucast16_and\<close>)
qed

section \<open>Translation after an access\<close>

lemma tlb_find_update:
  "tlb_find vpn es i = Some j \<Longrightarrow> valid e \<Longrightarrow> virtualPage e = vpn \<Longrightarrow>
   tlb_find vpn (es[j - i := e]) i = Some j"
proof (induction es arbitrary: i)
  case (Cons x es)
  show ?case
  proof (cases "valid x \<and> virtualPage x = vpn")
    case False
    then have f: "tlb_find vpn es (Suc i) = Some j" using Cons.prems(1) by (auto split: if_splits)
    then have "j - i = Suc (j - Suc i)" using tlb_find_Some [OF f] by linarith
    with False Cons.IH [OF f] Cons.prems(2,3) show ?thesis by auto
  qed (use Cons.prems in auto)
qed simp

lemma tlb_find_update_other:
  "j < length es \<Longrightarrow> valid e = valid (es ! j) \<Longrightarrow> virtualPage e = virtualPage (es ! j) \<Longrightarrow>
   tlb_find vpn (es[j := e]) i = tlb_find vpn es i"
proof (induction es arbitrary: i j)
  case (Cons x es)
  then show ?case by (cases j) auto
qed simp

lemma find_entry_update:
  assumes f: "find_entry vpn s = Inr (Inr (ref, ent))" and wf: "xlate_wf s"
    and e: "valid e = valid ent" "virtualPage e = virtualPage ent"
  shows "find_entry vpn (update_entry ref e s) = Inr (Inr (ref, e))"
proof (cases "tlb s")
  case None
  with f show ?thesis
    using find_entry_valid [OF f wf] e(1)
    by (auto simp: find_entry_def split: option.splits if_splits)
next
  case (Some es)
  with wf have l: "length es = TLBSize" by (auto simp: xlate_wf_def)
  from f Some l obtain i where i: "tlb_find vpn es 0 = Some i" "ref = InTLB i" "ent = es ! i"
    by (auto simp: find_entry_def split: option.splits)
  note t = tlb_find_Some [OF i(1)]
  have "tlb_find vpn (es[i := e]) 0 = Some i"
    using tlb_find_update [OF i(1), of e] t e i(3) by simp
  with Some i l t show ?thesis by (simp add: find_entry_def)
qed

lemma Translate_again:
  assumes wf: "xlate_wf s" and sz: "sz \<in> {1, 2, 4}" and t: "Translate va sz wr s = Inr (Inr pa, s1)"
  shows "\<exists>s2. Translate va sz False s1 = Inr (Inr pa, s2) \<and> mainMemory s2 = mainMemory s1"
proof (cases rule: Translate_cases [OF wf sz, of va wr])
  case (2 ref ent)
  note ok = 2
  let ?e = "ent\<lparr>use := True, dirty := dirty ent \<or> wr\<rparr>"
  from ok(1) t have s1: "s1 = update_entry ref ?e s"
    and pa: "pa = unat (physicalPage ent) * PageSize + unat va mod PageSize" by auto
  have f1: "find_entry (va div word_of_nat PageSize) s1 = Inr (Inr (ref, ?e))"
    using find_entry_update [OF ok(2) wf, of ?e] s1 by simp
  have wf1: "xlate_wf s1" using wf s1 by simp
  show ?thesis
  proof (cases rule: Translate_cases [OF wf1 sz, of va False])
    case (1 e)
    note exn = 1
    have "\<not> (sz = 4 \<and> va AND 3 \<noteq> 0 \<or> sz = 2 \<and> va AND 1 \<noteq> 0)"
      using ok(6) sz by (auto simp: and_3_iff and_1_iff)
    moreover have "\<not> physicalPage ent \<ge> word_of_nat NumPhysPages"
      using ok(5) by (simp add: word_le_nat_alt size_defs)
    ultimately show ?thesis using exn(1) f1
      by (auto simp: Translate_def Let_def ASSERT_def split: if_splits)
  next
    case (2 ref' ent')
    with f1 pa s1 show ?thesis by auto
  qed
qed (use t in simp)

lemma Translate_memory:
  assumes "Translate va sz wr s = Inr (Inr pa, s1)"
  shows "\<exists>s2. Translate va sz wr (s\<lparr>mainMemory := m\<rparr>) = Inr (Inr pa, s2) \<and> mainMemory s2 = m"
proof -
  have f: "find_entry v (s\<lparr>mainMemory := m\<rparr>) = find_entry v s" for v
    by (simp add: find_entry_def split: option.splits)
  show ?thesis
  proof (cases "find_entry (va div word_of_nat PageSize) s")
    case (Inr r)
    with assms show ?thesis
      by (cases r) (auto simp: Translate_def f Let_def split: if_splits)
  qed (use assms in \<open>simp add: Translate_def Let_def split: if_splits\<close>)
qed

text \<open>A page that a read can reach keeps its mapping for every other access.\<close>

lemma mapping_update:
  assumes f: "find_entry vpn s = Inr (Inr (ref, ent))" and wf: "xlate_wf s" and "v \<noteq> vpn"
    and e: "valid e = valid ent" "virtualPage e = virtualPage ent"
  shows "find_entry v (update_entry ref e s) = find_entry v s"
proof (cases "tlb s")
  case None
  with assms show ?thesis
    by (auto simp: find_entry_def nth_list_update split: option.splits if_splits simp flip: word_unat_eq_iff)
next
  case (Some es)
  with wf have l: "length es = TLBSize" by (auto simp: xlate_wf_def)
  from f Some l obtain i where i: "tlb_find vpn es 0 = Some i" "ref = InTLB i" "ent = es ! i"
    by (auto simp: find_entry_def split: option.splits)
  note t = tlb_find_Some [OF i(1)]
  have same: "tlb_find v (es[i := e]) 0 = tlb_find v es 0"
    using t e i(3) by (intro tlb_find_update_other) simp_all
  show ?thesis
  proof (cases "tlb_find v es 0")
    case (Some j)
    from tlb_find_Some [OF this] t \<open>v \<noteq> vpn\<close> have "j \<noteq> i" by auto
    with Some same i l \<open>tlb s = Some es\<close> show ?thesis by (simp add: find_entry_def)
  qed (use same i l Some in \<open>simp add: find_entry_def\<close>)
qed

lemma DelayedLoad_ok:
  assumes "cpu_wf s"
  shows "DelayedLoad n v s = Inr (s\<lparr>registers := (registers s)
    [unat (reg s LoadReg) := reg s LoadValueReg, LoadReg := n, LoadValueReg := v, 0 := 0]\<rparr>)"
  using assms by (simp add: DelayedLoad_def Let_def set_reg_def cpu_wf_def reg_defs)

section \<open>Properties\<close>

text \<open>
  C15. Address translation is safe. With a page table or a TLB installed, a translation for
  an access of 1, 2 or 4 bytes never fails an assertion and never leaves an array. It either
  reports an exception and changes nothing, or returns a physical address that is aligned to
  the access, whose bytes all lie in physical memory, in the frame of a valid entry for the
  page that allows the access, at the offset of the virtual address.
\<close>

theorem translate_safe:
  assumes "xlate_wf s" and "sz \<in> {1, 2, 4}"
  shows "case Translate va sz wr s of
      Inl _ \<Rightarrow> False
    | Inr (Inl e, s') \<Rightarrow> e \<noteq> NoException \<and> s' = s
    | Inr (Inr pa, s') \<Rightarrow> pa + sz \<le> MemorySize \<and> sz dvd pa \<and> xlate_wf s' \<and>
        mainMemory s' = mainMemory s \<and> registers s' = registers s \<and>
        (\<exists>ent. mapping_of s (va div word_of_nat PageSize) = Some ent \<and> valid ent \<and>
           (wr \<longrightarrow> \<not> readOnly ent) \<and> pa = unat (physicalPage ent) * PageSize + unat va mod PageSize \<and>
           mapping_of s' (va div word_of_nat PageSize) =
             Some (ent\<lparr>use := True, dirty := dirty ent \<or> wr\<rparr>) \<and>
           (\<forall>v. v \<noteq> va div word_of_nat PageSize \<longrightarrow> mapping_of s' v = mapping_of s v))"
proof (cases rule: Translate_cases [OF assms, of va wr])
  case (2 ref ent)
  let ?e = "ent\<lparr>use := True, dirty := dirty ent \<or> wr\<rparr>"
  note room = frame_room [of "unat (physicalPage ent)" sz "unat va"]
  have "find_entry (va div word_of_nat PageSize) (update_entry ref ?e s) = Inr (Inr (ref, ?e))"
    using find_entry_update [OF 2(2) assms(1), of ?e] by simp
  moreover have "find_entry v (update_entry ref ?e s) = find_entry v s"
    if "v \<noteq> va div word_of_nat PageSize" for v
    using mapping_update [OF 2(2) assms(1) that, of ?e] by simp
  ultimately show ?thesis
    using 2 room assms by (auto simp: mapping_of_def size_defs)
qed simp

text \<open>A machine whose page table maps pages 0 and 1 to frames 2 and 3, the second one read-only.\<close>

definition demo_table :: "TranslationEntry list" where
  "demo_table =
     [\<lparr>virtualPage = 0, physicalPage = 2, valid = True, readOnly = False, use = False, dirty = False\<rparr>,
      \<lparr>virtualPage = 1, physicalPage = 3, valid = True, readOnly = True, use = False, dirty = False\<rparr>,
      \<lparr>virtualPage = 2, physicalPage = 0, valid = False, readOnly = False, use = False, dirty = False\<rparr>]"

definition demo_machine :: Machine where
  "demo_machine =
     \<lparr>stats = Statistics_Statistics, level = IntOn, pending = [], inHandler = False,
      yieldOnReturn = False, status = UserMode, registers = replicate NumTotalRegs 0,
      mainMemory = replicate MemorySize 0, tlb = None, pageTable = Some 0,
      pageTables = [0 \<mapsto> demo_table], pageTableSize = 3, singleStep = False\<rparr>"

lemma demo_machine_wf [simp]: "xlate_wf demo_machine" "cpu_wf demo_machine"
  by (simp_all add: xlate_wf_def cpu_wf_def demo_machine_def demo_table_def reg_defs)

lemma demo_find_entry: "find_entry 0 demo_machine = Inr (Inr (InTable 0 0, demo_table ! 0))"
  by (simp add: find_entry_def demo_machine_def demo_table_def)

lemma demo_translate: "\<exists>s'. Translate 4 4 True demo_machine = Inr (Inr 260, s')"
  by (simp add: Translate_def demo_machine_def demo_table_def find_entry_def size_defs Let_def)

theorem translate_safe_witness:
  "xlate_wf demo_machine \<and> (\<exists>s' ent. Translate 4 4 True demo_machine = Inr (Inr 260, s') \<and>
     260 + 4 \<le> MemorySize \<and> xlate_wf s' \<and> mapping_of demo_machine 0 = Some ent \<and> \<not> readOnly ent \<and>
     mapping_of s' 0 = Some (ent\<lparr>use := True, dirty := True\<rparr>))"
proof -
  obtain s' where "Translate 4 4 True demo_machine = Inr (Inr 260, s')"
    using demo_translate by blast
  with translate_safe [OF demo_machine_wf(1), of 4 4 True] show ?thesis
    by (auto simp: size_defs)
qed

text \<open>
  C18. Memory round trip. What a user program stores with a write that succeeds, it reads
  back at the same address and size: the whole word, the zero-extended half word, or the
  sign-extended byte. This holds even when the two accesses run on hosts of different byte
  order. No other byte of physical memory changes, nor any register.
\<close>

theorem mem_write_read:
  assumes "xlate_wf s" and "cpu_wf s" and "sz \<in> {1, 2, 4}"
    and "WriteMem big eh va sz v s = Inr (True, s')"
  shows "\<exists>pa s''. ReadMem big' eh' va sz s' = Inr (Some (truncated sz v), s'') \<and>
    pa + sz \<le> MemorySize \<and> registers s' = registers s \<and>
    (\<forall>i < MemorySize. (i < pa \<or> pa + sz \<le> i) \<longrightarrow> mainMemory s' ! i = mainMemory s ! i)"
proof (cases rule: Translate_cases [OF assms(1,3), of va True])
  case (1 e)
  with assms(4) show ?thesis by (auto simp: WriteMem_def)
next
  case (2 ref ent)
  let ?pa = "unat (physicalPage ent) * PageSize + unat va mod PageSize"
  let ?s1 = "update_entry ref (ent\<lparr>use := True, dirty := dirty ent \<or> True\<rparr>) s"
  have s': "s' = ?s1\<lparr>mainMemory := poke ?pa (bytes_for sz v) (mainMemory s)\<rparr>"
    using WriteMem_ok [OF 2(1) assms(3), of big eh v] assms(4) by simp
  have room: "?pa + sz \<le> MemorySize"
    using frame_room(1) [of "unat (physicalPage ent)" sz "unat va"] 2(5,6) assms(3)
    by (simp add: size_defs)
  then have len: "?pa + length (bytes_for sz v) \<le> length (mainMemory s)"
    using assms(2) by (simp add: cpu_wf_def)
  obtain s2 where "Translate va sz False ?s1 = Inr (Inr ?pa, s2)"
    using Translate_again [OF assms(1,3) 2(1)] by auto
  then obtain s3 where s3: "Translate va sz False s' = Inr (Inr ?pa, s3)" "mainMemory s3 = mainMemory s'"
    using Translate_memory [of va sz False ?s1 _ _ "poke ?pa (bytes_for sz v) (mainMemory s)"]
    unfolding s' by auto
  have "ReadMem big' eh' va sz s' = Inr (Some (truncated sz v), s3)"
    using ReadMem_ok [OF s3(1) assms(3), of big' eh'] value_at_bytes_for [OF assms(3)] len s3(2) s'
    by simp
  moreover have "\<forall>i < MemorySize. (i < ?pa \<or> ?pa + sz \<le> i) \<longrightarrow> mainMemory s' ! i = mainMemory s ! i"
    using len assms(2) by (auto simp: s' nth_poke cpu_wf_def)
  ultimately show ?thesis using room by (intro exI [of _ ?pa] exI [of _ s3]) (simp add: s')
qed

theorem mem_write_read_witness:
  "\<exists>s' s''. WriteMem False (\<lambda>_ s. Inr s) 4 2 0x12345 demo_machine = Inr (True, s') \<and>
     ReadMem True (\<lambda>_ s. Inr s) 4 2 s' = Inr (Some 0x2345, s'')"
proof -
  obtain s1 where t: "Translate 4 2 True demo_machine = Inr (Inr 260, s1)"
    by (simp add: Translate_def demo_machine_def demo_table_def find_entry_def size_defs Let_def)
  obtain s' where w: "WriteMem False (\<lambda>_ s. Inr s) 4 2 0x12345 demo_machine = Inr (True, s')"
    using WriteMem_ok [OF t, of False "\<lambda>_ s. Inr s" "0x12345"] by auto
  have "truncated 2 0x12345 = 0x2345" by (simp add: truncated_def take_bit_eq_mod)
  with mem_write_read [OF demo_machine_wf _ w, of True "\<lambda>_ s. Inr s"] w show ?thesis by auto
qed

end
