(* ===== verification/BitMap.thy ===== *)
theory BitMap
  imports Prelude
begin

unbundle bit_operations_syntax

text \<open>
  The bitmap of \<^verbatim>\<open>userprog/bitmap.{h,cc}\<close>, an array of unsigned 32-bit words that records
  which physical pages or disk sectors are in use, and the \<^verbatim>\<open>MemoryManager\<close> of
  \<^verbatim>\<open>userprog/memmanage.{h,cc}\<close> on top of it. The routines are refined to operations on the
  set of used indices.
\<close>

section \<open>The word array\<close>

definition BitsInWord :: int where "BitsInWord = 32"

record BitMap =
  numBits :: int
  numWords :: int
  words :: "32 word list"

text \<open>\<^verbatim>\<open>map[which / BitsInWord]\<close> and \<^verbatim>\<open>1 << (which % BitsInWord)\<close>.\<close>

definition word_index :: "int \<Rightarrow> nat" where
  "word_index which = nat (which sdiv BitsInWord)"

definition bit_mask :: "int \<Rightarrow> 32 word" where
  "bit_mask which = push_bit (nat (which smod BitsInWord)) 1"

definition BitMap_Mark :: "int \<Rightarrow> BitMap \<Rightarrow> BitMap res" where
  "BitMap_Mark which bm = ASSERT (which \<ge> 0 \<and> which < numBits bm)
     (let i = word_index which in
      if i < length (words bm)
      then Inr (bm\<lparr>words := (words bm)[i := words bm ! i OR bit_mask which]\<rparr>)
      else Inl OutOfBounds)"

definition BitMap_Clear :: "int \<Rightarrow> BitMap \<Rightarrow> BitMap res" where
  "BitMap_Clear which bm = ASSERT (which \<ge> 0 \<and> which < numBits bm)
     (let i = word_index which in
      if i < length (words bm)
      then Inr (bm\<lparr>words := (words bm)[i := words bm ! i AND NOT (bit_mask which)]\<rparr>)
      else Inl OutOfBounds)"

definition BitMap_Test :: "int \<Rightarrow> BitMap \<Rightarrow> bool res" where
  "BitMap_Test which bm = ASSERT (which \<ge> 0 \<and> which < numBits bm)
     (let i = word_index which in
      if i < length (words bm)
      then Inr (words bm ! i AND bit_mask which \<noteq> 0)
      else Inl OutOfBounds)"

text \<open>
  The constructor allocates the words without initialising them (\<open>garbage\<close> is what the
  memory held) and clears the bits one by one.
\<close>

definition BitMap_BitMap :: "int \<Rightarrow> 32 word list \<Rightarrow> BitMap res" where
  "BitMap_BitMap nitems garbage =
     (let nw = divRoundUp nitems BitsInWord in
      foldE BitMap_Clear (range_int nitems)
        \<lparr>numBits = nitems, numWords = nw, words = take (nat nw) garbage\<rparr>)"

fun find_loop :: "int list \<Rightarrow> BitMap \<Rightarrow> (int \<times> BitMap) res" where
  "find_loop [] bm = Inr (- 1, bm)"
| "find_loop (i # is) bm = bindE (BitMap_Test i bm) (\<lambda>b.
     if \<not> b then bindE (BitMap_Mark i bm) (\<lambda>bm'. Inr (i, bm')) else find_loop is bm)"

definition BitMap_Find :: "BitMap \<Rightarrow> (int \<times> BitMap) res" where
  "BitMap_Find bm = find_loop (range_int (numBits bm)) bm"

definition BitMap_NumClear :: "BitMap \<Rightarrow> int res" where
  "BitMap_NumClear bm =
     foldE (\<lambda>i count. bindE (BitMap_Test i bm) (\<lambda>b. Inr (if \<not> b then count + 1 else count)))
       (range_int (numBits bm)) 0"

text \<open>\<^verbatim>\<open>Print\<close> writes the numbers of the bits that are set.\<close>

definition BitMap_Print :: "BitMap \<Rightarrow> int list res" where
  "BitMap_Print bm =
     foldE (\<lambda>i out. bindE (BitMap_Test i bm) (\<lambda>b. Inr (if b then out @ [i] else out)))
       (range_int (numBits bm)) []"

section \<open>The set of used indices\<close>

definition wf_bitmap :: "BitMap \<Rightarrow> bool" where
  "wf_bitmap bm \<longleftrightarrow> numWords bm = divRoundUp (numBits bm) BitsInWord \<and>
     length (words bm) = nat (numWords bm)"

definition used :: "BitMap \<Rightarrow> int set" where
  "used bm = {i. 0 \<le> i \<and> i < numBits bm \<and> bit (words bm ! word_index i) (nat (i smod BitsInWord))}"

lemma used_bounds: "i \<in> used bm \<Longrightarrow> 0 \<le> i \<and> i < numBits bm"
  by (simp add: used_def)

lemma finite_used [simp]: "finite (used bm)"
proof -
  have "used bm \<subseteq> {0..<numBits bm}" by (auto simp: used_def)
  then show ?thesis by (rule finite_subset) simp
qed

lemma word_index_less:
  assumes "wf_bitmap bm" and "0 \<le> i" and "i < numBits bm"
  shows "word_index i < length (words bm)"
proof -
  have "i div 32 < divRoundUp (numBits bm) 32"
    using divRoundUp_bounds(1) [of "numBits bm" 32] assms
    by (simp add: div_less_iff_less_mult [of 32])
  with assms show ?thesis
    by (simp add: wf_bitmap_def word_index_def BitsInWord_def sdiv_nonneg)
qed

text \<open>Two indices meet in the same word and bit only when they are equal.\<close>

lemma index_mask_inj:
  assumes "0 \<le> i" "0 \<le> j" "word_index i = word_index j"
    "nat (i smod BitsInWord) = nat (j smod BitsInWord)"
  shows "i = j"
proof -
  have "i div 32 = j div 32" "i mod 32 = j mod 32"
    using assms by (auto simp: word_index_def BitsInWord_def sdiv_nonneg smod_nonneg
        pos_imp_zdiv_nonneg_iff eq_nat_nat_iff)
  then show ?thesis by (metis mult_div_mod_eq)
qed

lemma bit_offset_less: "0 \<le> i \<Longrightarrow> nat (i smod BitsInWord) < 32"
  by (simp add: BitsInWord_def smod_nonneg nat_less_iff)

lemma bit_bit_mask: "bit (bit_mask i) n \<longleftrightarrow> n = nat (i smod BitsInWord) \<and> n < 32"
  by (auto simp: bit_mask_def bit_exp_iff)

lemma word_and_mask_iff:
  "0 \<le> i \<Longrightarrow> w AND bit_mask i \<noteq> 0 \<longleftrightarrow> bit w (nat (i smod BitsInWord))"
  by (simp add: bit_mask_def and_exp_eq_0_iff_not_bit)

lemma BitMap_Test_used:
  assumes "wf_bitmap bm" "0 \<le> i" "i < numBits bm"
  shows "BitMap_Test i bm = Inr (i \<in> used bm)"
  using assms word_index_less [OF assms] word_and_mask_iff [OF assms(2)]
  by (simp add: BitMap_Test_def used_def Let_def)

lemma BitMap_Mark_used:
  assumes "wf_bitmap bm" "0 \<le> i" "i < numBits bm"
  shows "\<exists>bm'. BitMap_Mark i bm = Inr bm' \<and> wf_bitmap bm' \<and> numBits bm' = numBits bm \<and>
    used bm' = insert i (used bm)"
  using assms word_index_less [OF assms(1)]
  by (auto simp: BitMap_Mark_def used_def Let_def wf_bitmap_def nth_list_update bit_or_iff
      bit_bit_mask bit_offset_less dest: index_mask_inj)

lemma BitMap_Clear_used:
  assumes "wf_bitmap bm" "0 \<le> i" "i < numBits bm"
  shows "\<exists>bm'. BitMap_Clear i bm = Inr bm' \<and> wf_bitmap bm' \<and> numBits bm' = numBits bm \<and>
    used bm' = used bm - {i}"
  using assms word_index_less [OF assms(1)]
  by (auto simp: BitMap_Clear_def used_def Let_def wf_bitmap_def nth_list_update bit_and_iff
      bit_not_iff bit_bit_mask bit_offset_less dest: index_mask_inj)

lemma BitMap_BitMap_empty:
  assumes "nat (divRoundUp n BitsInWord) \<le> length garbage"
  shows "\<exists>bm. BitMap_BitMap n garbage = Inr bm \<and> wf_bitmap bm \<and> numBits bm = n \<and> used bm = {}"
proof -
  let ?P = "\<lambda>ys bm. wf_bitmap bm \<and> numBits bm = n \<and> used bm \<inter> set ys = {}"
  have "\<exists>bm. BitMap_BitMap n garbage = Inr bm \<and> ?P (range_int n) bm"
    unfolding BitMap_BitMap_def Let_def
  proof (rule foldE_inv)
    fix ys y zs t
    assume "range_int n = ys @ y # zs" and P: "?P ys t"
    then have "0 \<le> y \<and> y < n"
      using set_range_int [of n] by auto
    with BitMap_Clear_used [of t y] P
    show "\<exists>t'. BitMap_Clear y t = Inr t' \<and> ?P (ys @ [y]) t'"
      by fastforce
  qed (use assms in \<open>auto simp: wf_bitmap_def\<close>)
  moreover have "used bm \<inter> set (range_int (numBits bm)) = used bm" for bm
    by (auto simp: used_def)
  ultimately show ?thesis by auto
qed

lemma find_loop_filter:
  assumes "wf_bitmap bm" and "set is \<subseteq> {i. 0 \<le> i \<and> i < numBits bm}"
  shows "find_loop is bm = (case filter (\<lambda>i. i \<notin> used bm) is of [] \<Rightarrow> Inr (- 1, bm)
     | i # _ \<Rightarrow> bindE (BitMap_Mark i bm) (\<lambda>bm'. Inr (i, bm')))"
  using assms(2) by (induction "is") (simp_all add: BitMap_Test_used [OF assms(1)])

lemma find_loop_full:
  assumes "wf_bitmap bm" "n \<le> numBits bm" "{0..<n} \<subseteq> used bm"
  shows "find_loop (range_int n) bm = Inr (- 1, bm)"
proof -
  have "filter (\<lambda>i. i \<notin> used bm) (range_int n) = []"
    using assms(3) by (auto simp: filter_empty_conv)
  then show ?thesis
    using assms by (subst find_loop_filter) auto
qed

lemma find_loop_free:
  assumes wf: "wf_bitmap bm" and n: "n \<le> numBits bm" and free: "\<not> {0..<n} \<subseteq> used bm"
  shows "\<exists>i bm'. find_loop (range_int n) bm = Inr (i, bm') \<and> wf_bitmap bm' \<and>
    numBits bm' = numBits bm \<and> 0 \<le> i \<and> i < n \<and> i \<notin> used bm \<and> {0..<i} \<subseteq> used bm \<and>
    used bm' = insert i (used bm)"
proof -
  obtain i js where f: "filter (\<lambda>i. i \<notin> used bm) (range_int n) = i # js"
    using free by (cases "filter (\<lambda>i. i \<notin> used bm) (range_int n)")
      (auto simp: filter_empty_conv)
  have i: "i \<in> set (range_int n)" "i \<notin> used bm"
    using arg_cong [OF f, of set] by auto
  have "sorted (i # js)"
    using sorted_wrt_filter [OF sorted_range_int, of "\<lambda>i. i \<notin> used bm" n] by (simp add: f)
  moreover have "j \<in> set (i # js)" if "0 \<le> j" "j < i" "j \<notin> used bm" for j
    using that i by (auto simp flip: f)
  ultimately have "{0..<i} \<subseteq> used bm" by fastforce
  moreover obtain bm' where "BitMap_Mark i bm = Inr bm'" "wf_bitmap bm'"
      "numBits bm' = numBits bm" "used bm' = insert i (used bm)"
    using BitMap_Mark_used [OF wf, of i] i n by auto
  ultimately show ?thesis
    using i n wf by (subst find_loop_filter) (auto simp: f)
qed

lemma count_free: "0 \<le> n \<Longrightarrow> U \<subseteq> {0..<n} \<Longrightarrow>
   int (length (filter (\<lambda>i. i \<notin> U) (range_int n))) = n - int (card U)"
proof -
  assume n: "0 \<le> n" and U: "U \<subseteq> {0..<n}"
  have "length (filter (\<lambda>i. i \<notin> U) (range_int n)) = card ({0..<n} - U)"
    by (subst distinct_card [symmetric]) (auto intro: arg_cong [of _ _ card])
  also have "\<dots> = card {0..<n} - card U"
    using U by (intro card_Diff_subset) (auto intro: finite_subset)
  finally show ?thesis
    using n card_mono [OF _ U] by simp
qed

lemma used_subset: "used bm \<subseteq> {0..<numBits bm}"
  by (auto simp: used_def)

lemma BitMap_NumClear_used:
  assumes wf: "wf_bitmap bm" and "0 \<le> numBits bm"
  shows "BitMap_NumClear bm = Inr (numBits bm - int (card (used bm)))"
proof -
  let ?P = "\<lambda>ys c. c = int (length (filter (\<lambda>i. i \<notin> used bm) ys))"
  have "\<exists>c. BitMap_NumClear bm = Inr c \<and> ?P (range_int (numBits bm)) c"
    unfolding BitMap_NumClear_def
  proof (rule foldE_inv)
    fix ys y zs c
    assume e: "range_int (numBits bm) = ys @ y # zs" and "?P ys c"
    moreover have "0 \<le> y" "y < numBits bm"
      using arg_cong [OF e, of set] by auto
    ultimately show "\<exists>t'. bindE (BitMap_Test y bm) (\<lambda>b. Inr (if \<not> b then c + 1 else c)) = Inr t' \<and>
        ?P (ys @ [y]) t'"
      by (simp add: BitMap_Test_used [OF wf])
  qed simp
  then show ?thesis
    using count_free [OF assms(2) used_subset] by simp
qed

section \<open>The allocator interface\<close>

text \<open>
  What the file system and the memory manager rely on: \<open>find\<close> hands out a free index and
  marks it, or returns \<open>- 1\<close> when there is none; \<open>clear\<close> gives an index back;
  \<open>test\<close> and \<open>count\<close> read the state.
\<close>

locale slots =
  fixes inv :: "'m \<Rightarrow> bool"
    and size :: "'m \<Rightarrow> int"
    and taken :: "'m \<Rightarrow> int set"
    and find :: "'m \<Rightarrow> (int \<times> 'm) res"
    and clear :: "int \<Rightarrow> 'm \<Rightarrow> 'm res"
    and test :: "int \<Rightarrow> 'm \<Rightarrow> bool res"
    and count :: "'m \<Rightarrow> int res"
  assumes taken_subset: "inv m \<Longrightarrow> taken m \<subseteq> {0..<size m}"
    and find_free: "inv m \<Longrightarrow> \<not> {0..<size m} \<subseteq> taken m \<Longrightarrow>
      \<exists>i m'. find m = Inr (i, m') \<and> inv m' \<and> size m' = size m \<and> 0 \<le> i \<and> i < size m \<and>
        i \<notin> taken m \<and> {0..<i} \<subseteq> taken m \<and> taken m' = insert i (taken m)"
    and find_full: "inv m \<Longrightarrow> {0..<size m} \<subseteq> taken m \<Longrightarrow> find m = Inr (- 1, m)"
    and clear_taken: "inv m \<Longrightarrow> 0 \<le> i \<Longrightarrow> i < size m \<Longrightarrow>
      \<exists>m'. clear i m = Inr m' \<and> inv m' \<and> size m' = size m \<and> taken m' = taken m - {i}"
    and test_taken: "inv m \<Longrightarrow> 0 \<le> i \<Longrightarrow> i < size m \<Longrightarrow> test i m = Inr (i \<in> taken m)"
    and count_taken: "inv m \<Longrightarrow> count m = Inr (size m - int (card (taken m)))"
begin

lemma finite_taken: "inv m \<Longrightarrow> finite (taken m)"
  using taken_subset by (rule finite_subset) auto

lemma room_not_full: "inv m \<Longrightarrow> int (card (taken m)) < size m \<Longrightarrow> \<not> {0..<size m} \<subseteq> taken m"
  using finite_taken card_mono [of "taken m" "{0..<size m}"] by auto

text \<open>Enough room: \<open>n\<close> calls of \<open>find\<close> hand out \<open>n\<close> different free indices.\<close>

lemma find_many:
  assumes "inv m" and "int n \<le> size m - int (card (taken m))"
  shows "\<exists>xs m'. repeatE find n m = Inr (xs, m') \<and> inv m' \<and> size m' = size m \<and> length xs = n \<and>
    distinct xs \<and> set xs \<subseteq> {0..<size m} - taken m \<and> taken m' = taken m \<union> set xs"
  using assms
proof (induction n arbitrary: m)
  case (Suc n)
  obtain i m1 where f: "find m = Inr (i, m1)" "inv m1" "size m1 = size m" "0 \<le> i" "i < size m"
      "i \<notin> taken m" "taken m1 = insert i (taken m)"
    using find_free [OF Suc.prems(1) room_not_full] Suc.prems by auto
  have "int n \<le> size m1 - int (card (taken m1))"
    using Suc.prems(2) f finite_taken [OF Suc.prems(1)] by simp
  from Suc.IH [OF f(2) this] obtain xs m' where "repeatE find n m1 = Inr (xs, m')" "inv m'"
      "size m' = size m" "length xs = n" "distinct xs" "set xs \<subseteq> {0..<size m} - taken m1"
      "taken m' = taken m1 \<union> set xs"
    by (auto simp: f)
  with f show ?case by (intro exI [of _ "i # xs"] exI [of _ m']) auto
qed simp

text \<open>Giving indices back one after the other, each checked to be in use.\<close>

lemma release_many:
  assumes "inv m" and "distinct xs" and "set xs \<subseteq> taken m"
  shows "\<exists>m'. foldE (\<lambda>i m. bindE (test i m) (\<lambda>b. ASSERT b (clear i m))) xs m = Inr m' \<and>
    inv m' \<and> size m' = size m \<and> taken m' = taken m - set xs"
  using assms
proof (induction xs arbitrary: m)
  case (Cons x xs)
  have x: "0 \<le> x" "x < size m" "x \<in> taken m"
    using Cons.prems taken_subset [OF Cons.prems(1)] by auto
  obtain m1 where m1: "clear x m = Inr m1" "inv m1" "size m1 = size m" "taken m1 = taken m - {x}"
    using clear_taken [OF Cons.prems(1) x(1,2)] by auto
  have "set xs \<subseteq> taken m1" using Cons.prems by (auto simp: m1)
  from Cons.IH [OF m1(2) _ this] Cons.prems(2) show ?case
    by (auto simp: test_taken [OF Cons.prems(1) x(1,2)] x m1)
qed simp

lemma release_untaken:
  assumes "inv m" and "0 \<le> x" "x < size m" and "x \<notin> taken m"
  shows "foldE (\<lambda>i m. bindE (test i m) (\<lambda>b. ASSERT b (clear i m))) (x # xs) m = Inl AssertFailed"
  using test_taken [OF assms(1-3)] assms(4) by simp

end

definition bitmap_inv :: "BitMap \<Rightarrow> bool" where
  "bitmap_inv bm \<longleftrightarrow> wf_bitmap bm \<and> 0 \<le> numBits bm"

interpretation bmap: slots bitmap_inv numBits used BitMap_Find BitMap_Clear BitMap_Test BitMap_NumClear
proof unfold_locales
  fix m :: BitMap and i :: int
  assume m: "bitmap_inv m"
  show "used m \<subseteq> {0..<numBits m}" by (rule used_subset)
  show "BitMap_NumClear m = Inr (numBits m - int (card (used m)))"
    using m by (simp add: bitmap_inv_def BitMap_NumClear_used)
  show "BitMap_Find m = Inr (- 1, m)" if "{0..<numBits m} \<subseteq> used m"
    using m that by (simp add: bitmap_inv_def BitMap_Find_def find_loop_full)
  show "\<exists>i m'. BitMap_Find m = Inr (i, m') \<and> bitmap_inv m' \<and> numBits m' = numBits m \<and> 0 \<le> i \<and>
      i < numBits m \<and> i \<notin> used m \<and> {0..<i} \<subseteq> used m \<and> used m' = insert i (used m)"
    if "\<not> {0..<numBits m} \<subseteq> used m"
    using find_loop_free [of m "numBits m"] m that
    by (auto simp: bitmap_inv_def BitMap_Find_def)
  show "\<exists>m'. BitMap_Clear i m = Inr m' \<and> bitmap_inv m' \<and> numBits m' = numBits m \<and>
      used m' = used m - {i}" if "0 \<le> i" "i < numBits m"
    using BitMap_Clear_used [of m i] m that by (auto simp: bitmap_inv_def)
  show "BitMap_Test i m = Inr (i \<in> used m)" if "0 \<le> i" "i < numBits m"
    using BitMap_Test_used [of m i] m that by (simp add: bitmap_inv_def)
qed

section \<open>Properties\<close>

text \<open>
  The bitmap is a correct allocator. A new bitmap of \<open>n\<close> bits, whatever its uninitialised
  words held, hands out in \<open>n\<close> calls of \<^verbatim>\<open>Find\<close> the numbers \<open>0\<close> to \<open>n - 1\<close>, each once; then
  \<^verbatim>\<open>NumClear\<close> is zero and \<^verbatim>\<open>Find\<close> returns \<open>- 1\<close> and changes nothing.
\<close>

theorem bitmap_allocates_all:
  assumes "0 \<le> n" and "nat (divRoundUp n BitsInWord) \<le> length garbage"
  shows "\<exists>bm bm' xs. BitMap_BitMap n garbage = Inr bm \<and> BitMap_NumClear bm = Inr n \<and>
    repeatE BitMap_Find (nat n) bm = Inr (xs, bm') \<and> distinct xs \<and> set xs = {0..<n} \<and>
    BitMap_NumClear bm' = Inr 0 \<and> BitMap_Find bm' = Inr (- 1, bm')"
proof -
  obtain bm where bm: "BitMap_BitMap n garbage = Inr bm" "wf_bitmap bm" "numBits bm = n" "used bm = {}"
    using BitMap_BitMap_empty [OF assms(2)] by blast
  then have inv: "bitmap_inv bm" using assms(1) by (simp add: bitmap_inv_def)
  obtain xs bm' where r: "repeatE BitMap_Find (nat n) bm = Inr (xs, bm')" "bitmap_inv bm'" "numBits bm' = n"
      "length xs = nat n" "distinct xs" "set xs \<subseteq> {0..<n}" "used bm' = set xs"
    using bmap.find_many [OF inv, of "nat n"] bm assms(1) by auto
  have "card (set xs) = nat n" using r(4,5) by (simp add: distinct_card)
  then have all: "set xs = {0..<n}" using r(6) by (intro card_subset_eq) simp_all
  have "BitMap_Find bm' = Inr (- 1, bm')" using bmap.find_full [OF r(2)] r(3,7) all by simp
  moreover have "BitMap_NumClear bm' = Inr 0" using bmap.count_taken [OF r(2)] r(3,7) all assms(1) by simp
  moreover have "BitMap_NumClear bm = Inr n" using bmap.count_taken [OF inv] bm by simp
  ultimately show ?thesis using bm(1) r all by blast
qed

theorem bitmap_allocates_all_witness:
  "\<exists>bm bm' xs. BitMap_BitMap 40 [7, - 1] = Inr bm \<and> repeatE BitMap_Find 40 bm = Inr (xs, bm') \<and> set xs = {0..<40}"
proof -
  have "nat (divRoundUp 40 BitsInWord) \<le> length [7, - 1 :: 32 word]"
    by (simp add: divRoundUp_nonneg BitsInWord_def)
  from bitmap_allocates_all [OF _ this] show ?thesis by auto
qed

end
