(* ===== verification/MemManage.thy ===== *)
theory MemManage
  imports BitMap
begin

text \<open>
  The physical-page allocator of \<^verbatim>\<open>userprog/memmanage.{h,cc}\<close>. It is a second provider of the
  allocator interface \<open>slots\<close>.
\<close>

record MemoryManager =
  mNumPages :: int
  mm_bmap :: BitMap

definition MemoryManager_MemoryManager :: "int \<Rightarrow> 32 word list \<Rightarrow> MemoryManager res" where
  "MemoryManager_MemoryManager numPages garbage =
     bindE (BitMap_BitMap numPages garbage) (\<lambda>bm. Inr \<lparr>mNumPages = numPages, mm_bmap = bm\<rparr>)"

text \<open>The loop of \<^verbatim>\<open>AllocPage\<close> is the loop of \<^verbatim>\<open>BitMap::Find\<close>, bounded by \<open>mNumPages\<close>.\<close>

definition AllocPage :: "MemoryManager \<Rightarrow> (int \<times> MemoryManager) res" where
  "AllocPage mm = bindE (find_loop (range_int (mNumPages mm)) (mm_bmap mm))
     (\<lambda>(i, bm). Inr (i, mm\<lparr>mm_bmap := bm\<rparr>))"

definition FreePage :: "int \<Rightarrow> MemoryManager \<Rightarrow> MemoryManager res" where
  "FreePage physPageNum mm =
     bindE (BitMap_Clear physPageNum (mm_bmap mm)) (\<lambda>bm. Inr (mm\<lparr>mm_bmap := bm\<rparr>))"

definition PageIsAllocated :: "int \<Rightarrow> MemoryManager \<Rightarrow> bool res" where
  "PageIsAllocated physPageNum mm = BitMap_Test physPageNum (mm_bmap mm)"

definition NumFreePages :: "MemoryManager \<Rightarrow> int res" where
  "NumFreePages mm = BitMap_NumClear (mm_bmap mm)"

definition mm_inv :: "MemoryManager \<Rightarrow> bool" where
  "mm_inv mm \<longleftrightarrow> bitmap_inv (mm_bmap mm) \<and> mNumPages mm = numBits (mm_bmap mm)"

definition pages_in_use :: "MemoryManager \<Rightarrow> int set" where
  "pages_in_use mm = used (mm_bmap mm)"

lemma AllocPage_Find:
  "mNumPages mm = numBits (mm_bmap mm) \<Longrightarrow>
   AllocPage mm = bindE (BitMap_Find (mm_bmap mm)) (\<lambda>(i, bm). Inr (i, mm\<lparr>mm_bmap := bm\<rparr>))"
  by (simp add: AllocPage_def BitMap_Find_def)

interpretation mmgr: slots mm_inv mNumPages pages_in_use AllocPage FreePage PageIsAllocated NumFreePages
proof unfold_locales
  fix m :: MemoryManager and i :: int
  assume m: "mm_inv m"
  let ?b = "mm_bmap m"
  have b: "bitmap_inv ?b" and n: "mNumPages m = numBits ?b"
    using m by (auto simp: mm_inv_def)
  show "pages_in_use m \<subseteq> {0..<mNumPages m}"
    using bmap.taken_subset [OF b] by (simp add: pages_in_use_def n)
  show "NumFreePages m = Inr (mNumPages m - int (card (pages_in_use m)))"
    using bmap.count_taken [OF b] by (simp add: NumFreePages_def pages_in_use_def n)
  show "AllocPage m = Inr (- 1, m)" if "{0..<mNumPages m} \<subseteq> pages_in_use m"
    using bmap.find_full [OF b] that by (simp add: AllocPage_Find n pages_in_use_def)
  show "\<exists>i m'. AllocPage m = Inr (i, m') \<and> mm_inv m' \<and> mNumPages m' = mNumPages m \<and> 0 \<le> i \<and>
      i < mNumPages m \<and> i \<notin> pages_in_use m \<and> {0..<i} \<subseteq> pages_in_use m \<and>
      pages_in_use m' = insert i (pages_in_use m)"
    if "\<not> {0..<mNumPages m} \<subseteq> pages_in_use m"
    using bmap.find_free [OF b] that n
    by (fastforce simp: AllocPage_Find pages_in_use_def mm_inv_def)
  show "\<exists>m'. FreePage i m = Inr m' \<and> mm_inv m' \<and> mNumPages m' = mNumPages m \<and>
      pages_in_use m' = pages_in_use m - {i}" if "0 \<le> i" "i < mNumPages m"
    using bmap.clear_taken [OF b, of i] that n
    by (fastforce simp: FreePage_def pages_in_use_def mm_inv_def)
  show "PageIsAllocated i m = Inr (i \<in> pages_in_use m)" if "0 \<le> i" "i < mNumPages m"
    using bmap.test_taken [OF b, of i] that n by (simp add: PageIsAllocated_def pages_in_use_def)
qed

text \<open>
  Frames are handed out to one owner at a time. With \<open>n\<close> free frames, \<open>n\<close> calls of
  \<^verbatim>\<open>AllocPage\<close> return \<open>n\<close> different frames that nobody had; the next call after the last free
  frame returns \<open>- 1\<close>; freeing the frames restores the allocator's state of use.
\<close>

theorem frames_exclusive:
  assumes "mm_inv mm" and "int n = mNumPages mm - int (card (pages_in_use mm))"
  shows "\<exists>xs mm' mm''. repeatE AllocPage n mm = Inr (xs, mm') \<and> distinct xs \<and>
    set xs \<subseteq> {0..<mNumPages mm} - pages_in_use mm \<and> AllocPage mm' = Inr (- 1, mm') \<and>
    foldE FreePage xs mm' = Inr mm'' \<and> mm_inv mm'' \<and> pages_in_use mm'' = pages_in_use mm"
proof -
  obtain xs mm' where r: "repeatE AllocPage n mm = Inr (xs, mm')" "mm_inv mm'" "mNumPages mm' = mNumPages mm"
      "length xs = n" "distinct xs" "set xs \<subseteq> {0..<mNumPages mm} - pages_in_use mm"
      "pages_in_use mm' = pages_in_use mm \<union> set xs"
    using mmgr.find_many [OF assms(1), of n] assms(2) by auto
  have sub: "pages_in_use mm' \<subseteq> {0..<mNumPages mm}" using mmgr.taken_subset [OF r(2)] r(3) by simp
  have fin: "finite (pages_in_use mm)" using mmgr.finite_taken [OF assms(1)] .
  have "card (pages_in_use mm') = card (pages_in_use mm) + n"
    unfolding r(7) using r(4-6) fin by (subst card_Un_disjoint) (auto simp: distinct_card)
  then have "card (pages_in_use mm') = card {0..<mNumPages mm}" using assms(2) by simp
  with sub have "pages_in_use mm' = {0..<mNumPages mm}" by (intro card_subset_eq) simp_all
  then have full: "AllocPage mm' = Inr (- 1, mm')" using mmgr.find_full [OF r(2)] r(3) by simp
  have "\<exists>m. foldE FreePage ys m0 = Inr m \<and> mm_inv m \<and> pages_in_use m = pages_in_use m0 - set ys"
    if "mm_inv m0" "set ys \<subseteq> {0..<mNumPages m0}" for ys m0
    using that
  proof (induction ys arbitrary: m0)
    case (Cons y ys)
    then obtain m1 where m1: "FreePage y m0 = Inr m1" "mm_inv m1" "mNumPages m1 = mNumPages m0"
        "pages_in_use m1 = pages_in_use m0 - {y}"
      using mmgr.clear_taken [OF Cons.prems(1), of y] by auto
    with Cons.IH [of m1] Cons.prems show ?case by auto
  qed simp
  moreover have "set xs \<subseteq> {0..<mNumPages mm'}" using r(3,6) by auto
  ultimately obtain mm'' where "foldE FreePage xs mm' = Inr mm''" "mm_inv mm''"
      "pages_in_use mm'' = pages_in_use mm' - set xs" using r(2) by blast
  moreover have "pages_in_use mm' - set xs = pages_in_use mm" using r(6,7) by auto
  ultimately show ?thesis using r(1,5,6) full by (intro exI [of _ xs] exI [of _ mm'] exI [of _ mm'']) simp
qed

theorem frames_exclusive_witness:
  "\<exists>mm xs mm'. MemoryManager_MemoryManager 4 [0xff] = Inr mm \<and> repeatE AllocPage 4 mm = Inr (xs, mm') \<and> distinct xs"
proof -
  have "nat (divRoundUp 4 BitsInWord) \<le> length [0xff :: 32 word]"
    by (simp add: divRoundUp_nonneg BitsInWord_def)
  from BitMap_BitMap_empty [OF this] obtain bm where bm: "BitMap_BitMap 4 [0xff] = Inr bm" "wf_bitmap bm"
      "numBits bm = 4" "used bm = {}" by blast
  let ?mm = "\<lparr>mNumPages = 4, mm_bmap = bm\<rparr>"
  have "mm_inv ?mm" "int 4 = mNumPages ?mm - int (card (pages_in_use ?mm))"
    using bm by (simp_all add: mm_inv_def bitmap_inv_def pages_in_use_def)
  from frames_exclusive [OF this] bm(1) show ?thesis by (auto simp: MemoryManager_MemoryManager_def)
qed

end
