(* ===== verification/HostFile.thy ===== *)
theory HostFile
  imports Prelude
begin

text \<open>
  The file layer of the build with \<^verbatim>\<open>FILESYS_STUB\<close>: \<^verbatim>\<open>OpenFile\<close> and \<^verbatim>\<open>FileSystem\<close> as calls to
  UNIX (\<^verbatim>\<open>filesys/openfile.h\<close>, \<^verbatim>\<open>filesys/filesys.h\<close>, \<^verbatim>\<open>machine/sysdep.cc\<close>). The host keeps
  named inodes whose contents are byte arrays; a descriptor refers to an inode.
\<close>

record HostFs =
  inodes :: "nat \<Rightarrow> 8 word list"
  names :: "string \<Rightarrow> nat option"
  next_inode :: nat

record OpenFile =
  of_inode :: nat
  currentOffset :: int

text \<open>\<^verbatim>\<open>read\<close> and \<^verbatim>\<open>write\<close> of a regular file at a position; a gap before the position is filled with zeros.\<close>

definition pread :: "8 word list \<Rightarrow> nat \<Rightarrow> nat \<Rightarrow> 8 word list" where
  "pread data pos n = take n (drop pos data)"

definition pwrite :: "8 word list \<Rightarrow> nat \<Rightarrow> 8 word list \<Rightarrow> 8 word list" where
  "pwrite data pos bs =
     take pos (data @ replicate (pos - length data) 0) @ bs @ drop (pos + length bs) data"

definition OpenFile_ReadAt :: "nat \<Rightarrow> int \<Rightarrow> OpenFile \<Rightarrow> HostFs \<Rightarrow> 8 word list res" where
  "OpenFile_ReadAt numBytes position f fs =
     ASSERT (position \<ge> 0) (Inr (pread (inodes fs (of_inode f)) (nat position) numBytes))"

definition OpenFile_WriteAt :: "8 word list \<Rightarrow> int \<Rightarrow> OpenFile \<Rightarrow> HostFs \<Rightarrow> (int \<times> HostFs) res" where
  "OpenFile_WriteAt bs position f fs =
     ASSERT (position \<ge> 0)
       (Inr (int (length bs),
             fs\<lparr>inodes := (inodes fs)(of_inode f := pwrite (inodes fs (of_inode f)) (nat position) bs)\<rparr>))"

definition OpenFile_Read :: "nat \<Rightarrow> OpenFile \<Rightarrow> HostFs \<Rightarrow> (8 word list \<times> OpenFile) res" where
  "OpenFile_Read numBytes f fs = bindE (OpenFile_ReadAt numBytes (currentOffset f) f fs) (\<lambda>bs.
     Inr (bs, f\<lparr>currentOffset := currentOffset f + int (length bs)\<rparr>))"

definition OpenFile_Write :: "8 word list \<Rightarrow> OpenFile \<Rightarrow> HostFs \<Rightarrow> (int \<times> OpenFile \<times> HostFs) res" where
  "OpenFile_Write bs f fs = bindE (OpenFile_WriteAt bs (currentOffset f) f fs) (\<lambda>(n, fs').
     Inr (n, f\<lparr>currentOffset := currentOffset f + n\<rparr>, fs'))"

definition OpenFile_Length :: "OpenFile \<Rightarrow> HostFs \<Rightarrow> int" where
  "OpenFile_Length f fs = int (length (inodes fs (of_inode f)))"

text \<open>
  \<^verbatim>\<open>OpenForWrite\<close> creates the file or empties it; \<^verbatim>\<open>OpenForReadWrite\<close> opens an existing one;
  \<^verbatim>\<open>Unlink\<close> removes the name and leaves open descriptors alone.
\<close>

definition OpenForWrite :: "string \<Rightarrow> HostFs \<Rightarrow> nat \<times> HostFs" where
  "OpenForWrite name fs =
     (case names fs name of
        Some i \<Rightarrow> (i, fs\<lparr>inodes := (inodes fs)(i := [])\<rparr>)
      | None \<Rightarrow> (let i = next_inode fs in
          (i, fs\<lparr>inodes := (inodes fs)(i := []), names := (names fs)(name \<mapsto> i), next_inode := Suc i\<rparr>)))"

definition FileSystem_Create :: "string \<Rightarrow> int \<Rightarrow> HostFs \<Rightarrow> bool \<times> HostFs" where
  "FileSystem_Create name initialSize fs = (True, snd (OpenForWrite name fs))"

definition FileSystem_Open :: "string \<Rightarrow> HostFs \<Rightarrow> OpenFile option" where
  "FileSystem_Open name fs = map_option (\<lambda>i. \<lparr>of_inode = i, currentOffset = 0\<rparr>) (names fs name)"

definition FileSystem_Remove :: "string \<Rightarrow> HostFs \<Rightarrow> bool \<times> HostFs" where
  "FileSystem_Remove name fs = (names fs name \<noteq> None, fs\<lparr>names := (names fs)(name := None)\<rparr>)"

section \<open>Reading what was written\<close>

lemma length_pwrite: "length (pwrite data pos bs) = max (length data) (pos + length bs)"
  by (simp add: pwrite_def)

lemma pread_pwrite_same [simp]: "pread (pwrite data pos bs) pos (length bs) = bs"
proof -
  have "length (take pos (data @ replicate (pos - length data) 0)) = pos" by simp
  then show ?thesis by (simp add: pread_def pwrite_def)
qed

lemma nth_pwrite:
  "i < length data \<Longrightarrow> i < pos \<or> pos + length bs \<le> i \<Longrightarrow> pwrite data pos bs ! i = data ! i"
  by (auto simp: pwrite_def nth_append)

lemma pread_pwrite_other:
  assumes "p + n \<le> length data" and "p + n \<le> pos \<or> pos + length bs \<le> p"
  shows "pread (pwrite data pos bs) p n = pread data p n"
  using assms by (intro nth_equalityI) (auto simp: pread_def length_pwrite nth_pwrite)

lemma length_pread: "p + n \<le> length data \<Longrightarrow> length (pread data p n) = n"
  by (simp add: pread_def)

text \<open>
  Files of the stub layer. Bytes written at a position are read back there, the file
  grows to hold them, and every byte that was in the file outside the written range stays.
\<close>

theorem stub_write_read:
  assumes "position \<ge> 0"
  shows "\<exists>fs'. OpenFile_WriteAt bs position f fs = Inr (int (length bs), fs') \<and>
    OpenFile_ReadAt (length bs) position f fs' = Inr bs \<and>
    OpenFile_Length f fs' = max (OpenFile_Length f fs) (position + int (length bs)) \<and>
    (\<forall>i. 0 \<le> i \<and> i < OpenFile_Length f fs \<and> (i < position \<or> position + int (length bs) \<le> i) \<longrightarrow>
       OpenFile_ReadAt 1 i f fs' = OpenFile_ReadAt 1 i f fs)"
proof -
  have "pread (pwrite data (nat position) bs) (nat i) 1 = pread data (nat i) 1"
    if "0 \<le> i" "i < int (length data)" "i < position \<or> position + int (length bs) \<le> i" for data i
    using that assms by (intro pread_pwrite_other) auto
  then show ?thesis
    using assms by (auto simp: OpenFile_WriteAt_def OpenFile_ReadAt_def OpenFile_Length_def length_pwrite)
qed

theorem stub_write_read_witness:
  "\<exists>fs'. OpenFile_WriteAt [1, 2] 3 \<lparr>of_inode = 0, currentOffset = 0\<rparr>
       \<lparr>inodes = (\<lambda>_. [9]), names = Map.empty, next_inode = 1\<rparr> = Inr (2, fs') \<and>
     OpenFile_ReadAt 2 3 \<lparr>of_inode = 0, currentOffset = 0\<rparr> fs' = Inr [1, 2]"
  using stub_write_read [of 3 "[1, 2]" "\<lparr>of_inode = 0, currentOffset = 0\<rparr>"
      "\<lparr>inodes = (\<lambda>_. [9]), names = Map.empty, next_inode = 1\<rparr>"]
  by (auto simp: numeral_2_eq_2)

end
