(* ===== verification/AddrSpace.thy ===== *)
theory AddrSpace
  imports Machine MemManage HostFile
begin

text \<open>
  Demand-paged address spaces: \<^verbatim>\<open>userprog/addrspace.{h,cc}\<close> and the backing store of
  \<^verbatim>\<open>userprog/backingstore.{h,cc}\<close>, over the machine, the page allocator and the host files.
  An address space is a record; its page table is an array of the machine's store, since
  the hardware sets use and dirty bits in it. Values that the source leaves uninitialised
  (\<^verbatim>\<open>clock_hand\<close>, the bytes of the header that a short file does not supply) are arguments.
\<close>

section \<open>State\<close>

record VM = Machine +
  memmanage :: MemoryManager
  host :: HostFs
  pt_next :: nat
  use_fifo :: bool

record Segment =
  virtualAddr :: "32 word"
  inFileAddr :: "32 word"
  seg_size :: "32 word"

record NoffHeader =
  noffMagic :: "32 word"
  code :: Segment
  initData :: Segment
  uninitData :: Segment

definition NOFFMAGIC :: "32 word" where "NOFFMAGIC = 0xbadfad"
definition UserStackSize :: "32 word" where "UserStackSize = 1024"

record BackingStore =
  bs_fname :: string
  bs_file :: "OpenFile option"

record AddrSpace =
  clock_hand :: "32 word"
  backing :: BackingStore
  stored_executable :: OpenFile
  as_pageTable :: nat
  numPages :: "32 word"

section \<open>The page table of a space\<close>

definition get_pte :: "AddrSpace \<Rightarrow> int \<Rightarrow> 'a VM_scheme \<Rightarrow> TranslationEntry res" where
  "get_pte sp i s =
     (case pageTables s (as_pageTable sp) of None \<Rightarrow> Inl BadPointer
      | Some es \<Rightarrow> if 0 \<le> i \<and> nat i < length es then Inr (es ! nat i) else Inl OutOfBounds)"

definition set_pte :: "AddrSpace \<Rightarrow> int \<Rightarrow> TranslationEntry \<Rightarrow> 'a VM_scheme \<Rightarrow> 'a VM_scheme" where
  "set_pte sp i e s = s\<lparr>pageTables := (pageTables s)(as_pageTable sp :=
     map_option (\<lambda>es. es[nat i := e]) (pageTables s (as_pageTable sp)))\<rparr>"

text \<open>\<^verbatim>\<open>&machine->mainMemory[frame * PageSize]\<close>, \<^verbatim>\<open>PageSize\<close> bytes of it read or (at most) overwritten.\<close>

definition read_frame :: "32 word \<Rightarrow> 'a VM_scheme \<Rightarrow> 8 word list res" where
  "read_frame f s =
     (if 0 \<le> sint f \<and> unat f * PageSize + PageSize \<le> length (mainMemory s)
      then Inr (take PageSize (drop (unat f * PageSize) (mainMemory s))) else Inl OutOfBounds)"

definition write_frame :: "32 word \<Rightarrow> 8 word list \<Rightarrow> 'a VM_scheme \<Rightarrow> 'a VM_scheme res" where
  "write_frame f bs s =
     (if 0 \<le> sint f \<and> unat f * PageSize + length bs \<le> length (mainMemory s)
      then Inr (s\<lparr>mainMemory := poke (unat f * PageSize) bs (mainMemory s)\<rparr>) else Inl OutOfBounds)"

definition alloc_page :: "'a VM_scheme \<Rightarrow> (int \<times> 'a VM_scheme) res" where
  "alloc_page s = bindE (AllocPage (memmanage s)) (\<lambda>(i, mm). Inr (i, s\<lparr>memmanage := mm\<rparr>))"

definition free_page :: "int \<Rightarrow> 'a VM_scheme \<Rightarrow> 'a VM_scheme res" where
  "free_page i s = bindE (FreePage i (memmanage s)) (\<lambda>mm. Inr (s\<lparr>memmanage := mm\<rparr>))"

section \<open>backingstore.cc\<close>

fun digits :: "nat \<Rightarrow> string" where
  "digits n = (if n < 10 then [char_of (48 + n)] else digits (n div 10) @ [char_of (48 + n mod 10)])"

declare digits.simps [simp del]

definition BackingStore_BackingStore :: "32 word \<Rightarrow> HostFs \<Rightarrow> BackingStore \<times> HostFs" where
  "BackingStore_BackingStore start_size fs =
     (let fname = ''bs'' @ digits (unat start_size);
          (_, fs1) = FileSystem_Create fname (sint start_size) fs
      in (\<lparr>bs_fname = fname, bs_file = FileSystem_Open fname fs1\<rparr>, fs1))"

definition with_file :: "BackingStore \<Rightarrow> (OpenFile \<Rightarrow> 'b res) \<Rightarrow> 'b res" where
  "with_file b k = (case bs_file b of None \<Rightarrow> Inl BadPointer | Some f \<Rightarrow> k f)"

text \<open>\<open>i\<close> is the index of the entry that the argument \<^verbatim>\<open>pte\<close> points to.\<close>

definition PageOut :: "AddrSpace \<Rightarrow> int \<Rightarrow> 'a VM_scheme \<Rightarrow> 'a VM_scheme res" where
  "PageOut sp i s =
     bindE (get_pte sp i s) (\<lambda>pte.
     let s1 = set_pte sp i (pte\<lparr>valid := False\<rparr>) s in
     bindE (if dirty pte then
              bindE (read_frame (physicalPage pte) s1) (\<lambda>bs. with_file (backing sp) (\<lambda>f.
              bindE (OpenFile_WriteAt bs (sint (virtualPage pte * word_of_nat PageSize)) f (host s1)) (\<lambda>(_, fs).
              Inr (s1\<lparr>host := fs, stats := (stats s1)\<lparr>numPageOuts := numPageOuts (stats s1) + 1\<rparr>\<rparr>))))
            else Inr s1)
       (free_page (sint (physicalPage pte))))"

definition PageIn :: "AddrSpace \<Rightarrow> int \<Rightarrow> 'a VM_scheme \<Rightarrow> 'a VM_scheme res" where
  "PageIn sp i s =
     bindE (get_pte sp i s) (\<lambda>pte.
     let s1 = (set_pte sp i (pte\<lparr>valid := True\<rparr>) s)
                \<lparr>stats := (stats s)\<lparr>numPageIns := numPageIns (stats s) + 1\<rparr>\<rparr> in
     with_file (backing sp) (\<lambda>f.
     bindE (OpenFile_ReadAt PageSize (sint (virtualPage pte * word_of_nat PageSize)) f (host s1)) (\<lambda>bs.
     bindE (write_frame (physicalPage pte) bs s1) (\<lambda>s2.
     Inr (set_pte sp i (pte\<lparr>valid := True, dirty := False\<rparr>) s2)))))"

definition BackingStore_destroy :: "BackingStore \<Rightarrow> HostFs \<Rightarrow> HostFs" where
  "BackingStore_destroy b fs = snd (FileSystem_Remove (bs_fname b) fs)"

section \<open>addrspace.cc\<close>

text \<open>The object-file header: ten integers, in the byte order of the host.\<close>

definition header_of :: "bool \<Rightarrow> 8 word list \<Rightarrow> NoffHeader" where
  "header_of big bs =
     (let w = (\<lambda>k. host_load32 big bs (4 * k));
          seg = (\<lambda>k. \<lparr>virtualAddr = w k, inFileAddr = w (k + 1), seg_size = w (k + 2)\<rparr>)
      in \<lparr>noffMagic = w 0, code = seg 1, initData = seg 4, uninitData = seg 7\<rparr>)"

definition swap_segment :: "bool \<Rightarrow> Segment \<Rightarrow> Segment" where
  "swap_segment big g = \<lparr>virtualAddr = WordToHost big (virtualAddr g),
     inFileAddr = WordToHost big (inFileAddr g), seg_size = WordToHost big (seg_size g)\<rparr>"

definition SwapHeader :: "bool \<Rightarrow> NoffHeader \<Rightarrow> NoffHeader" where
  "SwapHeader big h = \<lparr>noffMagic = WordToHost big (noffMagic h), code = swap_segment big (code h),
     initData = swap_segment big (initData h), uninitData = swap_segment big (uninitData h)\<rparr>"

text \<open>
  Reading the header, as \<^verbatim>\<open>Initialize\<close> and \<^verbatim>\<open>demandpage\<close> both do; \<open>junk\<close> is what the 40 bytes of
  the local variable held.
\<close>

definition read_header :: "bool \<Rightarrow> 8 word list \<Rightarrow> OpenFile \<Rightarrow> HostFs \<Rightarrow> NoffHeader res" where
  "read_header big junk exe fs =
     bindE (OpenFile_ReadAt 40 0 exe fs) (\<lambda>bs.
     let h = header_of big (poke 0 bs junk);
         h' = (if noffMagic h \<noteq> NOFFMAGIC \<and> WordToHost big (noffMagic h) = NOFFMAGIC
               then SwapHeader big h else h)
     in ASSERT (noffMagic h' = NOFFMAGIC) (Inr h'))"

definition fresh_pte :: "nat \<Rightarrow> TranslationEntry" where
  "fresh_pte i = \<lparr>virtualPage = word_of_nat i, physicalPage = - 1, valid = False, readOnly = False,
     use = False, dirty = False\<rparr>"

definition Initialize :: "bool \<Rightarrow> 8 word list \<Rightarrow> 32 word \<Rightarrow> OpenFile \<Rightarrow> 'a VM_scheme \<Rightarrow>
    (AddrSpace \<times> 'a VM_scheme) res" where
  "Initialize big junk hand0 executable s =
     bindE (read_header big junk executable (host s)) (\<lambda>noffH.
     let sz = seg_size (code noffH) + seg_size (initData noffH) + seg_size (uninitData noffH) + UserStackSize;
         n = word_of_int (divRoundUp (uint sz) (int PageSize)) :: 32 word;
         (b, fs) = BackingStore_BackingStore (n * word_of_nat PageSize) (host s);
         p = pt_next s
     in Inr (\<lparr>clock_hand = hand0, backing = b, stored_executable = executable, as_pageTable = p, numPages = n\<rparr>,
             s\<lparr>host := fs, pt_next := Suc p,
               pageTables := (pageTables s)(p \<mapsto> map fresh_pte [0..<unat n])\<rparr>))"

definition InitRegisters :: "AddrSpace \<Rightarrow> 'a VM_scheme \<Rightarrow> 'a VM_scheme res" where
  "InitRegisters sp s =
     bindE (foldE (\<lambda>i. WriteRegister i 0) (range_int (int NumTotalRegs)) s) (\<lambda>s1.
     bindE (WriteRegister (int PCReg) 0 s1) (\<lambda>s2.
     bindE (WriteRegister (int NextPCReg) 4 s2)
       (WriteRegister (int StackReg) (numPages sp * word_of_nat PageSize - 16))))"

definition SaveState :: "AddrSpace \<Rightarrow> 'a VM_scheme \<Rightarrow> 'a VM_scheme" where
  "SaveState sp s = s"

definition RestoreState :: "AddrSpace \<Rightarrow> 'a VM_scheme \<Rightarrow> 'a VM_scheme" where
  "RestoreState sp s = s\<lparr>pageTable := Some (as_pageTable sp), pageTableSize := numPages sp\<rparr>"

definition ClearState :: "AddrSpace \<Rightarrow> 'a VM_scheme \<Rightarrow> 'a VM_scheme res" where
  "ClearState sp =
     foldE (\<lambda>page s. bindE (get_pte sp page s) (\<lambda>pte.
       if valid pte \<and> sint (physicalPage pte) \<ge> 0 then free_page (sint (physicalPage pte)) s else Inr s))
       (range_int (uint (numPages sp)))"

text \<open>
  \<^verbatim>\<open>ClearPage\<close>, the clock algorithm: \<^verbatim>\<open>for (;;)\<close> until a victim is found. One turn of the loop
  says whether it returned.
\<close>

definition clock_step :: "AddrSpace \<Rightarrow> 'a VM_scheme \<Rightarrow> (bool \<times> AddrSpace \<times> 'a VM_scheme) res" where
  "clock_step sp s =
     (let h = sint (clock_hand sp) in
      bindE (get_pte sp h s) (\<lambda>pte.
      if valid pte \<and> (\<not> use pte \<or> use_fifo s) \<and> sint (physicalPage pte) \<ge> 0
      then bindE (PageOut sp h s) (\<lambda>s1. Inr (True, sp, s1))
      else let s1 = set_pte sp h (pte\<lparr>use := False\<rparr>) s
           in if numPages sp = 0 then Inl ArithmeticTrap
              else Inr (False, sp\<lparr>clock_hand := (clock_hand sp + 1) mod numPages sp\<rparr>, s1)))"

partial_function (option) ClearPage :: "AddrSpace \<Rightarrow> 'a VM_scheme \<Rightarrow> (AddrSpace \<times> 'a VM_scheme) res option" where
  "ClearPage sp s =
     (case clock_step sp s of
        Inl e \<Rightarrow> Some (Inl e)
      | Inr (stop, sp', s') \<Rightarrow> if stop then Some (Inr (sp', s')) else ClearPage sp' s')"

text \<open>\<^verbatim>\<open>pageTable[page_num].physicalPage = memmanage->AllocPage()\<close>, and the test of its sign.\<close>

definition take_frame :: "int \<Rightarrow> AddrSpace \<Rightarrow> 'a VM_scheme \<Rightarrow> (bool \<times> 'a VM_scheme) res" where
  "take_frame page_num sp s =
     bindE (alloc_page s) (\<lambda>(i, s1).
     bindE (get_pte sp page_num s1) (\<lambda>pte.
     Inr (i \<ge> 0, set_pte sp page_num (pte\<lparr>physicalPage := word_of_int i\<rparr>) s1)))"

text \<open>\<^verbatim>\<open>ClearPage()\<close> and another try, when there is no frame yet.\<close>

definition retry_frame :: "int \<Rightarrow> bool \<times> AddrSpace \<times> 'a VM_scheme \<Rightarrow>
    (bool \<times> AddrSpace \<times> 'a VM_scheme) res option" where
  "retry_frame page_num = (\<lambda>(got, sp, s).
     if got then Some (Inr (True, sp, s))
     else map_option (\<lambda>r. bindE r (\<lambda>(sp1, s1).
            bindE (take_frame page_num sp1 s1) (\<lambda>(got, s2). Inr (got, sp1, s2)))) (ClearPage sp s))"

definition bindO :: "'b res option \<Rightarrow> ('b \<Rightarrow> 'c res option) \<Rightarrow> 'c res option" where
  "bindO m k = (case m of None \<Rightarrow> None | Some (Inl e) \<Rightarrow> Some (Inl e) | Some (Inr x) \<Rightarrow> k x)"

text \<open>Filling a page for the first time: from the code or data segment, or with zeros.\<close>

definition in_segment :: "Segment \<Rightarrow> 32 word \<Rightarrow> bool" where
  "in_segment g page_addr \<longleftrightarrow>
     sint (virtualAddr g) \<le> sint page_addr \<and> sint (virtualAddr g + seg_size g) > sint page_addr"

definition fill_page :: "NoffHeader \<Rightarrow> int \<Rightarrow> AddrSpace \<Rightarrow> 'a VM_scheme \<Rightarrow> 'a VM_scheme res" where
  "fill_page noffH page_num sp s =
     bindE (get_pte sp page_num s) (\<lambda>pte.
     let page_addr = word_of_int page_num * word_of_nat PageSize;
         load = (\<lambda>g. bindE (OpenFile_ReadAt PageSize (sint (inFileAddr g + (page_addr - virtualAddr g)))
                              (stored_executable sp) (host s)) (\<lambda>bs.
                     bindE (write_frame (physicalPage pte) bs s) (\<lambda>s1.
                     Inr (s1\<lparr>stats := (stats s1)\<lparr>numPageIns := numPageIns (stats s1) + 1\<rparr>\<rparr>))))
     in if in_segment (code noffH) page_addr then load (code noffH)
        else if in_segment (initData noffH) page_addr then load (initData noffH)
        else write_frame (physicalPage pte) (replicate PageSize 0) s)"

definition demandpage :: "bool \<Rightarrow> 8 word list \<Rightarrow> int \<Rightarrow> AddrSpace \<Rightarrow> 'a VM_scheme \<Rightarrow>
    (bool \<times> AddrSpace \<times> 'a VM_scheme) res option" where
  "demandpage big junk page_num sp s =
     bindO (Some (get_pte sp page_num s)) (\<lambda>pte.
     if sint (physicalPage pte) \<ge> 0 then
       bindO (Some (bindE (take_frame page_num sp (set_pte sp page_num (pte\<lparr>valid := False\<rparr>) s))
                      (\<lambda>(got, s1). Inr (got, sp, s1)))) (\<lambda>t1.
       bindO (retry_frame page_num t1) (\<lambda>t2.
       bindO (retry_frame page_num t2) (\<lambda>(got, sp', s').
       Some (ASSERT got (bindE (PageIn sp' page_num s') (\<lambda>s''. Inr (True, sp', s'')))))))
     else
       bindO (Some (read_header big junk (stored_executable sp) (host s))) (\<lambda>noffH.
       bindO (Some (bindE (take_frame page_num sp s) (\<lambda>(got, s1). Inr (got, sp, s1)))) (\<lambda>t1.
       bindO (retry_frame page_num t1) (\<lambda>(got, sp', s').
       Some (if \<not> got then Inr (False, sp', s')
             else bindE (fill_page noffH page_num sp' s') (\<lambda>s1.
                  bindE (get_pte sp' page_num s1) (\<lambda>pte'.
                  Inr (True, sp', set_pte sp' page_num (pte'\<lparr>dirty := True, valid := True\<rparr>) s1))))))))"

text \<open>The destructor drops the page table and removes the backing file.\<close>

definition AddrSpace_destroy :: "AddrSpace \<Rightarrow> 'a VM_scheme \<Rightarrow> 'a VM_scheme" where
  "AddrSpace_destroy sp s =
     s\<lparr>pageTables := (pageTables s)(as_pageTable sp := None), host := BackingStore_destroy (backing sp) (host s)\<rparr>"

end
