(* ===== verification/Paging.thy ===== *)
theory Paging
  imports AddrSpace
begin

text \<open>
  Correctness of demand paging (\<^verbatim>\<open>userprog/addrspace.cc\<close>, \<^verbatim>\<open>userprog/backingstore.cc\<close>). The
  contents of a page are a function of where the page is: in a frame, in the backing file, or
  nowhere yet. The invariant \<open>space_ok X\<close> relates page table, allocator and file, for a space
  whose pages \<open>X\<close> are in the middle of a fault. The clock search terminates by a measure, an
  eviction and a page-in keep the contents of every page, and the theorems on \<^verbatim>\<open>demandpage\<close>,
  \<^verbatim>\<open>Initialize\<close> and \<^verbatim>\<open>ClearState\<close> follow.
\<close>

section \<open>What a page holds\<close>

text \<open>Frame and page numbers stay in the form \<open>int (unat w)\<close> below.\<close>

declare of_nat_unat [simp del]

text \<open>The table of a space, the file behind it, the number of pages, a frame's bytes.\<close>

definition tbl :: "AddrSpace \<Rightarrow> 'a VM_scheme \<Rightarrow> TranslationEntry list" where
  "tbl sp s = the (pageTables s (as_pageTable sp))"

definition swap_file :: "AddrSpace \<Rightarrow> 'a VM_scheme \<Rightarrow> 8 word list" where
  "swap_file sp s = inodes (host s) (of_inode (the (bs_file (backing sp))))"

abbreviation npages :: "AddrSpace \<Rightarrow> nat" where
  "npages sp \<equiv> unat (numPages sp)"

definition frame_bytes :: "nat \<Rightarrow> 'a VM_scheme \<Rightarrow> 8 word list" where
  "frame_bytes f s = take PageSize (drop (f * PageSize) (mainMemory s))"

abbreviation frame_of :: "TranslationEntry \<Rightarrow> nat" where
  "frame_of e \<equiv> unat (physicalPage e)"

text \<open>
  The contents of page \<open>i\<close>: of its frame when it is resident, of the backing file when it
  was paged out, and nothing yet when it was never loaded.
\<close>

definition page_data :: "AddrSpace \<Rightarrow> 'a VM_scheme \<Rightarrow> nat \<Rightarrow> 8 word list option" where
  "page_data sp s i =
     (let e = tbl sp s ! i in
      if valid e then Some (frame_bytes (frame_of e) s)
      else if sint (physicalPage e) \<ge> 0 then Some (pread (swap_file sp s) (i * PageSize) PageSize)
      else None)"

definition resident :: "AddrSpace \<Rightarrow> 'a VM_scheme \<Rightarrow> nat set" where
  "resident sp s = {i. i < npages sp \<and> valid (tbl sp s ! i)}"

definition own_frames :: "AddrSpace \<Rightarrow> 'a VM_scheme \<Rightarrow> nat set" where
  "own_frames sp s = (\<lambda>i. frame_of (tbl sp s ! i)) ` resident sp s"

text \<open>
  The entry of page \<open>i\<close> is consistent: a resident page has a frame that is marked in use, a
  page that was loaded and is not modified (or not resident) has its bytes in the file.
\<close>

definition pte_ok :: "AddrSpace \<Rightarrow> 'a VM_scheme \<Rightarrow> nat \<Rightarrow> bool" where
  "pte_ok sp s i \<longleftrightarrow>
     (let e = tbl sp s ! i in
      (valid e \<longrightarrow> frame_of e < NumPhysPages \<and> int (frame_of e) \<in> pages_in_use (memmanage s)) \<and>
      (sint (physicalPage e) \<ge> 0 \<and> (\<not> valid e \<or> \<not> dirty e) \<longrightarrow>
         (i + 1) * PageSize \<le> length (swap_file sp s)) \<and>
      (valid e \<and> \<not> dirty e \<longrightarrow> frame_bytes (frame_of e) s = pread (swap_file sp s) (i * PageSize) PageSize))"

text \<open>
  The space is well-formed, except that the pages of \<open>X\<close> are in the middle of a fault: not
  resident, with an entry that does not yet say where their contents are.
\<close>

definition space_shape :: "AddrSpace \<Rightarrow> 'a VM_scheme \<Rightarrow> bool" where
  "space_shape sp s \<longleftrightarrow>
     pageTables s (as_pageTable sp) \<noteq> None \<and> length (tbl sp s) = npages sp \<and>
     0 < npages sp \<and> npages sp * PageSize < 2 ^ 31 \<and>
     mm_inv (memmanage s) \<and> mNumPages (memmanage s) = int NumPhysPages \<and>
     length (mainMemory s) = MemorySize \<and>
     bs_file (backing sp) \<noteq> None \<and>
     of_inode (the (bs_file (backing sp))) \<noteq> of_inode (stored_executable sp) \<and>
     (\<forall>i < npages sp. virtualPage (tbl sp s ! i) = word_of_nat i)"

definition space_ok :: "nat set \<Rightarrow> AddrSpace \<Rightarrow> 'a VM_scheme \<Rightarrow> bool" where
  "space_ok X sp s \<longleftrightarrow> space_shape sp s \<and>
     (\<forall>i < npages sp. if i \<in> X then \<not> valid (tbl sp s ! i) else pte_ok sp s i) \<and>
     inj_on (\<lambda>i. frame_of (tbl sp s ! i)) (resident sp s)"

text \<open>
  The clock hand is an index of the table. \<^verbatim>\<open>Initialize\<close> leaves the hand as the memory was, so this is
  not part of the invariant; it matters only for the search for a victim.
\<close>

abbreviation hand_ok :: "AddrSpace \<Rightarrow> bool" where
  "hand_ok sp \<equiv> unat (clock_hand sp) < npages sp"

text \<open>Two descriptors of one space, which differ at most in the clock hand.\<close>

definition same_space :: "AddrSpace \<Rightarrow> AddrSpace \<Rightarrow> bool" where
  "same_space sp sp' \<longleftrightarrow> sp' = sp\<lparr>clock_hand := clock_hand sp'\<rparr>"

lemma same_space_refl [simp]: "same_space sp sp"
  by (simp add: same_space_def)

lemma same_space_fields:
  "same_space sp sp' \<Longrightarrow> as_pageTable sp' = as_pageTable sp \<and> numPages sp' = numPages sp \<and>
     backing sp' = backing sp \<and> stored_executable sp' = stored_executable sp"
  unfolding same_space_def by (metis AddrSpace.select_convs(2-5) AddrSpace.surjective AddrSpace.update_convs(1))

lemma same_space_trans: "same_space a b \<Longrightarrow> same_space b c \<Longrightarrow> same_space a c"
  unfolding same_space_def by (metis AddrSpace.surjective AddrSpace.update_convs(1))

lemma same_space_hand [simp]: "same_space sp (sp\<lparr>clock_hand := h\<rparr>)"
  by (simp add: same_space_def)

lemma tbl_same_space: "same_space sp sp' \<Longrightarrow> tbl sp' s = tbl sp s"
  "same_space sp sp' \<Longrightarrow> swap_file sp' s = swap_file sp s"
  "same_space sp sp' \<Longrightarrow> page_data sp' s i = page_data sp s i"
  by (auto dest!: same_space_fields simp: tbl_def swap_file_def page_data_def Let_def)

section \<open>The primitive steps\<close>

lemma shape_get_pte:
  "space_shape sp s \<Longrightarrow> i < npages sp \<Longrightarrow> get_pte sp (int i) s = Inr (tbl sp s ! i)"
  by (auto simp: space_shape_def get_pte_def tbl_def)

lemma tbl_set_pte:
  "pageTables s (as_pageTable sp) \<noteq> None \<Longrightarrow> tbl sp (set_pte sp (int i) e s) = (tbl sp s)[i := e]"
  by (auto simp: tbl_def set_pte_def)

lemma set_pte_frame [simp]:
  "mainMemory (set_pte sp i e s) = mainMemory s" "host (set_pte sp i e s) = host s"
  "memmanage (set_pte sp i e s) = memmanage s" "stats (set_pte sp i e s) = stats s"
  "use_fifo (set_pte sp i e s) = use_fifo s" "registers (set_pte sp i e s) = registers s"
  "pageTable (set_pte sp i e s) = pageTable s" "tlb (set_pte sp i e s) = tlb s"
  "pageTableSize (set_pte sp i e s) = pageTableSize s" "pt_next (set_pte sp i e s) = pt_next s"
  by (simp_all add: set_pte_def)

lemma set_pte_table [simp]:
  "pageTables (set_pte sp i e s) (as_pageTable sp) \<noteq> None \<longleftrightarrow> pageTables s (as_pageTable sp) \<noteq> None"
  "p \<noteq> as_pageTable sp \<Longrightarrow> pageTables (set_pte sp i e s) p = pageTables s p"
  by (auto simp: set_pte_def)

lemma sint_of_nat_small: "n < 2 ^ 31 \<Longrightarrow> sint (word_of_nat n :: 32 word) = int n"
  by (subst sint_small) (simp_all add: unat_of_nat)

lemma page_address:
  assumes "space_shape sp s" and "i < npages sp"
  shows "sint (word_of_nat i * word_of_nat PageSize :: 32 word) = int (i * PageSize)"
proof -
  have "i * PageSize < npages sp * PageSize" using assms(2) by (simp add: size_defs)
  moreover have "npages sp * PageSize < 2 ^ 31" using assms(1) by (simp add: space_shape_def)
  ultimately have lt: "i * PageSize < 2 ^ 31" by (rule less_trans)
  show ?thesis using sint_of_nat_small [OF lt] by (simp only: of_nat_mult)
qed

lemma read_frame_ok:
  "space_shape sp s \<Longrightarrow> unat f < NumPhysPages \<Longrightarrow> read_frame f s = Inr (frame_bytes (unat f) s)"
  by (simp add: read_frame_def frame_bytes_def space_shape_def size_defs sint_small)

lemma frame_sint: "unat (w :: 32 word) < NumPhysPages \<Longrightarrow> 0 \<le> sint w"
  by (simp add: sint_small size_defs)

lemma frame_range: "f < NumPhysPages \<Longrightarrow> f * PageSize + PageSize \<le> MemorySize"
  by (simp add: size_defs)

lemma length_frame_bytes: "length (mainMemory s) = MemorySize \<Longrightarrow> f < NumPhysPages \<Longrightarrow> length (frame_bytes f s) = PageSize"
  by (simp add: frame_bytes_def size_defs)

lemma write_frame_ok:
  assumes "space_shape sp s" and "unat f < NumPhysPages" and "length bs \<le> PageSize"
  shows "\<exists>s'. write_frame f bs s = Inr s' \<and> s' = s\<lparr>mainMemory := poke (unat f * PageSize) bs (mainMemory s)\<rparr> \<and>
    length (mainMemory s') = MemorySize \<and>
    frame_bytes (unat f) s' = bs @ drop (length bs) (frame_bytes (unat f) s) \<and>
    (\<forall>g < NumPhysPages. g \<noteq> unat f \<longrightarrow> frame_bytes g s' = frame_bytes g s)"
proof -
  have len: "length (mainMemory s) = MemorySize" using assms(1) by (simp add: space_shape_def)
  have r: "unat f * PageSize + length bs \<le> length (mainMemory s)"
    using frame_range [OF assms(2)] assms(3) len by linarith
  have w: "write_frame f bs s = Inr (s\<lparr>mainMemory := poke (unat f * PageSize) bs (mainMemory s)\<rparr>)"
    using r assms(2) by (simp add: write_frame_def sint_small size_defs)
  have other: "take PageSize (drop (g * PageSize) (poke (unat f * PageSize) bs (mainMemory s))) =
      take PageSize (drop (g * PageSize) (mainMemory s))" if g: "g < NumPhysPages" "g \<noteq> unat f" for g
  proof (rule take_drop_poke_other)
    consider "Suc g \<le> unat f" | "Suc (unat f) \<le> g" using g(2) by linarith
    then show "g * PageSize + PageSize \<le> unat f * PageSize \<or> unat f * PageSize + length bs \<le> g * PageSize"
      using assms(3) by cases (auto simp: size_defs)
  qed (use r frame_range [OF g(1)] len in auto)
  have "take PageSize (drop (unat f * PageSize) (poke (unat f * PageSize) bs (mainMemory s))) =
      bs @ drop (length bs) (take PageSize (drop (unat f * PageSize) (mainMemory s)))"
    using r assms(3) by (simp add: poke_def add.commute drop_take)
  with w other r len show ?thesis by (auto simp: frame_bytes_def)
qed

lemma space_shape_set_pte [simp]:
  assumes "space_shape sp s" and "virtualPage e = word_of_nat i"
  shows "space_shape sp (set_pte sp (int i) e s)"
proof -
  have t: "pageTables s (as_pageTable sp) \<noteq> None" using assms(1) by (simp add: space_shape_def)
  have "virtualPage ((tbl sp s)[i := e] ! j) = word_of_nat j" if "j < npages sp" for j
    using that assms by (cases "j = i") (simp_all add: space_shape_def)
  moreover have "pageTables (set_pte sp (int i) e s) (as_pageTable sp) \<noteq> None"
    using t set_pte_table(1) by blast
  ultimately show ?thesis
    using assms(1) unfolding space_shape_def tbl_set_pte [OF t] by (simp only: set_pte_frame length_list_update) blast
qed

lemma space_shape_cong:
  "space_shape sp s \<Longrightarrow> pageTables s' = pageTables s \<Longrightarrow> mm_inv (memmanage s') \<Longrightarrow>
   mNumPages (memmanage s') = mNumPages (memmanage s) \<Longrightarrow> length (mainMemory s') = length (mainMemory s) \<Longrightarrow>
   space_shape sp s'"
  by (simp add: space_shape_def tbl_def)

lemma free_page_ok:
  assumes "space_shape sp s" and "f < NumPhysPages"
  shows "\<exists>mm. free_page (int f) s = Inr (s\<lparr>memmanage := mm\<rparr>) \<and> space_shape sp (s\<lparr>memmanage := mm\<rparr>) \<and>
    pages_in_use mm = pages_in_use (memmanage s) - {int f}"
proof -
  have m: "mm_inv (memmanage s)" "mNumPages (memmanage s) = int NumPhysPages"
    using assms(1) by (simp_all add: space_shape_def)
  obtain mm where mm: "FreePage (int f) (memmanage s) = Inr mm" "mm_inv mm"
      "mNumPages mm = mNumPages (memmanage s)" "pages_in_use mm = pages_in_use (memmanage s) - {int f}"
    using mmgr.clear_taken [OF m(1), of "int f"] assms(2) m(2) by auto
  then have "space_shape sp (s\<lparr>memmanage := mm\<rparr>)"
    by (intro space_shape_cong [OF assms(1)]) simp_all
  with mm show ?thesis by (auto simp: free_page_def)
qed

lemma alloc_page_ok:
  assumes "space_shape sp s"
  shows "\<exists>r mm. alloc_page s = Inr (r, s\<lparr>memmanage := mm\<rparr>) \<and> space_shape sp (s\<lparr>memmanage := mm\<rparr>) \<and>
    (if {0..<int NumPhysPages} \<subseteq> pages_in_use (memmanage s) then r = - 1 \<and> mm = memmanage s
     else 0 \<le> r \<and> r < int NumPhysPages \<and> r \<notin> pages_in_use (memmanage s) \<and>
       pages_in_use mm = insert r (pages_in_use (memmanage s)))"
proof -
  have m: "mm_inv (memmanage s)" "mNumPages (memmanage s) = int NumPhysPages"
    using assms(1) by (simp_all add: space_shape_def)
  show ?thesis
  proof (cases "{0..<int NumPhysPages} \<subseteq> pages_in_use (memmanage s)")
    case True
    then have "AllocPage (memmanage s) = Inr (- 1, memmanage s)"
      using mmgr.find_full [OF m(1)] m(2) by simp
    then show ?thesis using True assms by (auto simp: alloc_page_def)
  next
    case False
    then obtain r mm where "AllocPage (memmanage s) = Inr (r, mm)" "mm_inv mm"
        "mNumPages mm = mNumPages (memmanage s)" "0 \<le> r" "r < int NumPhysPages"
        "r \<notin> pages_in_use (memmanage s)" "pages_in_use mm = insert r (pages_in_use (memmanage s))"
      using mmgr.find_free [OF m(1)] m(2) by auto
    moreover from this have "space_shape sp (s\<lparr>memmanage := mm\<rparr>)"
      by (intro space_shape_cong [OF assms(1)]) simp_all
    ultimately show ?thesis using False by (auto simp: alloc_page_def)
  qed
qed

section \<open>Paging out\<close>

text \<open>
  What an eviction keeps: the contents of every page outside \<open>X\<close>, the file bytes of the pages
  in \<open>X\<close>, physical memory, other tables and other files.
\<close>

definition keeps :: "nat set \<Rightarrow> AddrSpace \<Rightarrow> 'a VM_scheme \<Rightarrow> 'a VM_scheme \<Rightarrow> bool" where
  "keeps X sp s s' \<longleftrightarrow>
     (\<forall>i < npages sp. i \<notin> X \<longrightarrow> page_data sp s' i = page_data sp s i) \<and>
     (\<forall>i < npages sp. (i + 1) * PageSize \<le> length (swap_file sp s) \<and> i \<in> X \<longrightarrow>
        (i + 1) * PageSize \<le> length (swap_file sp s') \<and>
        pread (swap_file sp s') (i * PageSize) PageSize = pread (swap_file sp s) (i * PageSize) PageSize) \<and>
     (\<forall>p. p \<noteq> as_pageTable sp \<longrightarrow> pageTables s' p = pageTables s p) \<and>
     (\<forall>n. n \<noteq> of_inode (the (bs_file (backing sp))) \<longrightarrow> inodes (host s') n = inodes (host s) n) \<and>
     mainMemory s' = mainMemory s \<and> registers s' = registers s \<and> tlb s' = tlb s \<and>
     pageTable s' = pageTable s \<and> pageTableSize s' = pageTableSize s"

lemma page_slots_disjoint: "i \<noteq> j \<Longrightarrow> (j + 1) * PageSize \<le> i * PageSize \<or> i * PageSize + PageSize \<le> j * PageSize"
proof -
  assume "i \<noteq> j"
  then consider "j + 1 \<le> i" | "i + 1 \<le> j" by linarith
  then show ?thesis by cases (auto simp: size_defs)
qed

text \<open>The file after a page is written to its slot, or left because the slot already has it.\<close>

definition slot_written :: "nat \<Rightarrow> 8 word list \<Rightarrow> 8 word list \<Rightarrow> 8 word list \<Rightarrow> bool" where
  "slot_written i bs dat dat' \<longleftrightarrow>
     (i + 1) * PageSize \<le> length dat' \<and> pread dat' (i * PageSize) PageSize = bs \<and>
     (\<forall>j. j \<noteq> i \<and> (j + 1) * PageSize \<le> length dat \<longrightarrow>
        (j + 1) * PageSize \<le> length dat' \<and>
        pread dat' (j * PageSize) PageSize = pread dat (j * PageSize) PageSize)"

lemma slot_written_pwrite:
  assumes "length bs = PageSize"
  shows "slot_written i bs dat (pwrite dat (i * PageSize) bs)"
proof -
  have "pread (pwrite dat (i * PageSize) bs) (j * PageSize) PageSize = pread dat (j * PageSize) PageSize"
    if "j \<noteq> i" "(j + 1) * PageSize \<le> length dat" for j
    using page_slots_disjoint [of i j] that assms by (intro pread_pwrite_other) (auto simp: add.commute)
  then show ?thesis
    using pread_pwrite_same [of dat "i * PageSize" bs] assms
    by (auto simp: slot_written_def length_pwrite)
qed

lemma nat_int_mult: "nat (int a * int b) = a * b"
  by (simp flip: of_nat_mult)

lemma PageOut_eval:
  assumes ok: "space_ok X sp s" and i: "i < npages sp" and v: "valid (tbl sp s ! i)"
  shows "\<exists>s' mm. PageOut sp (int i) s = Inr s' \<and> space_shape sp s' \<and> memmanage s' = mm \<and>
    pages_in_use mm = pages_in_use (memmanage s) - {int (frame_of (tbl sp s ! i))} \<and>
    pageTables s' = pageTables (set_pte sp (int i) ((tbl sp s ! i)\<lparr>valid := False\<rparr>) s) \<and>
    slot_written i (frame_bytes (frame_of (tbl sp s ! i)) s) (swap_file sp s) (swap_file sp s') \<and>
    (\<forall>n. n \<noteq> of_inode (the (bs_file (backing sp))) \<longrightarrow> inodes (host s') n = inodes (host s) n) \<and>
    mainMemory s' = mainMemory s \<and> registers s' = registers s \<and> tlb s' = tlb s \<and>
    pageTable s' = pageTable s \<and> pageTableSize s' = pageTableSize s \<and> use_fifo s' = use_fifo s"
proof -
  let ?e = "tbl sp s ! i" and ?s1 = "set_pte sp (int i) ((tbl sp s ! i)\<lparr>valid := False\<rparr>) s"
  have sh: "space_shape sp s" and "i \<notin> X" and po: "pte_ok sp s i"
    using ok i v by (auto simp: space_ok_def split: if_splits)
  have f: "frame_of ?e < NumPhysPages" using po v by (simp add: pte_ok_def Let_def)
  then have sf: "sint (physicalPage ?e) = int (frame_of ?e)" by (simp add: sint_small size_defs)
  have vp: "virtualPage ?e = word_of_nat i" using sh i by (simp add: space_shape_def)
  have sh1: "space_shape sp ?s1" using sh vp by simp
  obtain fl where fl: "bs_file (backing sp) = Some fl" using sh by (auto simp: space_shape_def)
  have rf: "read_frame (physicalPage ?e) ?s1 = Inr (frame_bytes (frame_of ?e) s)"
    using read_frame_ok [OF sh1 f] by (simp add: frame_bytes_def)
  have len: "length (frame_bytes (frame_of ?e) s) = PageSize"
    using f sh by (intro length_frame_bytes) (simp_all add: space_shape_def)
  define s2 where "s2 = (if dirty ?e then ?s1\<lparr>host := (host s)\<lparr>inodes := (inodes (host s))(of_inode fl :=
      pwrite (swap_file sp s) (i * PageSize) (frame_bytes (frame_of ?e) s))\<rparr>,
      stats := (stats s)\<lparr>numPageOuts := numPageOuts (stats s) + 1\<rparr>\<rparr> else ?s1)"
  have sh2: "space_shape sp s2"
    using space_shape_cong [OF sh1, of s2] sh by (auto simp: s2_def space_shape_def)
  obtain mm where mm: "free_page (int (frame_of ?e)) s2 = Inr (s2\<lparr>memmanage := mm\<rparr>)"
      "space_shape sp (s2\<lparr>memmanage := mm\<rparr>)" "pages_in_use mm = pages_in_use (memmanage s2) - {int (frame_of ?e)}"
    using free_page_ok [OF sh2 f] by blast
  have "PageOut sp (int i) s = Inr (s2\<lparr>memmanage := mm\<rparr>)"
    using shape_get_pte [OF sh i] rf fl mm(1) sf page_address [OF sh i] vp
    by (cases "dirty ?e")
       (simp_all add: PageOut_def Let_def with_file_def OpenFile_WriteAt_def s2_def swap_file_def nat_int_mult)
  moreover have "slot_written i (frame_bytes (frame_of ?e) s) (swap_file sp s) (swap_file sp (s2\<lparr>memmanage := mm\<rparr>))"
  proof (cases "dirty ?e")
    case True
    then show ?thesis using slot_written_pwrite [OF len] fl by (simp add: s2_def swap_file_def)
  next
    case False
    then show ?thesis using po v sf by (auto simp: s2_def swap_file_def slot_written_def pte_ok_def Let_def)
  qed
  ultimately show ?thesis
    using mm(2,3) fl by (intro exI [of _ "s2\<lparr>memmanage := mm\<rparr>"] exI [of _ mm]) (simp add: s2_def)
qed

lemma PageOut_ok:
  assumes ok: "space_ok X sp s" and i: "i < npages sp" and v: "valid (tbl sp s ! i)"
  shows "\<exists>s'. PageOut sp (int i) s = Inr s' \<and> space_ok X sp s' \<and> keeps X sp s s' \<and>
    resident sp s' = resident sp s - {i} \<and>
    pages_in_use (memmanage s') = pages_in_use (memmanage s) - {int (frame_of (tbl sp s ! i))} \<and>
    (\<forall>j. frame_of (tbl sp s' ! j) = frame_of (tbl sp s ! j))"
proof -
  let ?e = "tbl sp s ! i"
  obtain s' where run: "PageOut sp (int i) s = Inr s'" and sh': "space_shape sp s'"
    and mm: "pages_in_use (memmanage s') = pages_in_use (memmanage s) - {int (frame_of ?e)}"
    and pt: "pageTables s' = pageTables (set_pte sp (int i) (?e\<lparr>valid := False\<rparr>) s)"
    and sw: "slot_written i (frame_bytes (frame_of ?e) s) (swap_file sp s) (swap_file sp s')"
    and rest: "\<forall>n. n \<noteq> of_inode (the (bs_file (backing sp))) \<longrightarrow> inodes (host s') n = inodes (host s) n"
      "mainMemory s' = mainMemory s" "registers s' = registers s" "tlb s' = tlb s"
      "pageTable s' = pageTable s" "pageTableSize s' = pageTableSize s" "use_fifo s' = use_fifo s"
    using PageOut_eval [OF assms] by blast
  have sh: "space_shape sp s" and iX: "i \<notin> X" and inj: "inj_on (\<lambda>i. frame_of (tbl sp s ! i)) (resident sp s)"
    and po: "\<And>j. j < npages sp \<Longrightarrow> j \<notin> X \<Longrightarrow> pte_ok sp s j"
    and nX: "\<And>j. j < npages sp \<Longrightarrow> j \<in> X \<Longrightarrow> \<not> valid (tbl sp s ! j)"
    using ok i v by (auto simp: space_ok_def split: if_splits)
  have f: "frame_of ?e < NumPhysPages" using po [OF i iX] v by (simp add: pte_ok_def Let_def)
  then have sf: "0 \<le> sint (physicalPage ?e)" by (simp add: sint_small size_defs)
  have t': "tbl sp s' = (tbl sp s)[i := ?e\<lparr>valid := False\<rparr>]"
    using tbl_set_pte [of s sp i] pt sh by (simp add: tbl_def space_shape_def)
  have li: "i < length (tbl sp s)" using sh i by (simp add: space_shape_def)
  have tj: "tbl sp s' ! j = tbl sp s ! j" if "j \<noteq> i" for j using that by (simp add: t')
  have ti: "tbl sp s' ! i = ?e\<lparr>valid := False\<rparr>" using li by (simp add: t')
  have fb: "frame_bytes g s' = frame_bytes g s" for g using rest(2) by (simp add: frame_bytes_def)
  have res': "resident sp s' = resident sp s - {i}"
  proof (rule set_eqI)
    show "j \<in> resident sp s' \<longleftrightarrow> j \<in> resident sp s - {i}" for j
      by (cases "j = i") (simp_all add: resident_def ti tj)
  qed
  have fr: "frame_of (tbl sp s ! j) \<noteq> frame_of ?e" if "j \<in> resident sp s" "j \<noteq> i" for j
    using inj_onD [OF inj, of j i] that i v by (auto simp: resident_def)
  have ok_j: "pte_ok sp s' j" if j: "j < npages sp" "j \<notin> X" "j \<noteq> i" for j
    using po [OF j(1,2)] sw fr [of j] j mm frame_sint [of "physicalPage (tbl sp s ! j)"]
    by (auto simp: pte_ok_def Let_def tj fb slot_written_def resident_def simp flip: word_uint_eq_iff)
  have ok_i: "pte_ok sp s' i" using sw by (simp add: pte_ok_def Let_def ti slot_written_def)
  have data_j: "page_data sp s' j = page_data sp s j" if j: "j < npages sp" "j \<notin> X" "j \<noteq> i" for j
    using po [OF j(1,2)] sw j by (auto simp: page_data_def Let_def tj fb slot_written_def pte_ok_def)
  have data_i: "page_data sp s' i = page_data sp s i"
    using sw sf v by (simp add: page_data_def Let_def ti slot_written_def)
  have "space_ok X sp s'"
    unfolding space_ok_def
  proof (intro conjI allI impI)
    show "inj_on (\<lambda>i. frame_of (tbl sp s' ! i)) (resident sp s')"
      using inj unfolding res' by (auto simp: inj_on_def tj)
    show "if j \<in> X then \<not> valid (tbl sp s' ! j) else pte_ok sp s' j" if "j < npages sp" for j
      using that nX ok_j ok_i iX tj by (cases "j = i") auto
  qed (fact sh')
  moreover have "keeps X sp s s'"
    unfolding keeps_def
  proof (intro conjI allI impI ballI)
    show "page_data sp s' j = page_data sp s j" if "j < npages sp" "j \<notin> X" for j
      using that data_j data_i by (cases "j = i") auto
    show "pageTables s' q = pageTables s q" if "q \<noteq> as_pageTable sp" for q
      using that pt by simp
    fix j assume j: "j < npages sp" "(j + 1) * PageSize \<le> length (swap_file sp s) \<and> j \<in> X"
    then have "j \<noteq> i" using iX by auto
    with j sw show "(j + 1) * PageSize \<le> length (swap_file sp s')"
      "pread (swap_file sp s') (j * PageSize) PageSize = pread (swap_file sp s) (j * PageSize) PageSize"
      by (auto simp: slot_written_def)
  qed (use rest in auto)
  moreover have "frame_of (tbl sp s' ! j) = frame_of (tbl sp s ! j)" for j
    using ti tj by (cases "j = i") simp_all
  ultimately show ?thesis using run res' mm by blast
qed

section \<open>The clock algorithm\<close>

lemma keeps_trans: "keeps X sp s t \<Longrightarrow> keeps X sp t u \<Longrightarrow> keeps X sp s u"
  by (auto simp: keeps_def)

lemma keeps_refl [simp]: "keeps X sp s s"
  by (simp add: keeps_def)

lemma hand_simps [simp]:
  "tbl (sp\<lparr>clock_hand := h\<rparr>) s = tbl sp s" "swap_file (sp\<lparr>clock_hand := h\<rparr>) s = swap_file sp s"
  "pte_ok (sp\<lparr>clock_hand := h\<rparr>) s i = pte_ok sp s i"
  "resident (sp\<lparr>clock_hand := h\<rparr>) s = resident sp s"
  "page_data (sp\<lparr>clock_hand := h\<rparr>) s i = page_data sp s i"
  by (simp_all add: tbl_def swap_file_def pte_ok_def resident_def page_data_def Let_def)

lemma space_ok_hand [simp]: "space_ok X (sp\<lparr>clock_hand := h\<rparr>) s = space_ok X sp s"
  by (simp add: space_ok_def space_shape_def)

text \<open>Clearing a use bit changes no contents.\<close>

lemma clear_use_ok:
  assumes ok: "space_ok X sp s" and i: "i < npages sp"
  defines "s' \<equiv> set_pte sp (int i) ((tbl sp s ! i)\<lparr>use := False\<rparr>) s"
  shows "space_ok X sp s'" and "keeps X sp s s'" and "resident sp s' = resident sp s"
    and "tbl sp s' = (tbl sp s)[i := (tbl sp s ! i)\<lparr>use := False\<rparr>]"
proof -
  let ?e' = "(tbl sp s ! i)\<lparr>use := False\<rparr>"
  have sh: "space_shape sp s" using ok by (simp add: space_ok_def)
  then have vp: "virtualPage ?e' = word_of_nat i" and li: "i < length (tbl sp s)"
    using i by (simp_all add: space_shape_def)
  show t: "tbl sp s' = (tbl sp s)[i := ?e']"
    using sh unfolding s'_def by (intro tbl_set_pte) (simp add: space_shape_def)
  have fields: "valid (tbl sp s' ! j) = valid (tbl sp s ! j)" "dirty (tbl sp s' ! j) = dirty (tbl sp s ! j)"
    "physicalPage (tbl sp s' ! j) = physicalPage (tbl sp s ! j)" for j
    using li by (cases "j = i"; simp add: t)+
  have sw: "swap_file sp s' = swap_file sp s" and mem: "mainMemory s' = mainMemory s"
    and mm: "memmanage s' = memmanage s"
    by (simp_all add: s'_def swap_file_def)
  have fb: "frame_bytes g s' = frame_bytes g s" for g by (simp add: frame_bytes_def mem)
  show res: "resident sp s' = resident sp s" by (simp add: resident_def fields)
  have "space_shape sp s'" unfolding s'_def using sh vp by (rule space_shape_set_pte)
  moreover have "pte_ok sp s' j = pte_ok sp s j" for j
    by (simp add: pte_ok_def Let_def fields sw fb mm)
  ultimately show "space_ok X sp s'"
    using ok by (simp add: space_ok_def fields res)
  show "keeps X sp s s'"
    unfolding keeps_def by (simp add: page_data_def Let_def fields sw fb) (simp add: s'_def)
qed

text \<open>
  The measure of the search: the resident pages whose use bit is still set, and then the
  distance from the hand to the next resident page.
\<close>

definition hand_dist :: "AddrSpace \<Rightarrow> 'a VM_scheme \<Rightarrow> nat" where
  "hand_dist sp s = (LEAST k. (unat (clock_hand sp) + k) mod npages sp \<in> resident sp s)"

definition clock_measure :: "AddrSpace \<Rightarrow> 'a VM_scheme \<Rightarrow> nat" where
  "clock_measure sp s =
     card {i \<in> resident sp s. use (tbl sp s ! i)} * (npages sp + 1) + hand_dist sp s"

lemma hand_dist_less:
  assumes "r \<in> resident sp s" and "unat (clock_hand sp) < npages sp"
  shows "hand_dist sp s < npages sp" and "(unat (clock_hand sp) + hand_dist sp s) mod npages sp \<in> resident sp s"
proof -
  let ?h = "unat (clock_hand sp)" and ?n = "npages sp"
  have r: "r < ?n" using assms(1) by (simp add: resident_def)
  have "(?h + (r + ?n - ?h) mod ?n) mod ?n = (?h + (r + ?n - ?h)) mod ?n" by (simp add: mod_add_right_eq)
  also have "\<dots> = r" using assms(2) r by simp
  finally have k: "(?h + (r + ?n - ?h) mod ?n) mod ?n \<in> resident sp s" using assms(1) by simp
  show "(?h + hand_dist sp s) mod ?n \<in> resident sp s"
    unfolding hand_dist_def by (rule LeastI) (rule k)
  have "hand_dist sp s \<le> (r + ?n - ?h) mod ?n" unfolding hand_dist_def by (rule Least_le) (rule k)
  also have "\<dots> < ?n" using r by simp
  finally show "hand_dist sp s < ?n" .
qed

lemma unat_next_hand:
  assumes "unat (clock_hand sp) < npages sp"
  shows "unat ((clock_hand sp + 1) mod numPages sp) = (unat (clock_hand sp) + 1) mod npages sp"
proof -
  have "unat (clock_hand sp) + 1 < 2 ^ 32"
    using assms unsigned_less [of "numPages sp", where ?'a = nat] by simp
  then show ?thesis by (simp add: unat_mod_distrib unat_word_ariths)
qed

lemma clock_step_cases:
  assumes ok: "space_ok X sp s" and r: "resident sp s \<noteq> {}" and h: "hand_ok sp"
  obtains (victim) v s' where "clock_step sp s = Inr (True, sp, s')" "v \<in> resident sp s"
      "space_ok X sp s'" "keeps X sp s s'" "resident sp s' = resident sp s - {v}"
      "pages_in_use (memmanage s') = pages_in_use (memmanage s) - {int (frame_of (tbl sp s ! v))}"
      "\<And>i. frame_of (tbl sp s' ! i) = frame_of (tbl sp s ! i)"
  | (onward) sp' s' where "clock_step sp s = Inr (False, sp', s')" "same_space sp sp'" "space_ok X sp' s'" "hand_ok sp'"
      "keeps X sp s s'" "resident sp' s' = resident sp s" "memmanage s' = memmanage s"
      "\<And>i. frame_of (tbl sp' s' ! i) = frame_of (tbl sp s ! i)"
      "clock_measure sp' s' < clock_measure sp s"
proof -
  let ?h = "unat (clock_hand sp)" and ?n = "npages sp"
  have sh: "space_shape sp s" using ok by (simp add: space_ok_def)
  have n31: "?n * PageSize < 2 ^ 31" and n0: "numPages sp \<noteq> 0"
    using sh by (auto simp: space_shape_def)
  have "?h < 2 ^ 31" using h n31 by (simp add: size_defs)
  then have sh_h: "sint (clock_hand sp) = int ?h" by (rule sint_small)
  let ?e = "tbl sp s ! ?h"
  have g: "get_pte sp (int ?h) s = Inr ?e" using shape_get_pte [OF sh h] .
  have phys: "sint (physicalPage ?e) \<ge> 0" if "valid ?e"
    using that ok h frame_sint by (auto simp: space_ok_def pte_ok_def Let_def split: if_splits)
  show ?thesis
  proof (cases "valid ?e \<and> (\<not> use ?e \<or> use_fifo s)")
    case True
    obtain s' where "PageOut sp (int ?h) s = Inr s'" "space_ok X sp s'" "keeps X sp s s'"
        "resident sp s' = resident sp s - {?h}"
        "pages_in_use (memmanage s') = pages_in_use (memmanage s) - {int (frame_of ?e)}"
        "\<forall>j. frame_of (tbl sp s' ! j) = frame_of (tbl sp s ! j)"
      using PageOut_ok [OF ok h] True by blast
    then show ?thesis
      using True g sh_h phys h by (intro victim [of s' ?h]) (simp_all add: clock_step_def Let_def resident_def)
  next
    case False
    let ?s' = "set_pte sp (int ?h) (?e\<lparr>use := False\<rparr>) s"
    let ?sp' = "sp\<lparr>clock_hand := (clock_hand sp + 1) mod numPages sp\<rparr>"
    note cu = clear_use_ok [OF ok h]
    have h': "unat (clock_hand ?sp') = (?h + 1) mod ?n" using unat_next_hand [OF h] by simp
    have run: "clock_step sp s = Inr (False, ?sp', ?s')"
      using False g sh_h n0 by (auto simp: clock_step_def Let_def)
    have li: "?h < length (tbl sp s)" using sh h by (simp add: space_shape_def)
    have t: "tbl sp ?s' ! i = (if i = ?h then ?e\<lparr>use := False\<rparr> else tbl sp s ! i)" for i
      using li by (simp add: cu(4))
    have ok': "space_ok X ?sp' ?s'" "hand_ok ?sp'" using cu(1) h h' n0 by (simp_all add: unat_gt_0)
    have fin: "finite (resident sp s)" by (simp add: resident_def)
    have d': "hand_dist ?sp' ?s' < ?n" "hand_dist sp s < ?n" "(?h + hand_dist sp s) mod ?n \<in> resident sp s"
      using hand_dist_less [of _ ?sp' ?s'] hand_dist_less [of _ sp s] r ok'(2) h cu(3) by auto
    have "clock_measure ?sp' ?s' < clock_measure sp s"
    proof (cases "valid ?e")
      case True
      with False have u: "use ?e" by simp
      have "{i \<in> resident sp s. use (tbl sp ?s' ! i)} = {i \<in> resident sp s. use (tbl sp s ! i)} - {?h}"
        by (auto simp: t split: if_splits)
      moreover have "?h \<in> {i \<in> resident sp s. use (tbl sp s ! i)}" using u True h by (simp add: resident_def)
      ultimately have "card {i \<in> resident sp s. use (tbl sp ?s' ! i)} < card {i \<in> resident sp s. use (tbl sp s ! i)}"
        using fin by (metis (no_types, lifting) card_Diff1_less finite_Collect_conjI finite_subset mem_Collect_eq subsetI)
      then have "Suc (card {i \<in> resident sp s. use (tbl sp ?s' ! i)}) * (?n + 1)
          \<le> card {i \<in> resident sp s. use (tbl sp s ! i)} * (?n + 1)" by (intro mult_le_mono1) simp
      then show ?thesis using d'(1) by (simp add: clock_measure_def cu(3))
    next
      case nv: False
      then have nr: "?h \<notin> resident sp s" by (simp add: resident_def)
      have same: "{i \<in> resident sp s. use (tbl sp ?s' ! i)} = {i \<in> resident sp s. use (tbl sp s ! i)}"
        using nr by (auto simp: t split: if_splits)
      have d0: "hand_dist sp s \<noteq> 0" using d'(3) nr h by (auto intro: ccontr)
      then obtain k where k: "hand_dist sp s = Suc k" by (cases "hand_dist sp s") auto
      have "(unat (clock_hand ?sp') + k) mod ?n = (?h + hand_dist sp s) mod ?n"
        unfolding h' k using mod_add_left_eq [of "?h + 1" ?n k] by simp
      then have "hand_dist ?sp' ?s' \<le> k"
        unfolding hand_dist_def [of ?sp'] using d'(3) cu(3) by (intro Least_le) simp
      then show ?thesis by (simp add: clock_measure_def cu(3) same k)
    qed
    then show ?thesis
      using run ok' cu(1-3) t by (intro onward [of ?sp' ?s']) simp_all
  qed
qed

lemma keeps_same_space: "same_space sp sp' \<Longrightarrow> keeps X sp' s s' \<longleftrightarrow> keeps X sp s s'"
  by (frule same_space_fields) (simp add: keeps_def tbl_same_space)

lemma resident_same_space: "same_space sp sp' \<Longrightarrow> resident sp' s = resident sp s"
  by (frule same_space_fields) (simp add: resident_def tbl_same_space)

lemma ClearPage_ok:
  assumes "space_ok X sp s" and "resident sp s \<noteq> {}" and "hand_ok sp"
  shows "\<exists>sp' s' v. ClearPage sp s = Some (Inr (sp', s')) \<and> same_space sp sp' \<and> space_ok X sp' s' \<and> hand_ok sp' \<and>
    keeps X sp s s' \<and> v \<in> resident sp s \<and> resident sp' s' = resident sp s - {v} \<and>
    pages_in_use (memmanage s') = pages_in_use (memmanage s) - {int (frame_of (tbl sp s ! v))} \<and>
    (\<forall>i. frame_of (tbl sp' s' ! i) = frame_of (tbl sp s ! i))"
  using assms
proof (induction "clock_measure sp s" arbitrary: sp s rule: less_induct)
  case less
  show ?case
  proof (cases rule: clock_step_cases [OF less.prems])
    case (1 v s')
    then show ?thesis using less.prems(3)
      by (intro exI [of _ sp] exI [of _ s'] exI [of _ v]) (simp add: ClearPage.simps [of sp s])
  next
    case (2 sp1 s1)
    have "resident sp1 s1 \<noteq> {}" using 2(6) less.prems(2) by simp
    from less.hyps [OF 2(9,3) this 2(4)] obtain sp' s' v
      where r: "ClearPage sp1 s1 = Some (Inr (sp', s'))" "same_space sp1 sp'" "space_ok X sp' s'" "hand_ok sp'"
        "keeps X sp1 s1 s'" "v \<in> resident sp1 s1" "resident sp' s' = resident sp1 s1 - {v}"
        "pages_in_use (memmanage s') = pages_in_use (memmanage s1) - {int (frame_of (tbl sp1 s1 ! v))}"
        "\<forall>i. frame_of (tbl sp' s' ! i) = frame_of (tbl sp1 s1 ! i)"
      by blast
    have "ClearPage sp s = Some (Inr (sp', s'))" using r(1) 2(1) by (simp add: ClearPage.simps [of sp s])
    moreover have "keeps X sp s s'" using keeps_trans [OF 2(5)] r(5) keeps_same_space [OF 2(2)] by blast
    ultimately show ?thesis
      using r 2 same_space_trans by (intro exI [of _ sp'] exI [of _ s'] exI [of _ v]) auto
  qed
qed

text \<open>With the hand outside the table the search reads beyond the end of the array.\<close>

lemma ClearPage_lost:
  assumes "space_ok X sp s" and "\<not> hand_ok sp"
  shows "ClearPage sp s = Some (Inl OutOfBounds)"
proof -
  have sh: "space_shape sp s" using assms(1) by (simp add: space_ok_def)
  then have n31: "npages sp < 2 ^ 31" by (simp add: space_shape_def size_defs)
  have "\<not> (0 \<le> sint (clock_hand sp) \<and> sint (clock_hand sp) < int (npages sp))"
  proof
    assume h: "0 \<le> sint (clock_hand sp) \<and> sint (clock_hand sp) < int (npages sp)"
    then have "take_bit 32 (sint (clock_hand sp)) = sint (clock_hand sp)" using n31 by (intro take_bit_int_eq_self) simp_all
    then have "uint (clock_hand sp) = sint (clock_hand sp)" using uint_sint [of "clock_hand sp"] by simp
    then show False using h assms(2) by (simp add: uint_nat)
  qed
  then have "get_pte sp (sint (clock_hand sp)) s = Inl OutOfBounds"
    using sh by (auto simp: get_pte_def space_shape_def tbl_def)
  then show ?thesis by (simp add: ClearPage.simps [of sp s] clock_step_def)
qed

section \<open>Finding a frame for a page\<close>

text \<open>Changing the entry of the faulting page, which stays not resident, disturbs no other page.\<close>

lemma set_faulting_pte:
  assumes ok: "space_ok {p} sp s" and p: "p < npages sp"
    and e: "virtualPage e = word_of_nat p" "\<not> valid e"
  defines "s' \<equiv> set_pte sp (int p) e s"
  shows "space_ok {p} sp s'" and "keeps {p} sp s s'" and "resident sp s' = resident sp s"
    and "tbl sp s' = (tbl sp s)[p := e]"
proof -
  have sh: "space_shape sp s" and np: "\<not> valid (tbl sp s ! p)"
    and po: "\<And>j. j < npages sp \<Longrightarrow> j \<noteq> p \<Longrightarrow> pte_ok sp s j"
    and inj: "inj_on (\<lambda>i. frame_of (tbl sp s ! i)) (resident sp s)"
    using ok p by (auto simp: space_ok_def split: if_splits)
  have lp: "p < length (tbl sp s)" using sh p by (simp add: space_shape_def)
  show t: "tbl sp s' = (tbl sp s)[p := e]"
    using sh unfolding s'_def by (intro tbl_set_pte) (simp add: space_shape_def)
  have tj: "tbl sp s' ! j = tbl sp s ! j" if "j \<noteq> p" for j using that by (simp add: t)
  have tp: "tbl sp s' ! p = e" using lp by (simp add: t)
  have fb: "frame_bytes g s' = frame_bytes g s" for g by (simp add: frame_bytes_def s'_def)
  have sw: "swap_file sp s' = swap_file sp s" and mm: "memmanage s' = memmanage s"
    by (simp_all add: s'_def swap_file_def)
  show res: "resident sp s' = resident sp s"
  proof (rule set_eqI)
    show "j \<in> resident sp s' \<longleftrightarrow> j \<in> resident sp s" for j
      using np e(2) by (cases "j = p") (simp_all add: resident_def tj tp)
  qed
  have notres: "j \<noteq> p" if "j \<in> resident sp s" for j using that np by (auto simp: resident_def)
  have "space_shape sp s'" unfolding s'_def using sh e(1) by (rule space_shape_set_pte)
  moreover have "pte_ok sp s' j" if "j < npages sp" "j \<noteq> p" for j
    using po [OF that] by (simp add: pte_ok_def Let_def tj [OF that(2)] sw fb mm)
  moreover have "inj_on (\<lambda>i. frame_of (tbl sp s' ! i)) (resident sp s)"
    using inj notres tj by (simp add: inj_on_def)
  ultimately show "space_ok {p} sp s'" using tp e(2) by (simp add: space_ok_def res)
  show "keeps {p} sp s s'"
    unfolding keeps_def by (simp add: page_data_def Let_def tj sw fb) (simp add: s'_def)
qed

text \<open>The frames that other address spaces hold.\<close>

definition others :: "AddrSpace \<Rightarrow> 'a VM_scheme \<Rightarrow> int set" where
  "others sp s = pages_in_use (memmanage s) - int ` own_frames sp s"

lemma take_frame_ok:
  assumes ok: "space_ok {p} sp s" and p: "p < npages sp"
  shows "\<exists>s'. take_frame (int p) sp s = Inr (\<not> {0..<int NumPhysPages} \<subseteq> pages_in_use (memmanage s), s') \<and>
    space_ok {p} sp s' \<and> keeps {p} sp s s' \<and> resident sp s' = resident sp s \<and>
    (\<forall>j. j \<noteq> p \<longrightarrow> tbl sp s' ! j = tbl sp s ! j) \<and>
    (if {0..<int NumPhysPages} \<subseteq> pages_in_use (memmanage s) then memmanage s' = memmanage s
     else frame_of (tbl sp s' ! p) < NumPhysPages \<and>
       int (frame_of (tbl sp s' ! p)) \<notin> pages_in_use (memmanage s) \<and>
       pages_in_use (memmanage s') = insert (int (frame_of (tbl sp s' ! p))) (pages_in_use (memmanage s)))"
proof -
  have sh: "space_shape sp s" and np: "\<not> valid (tbl sp s ! p)" and vp: "virtualPage (tbl sp s ! p) = word_of_nat p"
    using ok p by (auto simp: space_ok_def space_shape_def split: if_splits)
  let ?full = "{0..<int NumPhysPages} \<subseteq> pages_in_use (memmanage s)"
  obtain r mm where a: "alloc_page s = Inr (r, s\<lparr>memmanage := mm\<rparr>)" and shm: "space_shape sp (s\<lparr>memmanage := mm\<rparr>)"
    and r: "if ?full then r = - 1 \<and> mm = memmanage s
      else 0 \<le> r \<and> r < int NumPhysPages \<and> r \<notin> pages_in_use (memmanage s) \<and>
        pages_in_use mm = insert r (pages_in_use (memmanage s))"
    using alloc_page_ok [OF sh] by blast
  let ?sm = "s\<lparr>memmanage := mm\<rparr>" and ?e = "(tbl sp s ! p)\<lparr>physicalPage := word_of_int r\<rparr>"
  have tm: "tbl sp ?sm = tbl sp s" "swap_file sp ?sm = swap_file sp s" by (simp_all add: tbl_def swap_file_def)
  have fbm: "frame_bytes g ?sm = frame_bytes g s" for g by (simp add: frame_bytes_def)
  have sub: "pages_in_use (memmanage s) \<subseteq> pages_in_use mm" using r by (auto split: if_splits)
  have pom: "pte_ok sp ?sm j" if "pte_ok sp s j" for j
    using that sub by (auto simp: pte_ok_def Let_def tm fbm)
  have okm: "space_ok {p} sp ?sm"
    using ok shm pom by (simp add: space_ok_def resident_def tm)
  have keepm: "keeps {p} sp s ?sm" by (simp add: keeps_def page_data_def Let_def tm fbm)
  have resm: "resident sp ?sm = resident sp s" by (simp add: resident_def tm)
  note sf = set_faulting_pte [OF okm p, of ?e]
  let ?s' = "set_pte sp (int p) ?e ?sm"
  have run: "take_frame (int p) sp s = Inr (r \<ge> 0, ?s')"
    using a shape_get_pte [OF shm p] tm by (simp add: take_frame_def)
  have got: "r \<ge> 0 \<longleftrightarrow> \<not> ?full" using r by (auto split: if_splits)
  have lp: "p < length (tbl sp s)" using sh p by (simp add: space_shape_def)
  have t': "tbl sp ?s' = (tbl sp s)[p := ?e]" using sf(4) vp np tm by simp
  have ent: "tbl sp ?s' ! p = ?e" using lp by (simp add: t')
  have fr: "frame_of ?e = nat r" if "\<not> ?full"
    using r that by (simp add: unat_eq_nat_uint uint_word_of_int size_defs take_bit_int_eq_self)
  show ?thesis
    unfolding run got using sf(1-3) vp np keeps_trans [OF keepm, of ?s'] resm ent fr r t'
    by (intro exI [of _ ?s']) (auto split: if_splits)
qed

lemma own_frames_in_use:
  assumes "space_ok X sp s" shows "int ` own_frames sp s \<subseteq> pages_in_use (memmanage s)"
  using assms by (auto simp: own_frames_def resident_def space_ok_def pte_ok_def Let_def split: if_splits)

text \<open>The state in which page \<open>p\<close> has a frame of its own and can be filled.\<close>

definition has_frame :: "nat \<Rightarrow> AddrSpace \<Rightarrow> 'a VM_scheme \<Rightarrow> bool" where
  "has_frame p sp s \<longleftrightarrow> frame_of (tbl sp s ! p) < NumPhysPages \<and>
     int (frame_of (tbl sp s ! p)) \<in> pages_in_use (memmanage s) \<and> frame_of (tbl sp s ! p) \<notin> own_frames sp s"

lemma take_frame_free:
  assumes ok: "space_ok {p} sp s" and p: "p < npages sp"
    and free: "\<not> {0..<int NumPhysPages} \<subseteq> pages_in_use (memmanage s)"
  shows "\<exists>s'. take_frame (int p) sp s = Inr (True, s') \<and> space_ok {p} sp s' \<and> keeps {p} sp s s' \<and>
    has_frame p sp s' \<and> resident sp s' = resident sp s \<and> own_frames sp s' = own_frames sp s \<and>
    int (frame_of (tbl sp s' ! p)) \<notin> pages_in_use (memmanage s) \<and>
    pages_in_use (memmanage s') = insert (int (frame_of (tbl sp s' ! p))) (pages_in_use (memmanage s))"
proof -
  obtain s' where s': "take_frame (int p) sp s = Inr (True, s')" "space_ok {p} sp s'" "keeps {p} sp s s'"
      "resident sp s' = resident sp s" "\<forall>j. j \<noteq> p \<longrightarrow> tbl sp s' ! j = tbl sp s ! j"
      "frame_of (tbl sp s' ! p) < NumPhysPages" "int (frame_of (tbl sp s' ! p)) \<notin> pages_in_use (memmanage s)"
      "pages_in_use (memmanage s') = insert (int (frame_of (tbl sp s' ! p))) (pages_in_use (memmanage s))"
    using take_frame_ok [OF ok p] free by auto
  have "p \<notin> resident sp s" using ok p by (simp add: space_ok_def resident_def)
  then have own: "own_frames sp s' = own_frames sp s"
    using s'(4,5) by (auto simp: own_frames_def intro!: image_cong)
  moreover have "has_frame p sp s'"
    using s'(6,7,8) own own_frames_in_use [OF ok] by (auto simp: has_frame_def)
  ultimately show ?thesis using s' by blast
qed

lemma own_frames_cong:
  "resident sp' s' = R \<Longrightarrow> (\<And>i. i \<in> R \<Longrightarrow> frame_of (tbl sp' s' ! i) = frame_of (tbl sp s ! i)) \<Longrightarrow>
   own_frames sp' s' = (\<lambda>i. frame_of (tbl sp s ! i)) ` R"
  by (simp add: own_frames_def)

lemma obtain_frame:
  assumes ok: "space_ok {p} sp s" and p: "p < npages sp"
    and room: "\<not> {0..<int NumPhysPages} \<subseteq> pages_in_use (memmanage s) \<or> resident sp s \<noteq> {} \<and> hand_ok sp"
  shows "\<exists>sp' s'. bindO (Some (bindE (take_frame (int p) sp s) (\<lambda>(got, s1). Inr (got, sp, s1))))
      (retry_frame (int p)) = Some (Inr (True, sp', s')) \<and> same_space sp sp' \<and> (hand_ok sp \<longrightarrow> hand_ok sp') \<and> space_ok {p} sp' s' \<and>
    keeps {p} sp s s' \<and> has_frame p sp' s' \<and> own_frames sp' s' \<subseteq> own_frames sp s \<and>
    int (frame_of (tbl sp' s' ! p)) \<notin> others sp s \<and> others sp s \<subseteq> pages_in_use (memmanage s')"
proof (cases "{0..<int NumPhysPages} \<subseteq> pages_in_use (memmanage s)")
  case False
  from take_frame_free [OF ok p False] obtain s' where "take_frame (int p) sp s = Inr (True, s')"
      "space_ok {p} sp s'" "keeps {p} sp s s'" "has_frame p sp s'" "own_frames sp s' = own_frames sp s"
      "int (frame_of (tbl sp s' ! p)) \<notin> pages_in_use (memmanage s)"
      "pages_in_use (memmanage s') = insert (int (frame_of (tbl sp s' ! p))) (pages_in_use (memmanage s))"
    by blast
  then show ?thesis
    by (intro exI [of _ sp] exI [of _ s']) (auto simp: bindO_def retry_frame_def others_def)
next
  case full: True
  obtain s1 where s1: "take_frame (int p) sp s = Inr (False, s1)" "space_ok {p} sp s1" "keeps {p} sp s s1"
      "resident sp s1 = resident sp s" "\<forall>j. j \<noteq> p \<longrightarrow> tbl sp s1 ! j = tbl sp s ! j" "memmanage s1 = memmanage s"
    using take_frame_ok [OF ok p] full by auto
  have np: "p \<notin> resident sp s" using ok p by (simp add: space_ok_def resident_def)
  have "resident sp s1 \<noteq> {}" "hand_ok sp" using room full s1(4) by simp_all
  from ClearPage_ok [OF s1(2) this] obtain sp2 s2 v
    where hand2: "hand_ok sp2" and s2: "ClearPage sp s1 = Some (Inr (sp2, s2))" "same_space sp sp2" "space_ok {p} sp2 s2"
      "keeps {p} sp s1 s2" "v \<in> resident sp s1" "resident sp2 s2 = resident sp s1 - {v}"
      "pages_in_use (memmanage s2) = pages_in_use (memmanage s1) - {int (frame_of (tbl sp s1 ! v))}"
      "\<forall>i. frame_of (tbl sp2 s2 ! i) = frame_of (tbl sp s1 ! i)" by blast
  let ?f = "frame_of (tbl sp s ! v)"
  have v: "v \<in> resident sp s" "v \<noteq> p" using s2(5) s1(4) np by auto
  have tv: "frame_of (tbl sp s1 ! v) = ?f" using v(2) s1(5) by simp
  have fv: "?f < NumPhysPages"
    using ok v by (auto simp: space_ok_def resident_def pte_ok_def Let_def split: if_splits)
  have in2: "pages_in_use (memmanage s2) = pages_in_use (memmanage s) - {int ?f}" using s2(7) s1(6) tv by simp
  have own2: "own_frames sp2 s2 \<subseteq> own_frames sp s"
    using own_frames_cong [of sp2 s2 "resident sp s - {v}" sp s] s2(6,8) s1(4,5) np by (auto simp: own_frames_def)
  have p2: "p < npages sp2" using p same_space_fields [OF s2(2)] by simp
  have "int ?f \<in> {0..<int NumPhysPages}" using fv by simp
  then have free2: "\<not> {0..<int NumPhysPages} \<subseteq> pages_in_use (memmanage s2)" unfolding in2 by blast
  from take_frame_free [OF s2(3) p2 this] obtain s3
    where s3: "take_frame (int p) sp2 s2 = Inr (True, s3)" "space_ok {p} sp2 s3" "keeps {p} sp2 s2 s3"
      "has_frame p sp2 s3" "own_frames sp2 s3 = own_frames sp2 s2"
      "int (frame_of (tbl sp2 s3 ! p)) \<notin> pages_in_use (memmanage s2)"
      "pages_in_use (memmanage s3) = insert (int (frame_of (tbl sp2 s3 ! p))) (pages_in_use (memmanage s2))"
    by blast
  have run: "bindO (Some (bindE (take_frame (int p) sp s) (\<lambda>(got, s1). Inr (got, sp, s1))))
      (retry_frame (int p)) = Some (Inr (True, sp2, s3))"
    using s1(1) s2(1) s3(1) by (simp add: bindO_def retry_frame_def)
  have keep: "keeps {p} sp s s3"
    using keeps_trans [OF s1(3)] keeps_trans [OF s2(4)] s3(3) keeps_same_space [OF s2(2)] by blast
  have fo: "int ?f \<notin> others sp s" using v by (auto simp: others_def own_frames_def)
  then have sub: "others sp s \<subseteq> pages_in_use (memmanage s3)" unfolding s3(7) in2 by (auto simp: others_def)
  have "int (frame_of (tbl sp2 s3 ! p)) \<notin> others sp s"
    using s3(6) fo unfolding in2 by (auto simp: others_def)
  then show ?thesis using run s2(2) hand2 s3(2,4,5) keep own2 sub by (intro exI [of _ sp2] exI [of _ s3]) simp
qed

section \<open>Filling the frame\<close>

lemma install_ok:
  assumes ok: "space_ok {p} sp s" and p: "p < npages sp" and hf: "has_frame p sp s"
    and e': "virtualPage e' = word_of_nat p" "physicalPage e' = physicalPage (tbl sp s ! p)" "valid e'"
    and t': "tbl sp s' = (tbl sp s)[p := e']" and sh': "space_shape sp s'"
    and sw: "swap_file sp s' = swap_file sp s" and mm: "memmanage s' = memmanage s"
    and fb: "\<And>g. g < NumPhysPages \<Longrightarrow> g \<noteq> frame_of e' \<Longrightarrow> frame_bytes g s' = frame_bytes g s"
    and clean: "\<not> dirty e' \<Longrightarrow> (p + 1) * PageSize \<le> length (swap_file sp s) \<and>
      frame_bytes (frame_of e') s' = pread (swap_file sp s) (p * PageSize) PageSize"
  shows "space_ok {} sp s'" and "\<And>i. i < npages sp \<Longrightarrow> i \<noteq> p \<Longrightarrow> page_data sp s' i = page_data sp s i"
    and "page_data sp s' p = Some (frame_bytes (frame_of e') s')" and "resident sp s' = insert p (resident sp s)"
    and "own_frames sp s' = insert (frame_of e') (own_frames sp s)"
proof -
  have sh: "space_shape sp s" and np: "\<not> valid (tbl sp s ! p)"
    and po: "\<And>j. j < npages sp \<Longrightarrow> j \<noteq> p \<Longrightarrow> pte_ok sp s j"
    and inj: "inj_on (\<lambda>i. frame_of (tbl sp s ! i)) (resident sp s)"
    using ok p by (auto simp: space_ok_def split: if_splits)
  have lp: "p < length (tbl sp s)" using sh p by (simp add: space_shape_def)
  have tj: "tbl sp s' ! j = tbl sp s ! j" if "j \<noteq> p" for j using that by (simp add: t')
  have tp: "tbl sp s' ! p = e'" using lp by (simp add: t')
  have f: "frame_of e' < NumPhysPages" "int (frame_of e') \<in> pages_in_use (memmanage s)" "frame_of e' \<notin> own_frames sp s"
    using hf e'(2) by (simp_all add: has_frame_def)
  have rj: "frame_of (tbl sp s ! j) \<noteq> frame_of e' \<and> frame_of (tbl sp s ! j) < NumPhysPages" if j: "j \<in> resident sp s" for j
  proof -
    have "frame_of (tbl sp s ! j) \<in> own_frames sp s" using j by (auto simp: own_frames_def)
    moreover have "pte_ok sp s j" "valid (tbl sp s ! j)"
      using j po [of j] np by (cases "j = p"; simp add: resident_def)+
    ultimately show ?thesis using f(3) by (auto simp: pte_ok_def Let_def)
  qed
  have fbj: "frame_bytes (frame_of (tbl sp s ! j)) s' = frame_bytes (frame_of (tbl sp s ! j)) s"
    if "j \<in> resident sp s" for j using fb rj [OF that] by blast
  show res: "resident sp s' = insert p (resident sp s)"
  proof (rule set_eqI)
    show "j \<in> resident sp s' \<longleftrightarrow> j \<in> insert p (resident sp s)" for j
      using p e'(3) by (cases "j = p") (simp_all add: resident_def tj tp)
  qed
  have pr: "p \<notin> resident sp s" using np by (simp add: resident_def)
  show own: "own_frames sp s' = insert (frame_of e') (own_frames sp s)"
    using pr tj tp by (auto simp: own_frames_def res image_iff) (metis)+
  show pd: "page_data sp s' i = page_data sp s i" if "i < npages sp" "i \<noteq> p" for i
    using fbj [of i] that by (auto simp: page_data_def Let_def tj sw resident_def)
  show "page_data sp s' p = Some (frame_bytes (frame_of e') s')"
    using e'(3) by (simp add: page_data_def tp)
  have "pte_ok sp s' j" if "j < npages sp" "j \<noteq> p" for j
    using po [OF that] fbj [of j] that by (auto simp: pte_ok_def Let_def tj sw mm resident_def)
  moreover have "pte_ok sp s' p" using f clean e'(3) by (simp add: pte_ok_def Let_def tp sw mm)
  moreover have "inj_on (\<lambda>i. frame_of (tbl sp s' ! i)) (resident sp s')"
  proof -
    have frj: "frame_of (tbl sp s' ! j) = frame_of (tbl sp s ! j)" if "j \<in> resident sp s" for j
      using that pr tj by metis
    then have "inj_on (\<lambda>i. frame_of (tbl sp s' ! i)) (resident sp s)"
      using inj by (simp add: inj_on_def)
    moreover have "frame_of (tbl sp s' ! p) \<notin> (\<lambda>i. frame_of (tbl sp s' ! i)) ` (resident sp s - {p})"
      using frj rj tp by force
    ultimately show ?thesis unfolding res inj_on_insert by simp
  qed
  ultimately show "space_ok {} sp s'" using sh' by (auto simp: space_ok_def)
qed

lemma PageIn_ok:
  assumes ok: "space_ok {p} sp s" and p: "p < npages sp" and hf: "has_frame p sp s"
    and slot: "(p + 1) * PageSize \<le> length (swap_file sp s)"
  shows "\<exists>s'. PageIn sp (int p) s = Inr s' \<and> space_ok {} sp s' \<and>
    (\<forall>i < npages sp. i \<noteq> p \<longrightarrow> page_data sp s' i = page_data sp s i) \<and>
    page_data sp s' p = Some (pread (swap_file sp s) (p * PageSize) PageSize) \<and>
    resident sp s' = insert p (resident sp s) \<and>
    own_frames sp s' = insert (frame_of (tbl sp s ! p)) (own_frames sp s) \<and>
    (\<forall>g < NumPhysPages. g \<noteq> frame_of (tbl sp s ! p) \<longrightarrow> frame_bytes g s' = frame_bytes g s) \<and>
    memmanage s' = memmanage s \<and> host s' = host s \<and> registers s' = registers s \<and> tlb s' = tlb s \<and>
    (\<forall>q. q \<noteq> as_pageTable sp \<longrightarrow> pageTables s' q = pageTables s q) \<and>
    pageTable s' = pageTable s \<and> pageTableSize s' = pageTableSize s"
proof -
  let ?e = "tbl sp s ! p" and ?bs = "pread (swap_file sp s) (p * PageSize) PageSize"
  have sh: "space_shape sp s" using ok by (simp add: space_ok_def)
  have vp: "virtualPage ?e = word_of_nat p" and t0: "pageTables s (as_pageTable sp) \<noteq> None"
    using sh p by (simp_all add: space_shape_def)
  obtain fl where fl: "bs_file (backing sp) = Some fl" using sh by (auto simp: space_shape_def)
  let ?s1 = "(set_pte sp (int p) (?e\<lparr>valid := True\<rparr>) s)\<lparr>stats := (stats s)\<lparr>numPageIns := numPageIns (stats s) + 1\<rparr>\<rparr>"
  have sh1: "space_shape sp ?s1"
    using space_shape_cong [OF space_shape_set_pte [OF sh], of "?e\<lparr>valid := True\<rparr>" p ?s1] vp sh
    by (simp add: space_shape_def)
  have len: "length ?bs = PageSize" using slot by (intro length_pread) (simp add: add.commute)
  obtain s2 where s2: "write_frame (physicalPage ?e) ?bs ?s1 = Inr s2"
      "s2 = ?s1\<lparr>mainMemory := poke (frame_of ?e * PageSize) ?bs (mainMemory ?s1)\<rparr>"
      "length (mainMemory s2) = MemorySize"
      "frame_bytes (frame_of ?e) s2 = ?bs @ drop (length ?bs) (frame_bytes (frame_of ?e) ?s1)"
      "\<forall>g < NumPhysPages. g \<noteq> frame_of ?e \<longrightarrow> frame_bytes g s2 = frame_bytes g ?s1"
    using write_frame_ok [OF sh1, of "physicalPage ?e" ?bs] hf len by (auto simp: has_frame_def)
  let ?e' = "?e\<lparr>valid := True, dirty := False\<rparr>" and ?s' = "set_pte sp (int p) (?e\<lparr>valid := True, dirty := False\<rparr>) s2"
  have run: "PageIn sp (int p) s = Inr ?s'"
    using shape_get_pte [OF sh p] fl s2(1) page_address [OF sh p] vp
    by (simp add: PageIn_def Let_def with_file_def OpenFile_ReadAt_def swap_file_def nat_int_mult)
  have sh2: "space_shape sp s2"
    using sh1 s2(2,3) by (intro space_shape_cong [OF sh1]) (simp_all add: space_shape_def)
  have sh': "space_shape sp ?s'" using sh2 vp by simp
  have t': "tbl sp ?s' = (tbl sp s)[p := ?e']"
    using t0 s2(2) by (auto simp: tbl_def set_pte_def)
  have fb1: "frame_bytes g ?s1 = frame_bytes g s" "frame_bytes g ?s' = frame_bytes g s2" for g
    by (simp_all add: frame_bytes_def)
  have fp: "frame_bytes (frame_of ?e) ?s' = ?bs"
  proof -
    have "length (frame_bytes (frame_of ?e) s) = PageSize"
      using hf sh by (intro length_frame_bytes) (simp_all add: has_frame_def space_shape_def)
    then show ?thesis using s2(4) len by (simp add: fb1)
  qed
  have sw: "swap_file sp ?s' = swap_file sp s" and mm: "memmanage ?s' = memmanage s"
    using s2(2) by (simp_all add: swap_file_def)
  have inst: "space_ok {} sp ?s'" "\<And>i. i < npages sp \<Longrightarrow> i \<noteq> p \<Longrightarrow> page_data sp ?s' i = page_data sp s i"
    "page_data sp ?s' p = Some (frame_bytes (frame_of ?e') ?s')" "resident sp ?s' = insert p (resident sp s)"
    "own_frames sp ?s' = insert (frame_of ?e') (own_frames sp s)"
    using install_ok [OF ok p hf, of ?e' ?s'] vp t' sh' sw mm s2(5) slot fp by (simp_all add: fb1)
  have "\<forall>g < NumPhysPages. g \<noteq> frame_of ?e \<longrightarrow> frame_bytes g ?s' = frame_bytes g s"
    using s2(5) by (simp only: fb1)
  moreover have "memmanage ?s' = memmanage s \<and> host ?s' = host s \<and> registers ?s' = registers s \<and> tlb ?s' = tlb s \<and>
    (\<forall>q. q \<noteq> as_pageTable sp \<longrightarrow> pageTables ?s' q = pageTables s q) \<and>
    pageTable ?s' = pageTable s \<and> pageTableSize ?s' = pageTableSize s"
    by (simp add: s2(2))
  ultimately show ?thesis using run inst fp by (intro exI [of _ ?s']) simp
qed

text \<open>The bytes of page \<open>p\<close> in the object file \<open>exe\<close>, or zeros for a page of neither segment.\<close>

definition image_bytes :: "NoffHeader \<Rightarrow> nat \<Rightarrow> 8 word list \<Rightarrow> 8 word list" where
  "image_bytes noffH p exe =
     (let a = word_of_nat p * word_of_nat PageSize;
          load = (\<lambda>g. pread exe (nat (sint (inFileAddr g + (a - virtualAddr g)))) PageSize)
      in if in_segment (code noffH) a then load (code noffH)
         else if in_segment (initData noffH) a then load (initData noffH)
         else replicate PageSize 0)"

definition in_file_ok :: "NoffHeader \<Rightarrow> nat \<Rightarrow> bool" where
  "in_file_ok noffH p \<longleftrightarrow>
     (let a = word_of_nat p * word_of_nat PageSize;
          fits = (\<lambda>g. 0 \<le> sint (inFileAddr g + (a - virtualAddr g)))
      in if in_segment (code noffH) a then fits (code noffH)
         else in_segment (initData noffH) a \<longrightarrow> fits (initData noffH))"

lemma length_image_bytes: "length (image_bytes noffH p exe) \<le> PageSize"
  by (simp add: image_bytes_def Let_def pread_def)

lemma fill_page_ok:
  assumes ok: "space_ok {p} sp s" and p: "p < npages sp" and hf: "has_frame p sp s" and pos: "in_file_ok noffH p"
  defines "bs \<equiv> image_bytes noffH p (inodes (host s) (of_inode (stored_executable sp)))"
  shows "\<exists>s'. fill_page noffH (int p) sp s = Inr s' \<and> space_shape sp s' \<and> pageTables s' = pageTables s \<and>
    frame_bytes (frame_of (tbl sp s ! p)) s' = bs @ drop (length bs) (frame_bytes (frame_of (tbl sp s ! p)) s) \<and>
    (\<forall>g < NumPhysPages. g \<noteq> frame_of (tbl sp s ! p) \<longrightarrow> frame_bytes g s' = frame_bytes g s) \<and>
    memmanage s' = memmanage s \<and> host s' = host s \<and> registers s' = registers s \<and> tlb s' = tlb s \<and>
    pageTable s' = pageTable s \<and> pageTableSize s' = pageTableSize s"
proof -
  let ?e = "tbl sp s ! p"
  have sh: "space_shape sp s" using ok by (simp add: space_ok_def)
  have len: "length bs \<le> PageSize" by (simp add: bs_def length_image_bytes)
  obtain s1 where s1: "write_frame (physicalPage ?e) bs s = Inr s1"
      "s1 = s\<lparr>mainMemory := poke (frame_of ?e * PageSize) bs (mainMemory s)\<rparr>" "length (mainMemory s1) = MemorySize"
      "frame_bytes (frame_of ?e) s1 = bs @ drop (length bs) (frame_bytes (frame_of ?e) s)"
      "\<forall>g < NumPhysPages. g \<noteq> frame_of ?e \<longrightarrow> frame_bytes g s1 = frame_bytes g s"
    using write_frame_ok [OF sh, of "physicalPage ?e" bs] hf len by (auto simp: has_frame_def)
  have sh1: "space_shape sp s1"
    using s1(2,3) sh by (intro space_shape_cong [OF sh]) (simp_all add: space_shape_def)
  let ?a = "word_of_nat p * word_of_nat PageSize :: 32 word"
  let ?s2 = "if in_segment (code noffH) ?a \<or> in_segment (initData noffH) ?a
    then s1\<lparr>stats := (stats s1)\<lparr>numPageIns := numPageIns (stats s1) + 1\<rparr>\<rparr> else s1"
  have run: "fill_page noffH (int p) sp s = Inr ?s2"
    using shape_get_pte [OF sh p] s1(1) pos
    by (auto simp: fill_page_def Let_def OpenFile_ReadAt_def bs_def image_bytes_def in_file_ok_def)
  have fb: "frame_bytes g ?s2 = frame_bytes g s1" for g by (simp add: frame_bytes_def)
  have "space_shape sp ?s2"
    using sh1 by (intro space_shape_cong [OF sh1]) (simp_all add: space_shape_def)
  moreover have "pageTables ?s2 = pageTables s \<and> memmanage ?s2 = memmanage s \<and> host ?s2 = host s \<and>
    registers ?s2 = registers s \<and> tlb ?s2 = tlb s \<and> pageTable ?s2 = pageTable s \<and> pageTableSize ?s2 = pageTableSize s"
    by (simp add: s1(2))
  moreover have "frame_bytes (frame_of ?e) ?s2 = bs @ drop (length bs) (frame_bytes (frame_of ?e) s)"
    "\<forall>g < NumPhysPages. g \<noteq> frame_of ?e \<longrightarrow> frame_bytes g ?s2 = frame_bytes g s"
    using s1(4,5) by (simp_all only: fb)
  ultimately show ?thesis using run by blast
qed

section \<open>A page fault\<close>

lemma bindO_assoc: "bindO (bindO m f) g = bindO m (\<lambda>x. bindO (f x) g)"
  by (simp add: bindO_def split: option.split sum.split)

lemma bindO_simps [simp]:
  "bindO (Some (Inr x)) k = k x" "bindO (Some (Inl e)) k = Some (Inl e)" "bindO None k = None"
  by (simp_all add: bindO_def)

lemma bindO_then: "bindO m f = Some (Inr x) \<Longrightarrow> bindO m (\<lambda>t. bindO (f t) k) = k x"
  by (simp flip: bindO_assoc)

lemma retry_frame_got: "retry_frame p (True, sp, s) = Some (Inr (True, sp, s))"
  by (simp add: retry_frame_def)

lemma frame_bytes_keeps: "keeps X sp s s' \<Longrightarrow> frame_bytes f s' = frame_bytes f s"
  by (simp add: keeps_def frame_bytes_def)

lemma others_bound: "space_ok X sp s \<Longrightarrow> int f \<in> others sp s \<Longrightarrow> f < NumPhysPages"
  using mmgr.taken_subset [of "memmanage s"] by (auto simp: space_ok_def space_shape_def others_def)

lemma others_grow:
  assumes "others sp s \<subseteq> pages_in_use (memmanage s')" and "int f \<notin> others sp s"
    and "own_frames sp' s' = insert f F" and "F \<subseteq> own_frames sp s"
  shows "others sp s \<subseteq> others sp' s'"
  using assms unfolding others_def by auto

lemma swapped_in:
  assumes ok: "space_ok {} sp s" and p: "p < npages sp" and nv: "\<not> valid (tbl sp s ! p)"
    and sw: "sint (physicalPage (tbl sp s ! p)) \<ge> 0"
    and room: "\<not> {0..<int NumPhysPages} \<subseteq> pages_in_use (memmanage s) \<or> resident sp s \<noteq> {} \<and> hand_ok sp"
  shows "\<exists>sp' s'. demandpage big junk (int p) sp s = Some (Inr (True, sp', s')) \<and> same_space sp sp' \<and> (hand_ok sp \<longrightarrow> hand_ok sp') \<and>
    space_ok {} sp' s' \<and> p \<in> resident sp' s' \<and> (\<forall>i < npages sp. page_data sp' s' i = page_data sp s i) \<and>
    others sp s \<subseteq> others sp' s' \<and> (\<forall>f. int f \<in> others sp s \<longrightarrow> frame_bytes f s' = frame_bytes f s)"
proof -
  let ?e = "tbl sp s ! p" and ?slot = "pread (swap_file sp s) (p * PageSize) PageSize"
  have sh: "space_shape sp s" and po: "pte_ok sp s p" using ok p by (simp_all add: space_ok_def)
  have ok0: "space_ok {p} sp s" using ok nv by (auto simp: space_ok_def)
  have vp: "virtualPage ?e = word_of_nat p" using sh p by (simp add: space_shape_def)
  have slot: "(p + 1) * PageSize \<le> length (swap_file sp s)" using po nv sw by (simp add: pte_ok_def Let_def)
  let ?s0 = "set_pte sp (int p) (?e\<lparr>valid := False\<rparr>) s"
  note s0 = set_faulting_pte [OF ok0 p, of "?e\<lparr>valid := False\<rparr>"]
  have ok1: "space_ok {p} sp ?s0" using s0(1) vp by simp
  have own0: "own_frames sp ?s0 = own_frames sp s"
  proof -
    have "tbl sp ?s0 = (tbl sp s)[p := ?e\<lparr>valid := False\<rparr>]" using s0(4) vp by simp
    then have "frame_of (tbl sp ?s0 ! i) = frame_of (tbl sp s ! i)" for i
      using sh p by (cases "i = p") (simp_all add: space_shape_def)
    moreover have "resident sp ?s0 = resident sp s" using s0(3) vp by simp
    ultimately show ?thesis by (simp add: own_frames_def)
  qed
  have oth0: "others sp ?s0 = others sp s" by (simp add: others_def own0)
  have room0: "\<not> {0..<int NumPhysPages} \<subseteq> pages_in_use (memmanage ?s0) \<or> resident sp ?s0 \<noteq> {} \<and> hand_ok sp"
    using room s0(3) vp by simp
  obtain sp1 s1 where h1: "hand_ok sp \<longrightarrow> hand_ok sp1" and s1: "bindO (Some (bindE (take_frame (int p) sp ?s0) (\<lambda>(got, s1). Inr (got, sp, s1))))
      (retry_frame (int p)) = Some (Inr (True, sp1, s1))" "same_space sp sp1" "space_ok {p} sp1 s1"
      "keeps {p} sp ?s0 s1" "has_frame p sp1 s1" "own_frames sp1 s1 \<subseteq> own_frames sp s"
      "int (frame_of (tbl sp1 s1 ! p)) \<notin> others sp s" "others sp s \<subseteq> pages_in_use (memmanage s1)"
    using obtain_frame [OF ok1 p room0] unfolding own0 oth0 by blast
  have k: "keeps {p} sp s s1" using keeps_trans [OF _ s1(4)] s0(2) vp by simp
  note ff = same_space_fields [OF s1(2)]
  have slot1: "(p + 1) * PageSize \<le> length (swap_file sp1 s1)" "pread (swap_file sp1 s1) (p * PageSize) PageSize = ?slot"
    using k slot p unfolding tbl_same_space [OF s1(2)] keeps_def by auto
  have p1: "p < npages sp1" using p ff by simp
  obtain s2 where s2: "PageIn sp1 (int p) s1 = Inr s2" "space_ok {} sp1 s2"
      "\<forall>i < npages sp1. i \<noteq> p \<longrightarrow> page_data sp1 s2 i = page_data sp1 s1 i"
      "page_data sp1 s2 p = Some ?slot" "resident sp1 s2 = insert p (resident sp1 s1)"
      "own_frames sp1 s2 = insert (frame_of (tbl sp1 s1 ! p)) (own_frames sp1 s1)"
      "\<forall>g < NumPhysPages. g \<noteq> frame_of (tbl sp1 s1 ! p) \<longrightarrow> frame_bytes g s2 = frame_bytes g s1"
      "memmanage s2 = memmanage s1"
    using PageIn_ok [OF s1(3) p1 s1(5) slot1(1)] slot1(2) by auto
  have run: "demandpage big junk (int p) sp s = Some (Inr (True, sp1, s2))"
    unfolding demandpage_def
    using shape_get_pte [OF sh p] sw s2(1) by (simp add: retry_frame_got bindO_then [OF s1(1)])
  have "page_data sp1 s2 i = page_data sp s i" if "i < npages sp" for i
  proof (cases "i = p")
    case True
    then show ?thesis using s2(4) nv sw by (simp add: page_data_def Let_def)
  next
    case False
    then have "page_data sp1 s1 i = page_data sp s i"
      using k that unfolding tbl_same_space [OF s1(2)] keeps_def by auto
    then show ?thesis using s2(3) False that ff by simp
  qed
  moreover have "others sp s \<subseteq> others sp1 s2"
    using others_grow [OF _ s1(7) s2(6) s1(6)] s1(8) s2(8) by simp
  moreover have "frame_bytes f s2 = frame_bytes f s" if "int f \<in> others sp s" for f
  proof -
    have "f \<noteq> frame_of (tbl sp1 s1 ! p)" using that s1(7) by auto
    then show ?thesis using s2(7) others_bound [OF ok that] frame_bytes_keeps [OF k] by simp
  qed
  ultimately show ?thesis using run h1 s1(2) s2(2,5) by (intro exI [of _ sp1] exI [of _ s2]) simp
qed

lemma first_load:
  assumes ok: "space_ok {} sp s" and p: "p < npages sp" and nv: "\<not> valid (tbl sp s ! p)"
    and fresh: "\<not> sint (physicalPage (tbl sp s ! p)) \<ge> 0"
    and room: "\<not> {0..<int NumPhysPages} \<subseteq> pages_in_use (memmanage s) \<or> resident sp s \<noteq> {} \<and> hand_ok sp"
    and hdr: "read_header big junk (stored_executable sp) (host s) = Inr noffH" "in_file_ok noffH p"
  defines "bs \<equiv> image_bytes noffH p (inodes (host s) (of_inode (stored_executable sp)))"
  shows "\<exists>sp' s' stale. demandpage big junk (int p) sp s = Some (Inr (True, sp', s')) \<and> same_space sp sp' \<and> (hand_ok sp \<longrightarrow> hand_ok sp') \<and>
    space_ok {} sp' s' \<and> p \<in> resident sp' s' \<and> page_data sp' s' p = Some (bs @ stale) \<and>
    length (bs @ stale) = PageSize \<and> (\<forall>i < npages sp. i \<noteq> p \<longrightarrow> page_data sp' s' i = page_data sp s i) \<and>
    others sp s \<subseteq> others sp' s' \<and> (\<forall>f. int f \<in> others sp s \<longrightarrow> frame_bytes f s' = frame_bytes f s)"
proof -
  have sh: "space_shape sp s" using ok by (simp add: space_ok_def)
  have ok0: "space_ok {p} sp s" using ok nv by (auto simp: space_ok_def)
  obtain sp1 s1 where h1: "hand_ok sp \<longrightarrow> hand_ok sp1" and s1: "bindO (Some (bindE (take_frame (int p) sp s) (\<lambda>(got, s1). Inr (got, sp, s1))))
      (retry_frame (int p)) = Some (Inr (True, sp1, s1))" "same_space sp sp1" "space_ok {p} sp1 s1"
      "keeps {p} sp s s1" "has_frame p sp1 s1" "own_frames sp1 s1 \<subseteq> own_frames sp s"
      "int (frame_of (tbl sp1 s1 ! p)) \<notin> others sp s" "others sp s \<subseteq> pages_in_use (memmanage s1)"
    using obtain_frame [OF ok0 p room] by blast
  note ff = same_space_fields [OF s1(2)]
  let ?e = "tbl sp1 s1 ! p"
  have p1: "p < npages sp1" using p ff by simp
  have sh1: "space_shape sp1 s1" using s1(3) by (simp add: space_ok_def)
  have exe: "inodes (host s1) (of_inode (stored_executable sp1)) = inodes (host s) (of_inode (stored_executable sp))"
    using s1(4) sh ff by (auto simp: keeps_def space_shape_def)
  obtain s2 where s2: "fill_page noffH (int p) sp1 s1 = Inr s2" "space_shape sp1 s2" "pageTables s2 = pageTables s1"
      "frame_bytes (frame_of ?e) s2 = bs @ drop (length bs) (frame_bytes (frame_of ?e) s1)"
      "\<forall>g < NumPhysPages. g \<noteq> frame_of ?e \<longrightarrow> frame_bytes g s2 = frame_bytes g s1"
      "memmanage s2 = memmanage s1" "host s2 = host s1"
    using fill_page_ok [OF s1(3) p1 s1(5) hdr(2)] exe unfolding bs_def by auto
  let ?e' = "?e\<lparr>dirty := True, valid := True\<rparr>"
  let ?s3 = "set_pte sp1 (int p) ?e' s2"
  have t2: "tbl sp1 s2 = tbl sp1 s1" using s2(3) by (simp add: tbl_def)
  have vp: "virtualPage ?e = word_of_nat p" using sh1 p1 by (simp add: space_shape_def)
  have sh3: "space_shape sp1 ?s3" using s2(2) vp by simp
  have t3: "tbl sp1 ?s3 = (tbl sp1 s1)[p := ?e']"
    using tbl_set_pte [of s2 sp1 p ?e'] s2(2) t2 by (simp add: space_shape_def)
  have fb3: "frame_bytes g ?s3 = frame_bytes g s2" for g by (simp add: frame_bytes_def)
  have inst: "space_ok {} sp1 ?s3" "\<And>i. i < npages sp1 \<Longrightarrow> i \<noteq> p \<Longrightarrow> page_data sp1 ?s3 i = page_data sp1 s1 i"
    "page_data sp1 ?s3 p = Some (frame_bytes (frame_of ?e) ?s3)" "resident sp1 ?s3 = insert p (resident sp1 s1)"
    "own_frames sp1 ?s3 = insert (frame_of ?e) (own_frames sp1 s1)"
    using install_ok [OF s1(3) p1 s1(5), of ?e' ?s3] vp t3 sh3 s2(5,6,7) by (simp_all add: fb3 swap_file_def)
  have run: "demandpage big junk (int p) sp s = Some (Inr (True, sp1, ?s3))"
    unfolding demandpage_def
    using shape_get_pte [OF sh p] fresh hdr(1) s2(1) shape_get_pte [OF s2(2) p1] t2
    by (simp add: bindO_then [OF s1(1)])
  have data: "page_data sp1 ?s3 i = page_data sp s i" if "i < npages sp" "i \<noteq> p" for i
  proof -
    have "page_data sp1 s1 i = page_data sp s i"
      using s1(4) that unfolding tbl_same_space [OF s1(2)] keeps_def by auto
    then show ?thesis using inst(2) that ff by simp
  qed
  have oth: "others sp s \<subseteq> others sp1 ?s3"
    using others_grow [OF _ s1(7) inst(5) s1(6)] s1(8) s2(6) by simp
  have fbo: "frame_bytes f ?s3 = frame_bytes f s" if "int f \<in> others sp s" for f
  proof -
    have "f \<noteq> frame_of ?e" using that s1(7) by auto
    then show ?thesis using s2(5) others_bound [OF ok that] frame_bytes_keeps [OF s1(4)] by (simp add: fb3)
  qed
  let ?stale = "drop (length bs) (frame_bytes (frame_of ?e) s1)"
  have "length (frame_bytes (frame_of ?e) s1) = PageSize"
    using s1(5) sh1 by (intro length_frame_bytes) (simp_all add: has_frame_def space_shape_def)
  then have len: "length (bs @ ?stale) = PageSize" using length_image_bytes by (simp add: bs_def)
  show ?thesis
    using run h1 s1(2) inst(1,3,4) s2(4) data oth fbo len
    by (intro exI [of _ sp1] exI [of _ ?s3] exI [of _ ?stale]) (simp add: fb3)
qed

lemma demandpage_serves:
  assumes "space_ok {} sp s" and "p < npages sp" and "\<not> valid (tbl sp s ! p)"
    and "\<not> {0..<int NumPhysPages} \<subseteq> pages_in_use (memmanage s) \<or> resident sp s \<noteq> {} \<and> hand_ok sp"
    and "page_data sp s p = None \<Longrightarrow>
      read_header big junk (stored_executable sp) (host s) = Inr noffH \<and> in_file_ok noffH p"
  shows "\<exists>sp' s'. demandpage big junk (int p) sp s = Some (Inr (True, sp', s')) \<and> same_space sp sp' \<and> (hand_ok sp \<longrightarrow> hand_ok sp') \<and>
    space_ok {} sp' s' \<and> p \<in> resident sp' s' \<and>
    (\<forall>i < npages sp. i \<noteq> p \<longrightarrow> page_data sp' s' i = page_data sp s i) \<and>
    (case page_data sp s p of
       Some bytes \<Rightarrow> page_data sp' s' p = Some bytes
     | None \<Rightarrow> \<exists>stale. page_data sp' s' p =
         Some (image_bytes noffH p (inodes (host s) (of_inode (stored_executable sp))) @ stale)) \<and>
    others sp s \<subseteq> others sp' s' \<and> (\<forall>f. int f \<in> others sp s \<longrightarrow> frame_bytes f s' = frame_bytes f s)"
proof (cases "sint (physicalPage (tbl sp s ! p)) \<ge> 0")
  case True
  then obtain bytes where d: "page_data sp s p = Some bytes" using assms(3) by (simp add: page_data_def Let_def)
  obtain sp' s' where r: "demandpage big junk (int p) sp s = Some (Inr (True, sp', s'))" "same_space sp sp'" "hand_ok sp \<longrightarrow> hand_ok sp'"
      "space_ok {} sp' s'" "p \<in> resident sp' s'" "\<forall>i < npages sp. page_data sp' s' i = page_data sp s i"
      "others sp s \<subseteq> others sp' s'" "\<forall>f. int f \<in> others sp s \<longrightarrow> frame_bytes f s' = frame_bytes f s"
    using swapped_in [OF assms(1-3) True assms(4), of big junk] by blast
  then show ?thesis using d assms(2) by (intro exI [of _ sp'] exI [of _ s']) simp
next
  case False
  then have none: "page_data sp s p = None" using assms(3) by (simp add: page_data_def Let_def)
  let ?bs = "image_bytes noffH p (inodes (host s) (of_inode (stored_executable sp)))"
  obtain sp' s' stale where r: "demandpage big junk (int p) sp s = Some (Inr (True, sp', s'))" "same_space sp sp'" "hand_ok sp \<longrightarrow> hand_ok sp'"
      "space_ok {} sp' s'" "p \<in> resident sp' s'" "page_data sp' s' p = Some (?bs @ stale)"
      "\<forall>i < npages sp. i \<noteq> p \<longrightarrow> page_data sp' s' i = page_data sp s i"
      "others sp s \<subseteq> others sp' s'" "\<forall>f. int f \<in> others sp s \<longrightarrow> frame_bytes f s' = frame_bytes f s"
    using first_load [OF assms(1-3) False assms(4)] assms(5) [OF none] by blast
  then show ?thesis using none by (intro exI [of _ sp'] exI [of _ s']) simp
qed

text \<open>
  C1. Demand paging keeps what user programs stored. When a page that is not resident
  faults, and a frame is free or the space has a resident page to give up (and its clock hand
  points into its table), \<^verbatim>\<open>demandpage\<close> returns (the clock search ends) with the page resident. A page that was paged out comes
  back with exactly the bytes it had; a page that was never loaded gets the bytes of the
  object file, or zeros. Every other page of the space keeps its contents, wherever it now
  is, the frames of other spaces are neither taken nor changed, and the invariant of the
  space holds again.
\<close>

theorem demandpage_correct:
  assumes "space_ok {} sp s" and "p < npages sp" and "\<not> valid (tbl sp s ! p)"
    and "\<not> {0..<int NumPhysPages} \<subseteq> pages_in_use (memmanage s) \<or> resident sp s \<noteq> {} \<and> hand_ok sp"
    and "page_data sp s p = None \<Longrightarrow>
      read_header big junk (stored_executable sp) (host s) = Inr noffH \<and> in_file_ok noffH p"
  shows "\<exists>sp' s'. demandpage big junk (int p) sp s = Some (Inr (True, sp', s')) \<and> same_space sp sp' \<and> (hand_ok sp \<longrightarrow> hand_ok sp') \<and>
    space_ok {} sp' s' \<and> p \<in> resident sp' s' \<and>
    (\<forall>i < npages sp. i \<noteq> p \<longrightarrow> page_data sp' s' i = page_data sp s i) \<and>
    (case page_data sp s p of
       Some bytes \<Rightarrow> page_data sp' s' p = Some bytes
     | None \<Rightarrow> \<exists>stale. page_data sp' s' p =
         Some (image_bytes noffH p (inodes (host s) (of_inode (stored_executable sp))) @ stale)) \<and>
    others sp s \<subseteq> others sp' s' \<and> (\<forall>f. int f \<in> others sp s \<longrightarrow> frame_bytes f s' = frame_bytes f s)"
  using demandpage_serves [OF assms] .

text \<open>A small system: one address space of one page, never loaded, and an object file of four code bytes.\<close>

definition demo_exe :: "8 word list" where
  "demo_exe = [0xad, 0xdf, 0xba, 0] @ [0, 0, 0, 0] @ [40, 0, 0, 0] @ [4, 0, 0, 0] @ replicate 24 0 @ [1, 2, 3, 4]"

definition demo_space :: AddrSpace where
  "demo_space = \<lparr>clock_hand = 0, backing = \<lparr>bs_fname = ''bs128'', bs_file = Some \<lparr>of_inode = 1, currentOffset = 0\<rparr>\<rparr>,
     stored_executable = \<lparr>of_inode = 0, currentOffset = 0\<rparr>, as_pageTable = 0, numPages = 1\<rparr>"

definition demo_vm :: VM where
  "demo_vm = Machine.extend (demo_machine\<lparr>pageTables := [0 \<mapsto> [fresh_pte 0]], pageTableSize := 1\<rparr>)
     \<lparr>memmanage = \<lparr>mNumPages = 4, mm_bmap = \<lparr>numBits = 4, numWords = 1, words = [0]\<rparr>\<rparr>,
      host = \<lparr>inodes = (\<lambda>_. [])(0 := demo_exe), names = Map.empty, next_inode = 2\<rparr>, pt_next = 1, use_fifo = False\<rparr>"

definition demo_header :: NoffHeader where
  "demo_header = \<lparr>noffMagic = NOFFMAGIC, code = \<lparr>virtualAddr = 0, inFileAddr = 40, seg_size = 4\<rparr>,
     initData = \<lparr>virtualAddr = 0, inFileAddr = 0, seg_size = 0\<rparr>,
     uninitData = \<lparr>virtualAddr = 0, inFileAddr = 0, seg_size = 0\<rparr>\<rparr>"

lemma demo_vm_simps [simp]:
  "pageTables demo_vm = [0 \<mapsto> [fresh_pte 0]]" "mainMemory demo_vm = replicate MemorySize 0"
  "memmanage demo_vm = \<lparr>mNumPages = 4, mm_bmap = \<lparr>numBits = 4, numWords = 1, words = [0]\<rparr>\<rparr>"
  "inodes (host demo_vm) 0 = demo_exe" "inodes (host demo_vm) (Suc 0) = []"
  "tbl demo_space demo_vm = [fresh_pte 0]" "npages demo_space = 1"
  by (simp_all add: demo_vm_def demo_machine_def Machine.extend_def tbl_def demo_space_def)

lemma demo_mm: "mm_inv (memmanage demo_vm)" "pages_in_use (memmanage demo_vm) = {}"
proof -
  have "divRoundUp 4 BitsInWord = 1" by (simp add: divRoundUp_nonneg BitsInWord_def)
  then show "mm_inv (memmanage demo_vm)"
    by (simp add: mm_inv_def bitmap_inv_def wf_bitmap_def)
  show "pages_in_use (memmanage demo_vm) = {}"
    by (auto simp: pages_in_use_def used_def word_index_def BitsInWord_def sdiv_nonneg div_pos_pos_trivial)
qed

lemma demo_space_ok: "space_ok {} demo_space demo_vm"
  using demo_mm
  by (simp add: space_ok_def space_shape_def pte_ok_def Let_def resident_def fresh_pte_def size_defs inj_on_def)
     (simp add: demo_space_def)

lemma demo_header_bytes: "header_of False (poke 0 (pread demo_exe 0 40) (replicate 40 0)) = demo_header"
  by code_simp

lemma demo_read_header: "read_header False (replicate 40 0) (stored_executable demo_space) (host demo_vm) = Inr demo_header"
  by (simp add: read_header_def OpenFile_ReadAt_def demo_header_bytes Let_def demo_space_def)
     (simp add: demo_header_def)

lemma demo_in_file: "in_file_ok demo_header 0"
  by (simp add: in_file_ok_def demo_header_def Let_def in_segment_def)

lemma demo_image: "image_bytes demo_header 0 demo_exe = [1, 2, 3, 4]"
  by code_simp

theorem demandpage_correct_witness:
  "\<exists>sp' s' stale. demandpage False (replicate 40 0) 0 demo_space demo_vm = Some (Inr (True, sp', s')) \<and>
     space_ok {} sp' s' \<and> page_data sp' s' 0 = Some ([1, 2, 3, 4] @ stale)"
proof -
  have none: "page_data demo_space demo_vm 0 = None" by (simp add: page_data_def fresh_pte_def Let_def)
  have "\<not> valid (tbl demo_space demo_vm ! 0)" by (simp add: fresh_pte_def)
  moreover have "\<not> {0..<int NumPhysPages} \<subseteq> pages_in_use (memmanage demo_vm)"
    unfolding demo_mm(2) by (simp add: size_defs)
  moreover have "inodes (host demo_vm) (of_inode (stored_executable demo_space)) = demo_exe"
    by (simp add: demo_space_def)
  ultimately show ?thesis
    using demandpage_correct [OF demo_space_ok, of 0 False "replicate 40 0" demo_header] none demo_read_header
      demo_in_file demo_image by (simp del: demo_vm_simps(3)) blast
qed

section \<open>Creation and destruction of a space\<close>

lemma ceil_pages:
  assumes "unat (w :: 32 word) < 2 ^ 31 - 128"
  shows "unat (word_of_int (divRoundUp (uint w) (int PageSize)) :: 32 word) = (unat w + PageSize - 1) div PageSize"
proof -
  have w: "uint w < 2 ^ 31" using assms by (simp add: uint_nat)
  have "divRoundUp (uint w) 128 = (uint w + 127) div 128"
  proof -
    have "divRoundUp (uint w) 128 = uint w div 128 + (if uint w mod 128 = 0 then 0 else 1)"
      by (rule divRoundUp_nonneg) simp_all
    then show ?thesis by (simp add: div_add1_eq [of "uint w" 127]) (smt (verit) mod_add_self2 pos_mod_bound pos_mod_sign zdiv_eq_0_iff div_pos_geq)
  qed
  moreover have "(uint w + 127) div 128 = int ((unat w + 127) div 128)" by (simp add: uint_nat zdiv_int)
  moreover have "(unat w + 127) div 128 < 2 ^ 31" using assms by simp
  ultimately show ?thesis by (simp add: size_defs unat_of_nat)
qed

lemma new_backing:
  assumes "of_inode exe < next_inode fs" and "names fs (''bs'' @ digits (unat n)) \<noteq> Some (of_inode exe)"
    and "BackingStore_BackingStore n fs = (b, fs')"
  shows "\<exists>f. bs_file b = Some f \<and> of_inode f \<noteq> of_inode exe \<and>
    inodes fs' (of_inode exe) = inodes fs (of_inode exe)"
  using assms
  by (auto simp: BackingStore_BackingStore_def FileSystem_Create_def FileSystem_Open_def OpenForWrite_def Let_def
      split: option.splits)

lemma fresh_space_ok:
  assumes "space_shape sp s" and "tbl sp s = map fresh_pte [0..<npages sp]"
  shows "space_ok {} sp s" and "resident sp s = {}" and "i < npages sp \<Longrightarrow> page_data sp s i = None"
proof -
  have e: "tbl sp s ! i = fresh_pte i" if "i < npages sp" for i using that by (simp add: assms(2))
  show r: "resident sp s = {}" using e by (auto simp: resident_def fresh_pte_def)
  have "pte_ok sp s i" if "i < npages sp" for i using e [OF that] by (simp add: pte_ok_def Let_def fresh_pte_def)
  then show "space_ok {} sp s" using assms(1) r by (simp add: space_ok_def)
  show "page_data sp s i = None" if "i < npages sp" using e [OF that] by (simp add: page_data_def Let_def fresh_pte_def)
qed

lemma Initialize_new:
  assumes hdr: "read_header big junk exe (host s) = Inr h"
    and sz: "unat (seg_size (code h)) + unat (seg_size (initData h)) + unat (seg_size (uninitData h)) + 1024 < 2 ^ 31 - 128"
    and exe: "of_inode exe < next_inode (host s)"
    and nm: "\<And>n. names (host s) (''bs'' @ digits n) \<noteq> Some (of_inode exe)"
    and mm: "mm_inv (memmanage s)" "mNumPages (memmanage s) = int NumPhysPages" "length (mainMemory s) = MemorySize"
  shows "\<exists>sp s'. Initialize big junk hand0 exe s = Inr (sp, s') \<and> space_ok {} sp s' \<and> clock_hand sp = hand0 \<and>
    npages sp = (unat (seg_size (code h)) + unat (seg_size (initData h)) + unat (seg_size (uninitData h)) + 1024 + 127) div PageSize \<and>
    (\<forall>i < npages sp. page_data sp s' i = None) \<and> memmanage s' = memmanage s \<and> mainMemory s' = mainMemory s \<and>
    inodes (host s') (of_inode exe) = inodes (host s) (of_inode exe)"
proof -
  let ?N = "unat (seg_size (code h)) + unat (seg_size (initData h)) + unat (seg_size (uninitData h)) + 1024"
  let ?w = "seg_size (code h) + seg_size (initData h) + seg_size (uninitData h) + UserStackSize"
  let ?n = "word_of_int (divRoundUp (uint ?w) (int PageSize)) :: 32 word"
  have w: "unat ?w = ?N" using sz by (simp add: unat_word_ariths UserStackSize_def)
  have n: "unat ?n = (?N + 127) div PageSize"
    using ceil_pages [of ?w] sz by (simp only: w) (simp add: size_defs)
  obtain b fs where bs: "BackingStore_BackingStore (?n * word_of_nat PageSize) (host s) = (b, fs)" by fastforce
  obtain f where f: "bs_file b = Some f" "of_inode f \<noteq> of_inode exe" "inodes fs (of_inode exe) = inodes (host s) (of_inode exe)"
    using new_backing [OF exe nm bs] by blast
  define sp where "sp = \<lparr>clock_hand = hand0, backing = b, stored_executable = exe, as_pageTable = pt_next s, numPages = ?n\<rparr>"
  define s' where "s' = s\<lparr>host := fs, pt_next := Suc (pt_next s),
    pageTables := (pageTables s)(pt_next s \<mapsto> map fresh_pte [0..<unat ?n])\<rparr>"
  have run: "Initialize big junk hand0 exe s = Inr (sp, s')"
    using hdr bs by (simp add: Initialize_def Let_def sp_def s'_def)
  have t: "tbl sp s' = map fresh_pte [0..<unat ?n]" by (simp add: tbl_def sp_def s'_def)
  have np: "npages sp = unat ?n" by (simp add: sp_def)
  have e: "tbl sp s' ! i = fresh_pte i" if "i < npages sp" for i using that by (simp add: t np)
  have big8: "8 \<le> unat ?n" "unat ?n * PageSize < 2 ^ 31" unfolding n using sz by (simp_all add: size_defs)
  have "space_shape sp s'"
    unfolding space_shape_def
  proof (intro conjI allI impI)
    show "virtualPage (tbl sp s' ! i) = word_of_nat i" if "i < npages sp" for i
      using e [OF that] by (simp add: fresh_pte_def)
  qed (use t np big8 mm f in \<open>simp_all add: sp_def s'_def\<close>)
  note fr = fresh_space_ok [OF this t [folded np]]
  show ?thesis
    using run f(3) n np fr(1,3) by (intro exI [of _ sp] exI [of _ s']) (simp add: s'_def, simp add: sp_def)
qed

text \<open>
  C25. A new address space is well-formed. For an object file with a good header whose segments
  and stack fit, \<^verbatim>\<open>Initialize\<close> builds a space with just enough pages for code, data and stack. No
  page is resident or in the backing file yet, the invariant of paging holds, no frame is taken and
  the object file is untouched. The clock hand is left with what the memory held (\<open>hand0\<close>): when that is
  not the number of a page, the first search for a victim reads beyond the page table.
\<close>

theorem initialize_ok:
  assumes hdr: "read_header big junk exe (host s) = Inr h"
    and sz: "unat (seg_size (code h)) + unat (seg_size (initData h)) + unat (seg_size (uninitData h)) + 1024 < 2 ^ 31 - 128"
    and exe: "of_inode exe < next_inode (host s)"
    and nm: "\<And>n. names (host s) (''bs'' @ digits n) \<noteq> Some (of_inode exe)"
    and mm: "mm_inv (memmanage s)" "mNumPages (memmanage s) = int NumPhysPages" "length (mainMemory s) = MemorySize"
  shows "\<exists>sp s'. Initialize big junk hand0 exe s = Inr (sp, s') \<and> space_ok {} sp s' \<and> clock_hand sp = hand0 \<and>
    npages sp = (unat (seg_size (code h)) + unat (seg_size (initData h)) + unat (seg_size (uninitData h)) + 1024 + 127) div PageSize \<and>
    (\<forall>i < npages sp. page_data sp s' i = None) \<and> memmanage s' = memmanage s \<and> mainMemory s' = mainMemory s \<and>
    inodes (host s') (of_inode exe) = inodes (host s) (of_inode exe) \<and>
    (\<not> unat hand0 < npages sp \<longrightarrow> ClearPage sp s' = Some (Inl OutOfBounds))"
  using Initialize_new [OF assms, of hand0] ClearPage_lost by blast

definition boot_vm :: VM where
  "boot_vm = demo_vm\<lparr>host := (host demo_vm)\<lparr>names := [''exe'' \<mapsto> 0]\<rparr>\<rparr>"

theorem initialize_ok_witness:
  "\<exists>sp s'. Initialize False (replicate 40 0) 77 \<lparr>of_inode = 0, currentOffset = 0\<rparr> boot_vm = Inr (sp, s') \<and>
     space_ok {} sp s' \<and> npages sp = 9 \<and> ClearPage sp s' = Some (Inl OutOfBounds)"
proof -
  let ?exe = "\<lparr>of_inode = 0, currentOffset = 0\<rparr>"
  have h: "read_header False (replicate 40 0) ?exe (host boot_vm) = Inr demo_header"
    using demo_read_header by (simp add: boot_vm_def read_header_def OpenFile_ReadAt_def demo_space_def)
  have m: "memmanage boot_vm = memmanage demo_vm" "mainMemory boot_vm = replicate MemorySize 0"
    "mNumPages (memmanage boot_vm) = 4"
    by (simp_all add: boot_vm_def)
  have "names (host boot_vm) (''bs'' @ digits n) \<noteq> Some 0" for n
    by (simp add: boot_vm_def)
  moreover have "next_inode (host boot_vm) = 2"
    by (simp add: boot_vm_def demo_vm_def Machine.extend_def)
  ultimately show ?thesis
    using initialize_ok [OF h, of 77] demo_mm(1) m
    by (simp add: size_defs demo_header_def del: demo_vm_simps(3)) (elim exE conjE, intro exI conjI, auto)
qed

text \<open>
  Exit frees exactly the frames of the process. \<^verbatim>\<open>ClearState\<close> never fails on a well-formed
  space; afterwards the frames in use are those the other spaces hold, so a frame is neither
  leaked nor taken from another space.
\<close>

theorem clear_state_frees:
  assumes "space_ok {} sp s"
  shows "\<exists>mm. ClearState sp s = Inr (s\<lparr>memmanage := mm\<rparr>) \<and> mm_inv mm \<and> mNumPages mm = int NumPhysPages \<and>
    pages_in_use mm = others sp s"
proof -
  have sh: "space_shape sp s" using assms by (simp add: space_ok_def)
  let ?P = "\<lambda>ys t. \<exists>mm. t = s\<lparr>memmanage := mm\<rparr> \<and> space_shape sp t \<and>
    pages_in_use mm = pages_in_use (memmanage s) - int ` (\<lambda>i. frame_of (tbl sp s ! i)) ` {i \<in> resident sp s. int i \<in> set ys}"
  have "\<exists>t. ClearState sp s = Inr t \<and> ?P (range_int (uint (numPages sp))) t"
    unfolding ClearState_def
  proof (rule foldE_inv)
    show "?P [] s" using sh by (intro exI [of _ "memmanage s"]) simp
  next
    fix ys y zs t
    assume split: "range_int (uint (numPages sp)) = ys @ y # zs" and P: "?P ys t"
    have "y \<in> set (range_int (uint (numPages sp)))" unfolding split by simp
    then have y: "0 \<le> y" "y < int (npages sp)" unfolding set_range_int by (simp_all add: uint_nat)
    define i where "i = nat y"
    have i: "y = int i" "i < npages sp" using y by (simp_all add: i_def nat_less_iff)
    obtain mm where t: "t = s\<lparr>memmanage := mm\<rparr>" and sht: "space_shape sp t"
      and use: "pages_in_use mm = pages_in_use (memmanage s) - int ` (\<lambda>i. frame_of (tbl sp s ! i)) ` {i \<in> resident sp s. int i \<in> set ys}"
      using P by blast
    have tt: "tbl sp t = tbl sp s" by (simp add: t tbl_def)
    let ?e = "tbl sp s ! i"
    have g: "get_pte sp (int i) t = Inr ?e" using shape_get_pte [OF sht i(2)] tt by simp
    show "\<exists>t'. bindE (get_pte sp y t) (\<lambda>pte. if valid pte \<and> sint (physicalPage pte) \<ge> 0
        then free_page (sint (physicalPage pte)) t else Inr t) = Inr t' \<and> ?P (ys @ [y]) t'"
    proof (cases "valid ?e")
      case True
      have fr: "frame_of ?e < NumPhysPages"
        using assms i(2) True by (auto simp: space_ok_def pte_ok_def Let_def)
      then have sf: "sint (physicalPage ?e) = int (frame_of ?e)" by (simp add: sint_small size_defs)
      obtain mm' where mm': "free_page (int (frame_of ?e)) t = Inr (t\<lparr>memmanage := mm'\<rparr>)"
          "space_shape sp (t\<lparr>memmanage := mm'\<rparr>)" "pages_in_use mm' = pages_in_use (memmanage t) - {int (frame_of ?e)}"
        using free_page_ok [OF sht fr] by blast
      have "{j \<in> resident sp s. int j \<in> set (ys @ [y])} = insert i {j \<in> resident sp s. int j \<in> set ys}"
        using i True by (auto simp: resident_def)
      then have "?P (ys @ [y]) (s\<lparr>memmanage := mm'\<rparr>)"
        using mm'(2,3) use unfolding t by (intro exI [of _ mm']) (simp, blast)
      moreover have "bindE (get_pte sp y t) (\<lambda>pte. if valid pte \<and> sint (physicalPage pte) \<ge> 0
          then free_page (sint (physicalPage pte)) t else Inr t) = Inr (s\<lparr>memmanage := mm'\<rparr>)"
        using g i True sf mm'(1) t by simp
      ultimately show ?thesis by blast
    next
      case False
      then have "{j \<in> resident sp s. int j \<in> set (ys @ [y])} = {j \<in> resident sp s. int j \<in> set ys}"
        using i by (auto simp: resident_def)
      then have "?P (ys @ [y]) t" using t sht use by (intro exI [of _ mm]) simp
      then show ?thesis using g i False by simp
    qed
  qed
  then obtain t where t: "ClearState sp s = Inr t" and P: "?P (range_int (uint (numPages sp))) t" by blast
  from P obtain mm where mm: "t = s\<lparr>memmanage := mm\<rparr>" "space_shape sp t"
    "pages_in_use mm = pages_in_use (memmanage s) - int ` (\<lambda>i. frame_of (tbl sp s ! i)) `
       {i \<in> resident sp s. int i \<in> set (range_int (uint (numPages sp)))}" by blast
  have "{i \<in> resident sp s. int i \<in> set (range_int (uint (numPages sp)))} = resident sp s"
    by (auto simp: resident_def uint_nat)
  then have "pages_in_use mm = others sp s" using mm(3) by (simp only: others_def own_frames_def)
  moreover have "mm_inv mm" "mNumPages mm = int NumPhysPages" using mm(1,2) by (simp_all add: space_shape_def)
  ultimately show ?thesis using t mm(1) by blast
qed

theorem clear_state_frees_witness:
  "\<exists>mm. ClearState demo_space demo_vm = Inr (demo_vm\<lparr>memmanage := mm\<rparr>) \<and> pages_in_use mm = others demo_space demo_vm"
  using clear_state_frees [OF demo_space_ok] by blast

section \<open>Where the source falls short\<close>

lemma clock_step_empty:
  assumes ok: "space_ok X sp s" and r: "resident sp s = {}" and h: "hand_ok sp"
  shows "\<exists>sp' s'. clock_step sp s = Inr (False, sp', s') \<and> space_ok X sp' s' \<and> resident sp' s' = {} \<and> hand_ok sp'"
proof -
  let ?h = "unat (clock_hand sp)"
  have sh: "space_shape sp s" using ok by (simp add: space_ok_def)
  have n31: "npages sp * PageSize < 2 ^ 31" and n0: "numPages sp \<noteq> 0"
    using sh by (auto simp: space_shape_def)
  have "?h < 2 ^ 31" using h n31 by (simp add: size_defs)
  then have s: "sint (clock_hand sp) = int ?h" by (rule sint_small)
  have nv: "\<not> valid (tbl sp s ! ?h)" using r h by (auto simp: resident_def)
  note cu = clear_use_ok [OF ok h]
  have "unat ((clock_hand sp + 1) mod numPages sp) < npages sp"
    using unat_next_hand [OF h] h by simp
  then show ?thesis
    using shape_get_pte [OF sh h] s nv n0 cu(1,3) r by (auto simp: clock_step_def Let_def)
qed

lemma ClearPage_hangs:
  assumes "space_ok X sp s" and "resident sp s = {}" and "hand_ok sp"
  shows "ClearPage sp s = None"
proof -
  let ?stuck = "\<lambda>sp s. space_ok X sp s \<and> resident sp s = {} \<and> hand_ok sp"
  have "\<not> ?stuck sp s" if "ClearPage sp s = Some r" for r
    using that
  proof (rule ClearPage.raw_induct [of "\<lambda>sp s r. \<not> ?stuck sp s", rotated])
    fix CP :: "AddrSpace \<Rightarrow> 'a VM_scheme \<Rightarrow> (AddrSpace \<times> 'a VM_scheme) res option" and sp s r
    assume IH: "\<And>sp s r. CP sp s = Some r \<Longrightarrow> \<not> ?stuck sp s"
      and body: "(case clock_step sp s of Inl e \<Rightarrow> Some (Inl e)
        | Inr (stop, sp', s') \<Rightarrow> if stop then Some (Inr (sp', s')) else CP sp' s') = Some r"
    show "\<not> ?stuck sp s"
    proof
      assume "?stuck sp s"
      then obtain sp' s' where "clock_step sp s = Inr (False, sp', s')" "?stuck sp' s'"
        using clock_step_empty by blast
      with body IH [of sp' s' r] show False by simp
    qed
  qed
  with assms show ?thesis by (cases "ClearPage sp s") blast+
qed

text \<open>A search that does not find a victim, whether it never ends or fails, is the end of the fault.\<close>

lemma retry_frame_stuck:
  fixes s :: "'a VM_scheme"
  assumes "space_ok {p} sp s" and "p < npages sp" and "{0..<int NumPhysPages} \<subseteq> pages_in_use (memmanage s)"
    and stuck: "\<And>s1 :: 'a VM_scheme. space_ok {p} sp s1 \<Longrightarrow> resident sp s1 = resident sp s \<Longrightarrow> ClearPage sp s1 = map_option Inl r"
  shows "bindO (Some (bindE (take_frame (int p) sp s) (\<lambda>(got, s1). Inr (got, sp, s1)))) (\<lambda>t. bindO (retry_frame (int p) t) k) = map_option Inl r"
proof -
  obtain s1 where "take_frame (int p) sp s = Inr (False, s1)" "space_ok {p} sp s1" "resident sp s1 = resident sp s"
    using take_frame_ok [OF assms(1,2)] assms(3) by auto
  then show ?thesis using stuck [of s1] by (cases r) (simp_all add: retry_frame_def)
qed

lemma demandpage_stuck:
  fixes s :: "'a VM_scheme"
  assumes ok: "space_ok {} sp s" and p: "p < npages sp" and nv: "\<not> valid (tbl sp s ! p)"
    and full: "{0..<int NumPhysPages} \<subseteq> pages_in_use (memmanage s)"
    and stuck: "\<And>s1 :: 'a VM_scheme. space_ok {p} sp s1 \<Longrightarrow> resident sp s1 = resident sp s \<Longrightarrow> ClearPage sp s1 = map_option Inl r"
    and hdr: "page_data sp s p = None \<Longrightarrow> read_header big junk (stored_executable sp) (host s) = Inr noffH"
  shows "demandpage big junk (int p) sp s = map_option Inl r"
proof -
  have sh: "space_shape sp s" using ok by (simp add: space_ok_def)
  have ok0: "space_ok {p} sp s" using ok nv by (auto simp: space_ok_def)
  have vp: "virtualPage (tbl sp s ! p) = word_of_nat p" using sh p by (simp add: space_shape_def)
  show ?thesis
  proof (cases "sint (physicalPage (tbl sp s ! p)) \<ge> 0")
    case True
    let ?e = "(tbl sp s ! p)\<lparr>valid := False\<rparr>"
    note s0 = set_faulting_pte [OF ok0 p, of ?e]
    have "space_ok {p} sp (set_pte sp (int p) ?e s)" "resident sp (set_pte sp (int p) ?e s) = resident sp s"
      using s0(1,3) vp by simp_all
    then have "bindO (Some (bindE (take_frame (int p) sp (set_pte sp (int p) ?e s)) (\<lambda>(got, s1). Inr (got, sp, s1))))
        (\<lambda>t. bindO (retry_frame (int p) t) k) = map_option Inl r" for k
      using full stuck by (intro retry_frame_stuck [OF _ p]) simp_all
    then show ?thesis
      unfolding demandpage_def using shape_get_pte [OF sh p] True by simp
  next
    case False
    then have "page_data sp s p = None" using nv by (simp add: page_data_def Let_def)
    with hdr have "read_header big junk (stored_executable sp) (host s) = Inr noffH" by simp
    then show ?thesis
      unfolding demandpage_def using shape_get_pte [OF sh p] False retry_frame_stuck [OF ok0 p full stuck] by simp
  qed
qed

lemma demandpage_no_room:
  fixes s :: "'a VM_scheme"
  assumes ok: "space_ok {} sp s" and p: "p < npages sp" and nv: "\<not> valid (tbl sp s ! p)"
    and full: "{0..<int NumPhysPages} \<subseteq> pages_in_use (memmanage s)" and none: "\<not> (resident sp s \<noteq> {} \<and> hand_ok sp)"
    and hdr: "page_data sp s p = None \<Longrightarrow> read_header big junk (stored_executable sp) (host s) = Inr noffH"
  shows "demandpage big junk (int p) sp s = (if hand_ok sp then None else Some (Inl OutOfBounds))"
proof (cases "hand_ok sp")
  case True
  then have "ClearPage sp s1 = map_option Inl None" if "space_ok {p} sp s1" "resident sp s1 = resident sp s" for s1 :: "'a VM_scheme"
    using ClearPage_hangs that none by simp
  from demandpage_stuck [OF ok p nv full this hdr] True show ?thesis by simp
next
  case False
  then have "ClearPage sp s1 = map_option Inl (Some OutOfBounds)" if "space_ok {p} sp s1" "resident sp s1 = resident sp s" for s1 :: "'a VM_scheme"
    using ClearPage_lost that by simp
  from demandpage_stuck [OF ok p nv full this hdr] False show ?thesis by simp
qed

text \<open>
  The other way round: a fault that returns had room, a header and a place in the object file, so that
  it has done all that \<^verbatim>\<open>demandpage\<close> promises.
\<close>

lemma fill_page_in_file: "fill_page noffH (int p) sp s = Inr s' \<Longrightarrow> in_file_ok noffH p"
  by (auto simp: fill_page_def in_file_ok_def Let_def OpenFile_ReadAt_def ASSERT_def split: if_splits)

lemma demandpage_first_load:
  assumes ok: "space_ok {} sp s" and p: "p < npages sp" and nv: "\<not> valid (tbl sp s ! p)" and none: "page_data sp s p = None"
    and room: "\<not> {0..<int NumPhysPages} \<subseteq> pages_in_use (memmanage s) \<or> resident sp s \<noteq> {} \<and> hand_ok sp"
    and run: "demandpage big junk (int p) sp s = Some (Inr (b, sp', s'))"
  shows "\<exists>noffH. read_header big junk (stored_executable sp) (host s) = Inr noffH \<and> in_file_ok noffH p"
proof -
  have sh: "space_shape sp s" and ok0: "space_ok {p} sp s" using ok nv by (auto simp: space_ok_def)
  have neg: "\<not> sint (physicalPage (tbl sp s ! p)) \<ge> 0" using nv none by (auto simp: page_data_def Let_def split: if_splits)
  obtain noffH where h: "read_header big junk (stored_executable sp) (host s) = Inr noffH"
    using run neg shape_get_pte [OF sh p]
    by (cases "read_header big junk (stored_executable sp) (host s)") (auto simp: demandpage_def)
  obtain sp1 s1 where "bindO (Some (bindE (take_frame (int p) sp s) (\<lambda>(got, s1). Inr (got, sp, s1)))) (retry_frame (int p)) = Some (Inr (True, sp1, s1))"
    using obtain_frame [OF ok0 p room] by blast
  note got = bindO_then [OF this]
  have "\<exists>s2. fill_page noffH (int p) sp1 s1 = Inr s2"
    using run neg shape_get_pte [OF sh p] h unfolding demandpage_def by (simp add: got) auto
  then show ?thesis using h fill_page_in_file by blast
qed

lemma demandpage_returned:
  assumes ok: "space_ok {} sp s" and p: "p < npages sp" and nv: "\<not> valid (tbl sp s ! p)"
    and run: "demandpage big junk (int p) sp s = Some (Inr (b, sp', s'))"
  shows "same_space sp sp' \<and> space_ok {} sp' s' \<and> others sp s \<subseteq> others sp' s' \<and>
    (\<forall>f. int f \<in> others sp s \<longrightarrow> frame_bytes f s' = frame_bytes f s)"
proof -
  have "\<exists>noffH. read_header big junk (stored_executable sp) (host s) = Inr noffH" if "page_data sp s p = None"
  proof -
    have "\<not> sint (physicalPage (tbl sp s ! p)) \<ge> 0" using nv that by (auto simp: page_data_def Let_def split: if_splits)
    then show ?thesis using run shape_get_pte [of sp s p] ok p
      by (cases "read_header big junk (stored_executable sp) (host s)") (auto simp: demandpage_def space_ok_def)
  qed
  then obtain h where h: "page_data sp s p = None \<Longrightarrow> read_header big junk (stored_executable sp) (host s) = Inr h" by metis
  have room: "\<not> {0..<int NumPhysPages} \<subseteq> pages_in_use (memmanage s) \<or> resident sp s \<noteq> {} \<and> hand_ok sp"
  proof (rule ccontr)
    assume "\<not> ?thesis"
    then have "{0..<int NumPhysPages} \<subseteq> pages_in_use (memmanage s)" "\<not> (resident sp s \<noteq> {} \<and> hand_ok sp)" by blast+
    from demandpage_no_room [OF ok p nv this h] run show False by (simp split: if_splits)
  qed
  obtain h' where "page_data sp s p = None \<Longrightarrow> read_header big junk (stored_executable sp) (host s) = Inr h' \<and> in_file_ok h' p"
    using demandpage_first_load [OF ok p nv _ room run] by metis
  from demandpage_serves [OF ok p nv room this] run show ?thesis by auto
qed

text \<open>
  C26. A fault can hang the kernel. When every frame is taken by other address spaces and the
  faulting space has no resident page of its own, the clock search of \<^verbatim>\<open>ClearPage\<close>, which looks
  only at its own page table, never ends: the page fault does not return. (With a clock hand that was
  never in the table, it leaves the array instead.)
\<close>

theorem demandpage_hangs:
  assumes ok: "space_ok {} sp s" and p: "p < npages sp" and nv: "\<not> valid (tbl sp s ! p)"
    and full: "{0..<int NumPhysPages} \<subseteq> pages_in_use (memmanage s)" and none: "resident sp s = {}"
    and hdr: "page_data sp s p = None \<Longrightarrow> read_header big junk (stored_executable sp) (host s) = Inr noffH"
  shows "demandpage big junk (int p) sp s = (if hand_ok sp then None else Some (Inl OutOfBounds))"
  using demandpage_no_room [OF ok p nv full _ hdr] none by simp

definition full_vm :: VM where
  "full_vm = demo_vm\<lparr>memmanage := \<lparr>mNumPages = 4, mm_bmap = \<lparr>numBits = 4, numWords = 1, words = [0xf]\<rparr>\<rparr>\<rparr>"

lemma full_vm_frames: "mm_inv (memmanage full_vm)" "{0..<4} \<subseteq> pages_in_use (memmanage full_vm)"
proof -
  have "divRoundUp 4 BitsInWord = 1" by (simp add: divRoundUp_nonneg BitsInWord_def)
  then show "mm_inv (memmanage full_vm)"
    by (simp add: mm_inv_def bitmap_inv_def wf_bitmap_def full_vm_def)
  have b: "bit (0xf :: 32 word) n" if "n < 4" for n
  proof -
    have "(0xf :: 32 word) = mask 4" by (simp add: mask_eq_exp_minus_1)
    then show ?thesis using that by (simp only: bit_mask_iff) simp
  qed
  show "{0..<4} \<subseteq> pages_in_use (memmanage full_vm)"
  proof
    fix i :: int assume "i \<in> {0..<4}"
    then have i: "0 \<le> i" "i < 4" by simp_all
    then have "bit (0xf :: 32 word) (nat i)" by (intro b) simp
    then show "i \<in> pages_in_use (memmanage full_vm)"
      using i by (simp add: full_vm_def pages_in_use_def used_def word_index_def BitsInWord_def sdiv_nonneg
          smod_nonneg div_pos_pos_trivial mod_pos_pos_trivial)
  qed
qed

lemma full_vm_ok: "space_ok {} demo_space full_vm" and full_vm_empty: "resident demo_space full_vm = {}"
proof -
  have t: "tbl demo_space full_vm = [fresh_pte 0]" "mainMemory full_vm = replicate MemorySize 0"
    "pageTables full_vm = [0 \<mapsto> [fresh_pte 0]]"
    using demo_vm_simps by (simp_all add: full_vm_def tbl_def)
  show "resident demo_space full_vm = {}" by (auto simp: resident_def t fresh_pte_def)
  show "space_ok {} demo_space full_vm"
    using full_vm_frames(1)
    by (simp add: space_ok_def space_shape_def pte_ok_def Let_def resident_def fresh_pte_def size_defs inj_on_def t)
       (simp add: demo_space_def full_vm_def)
qed

theorem demandpage_hangs_witness:
  "demandpage False (replicate 40 0) 0 demo_space full_vm = None"
proof -
  have "\<not> valid (tbl demo_space full_vm ! 0)" using full_vm_empty by (auto simp: resident_def)
  moreover have "read_header False (replicate 40 0) (stored_executable demo_space) (host full_vm) = Inr demo_header"
    using demo_read_header by (simp add: full_vm_def)
  ultimately show ?thesis
    using demandpage_hangs [OF full_vm_ok, of 0 False "replicate 40 0" demo_header] full_vm_frames(2) full_vm_empty
    by (simp add: size_defs) (simp add: demo_space_def)
qed

text \<open>
  C27. Backing files collide. The backing file of a space is named by its size alone, so a
  second space of the same size opens the same file and empties it: the pages that the first
  space has paged out are lost.
\<close>

theorem backing_store_collision:
  assumes "BackingStore_BackingStore n fs = (b1, fs1)" and "names fs2 = names fs1"
    and "BackingStore_BackingStore n fs2 = (b2, fs3)"
  shows "\<exists>f. bs_file b1 = Some f \<and> bs_file b2 = Some f \<and> inodes fs3 (of_inode f) = []"
  using assms
  by (auto simp: BackingStore_BackingStore_def FileSystem_Create_def FileSystem_Open_def OpenForWrite_def Let_def
      split: option.splits)

theorem backing_store_collision_witness:
  "\<exists>b1 b2 fs1 fs2 f. BackingStore_BackingStore 1024 \<lparr>inodes = \<lambda>_. [], names = Map.empty, next_inode = 0\<rparr> = (b1, fs1) \<and>
     BackingStore_BackingStore 1024 fs1 = (b2, fs2) \<and> bs_file b1 = Some f \<and> bs_file b2 = Some f"
proof -
  obtain b1 fs1 where 1: "BackingStore_BackingStore 1024 \<lparr>inodes = \<lambda>_. [], names = Map.empty, next_inode = 0\<rparr> = (b1, fs1)"
    by fastforce
  obtain b2 fs2 where 2: "BackingStore_BackingStore 1024 fs1 = (b2, fs2)" by fastforce
  from backing_store_collision [OF 1 refl 2] 1 2 show ?thesis by blast
qed

end
