(* ===== verification/MipsDecode.thy ===== *)
theory MipsDecode
  imports Prelude
begin

text \<open>
  The parts of the MIPS simulator that do not touch the machine: operation codes, the
  decoding tables and \<^verbatim>\<open>Instruction::Decode\<close>, and \<^verbatim>\<open>Mult\<close> (\<^verbatim>\<open>machine/mipssim.{h,cc}\<close>).
\<close>

section \<open>Operation codes and decoding\<close>

datatype (plugins only: code) opcode = OP_ADD | OP_ADDI | OP_ADDIU | OP_ADDU | OP_AND | OP_ANDI | OP_BEQ | OP_BGEZ
  | OP_BGEZAL | OP_BGTZ | OP_BLEZ | OP_BLTZ | OP_BLTZAL | OP_BNE | OP_DIV | OP_DIVU | OP_J | OP_JAL
  | OP_JALR | OP_JR | OP_LB | OP_LBU | OP_LH | OP_LHU | OP_LUI | OP_LW | OP_LWL | OP_LWR | OP_MFHI
  | OP_MFLO | OP_MTHI | OP_MTLO | OP_MULT | OP_MULTU | OP_NOR | OP_OR | OP_ORI | OP_RFE | OP_SB
  | OP_SH | OP_SLL | OP_SLLV | OP_SLT | OP_SLTI | OP_SLTIU | OP_SLTU | OP_SRA | OP_SRAV | OP_SRL
  | OP_SRLV | OP_SUB | OP_SUBU | OP_SW | OP_SWL | OP_SWR | OP_XOR | OP_XORI | OP_SYSCALL | OP_UNIMP
  | OP_RES | SPECIAL | BCOND

datatype format = IFMT | JFMT | RFMT

definition opTable :: "(opcode \<times> format) list" where
  "opTable =
    [(SPECIAL, RFMT), (BCOND, IFMT), (OP_J, JFMT), (OP_JAL, JFMT),
     (OP_BEQ, IFMT), (OP_BNE, IFMT), (OP_BLEZ, IFMT), (OP_BGTZ, IFMT),
     (OP_ADDI, IFMT), (OP_ADDIU, IFMT), (OP_SLTI, IFMT), (OP_SLTIU, IFMT),
     (OP_ANDI, IFMT), (OP_ORI, IFMT), (OP_XORI, IFMT), (OP_LUI, IFMT),
     (OP_UNIMP, IFMT), (OP_UNIMP, IFMT), (OP_UNIMP, IFMT), (OP_UNIMP, IFMT),
     (OP_RES, IFMT), (OP_RES, IFMT), (OP_RES, IFMT), (OP_RES, IFMT),
     (OP_RES, IFMT), (OP_RES, IFMT), (OP_RES, IFMT), (OP_RES, IFMT),
     (OP_RES, IFMT), (OP_RES, IFMT), (OP_RES, IFMT), (OP_RES, IFMT),
     (OP_LB, IFMT), (OP_LH, IFMT), (OP_LWL, IFMT), (OP_LW, IFMT),
     (OP_LBU, IFMT), (OP_LHU, IFMT), (OP_LWR, IFMT), (OP_RES, IFMT),
     (OP_SB, IFMT), (OP_SH, IFMT), (OP_SWL, IFMT), (OP_SW, IFMT),
     (OP_RES, IFMT), (OP_RES, IFMT), (OP_SWR, IFMT), (OP_RES, IFMT),
     (OP_UNIMP, IFMT), (OP_UNIMP, IFMT), (OP_UNIMP, IFMT), (OP_UNIMP, IFMT),
     (OP_RES, IFMT), (OP_RES, IFMT), (OP_RES, IFMT), (OP_RES, IFMT),
     (OP_UNIMP, IFMT), (OP_UNIMP, IFMT), (OP_UNIMP, IFMT), (OP_UNIMP, IFMT),
     (OP_RES, IFMT), (OP_RES, IFMT), (OP_RES, IFMT), (OP_RES, IFMT)]"

definition specialTable :: "opcode list" where
  "specialTable =
    [OP_SLL, OP_RES, OP_SRL, OP_SRA, OP_SLLV, OP_RES, OP_SRLV, OP_SRAV,
     OP_JR, OP_JALR, OP_RES, OP_RES, OP_SYSCALL, OP_UNIMP, OP_RES, OP_RES,
     OP_MFHI, OP_MTHI, OP_MFLO, OP_MTLO, OP_RES, OP_RES, OP_RES, OP_RES,
     OP_MULT, OP_MULTU, OP_DIV, OP_DIVU, OP_RES, OP_RES, OP_RES, OP_RES,
     OP_ADD, OP_ADDU, OP_SUB, OP_SUBU, OP_AND, OP_OR, OP_XOR, OP_NOR,
     OP_RES, OP_RES, OP_SLT, OP_SLTU, OP_RES, OP_RES, OP_RES, OP_RES,
     OP_RES, OP_RES, OP_RES, OP_RES, OP_RES, OP_RES, OP_RES, OP_RES,
     OP_RES, OP_RES, OP_RES, OP_RES, OP_RES, OP_RES, OP_RES, OP_RES]"

record Instruction =
  opCode :: opcode
  rs :: nat
  rt :: nat
  rd :: nat
  extra :: "32 word"

definition Decode :: "32 word \<Rightarrow> Instruction" where
  "Decode v =
     (let (op, fmt) = opTable ! unat (drop_bit 26 v AND 0x3f);
          ex = (case fmt of
                  IFMT \<Rightarrow> (let e = v AND 0xffff
                          in if e AND 0x8000 \<noteq> 0 then e OR 0xffff0000 else e)
                | RFMT \<Rightarrow> drop_bit 6 v AND 0x1f
                | JFMT \<Rightarrow> v AND 0x3ffffff);
          op' = (if op = SPECIAL then specialTable ! unat (v AND 0x3f)
                 else if op = BCOND then
                   let i = v AND 0x1f0000
                   in if i = 0 then OP_BLTZ
                      else if i = 0x10000 then OP_BGEZ
                      else if i = 0x100000 then OP_BLTZAL
                      else if i = 0x110000 then OP_BGEZAL
                      else OP_UNIMP
                 else op)
      in \<lparr>opCode = op', rs = unat (drop_bit 21 v AND 0x1f), rt = unat (drop_bit 16 v AND 0x1f),
          rd = unat (drop_bit 11 v AND 0x1f), extra = ex\<rparr>)"

section \<open>Multiplication\<close>

text \<open>The main loop of \<^verbatim>\<open>Mult\<close>: \<open>n\<close> iterations are left.\<close>

fun mult_loop :: "nat \<Rightarrow> 32 word \<Rightarrow> 32 word \<Rightarrow> 32 word \<Rightarrow> 32 word \<Rightarrow> 32 word \<Rightarrow> 32 word \<times> 32 word" where
  "mult_loop 0 a bLo bHi lo hi = (hi, lo)"
| "mult_loop (Suc n) a bLo bHi lo hi =
     (let (lo1, hi1, stop) =
            (if a AND 1 \<noteq> 0 then
               let lo' = lo + bLo;
                   hi' = (if lo' < bLo then hi + 1 else hi) + bHi
               in (lo', hi', a AND 0xfffffffe = 0)
             else (lo, hi, False))
      in if stop then (hi1, lo1)
         else mult_loop n (signed_drop_bit 1 a) (push_bit 1 bLo)
                (push_bit 1 bHi OR (if bLo AND 0x80000000 \<noteq> 0 then 1 else 0)) lo1 hi1)"

definition Mult :: "32 word \<Rightarrow> 32 word \<Rightarrow> bool \<Rightarrow> 32 word \<times> 32 word" where
  "Mult a b signedArith =
     (if a = 0 \<or> b = 0 then (0, 0)
      else
        let negA = signedArith \<and> sint a < 0;
            negB = signedArith \<and> sint b < 0;
            negative = (negA \<noteq> negB);
            a' = (if negA then - a else a);
            b' = (if negB then - b else b);
            (hi, lo) = mult_loop 32 a' b' 0 0 0
        in if negative then
             let hi1 = NOT hi;
                 lo1 = NOT lo + 1
             in (if lo1 = 0 then hi1 + 1 else hi1, lo1)
           else (hi, lo))"

section \<open>Multiplication is exact\<close>

text \<open>The pair of words \<open>(hi, lo)\<close> as one double word; its arithmetic is modulo \<open>2 ^ 64\<close>.\<close>

definition dword :: "32 word \<Rightarrow> 32 word \<Rightarrow> 64 word" where
  "dword hi lo = word_of_int (uint hi * 2 ^ 32 + uint lo)"

lemma word64_eqI: "x = y + k * 2 ^ 64 \<Longrightarrow> word_of_int x = (word_of_int y :: 64 word)"
proof -
  assume "x = y + k * 2 ^ 64"
  then have "x mod 2 ^ 64 = y mod 2 ^ 64" by simp
  moreover have "LENGTH(64) = 64" by simp
  ultimately show ?thesis by (simp only: word_of_int_eq_iff take_bit_eq_mod)
qed

lemma uint32_bounds: "0 \<le> uint (w :: 32 word)" "uint (w :: 32 word) < 2 ^ 32"
  using uint_lt2p [of w] by simp_all

lemma uint32_add:
  "uint (x + y :: 32 word) = uint x + uint y - (if x + y < y then 2 ^ 32 else 0)"
proof (cases "uint x + uint y < 2 ^ 32")
  case True
  then have "uint (x + y) = uint x + uint y"
    using uint32_bounds [of x] uint32_bounds [of y] by (simp add: uint_word_ariths)
  moreover from this have "\<not> x + y < y"
    using uint32_bounds(1) [of x] by (simp add: word_less_def)
  ultimately show ?thesis by simp
next
  case False
  have "(uint x + uint y - 2 ^ 32) mod 2 ^ 32 = uint x + uint y - 2 ^ 32"
    using False uint32_bounds [of x] uint32_bounds [of y] by (intro mod_pos_pos_trivial) linarith+
  then have "uint (x + y) = uint x + uint y - 2 ^ 32"
    by (simp add: uint_word_ariths)
  moreover from this have "x + y < y"
    using uint32_bounds(2) [of x] by (simp add: word_less_def)
  ultimately show ?thesis by simp
qed

lemma uint32_add3: "\<exists>q. uint (x + y + z :: 32 word) = uint x + uint y + uint z - q * 2 ^ 32"
proof -
  have "uint (x + y + z) = uint x + uint y + uint z -
      ((if x + y < y then 1 else 0) + (if x + y + z < z then 1 else 0)) * 2 ^ 32"
    using uint32_add [of x y] uint32_add [of "x + y" z] by simp
  then show ?thesis by blast
qed

text \<open>Adding the low words carries into the high word exactly when the sum is smaller than a summand.\<close>

lemma dword_add:
  "dword (hi + (if lo + bLo < bLo then 1 else 0) + bHi) (lo + bLo) = dword hi lo + dword bHi bLo"
proof -
  let ?c = "if lo + bLo < bLo then 1 else 0 :: 32 word"
  obtain q where q: "uint (hi + ?c + bHi) = uint hi + uint ?c + uint bHi - q * 2 ^ 32"
    using uint32_add3 by blast
  have "uint (hi + ?c + bHi) * 2 ^ 32 + uint (lo + bLo) =
      (uint hi * 2 ^ 32 + uint lo + (uint bHi * 2 ^ 32 + uint bLo)) + (- q) * 2 ^ 64"
    unfolding q uint32_add [of lo bLo] by (simp add: algebra_simps)
  from word64_eqI [OF this] show ?thesis
    by (simp add: dword_def wi_hom_add)
qed

lemma top_bit_iff: "w AND 0x80000000 \<noteq> 0 \<longleftrightarrow> w + w < w" for w :: "32 word"
proof -
  have "w AND 0x80000000 = w AND 2 ^ 31" by simp
  then have "w AND 0x80000000 \<noteq> 0 \<longleftrightarrow> bit w 31"
    by (simp only: and_exp_eq_0_iff_not_bit not_not)
  also have "\<dots> \<longleftrightarrow> 2 ^ 31 \<le> uint w"
  proof -
    have "bit w 31 \<longleftrightarrow> odd (uint w div 2 ^ 31)" using bit_uint_iff [of w 31] by (simp add: bit_iff_odd [of "uint w"])
    moreover have "uint w div 2 ^ 31 = (if 2 ^ 31 \<le> uint w then 1 else 0)"
      using uint32_bounds [of w] by (simp add: div_pos_pos_trivial div_pos_geq)
    ultimately show ?thesis by simp
  qed
  also have "\<dots> \<longleftrightarrow> w + w < w"
    using uint32_add [of w w] uint32_bounds [of w] uint32_bounds [of "w + w"]
    by (simp only: word_less_def split: if_splits; simp)
  finally show ?thesis .
qed

lemma push_bit_1_or: "push_bit 1 w OR (if c then 1 else 0) = w + (if c then 1 else 0) + w" for w :: "32 word"
proof -
  have "push_bit 1 w OR 1 = push_bit 1 w + 1"
    by (rule disjunctive_add [symmetric]) (simp only: bit_push_bit_iff bit_1_iff, simp)
  then show ?thesis by (simp add: push_bit_eq_mult)
qed

lemma dword_double:
  "dword (push_bit 1 bHi OR (if bLo AND 0x80000000 \<noteq> 0 then 1 else 0)) (push_bit 1 bLo) =
     2 * dword bHi bLo"
proof -
  have "push_bit 1 bLo = bLo + bLo" by (simp add: push_bit_eq_mult)
  then show ?thesis
    using dword_add [of bHi bLo bLo bHi] by (simp only: push_bit_1_or top_bit_iff mult_2)
qed

lemma take_bit_signed_shift:
  "n < 32 \<Longrightarrow> take_bit (Suc n) a = (if a AND 1 \<noteq> 0 then 1 else 0) + 2 * take_bit n (signed_drop_bit 1 a)"
  for a :: "32 word"
proof -
  assume n: "n < 32"
  have "take_bit n (signed_drop_bit 1 a) = take_bit n (drop_bit 1 a)"
    using n by (intro bit_word_eqI) (auto simp: bit_simps)
  moreover have "take_bit (Suc n) a = (if odd a then 1 else 0) + 2 * take_bit n (drop_bit 1 a)"
    by (simp add: take_bit_Suc drop_bit_Suc mod_2_eq_odd)
  moreover have "a AND 1 \<noteq> 0 \<longleftrightarrow> odd a" by (simp add: and_one_eq mod_2_eq_odd)
  ultimately show ?thesis by simp
qed

lemma ucast_take_bit_double:
  assumes "n < 32" and "take_bit (Suc n) a = c + 2 * take_bit n (x :: 32 word)" and "c = 0 \<or> c = 1"
  shows "ucast (take_bit (Suc n) a) = ucast c + 2 * (ucast (take_bit n x) :: 64 word)"
proof -
  have "uint (take_bit n x) < 2 ^ n"
    by (simp add: unsigned_take_bit_eq)
  also have "\<dots> \<le> (2 ^ 31 :: int)" using assms(1) by (intro power_increasing) auto
  finally have small: "uint (take_bit n x) < 2 ^ 31" .
  have u: "uint (c + 2 * take_bit n x) = uint c + 2 * uint (take_bit n x)"
    using small assms(3) by (auto simp: uint_word_ariths)
  have "ucast w = (word_of_int (uint w) :: 64 word)" for w :: "32 word"
    by (simp add: unsigned_ucast_eq)
  then show ?thesis
    using u assms(2) by (simp only: wi_hom_add wi_hom_mult) (simp flip: wi_hom_add wi_hom_mult)
qed

lemma only_bit_0: "a AND 1 \<noteq> 0 \<and> a AND 0xfffffffe = 0 \<Longrightarrow> a = 1" for a :: "32 word"
proof -
  assume a: "a AND 1 \<noteq> 0 \<and> a AND 0xfffffffe = 0"
  have "(0xfffffffe :: 32 word) = NOT 1" by simp
  with a have z: "a AND NOT 1 = 0" by simp
  have "a = (a AND 1) OR (a AND NOT 1)"
    by (simp only: bit.conj_disj_distrib [symmetric] bit.disj_cancel_right bit.conj_one_right)
  with z have "a AND 1 = a" by simp
  with a show ?thesis by (metis and_one_eq mod_2_eq_odd of_bool_def)
qed

lemma mult_loop_dword:
  "n \<le> 32 \<Longrightarrow> mult_loop n a bLo bHi lo hi = (hi', lo') \<Longrightarrow>
   dword hi' lo' = dword hi lo + ucast (take_bit n a) * dword bHi bLo"
proof (induction n arbitrary: a bLo bHi lo hi)
  case (Suc n)
  let ?odd = "a AND 1 \<noteq> 0"
  define lo1 where "lo1 = (if ?odd then lo + bLo else lo)"
  define hi1 where "hi1 = (if ?odd then (if lo + bLo < bLo then hi + 1 else hi) + bHi else hi)"
  have step: "dword hi1 lo1 = dword hi lo + (if ?odd then dword bHi bLo else 0)"
    using dword_add [of hi lo bLo bHi] by (auto simp: lo1_def hi1_def add.commute)
  have split: "ucast (take_bit (Suc n) a) =
      (if ?odd then 1 else 0) + 2 * (ucast (take_bit n (signed_drop_bit 1 a)) :: 64 word)"
    using take_bit_signed_shift [of n a] Suc.prems(1) ucast_take_bit_double by auto
  show ?case
  proof (cases "?odd \<and> a AND 0xfffffffe = 0")
    case True
    then have "a = 1" by (rule only_bit_0)
    moreover have "(hi', lo') = (hi1, lo1)" using Suc.prems(2) True by (auto simp: lo1_def hi1_def Let_def)
    ultimately show ?thesis using step True by simp
  next
    case False
    have "mult_loop n (signed_drop_bit 1 a) (push_bit 1 bLo)
        (push_bit 1 bHi OR (if bLo AND 0x80000000 \<noteq> 0 then 1 else 0)) lo1 hi1 = (hi', lo')"
      using Suc.prems(2) False unfolding mult_loop.simps(2) Let_def lo1_def hi1_def
      by (cases ?odd) (simp_all only: if_True if_False case_prod_conv simp_thms)
    from Suc.IH [OF _ this] Suc.prems(1)
    show ?thesis by (simp only: step split dword_double) (simp add: algebra_simps)
  qed
qed simp

lemma uint32_eqI: "word_of_int k = a \<Longrightarrow> 0 \<le> k \<Longrightarrow> k < 2 ^ 32 \<Longrightarrow> uint (a :: 32 word) = k"
  by (rule word_of_int_inverse) simp_all

lemma sint32_bounds: "- (2 ^ 31) \<le> sint (w :: 32 word)" "sint (w :: 32 word) < 2 ^ 31"
  using sint_ge [of w] sint_lt [of w] by simp_all

lemma uint_neg: "sint (a :: 32 word) < 0 \<Longrightarrow> uint (- a) = - sint a"
  using sint32_bounds [of a] by (intro uint32_eqI) simp_all

lemma uint_abs: "\<not> sint (a :: 32 word) < 0 \<Longrightarrow> uint a = sint a"
  using sint32_bounds [of a] by (intro uint32_eqI) simp_all

lemma dword_negate:
  "dword (if NOT lo + 1 = 0 then NOT hi + 1 else NOT hi) (NOT lo + 1) = - dword hi lo"
proof -
  have u: "uint (NOT w) = 2 ^ 32 - 1 - uint w" for w :: "32 word"
    using uint32_bounds [of w] by (intro uint32_eqI) (simp add: not_eq_complement, linarith+)
  have "dword (NOT hi) (NOT lo) = - dword hi lo - 1"
  proof -
    have "uint (NOT hi) * 2 ^ 32 + uint (NOT lo) = (- (uint hi * 2 ^ 32 + uint lo) - 1) + 1 * 2 ^ 64"
      by (simp add: u algebra_simps)
    from word64_eqI [OF this] show ?thesis by (simp add: dword_def flip: wi_hom_neg wi_hom_sub)
  qed
  moreover have "NOT lo + 1 < 1 \<longleftrightarrow> NOT lo + 1 = 0" by (metis word_less_1)
  moreover have "dword 0 1 = 1" by (simp add: dword_def)
  ultimately show ?thesis using dword_add [of "NOT hi" "NOT lo" 1 0] by (auto split: if_splits)
qed

lemma Mult_dword:
  assumes "Mult a b sg = (hi, lo)"
  shows "dword hi lo = (if sg then word_of_int (sint a * sint b) else word_of_int (uint a * uint b))"
proof (cases "a = 0 \<or> b = 0")
  case True
  with assms show ?thesis by (auto simp: Mult_def dword_def)
next
  case False
  let ?a = "if sg \<and> sint a < 0 then - a else a" and ?b = "if sg \<and> sint b < 0 then - b else b"
  obtain h l where hl: "mult_loop 32 ?a ?b 0 0 0 = (h, l)" by (cases "mult_loop 32 ?a ?b 0 0 0")
  have d: "dword h l = word_of_int (uint ?a * uint ?b)"
    using mult_loop_dword [OF _ hl] by (simp add: dword_def take_bit_word_eq_self wi_hom_mult [symmetric])
  have res: "dword hi lo = (if (sg \<and> sint a < 0) \<noteq> (sg \<and> sint b < 0) then - dword h l else dword h l)"
    using assms False hl dword_negate [of l h] by (auto simp: Mult_def Let_def split: if_splits)
  have "(if (sg \<and> sint a < 0) \<noteq> (sg \<and> sint b < 0) then - (uint ?a * uint ?b) else uint ?a * uint ?b) =
      (if sg then sint a * sint b else uint a * uint b)"
    using uint_neg [of a] uint_neg [of b] uint_abs [of a] uint_abs [of b] by simp
  moreover have "dword hi lo = word_of_int
      (if (sg \<and> sint a < 0) \<noteq> (sg \<and> sint b < 0) then - (uint ?a * uint ?b) else uint ?a * uint ?b)"
    unfolding res d by (simp only: wi_hom_neg if_distrib [of word_of_int])
  ultimately show ?thesis by (simp only: if_distrib [of word_of_int])
qed

lemma dword_eq_cong:
  assumes "dword hi lo = word_of_int x"
  shows "\<exists>k. uint hi * 2 ^ 32 + uint lo = x + k * 2 ^ 64"
proof -
  have "LENGTH(64) = 64" by simp
  with assms have "(uint hi * 2 ^ 32 + uint lo) mod 2 ^ 64 = x mod 2 ^ 64"
    by (simp only: dword_def word_of_int_eq_iff take_bit_eq_mod)
  then have "2 ^ 64 dvd uint hi * 2 ^ 32 + uint lo - x" by (simp only: mod_eq_dvd_iff)
  then show ?thesis by (elim dvdE) (metis add.commute diff_add_cancel mult.commute)
qed

lemma dword_bounds:
  fixes h l :: int
  shows "0 \<le> h \<Longrightarrow> h < 2 ^ 32 \<Longrightarrow> 0 \<le> l \<Longrightarrow> l < 2 ^ 32 \<Longrightarrow> 0 \<le> h * 2 ^ 32 + l \<and> h * 2 ^ 32 + l < 2 ^ 64"
    and "- (2 ^ 31) \<le> h \<Longrightarrow> h < 2 ^ 31 \<Longrightarrow> 0 \<le> l \<Longrightarrow> l < 2 ^ 32 \<Longrightarrow>
      - (2 ^ 63) \<le> h * 2 ^ 32 + l \<and> h * 2 ^ 32 + l < 2 ^ 63"
  by auto

lemma no_wrap:
  fixes x y k :: int
  assumes "x = y + k * 2 ^ 64" and "\<bar>x - y\<bar> < 2 ^ 64"
  shows "x = y"
proof -
  have "\<bar>k\<bar> * 2 ^ 64 < 1 * 2 ^ 64" using assms by (simp add: abs_mult)
  then have "k = 0" by simp
  with assms(1) show ?thesis by simp
qed

lemma close64:
  fixes x y :: int
  shows "- (2 ^ 62) \<le> y \<Longrightarrow> y \<le> 2 ^ 62 \<Longrightarrow> - (2 ^ 63) \<le> x \<and> x < 2 ^ 63 \<Longrightarrow> \<bar>x - y\<bar> < 2 ^ 64"
  by auto

lemma mult_unsigned_exact:
  assumes "Mult a b False = (hi, lo)"
  shows "uint hi * 2 ^ 32 + uint lo = uint a * uint b"
proof -
  obtain k where k: "uint hi * 2 ^ 32 + uint lo = uint a * uint b + k * 2 ^ 64"
    using dword_eq_cong [of hi lo "uint a * uint b"] Mult_dword [OF assms] by auto
  have "uint a * uint b \<le> (2 ^ 32 - 1) * (2 ^ 32 - 1)"
    using uint32_bounds [of a] uint32_bounds [of b] by (intro mult_mono) simp_all
  then have "uint a * uint b < 2 ^ 64" by simp
  moreover have "0 \<le> uint a * uint b" by simp
  moreover note dword_bounds(1) [OF uint32_bounds uint32_bounds, of hi lo]
  ultimately show ?thesis by (intro no_wrap [OF k]) linarith
qed

lemma mult_signed_exact:
  assumes "Mult a b True = (hi, lo)"
  shows "sint hi * 2 ^ 32 + uint lo = sint a * sint b"
proof -
  obtain k where k: "uint hi * 2 ^ 32 + uint lo = sint a * sint b + k * 2 ^ 64"
    using dword_eq_cong [of hi lo "sint a * sint b"] Mult_dword [OF assms] by auto
  have "uint hi = sint hi + (if sint hi < 0 then 1 else 0) * 2 ^ 32"
    using sint32_bounds [of hi] by (intro uint32_eqI) (simp_all split: if_splits)
  then have eq: "sint hi * 2 ^ 32 + uint lo = sint a * sint b + (k - (if sint hi < 0 then 1 else 0)) * 2 ^ 64"
    using k by (simp add: algebra_simps)
  have "\<bar>sint a * sint b\<bar> \<le> 2 ^ 31 * 2 ^ 31"
    unfolding abs_mult using sint32_bounds [of a] sint32_bounds [of b] by (intro mult_mono) auto
  then have "- (2 ^ 62) \<le> sint a * sint b" "sint a * sint b \<le> 2 ^ 62" by (simp_all add: abs_le_iff)
  moreover note dword_bounds(2) [OF sint32_bounds uint32_bounds, of hi lo]
  ultimately show ?thesis by (intro no_wrap [OF eq] close64)
qed

text \<open>
  C16. Multiplication is exact. The shift-and-add loop of \<^verbatim>\<open>Mult\<close>, with its early exit, its
  carry test and its sign handling, leaves in the two result words the full 64-bit product
  of the operands, read as signed integers for \<^verbatim>\<open>MULT\<close> and as unsigned ones for \<^verbatim>\<open>MULTU\<close>;
  this covers the operand \<open>- 2 ^ 31\<close>, whose negation wraps to itself.
\<close>

theorem mult_exact:
  "case Mult a b signedArith of (hi, lo) \<Rightarrow>
     (if signedArith then sint hi * 2 ^ 32 + uint lo = sint a * sint b
      else uint hi * 2 ^ 32 + uint lo = uint a * uint b)"
  using mult_signed_exact mult_unsigned_exact
  by (cases "Mult a b signedArith"; cases signedArith) auto

section \<open>Decoding\<close>

lemma unat_and_mask: "unat (w AND mask n) < 2 ^ n" if "n < 32" for w :: "32 word"
proof -
  have "w AND mask n = take_bit n w" by (simp add: take_bit_eq_mask)
  moreover have "unat (take_bit n w) < 2 ^ n" by (simp add: unsigned_take_bit_eq)
  ultimately show ?thesis by simp
qed

lemma field_bounds:
  "unat (w AND 0x1f) < 32" "unat (w AND 0x3f) < 64" for w :: "32 word"
  using unat_and_mask [of 5 w] unat_and_mask [of 6 w] by (simp_all add: mask_eq_exp_minus_1)

lemma opTable_nth: "opTable ! unat (w AND 0x3f) \<in> set opTable" for w :: "32 word"
proof -
  have "length opTable = 64" by (simp add: opTable_def)
  then show ?thesis using field_bounds(2) [of w] by (intro nth_mem) simp
qed

lemma specialTable_nth: "specialTable ! unat (w AND 0x3f) \<in> set specialTable" for w :: "32 word"
proof -
  have "length specialTable = 64" by (simp add: specialTable_def)
  then show ?thesis using field_bounds(2) [of w] by (intro nth_mem) simp
qed

lemma opTable_set: "x \<in> set opTable \<Longrightarrow> fst x \<noteq> OP_RFE"
  unfolding opTable_def by auto

lemma specialTable_set: "op \<in> set specialTable \<Longrightarrow> op \<notin> {OP_RFE, SPECIAL, BCOND}"
  unfolding specialTable_def by auto

lemma Decode_opCode: "opCode (Decode v) \<notin> {OP_RFE, SPECIAL, BCOND}"
proof -
  obtain op fmt where t: "opTable ! unat (drop_bit 26 v AND 0x3f) = (op, fmt)"
    by (cases "opTable ! unat (drop_bit 26 v AND 0x3f)")
  have "op \<noteq> OP_RFE" using opTable_set [OF opTable_nth [of "drop_bit 26 v"]] t by simp
  moreover note specialTable_set [OF specialTable_nth [of v]]
  ultimately show ?thesis by (simp add: Decode_def t Let_def)
qed

lemma Decode_regs: "rs (Decode v) < 32" "rt (Decode v) < 32" "rd (Decode v) < 32"
  using field_bounds(1) by (simp_all add: Decode_def Let_def split: prod.split)

lemma sign_extend_16:
  "(let e = v AND 0xffff in if e AND 0x8000 \<noteq> 0 then e OR 0xffff0000 else e) =
     (scast (ucast v :: 16 word) :: 32 word)" for v :: "32 word"
proof -
  have m: "(0xffff :: 32 word) = mask 16" "(0x8000 :: 32 word) = 2 ^ 15"
    "(0xffff0000 :: 32 word) = NOT (mask 16)"
    by (simp_all add: mask_eq_exp_minus_1)
  have top: "(v AND mask 16) AND 2 ^ 15 \<noteq> 0 \<longleftrightarrow> bit v 15"
    by (simp only: and_exp_eq_0_iff_not_bit not_not) (simp add: bit_simps)
  show ?thesis
    unfolding Let_def m top
  proof (rule bit_word_eqI)
    fix n assume n: "n < LENGTH(32)"
    consider "n < 15" | "n = 15" | "n > 15" by linarith
    then show "bit (if bit v 15 then v AND mask 16 OR NOT (mask 16) else v AND mask 16) n =
        bit (scast (ucast v :: 16 word) :: 32 word) n"
      by cases (use n in \<open>auto simp: bit_simps min_def\<close>)
  qed
qed

text \<open>
  Decoding is total and yields executable instructions. For every 32-bit word the
  decoder stays inside its two tables, names registers below 32, never yields an operation
  code that \<^verbatim>\<open>OneInstruction\<close> has no case for, and sign-extends the 16-bit immediate of
  every I-format instruction.
\<close>

theorem decode_wf:
  "unat (drop_bit 26 v AND 0x3f) < length opTable \<and> unat (v AND 0x3f) < length specialTable \<and>
   rs (Decode v) < 32 \<and> rt (Decode v) < 32 \<and> rd (Decode v) < 32 \<and>
   opCode (Decode v) \<notin> {OP_RFE, SPECIAL, BCOND} \<and>
   extra (Decode v) =
     (case snd (opTable ! unat (drop_bit 26 v AND 0x3f)) of
        IFMT \<Rightarrow> scast (ucast v :: 16 word)
      | RFMT \<Rightarrow> take_bit 5 (drop_bit 6 v)
      | JFMT \<Rightarrow> take_bit 26 v)"
proof -
  have l: "length opTable = 64" "length specialTable = 64"
    by (simp_all add: opTable_def specialTable_def)
  have m: "(0x1f :: 32 word) = mask 5" "(0x3ffffff :: 32 word) = mask 26"
    by (simp_all add: mask_eq_exp_minus_1)
  have "extra (Decode v) =
     (case snd (opTable ! unat (drop_bit 26 v AND 0x3f)) of
        IFMT \<Rightarrow> scast (ucast v :: 16 word)
      | RFMT \<Rightarrow> take_bit 5 (drop_bit 6 v)
      | JFMT \<Rightarrow> take_bit 26 v)"
    unfolding Decode_def sign_extend_16
    by (simp add: Let_def take_bit_eq_mask flip: m split: prod.split format.split)
  then show ?thesis
    using l field_bounds(2) Decode_regs Decode_opCode by simp
qed

end
