(* ===== verification/Mips.thy ===== *)
theory Mips
  imports Machine MipsDecode
begin

text \<open>
  The MIPS R2000 simulator of \<^verbatim>\<open>machine/mipssim.cc\<close>: the effect of every instruction and
  \<^verbatim>\<open>Machine::OneInstruction\<close>. C \<^verbatim>\<open>int\<close>s are \<open>32 word\<close>s: addition wraps, \<open><\<close> on an \<^verbatim>\<open>int\<close>
  compares \<open>sint\<close>, and \<open>>>\<close> on an \<^verbatim>\<open>int\<close> is the arithmetic shift of the host.
\<close>

section \<open>The effect of an instruction\<close>

definition SIGN_BIT :: "32 word" where "SIGN_BIT = 0x80000000"
definition IndexToAddr :: "32 word \<Rightarrow> 32 word" where "IndexToAddr x = push_bit 2 x"

text \<open>
  The \<^verbatim>\<open>switch\<close> of \<^verbatim>\<open>OneInstruction\<close> leaves either by \<^verbatim>\<open>return\<close>, after an exception, or by
  \<^verbatim>\<open>break\<close>, with the next program counter and the load to delay. Each group below is a run
  of its cases, and \<open>k\<close> stands for the cases that follow.
\<close>

datatype 'a outcome = Return 'a | Break "32 word" nat "32 word" 'a

definition trap :: "'a exn_handler \<Rightarrow> ExceptionType \<Rightarrow> 32 word \<Rightarrow> 'a Machine_scheme \<Rightarrow>
    'a Machine_scheme outcome res" where
  "trap eh which badVAddr s = bindE (RaiseException eh which badVAddr s) (\<lambda>s'. Inr (Return s'))"

definition exec_add :: "'a exn_handler \<Rightarrow> Instruction \<Rightarrow> 32 word \<Rightarrow> 'a Machine_scheme \<Rightarrow>
    'a Machine_scheme outcome res \<Rightarrow> 'a Machine_scheme outcome res" where
  "exec_add eh i pcAfter s k =
     (let R = reg s; X = extra i in
      case opCode i of
        OP_ADD \<Rightarrow>
          let sum = R (rs i) + R (rt i)
          in if (R (rs i) XOR R (rt i)) AND SIGN_BIT = 0 \<and> (R (rs i) XOR sum) AND SIGN_BIT \<noteq> 0
             then trap eh OverflowException 0 s
             else Inr (Break pcAfter 0 0 (set_reg (rd i) sum s))
      | OP_ADDI \<Rightarrow>
          let sum = R (rs i) + X
          in if (R (rs i) XOR X) AND SIGN_BIT = 0 \<and> (X XOR sum) AND SIGN_BIT \<noteq> 0
             then trap eh OverflowException 0 s
             else Inr (Break pcAfter 0 0 (set_reg (rt i) sum s))
      | OP_ADDIU \<Rightarrow> Inr (Break pcAfter 0 0 (set_reg (rt i) (R (rs i) + X) s))
      | OP_ADDU \<Rightarrow> Inr (Break pcAfter 0 0 (set_reg (rd i) (R (rs i) + R (rt i)) s))
      | OP_AND \<Rightarrow> Inr (Break pcAfter 0 0 (set_reg (rd i) (R (rs i) AND R (rt i)) s))
      | OP_ANDI \<Rightarrow> Inr (Break pcAfter 0 0 (set_reg (rt i) (R (rs i) AND (X AND 0xffff)) s))
      | _ \<Rightarrow> k)"

definition exec_branch :: "Instruction \<Rightarrow> 32 word \<Rightarrow> 'a Machine_scheme \<Rightarrow>
    'a Machine_scheme outcome res \<Rightarrow> 'a Machine_scheme outcome res" where
  "exec_branch i pcAfter s k =
     (let R = reg s;
          target = R NextPCReg + IndexToAddr (extra i);
          branch = (\<lambda>c t. Inr (Break (if c then target else pcAfter) 0 0 t));
          linked = set_reg 31 (R NextPCReg + 4) s
      in case opCode i of
        OP_BEQ \<Rightarrow> branch (R (rs i) = R (rt i)) s
      | OP_BGEZAL \<Rightarrow> branch (reg linked (rs i) AND SIGN_BIT = 0) linked
      | OP_BGEZ \<Rightarrow> branch (R (rs i) AND SIGN_BIT = 0) s
      | OP_BGTZ \<Rightarrow> branch (sint (R (rs i)) > 0) s
      | OP_BLEZ \<Rightarrow> branch (sint (R (rs i)) \<le> 0) s
      | OP_BLTZAL \<Rightarrow> branch (reg linked (rs i) AND SIGN_BIT \<noteq> 0) linked
      | OP_BLTZ \<Rightarrow> branch (R (rs i) AND SIGN_BIT \<noteq> 0) s
      | OP_BNE \<Rightarrow> branch (R (rs i) \<noteq> R (rt i)) s
      | _ \<Rightarrow> k)"

text \<open>\<^verbatim>\<open>INT_MIN / -1\<close> traps on the host (i386); every other quotient fits.\<close>

definition exec_div :: "Instruction \<Rightarrow> 32 word \<Rightarrow> 'a Machine_scheme \<Rightarrow>
    'a Machine_scheme outcome res \<Rightarrow> 'a Machine_scheme outcome res" where
  "exec_div i pcAfter s k =
     (let a = reg s (rs i); b = reg s (rt i) in
      case opCode i of
        OP_DIV \<Rightarrow>
          if b = 0 then Inr (Break pcAfter 0 0 (set_reg HiReg 0 (set_reg LoReg 0 s)))
          else if a = SIGN_BIT \<and> b = - 1 then Inl ArithmeticTrap
          else let s1 = set_reg LoReg (word_of_int (sint a sdiv sint b)) s
               in Inr (Break pcAfter 0 0
                    (set_reg HiReg (word_of_int (sint (reg s1 (rs i)) smod sint (reg s1 (rt i)))) s1))
      | OP_DIVU \<Rightarrow>
          if b = 0 then Inr (Break pcAfter 0 0 (set_reg HiReg 0 (set_reg LoReg 0 s)))
          else Inr (Break pcAfter 0 0 (set_reg HiReg (a mod b) (set_reg LoReg (a div b) s)))
      | _ \<Rightarrow> k)"

definition exec_jump :: "Instruction \<Rightarrow> 32 word \<Rightarrow> 'a Machine_scheme \<Rightarrow>
    'a Machine_scheme outcome res \<Rightarrow> 'a Machine_scheme outcome res" where
  "exec_jump i pcAfter s k =
     (let linkPC = reg s NextPCReg + 4;
          target = (pcAfter AND 0xf0000000) OR IndexToAddr (extra i)
      in case opCode i of
        OP_JAL \<Rightarrow> Inr (Break target 0 0 (set_reg 31 linkPC s))
      | OP_J \<Rightarrow> Inr (Break target 0 0 s)
      | OP_JALR \<Rightarrow> (let s1 = set_reg (rd i) linkPC s in Inr (Break (reg s1 (rs i)) 0 0 s1))
      | OP_JR \<Rightarrow> Inr (Break (reg s (rs i)) 0 0 s)
      | _ \<Rightarrow> k)"

definition exec_load :: "bool \<Rightarrow> 'a exn_handler \<Rightarrow> Instruction \<Rightarrow> 32 word \<Rightarrow> 'a Machine_scheme \<Rightarrow>
    'a Machine_scheme outcome res \<Rightarrow> 'a Machine_scheme outcome res" where
  "exec_load big eh i pcAfter s k =
     (let tmp = reg s (rs i) + extra i;
          load = (\<lambda>sz f. bindE (ReadMem big eh tmp sz s) (\<lambda>(r, s1).
                   case r of None \<Rightarrow> Inr (Return s1)
                   | Some value \<Rightarrow> Inr (Break pcAfter (rt i) (f value) s1)))
      in if opCode i = OP_LB \<or> opCode i = OP_LBU then
           load 1 (\<lambda>value. if value AND 0x80 \<noteq> 0 \<and> opCode i = OP_LB then value OR 0xffffff00
                           else value AND 0xff)
         else if opCode i = OP_LH \<or> opCode i = OP_LHU then
           if tmp AND 1 \<noteq> 0 then trap eh AddressErrorException tmp s
           else load 2 (\<lambda>value. if value AND 0x8000 \<noteq> 0 \<and> opCode i = OP_LH then value OR 0xffff0000
                                else value AND 0xffff)
         else if opCode i = OP_LUI then
           Inr (Break pcAfter 0 0 (set_reg (rt i) (push_bit 16 (extra i)) s))
         else if opCode i = OP_LW then
           if tmp AND 3 \<noteq> 0 then trap eh AddressErrorException tmp s else load 4 id
         else k)"

text \<open>\<^verbatim>\<open>LWL\<close> and \<^verbatim>\<open>LWR\<close> merge the word read into the register, or into the load that is pending for it.\<close>

definition lwl_merge :: "32 word \<Rightarrow> 32 word \<Rightarrow> 32 word \<Rightarrow> 32 word" where
  "lwl_merge tmp next value =
     (let c = tmp AND 3 in
      if c = 0 then value
      else if c = 1 then (next AND 0xff) OR push_bit 8 value
      else if c = 2 then (next AND 0xffff) OR push_bit 16 value
      else (next AND 0xffffff) OR push_bit 24 value)"

definition lwr_merge :: "32 word \<Rightarrow> 32 word \<Rightarrow> 32 word \<Rightarrow> 32 word" where
  "lwr_merge tmp next value =
     (let c = tmp AND 3 in
      if c = 0 then (next AND 0xffffff00) OR (signed_drop_bit 24 value AND 0xff)
      else if c = 1 then (next AND 0xffff0000) OR (signed_drop_bit 16 value AND 0xffff)
      else if c = 2 then (next AND 0xff000000) OR (signed_drop_bit 8 value AND 0xffffff)
      else value)"

definition exec_load_unaligned :: "bool \<Rightarrow> 'a exn_handler \<Rightarrow> Instruction \<Rightarrow> 32 word \<Rightarrow>
    'a Machine_scheme \<Rightarrow> 'a Machine_scheme outcome res \<Rightarrow> 'a Machine_scheme outcome res" where
  "exec_load_unaligned big eh i pcAfter s k =
     (let tmp = reg s (rs i) + extra i;
          load = (\<lambda>merge. ASSERT (tmp AND 3 = 0) (bindE (ReadMem big eh tmp 4 s) (\<lambda>(r, s1).
                   case r of None \<Rightarrow> Inr (Return s1)
                   | Some value \<Rightarrow>
                       let next = (if unat (reg s1 LoadReg) = rt i then reg s1 LoadValueReg
                                   else reg s1 (rt i))
                       in Inr (Break pcAfter (rt i) (merge tmp next value) s1))))
      in case opCode i of OP_LWL \<Rightarrow> load lwl_merge | OP_LWR \<Rightarrow> load lwr_merge | _ \<Rightarrow> k)"

text \<open>\<^verbatim>\<open>OP_OR\<close> combines the register \<^verbatim>\<open>rs\<close> with itself, as the source does.\<close>

definition exec_move :: "Instruction \<Rightarrow> 32 word \<Rightarrow> 'a Machine_scheme \<Rightarrow>
    'a Machine_scheme outcome res \<Rightarrow> 'a Machine_scheme outcome res" where
  "exec_move i pcAfter s k =
     (let R = reg s;
          set = (\<lambda>n v. Inr (Break pcAfter 0 0 (set_reg n v s)));
          mult = (\<lambda>sg. let (hi, lo) = Mult (R (rs i)) (R (rt i)) sg
                       in Inr (Break pcAfter 0 0 (set_reg LoReg lo (set_reg HiReg hi s))))
      in case opCode i of
        OP_MFHI \<Rightarrow> set (rd i) (R HiReg)
      | OP_MFLO \<Rightarrow> set (rd i) (R LoReg)
      | OP_MTHI \<Rightarrow> set HiReg (R (rs i))
      | OP_MTLO \<Rightarrow> set LoReg (R (rs i))
      | OP_MULT \<Rightarrow> mult True
      | OP_MULTU \<Rightarrow> mult False
      | OP_NOR \<Rightarrow> set (rd i) (NOT (R (rs i) OR R (rt i)))
      | OP_OR \<Rightarrow> set (rd i) (R (rs i) OR R (rs i))
      | OP_ORI \<Rightarrow> set (rt i) (R (rs i) OR (extra i AND 0xffff))
      | _ \<Rightarrow> k)"

definition store :: "bool \<Rightarrow> 'a exn_handler \<Rightarrow> 32 word \<Rightarrow> nat \<Rightarrow> 32 word \<Rightarrow> 32 word \<Rightarrow>
    'a Machine_scheme \<Rightarrow> 'a Machine_scheme outcome res" where
  "store big eh addr sz v pcAfter s = bindE (WriteMem big eh addr sz v s) (\<lambda>(ok, s1).
     Inr (if ok then Break pcAfter 0 0 s1 else Return s1))"

definition exec_shift :: "bool \<Rightarrow> 'a exn_handler \<Rightarrow> Instruction \<Rightarrow> 32 word \<Rightarrow> 'a Machine_scheme \<Rightarrow>
    'a Machine_scheme outcome res \<Rightarrow> 'a Machine_scheme outcome res" where
  "exec_shift big eh i pcAfter s k =
     (let R = reg s; X = extra i;
          set = (\<lambda>n v. Inr (Break pcAfter 0 0 (set_reg n v s)));
          addr = R (rs i) + X;
          flag = (\<lambda>b. if b then 1 else 0);
          amount = unat (R (rs i) AND 0x1f)
      in case opCode i of
        OP_SB \<Rightarrow> store big eh addr 1 (R (rt i)) pcAfter s
      | OP_SH \<Rightarrow> store big eh addr 2 (R (rt i)) pcAfter s
      | OP_SLL \<Rightarrow> set (rd i) (push_bit (unat X) (R (rt i)))
      | OP_SLLV \<Rightarrow> set (rd i) (push_bit amount (R (rt i)))
      | OP_SLT \<Rightarrow> set (rd i) (flag (sint (R (rs i)) < sint (R (rt i))))
      | OP_SLTI \<Rightarrow> set (rt i) (flag (sint (R (rs i)) < sint X))
      | OP_SLTIU \<Rightarrow> set (rt i) (flag (R (rs i) < X))
      | OP_SLTU \<Rightarrow> set (rd i) (flag (R (rs i) < R (rt i)))
      | OP_SRA \<Rightarrow> set (rd i) (signed_drop_bit (unat X) (R (rt i)))
      | OP_SRAV \<Rightarrow> set (rd i) (signed_drop_bit amount (R (rt i)))
      | OP_SRL \<Rightarrow> set (rd i) (signed_drop_bit (unat X) (R (rt i)))
      | OP_SRLV \<Rightarrow> set (rd i) (signed_drop_bit amount (R (rt i)))
      | _ \<Rightarrow> k)"

definition swl_merge :: "32 word \<Rightarrow> 32 word \<Rightarrow> 32 word \<Rightarrow> 32 word" where
  "swl_merge tmp value r =
     (let c = tmp AND 3 in
      if c = 0 then r
      else if c = 1 then (value AND 0xff000000) OR (signed_drop_bit 8 r AND 0xffffff)
      else if c = 2 then (value AND 0xffff0000) OR (signed_drop_bit 16 r AND 0xffff)
      else (value AND 0xffffff00) OR (signed_drop_bit 24 r AND 0xff))"

definition swr_merge :: "32 word \<Rightarrow> 32 word \<Rightarrow> 32 word \<Rightarrow> 32 word" where
  "swr_merge tmp value r =
     (let c = tmp AND 3 in
      if c = 0 then (value AND 0xffffff) OR push_bit 24 r
      else if c = 1 then (value AND 0xffff) OR push_bit 16 r
      else if c = 2 then (value AND 0xff) OR push_bit 8 r
      else r)"

definition exec_store :: "bool \<Rightarrow> 'a exn_handler \<Rightarrow> Instruction \<Rightarrow> 32 word \<Rightarrow> 'a Machine_scheme \<Rightarrow>
    'a Machine_scheme outcome res \<Rightarrow> 'a Machine_scheme outcome res" where
  "exec_store big eh i pcAfter s k =
     (let R = reg s;
          set = (\<lambda>n v. Inr (Break pcAfter 0 0 (set_reg n v s)));
          tmp = R (rs i) + extra i;
          unaligned = (\<lambda>merge. ASSERT (tmp AND 3 = 0)
            (bindE (ReadMem big eh (tmp AND NOT 3) 4 s) (\<lambda>(r, s1).
               case r of None \<Rightarrow> Inr (Return s1)
               | Some value \<Rightarrow> store big eh (tmp AND NOT 3) 4 (merge tmp value (reg s1 (rt i))) pcAfter s1)))
      in case opCode i of
        OP_SUB \<Rightarrow>
          let diff = R (rs i) - R (rt i)
          in if (R (rs i) XOR R (rt i)) AND SIGN_BIT \<noteq> 0 \<and> (R (rs i) XOR diff) AND SIGN_BIT \<noteq> 0
             then trap eh OverflowException 0 s
             else set (rd i) diff
      | OP_SUBU \<Rightarrow> set (rd i) (R (rs i) - R (rt i))
      | OP_SW \<Rightarrow> store big eh tmp 4 (R (rt i)) pcAfter s
      | OP_SWL \<Rightarrow> unaligned swl_merge
      | OP_SWR \<Rightarrow> unaligned swr_merge
      | OP_SYSCALL \<Rightarrow> trap eh SyscallException 0 s
      | OP_XOR \<Rightarrow> set (rd i) (R (rs i) XOR R (rt i))
      | OP_XORI \<Rightarrow> set (rt i) (R (rs i) XOR (extra i AND 0xffff))
      | OP_RES \<Rightarrow> trap eh IllegalInstrException 0 s
      | OP_UNIMP \<Rightarrow> trap eh IllegalInstrException 0 s
      | _ \<Rightarrow> k)"

text \<open>The whole \<^verbatim>\<open>switch\<close>; its default case is \<^verbatim>\<open>ASSERT(FALSE)\<close>.\<close>

definition execute :: "bool \<Rightarrow> 'a exn_handler \<Rightarrow> Instruction \<Rightarrow> 32 word \<Rightarrow> 'a Machine_scheme \<Rightarrow>
    'a Machine_scheme outcome res" where
  "execute big eh i pcAfter s =
     exec_add eh i pcAfter s (exec_branch i pcAfter s (exec_div i pcAfter s (exec_jump i pcAfter s
     (exec_load big eh i pcAfter s (exec_load_unaligned big eh i pcAfter s (exec_move i pcAfter s
     (exec_shift big eh i pcAfter s (exec_store big eh i pcAfter s (Inl AssertFailed)))))))))"

definition advance :: "32 word \<Rightarrow> 'a Machine_scheme \<Rightarrow> 'a Machine_scheme" where
  "advance pcAfter s =
     (let s1 = set_reg PrevPCReg (reg s PCReg) s;
          s2 = set_reg PCReg (reg s1 NextPCReg) s1
      in set_reg NextPCReg pcAfter s2)"

definition OneInstruction :: "bool \<Rightarrow> 'a exn_handler \<Rightarrow> 'a Machine_scheme \<Rightarrow> 'a Machine_scheme res" where
  "OneInstruction big eh s =
     bindE (ReadMem big eh (reg s PCReg) 4 s) (\<lambda>(r, s1).
       case r of None \<Rightarrow> Inr s1
       | Some raw \<Rightarrow>
           bindE (execute big eh (Decode raw) (reg s1 NextPCReg + 4) s1) (\<lambda>out.
             case out of Return s2 \<Rightarrow> Inr s2
             | Break pcAfter nextLoadReg nextLoadValue s2 \<Rightarrow>
                 bindE (DelayedLoad (word_of_nat nextLoadReg) nextLoadValue s2) (\<lambda>s3.
                 Inr (advance pcAfter s3))))"

section \<open>What can go wrong in an instruction\<close>

definition machine_wf :: "'a Machine_scheme \<Rightarrow> bool" where
  "machine_wf s \<longleftrightarrow> cpu_wf s \<and> xlate_wf s"

text \<open>
  The two places where the simulator itself stops: the host trap of a division, and the
  alignment assertion of the four unaligned accesses.
\<close>

definition stops :: "Instruction \<Rightarrow> 'a Machine_scheme \<Rightarrow> bool" where
  "stops i s \<longleftrightarrow>
     opCode i = OP_DIV \<and> reg s (rs i) = SIGN_BIT \<and> reg s (rt i) = - 1 \<or>
     opCode i \<in> {OP_LWL, OP_LWR, OP_SWL, OP_SWR} \<and> (reg s (rs i) + extra i) AND 3 \<noteq> 0"

definition instr_wf :: "Instruction \<Rightarrow> bool" where
  "instr_wf i \<longleftrightarrow> rs i < 32 \<and> rt i < 32 \<and> rd i < 32 \<and> opCode i \<notin> {OP_RFE, SPECIAL, BCOND}"

lemma instr_wf_Decode [simp]: "instr_wf (Decode v)"
  using Decode_regs Decode_opCode by (auto simp: instr_wf_def)

definition sound :: "('a Machine_scheme \<Rightarrow> bool) \<Rightarrow> ('a Machine_scheme \<Rightarrow> bool) \<Rightarrow> 'a exn_handler \<Rightarrow> Instruction \<Rightarrow> 'a Machine_scheme \<Rightarrow>
    'a Machine_scheme outcome res \<Rightarrow> bool" where
  "sound ok trapped eh i s r \<longleftrightarrow>
     (case r of
        Inl e \<Rightarrow> (\<exists>which t. eh which t = Inl e) \<or> stops i s
      | Inr (Return s') \<Rightarrow> trapped s'
      | Inr (Break pc n v s') \<Rightarrow> ok s' \<and> n < 32)"

lemma set_reg_wf [simp]: "n \<noteq> LoadReg \<Longrightarrow> machine_wf (set_reg n v s) = machine_wf s"
  by (simp add: machine_wf_def cpu_wf_def set_reg_def)

lemma set_reg_other: "n \<noteq> m \<Longrightarrow> reg (set_reg n v s) m = reg s m"
  by (simp add: set_reg_def)

lemma low_reg_not_LoadReg: "n < 32 \<Longrightarrow> n \<noteq> LoadReg" "HiReg \<noteq> LoadReg" "LoReg \<noteq> LoadReg"
  "31 \<noteq> LoadReg" "BadVAddrReg \<noteq> LoadReg" "PCReg \<noteq> LoadReg" "NextPCReg \<noteq> LoadReg"
  "PrevPCReg \<noteq> LoadReg"
  by (simp_all add: reg_defs)

lemma DelayedLoad_wf:
  assumes "machine_wf s" and "n < 32"
  shows "\<exists>s'. DelayedLoad (word_of_nat n) v s = Inr s' \<and> machine_wf s' \<and> reg s' 0 = 0"
proof -
  have "unat (word_of_nat n :: 32 word) = n" using assms(2) by (simp add: unat_of_nat)
  with assms show ?thesis
    by (subst DelayedLoad_ok)
       (auto simp: machine_wf_def cpu_wf_def reg_defs nth_list_update)
qed

lemma DelayedLoad_0_wf:
  "machine_wf s \<Longrightarrow> \<exists>s'. DelayedLoad 0 0 s = Inr s' \<and> machine_wf s'"
  using DelayedLoad_wf [of s 0 0] by auto

lemma DelayedLoad_registers:
  "DelayedLoad n v s = Inr s' \<Longrightarrow> \<exists>r. s' = s\<lparr>registers := r\<rparr>"
  by (auto simp: DelayedLoad_def Let_def set_reg_def split: if_splits)

lemma DelayedLoad_0_BadVAddr:
  "cpu_wf s \<Longrightarrow> DelayedLoad 0 0 s = Inr s' \<Longrightarrow> reg s' BadVAddrReg = reg s BadVAddrReg"
  by (auto simp: DelayedLoad_ok) (simp add: cpu_wf_def reg_defs nth_list_update)

lemma find_entry_cong:
  "tlb s' = tlb s \<Longrightarrow> pageTable s' = pageTable s \<Longrightarrow> pageTableSize s' = pageTableSize s \<Longrightarrow> pageTables s' = pageTables s \<Longrightarrow>
   find_entry vpn s' = find_entry vpn s"
  unfolding find_entry_def by (simp only:)

lemma Translate_fault:
  "Translate va sz wr s = Inr (Inl PageFaultException, s') \<Longrightarrow> find_entry (va div word_of_nat PageSize) s = Inr (Inl PageFaultException)"
  by (cases "find_entry (va div word_of_nat PageSize) s")
    (auto simp: Translate_def Let_def ASSERT_def split: if_splits sum.splits prod.splits)

text \<open>
  The state in which the kernel is entered: a page fault is one that the processor has found at
  the address it reports.
\<close>

definition raised :: "ExceptionType \<Rightarrow> 'a Machine_scheme \<Rightarrow> bool" where
  "raised which s \<longleftrightarrow>
     (which = PageFaultException \<longrightarrow> find_entry (reg s BadVAddrReg div word_of_nat PageSize) s = Inr (Inl PageFaultException))"

text \<open>
  A property \<open>ok\<close> of the state that survives what an instruction does by itself: new values of
  registers and an access through the translation in force. A trap ends the instruction, and
  leaves what the kernel answers to it, \<open>trapped\<close>. Every instruction then ends in one or the other.
\<close>

locale instruction_step =
  fixes eh :: "'a exn_handler" and ok :: "'a Machine_scheme \<Rightarrow> bool" and trapped :: "'a Machine_scheme \<Rightarrow> bool"
  assumes ok_wf: "ok s \<Longrightarrow> machine_wf s"
    and ok_registers: "ok s \<Longrightarrow> machine_wf (s\<lparr>registers := r\<rparr>) \<Longrightarrow> ok (s\<lparr>registers := r\<rparr>)"
    and ok_status: "ok s \<Longrightarrow> ok (s\<lparr>status := st\<rparr>)"
    and ok_access: "ok s \<Longrightarrow> find_entry vpn s = Inr (Inr (ref, ent)) \<Longrightarrow> valid ent \<Longrightarrow> frame_no = unat (physicalPage ent) \<Longrightarrow> frame_no < NumPhysPages \<Longrightarrow>
      ok (update_entry ref (ent\<lparr>use := True, dirty := dirty ent \<or> wr\<rparr>) s)"
    and ok_write: "ok s \<Longrightarrow> find_entry vpn s = Inr (Inr (ref, ent)) \<Longrightarrow> valid ent \<Longrightarrow> frame_no = unat (physicalPage ent) \<Longrightarrow> frame_no < NumPhysPages \<Longrightarrow>
      off + length bs \<le> PageSize \<Longrightarrow>
      ok (update_entry ref (ent\<lparr>use := True, dirty := dirty ent \<or> True\<rparr>) s\<lparr>mainMemory := poke (frame_no * PageSize + off) bs (mainMemory s)\<rparr>)"
    and ok_trap: "ok s \<Longrightarrow> raised which s \<Longrightarrow> eh which s = Inr s' \<Longrightarrow> trapped (s'\<lparr>status := UserMode\<rparr>)"
begin

lemma ok_set_reg [simp]: "ok s \<Longrightarrow> n \<noteq> LoadReg \<Longrightarrow> ok (set_reg n v s)"
  using ok_registers [of s] ok_wf [of s] set_reg_wf [of n v s] by (simp add: set_reg_def)

lemma ok_DelayedLoad:
  assumes "ok s" and "n < 32"
  shows "\<exists>s'. DelayedLoad (word_of_nat n) v s = Inr s' \<and> ok s'"
proof -
  obtain s' where s': "DelayedLoad (word_of_nat n) v s = Inr s'" "machine_wf s'"
    using DelayedLoad_wf [OF ok_wf [OF assms(1)] assms(2)] by blast
  then show ?thesis using DelayedLoad_registers [OF s'(1)] ok_registers [OF assms(1)] by auto
qed

lemma RaiseException_wf:
  assumes "ok s" and "which = PageFaultException \<Longrightarrow> find_entry (va div word_of_nat PageSize) s = Inr (Inl PageFaultException)"
  shows "case RaiseException eh which va s of
    Inl e \<Rightarrow> \<exists>which t. eh which t = Inl e | Inr s' \<Rightarrow> trapped s'"
proof -
  let ?s0 = "set_reg BadVAddrReg va s"
  have ok0: "ok ?s0" using assms(1) by (simp add: low_reg_not_LoadReg)
  then have cpu0: "cpu_wf ?s0" using ok_wf by (simp add: machine_wf_def)
  obtain s1 where s1: "DelayedLoad 0 0 ?s0 = Inr s1" "ok s1" using ok_DelayedLoad [OF ok0, of 0 0] by auto
  let ?t = "s1\<lparr>status := SystemMode\<rparr>"
  obtain r where r: "s1 = ?s0\<lparr>registers := r\<rparr>" using DelayedLoad_registers [OF s1(1)] by blast
  have "reg ?t BadVAddrReg = va"
    using DelayedLoad_0_BadVAddr [OF cpu0 s1(1)] cpu0 by (simp add: set_reg_def cpu_wf_def reg_defs)
  moreover have "find_entry vpn ?t = find_entry vpn s" for vpn
    unfolding r by (rule find_entry_cong) (simp_all add: set_reg_def)
  ultimately have "raised which ?t" using assms(2) by (simp add: raised_def)
  then have "trapped (s2\<lparr>status := UserMode\<rparr>)" if "eh which ?t = Inr s2" for s2
    using ok_trap [OF ok_status [OF s1(2)] _ that] by blast
  with s1 show ?thesis by (cases "eh which ?t") (auto simp: RaiseException_def)
qed

lemma trap_sound: "ok s \<Longrightarrow> which \<noteq> PageFaultException \<Longrightarrow> sound ok trapped eh i s (trap eh which va s)"
  using RaiseException_wf [of s which va]
  by (cases "RaiseException eh which va s") (auto simp: trap_def sound_def)

lemma ReadMem_wf:
  assumes "ok s" and "sz \<in> {1, 2, 4}"
  shows "case ReadMem big eh va sz s of
    Inl e \<Rightarrow> \<exists>which t. eh which t = Inl e | Inr (r, s') \<Rightarrow> if r = None then trapped s' else ok s'"
proof (cases rule: Translate_cases [OF _ assms(2), of s va False])
  case 1
  then show ?case using ok_wf [OF assms(1)] by (simp add: machine_wf_def)
next
  case (2 e)
  with RaiseException_wf [OF assms(1), of e va] Translate_fault [of va sz False s s] show ?thesis
    by (cases "RaiseException eh e va s") (auto simp: ReadMem_def)
next
  case (3 ref ent)
  have "ok (update_entry ref (ent\<lparr>use := True, dirty := dirty ent \<or> False\<rparr>) s)"
    using ok_access [OF assms(1) 3(2,3) refl 3(5)] .
  with ReadMem_ok [OF 3(1) assms(2), of big eh] show ?thesis by simp
qed

lemma WriteMem_wf:
  assumes "ok s" and "sz \<in> {1, 2, 4}"
  shows "case WriteMem big eh va sz v s of
    Inl e \<Rightarrow> \<exists>which t. eh which t = Inl e | Inr (done, s') \<Rightarrow> if done then ok s' else trapped s'"
proof (cases rule: Translate_cases [OF _ assms(2), of s va True])
  case 1
  then show ?case using ok_wf [OF assms(1)] by (simp add: machine_wf_def)
next
  case (2 e)
  with RaiseException_wf [OF assms(1), of e va] Translate_fault [of va sz True s s] show ?thesis
    by (cases "RaiseException eh e va s") (auto simp: WriteMem_def)
next
  case (3 ref ent)
  let ?s1 = "update_entry ref (ent\<lparr>use := True, dirty := dirty ent \<or> True\<rparr>) s"
  have "unat va mod PageSize + length (bytes_for sz v) \<le> PageSize"
    using frame_room(1) [of 3 sz "unat va"] 3(6) assms(2) by (simp add: size_defs)
  from ok_write [OF assms(1) 3(2,3) refl 3(5) this]
  have "ok (?s1\<lparr>mainMemory := poke (unat (physicalPage ent) * PageSize + unat va mod PageSize) (bytes_for sz v) (mainMemory ?s1)\<rparr>)"
    by simp
  with WriteMem_ok [OF 3(1) assms(2), of big eh v] show ?thesis by simp
qed

lemma sound_Break [simp]: "sound ok trapped eh i s (Inr (Break pc n v s')) \<longleftrightarrow> ok s' \<and> n < 32"
  by (simp add: sound_def)

lemma store_sound:
  assumes "ok s" and "sz \<in> {1, 2, 4}"
  shows "sound ok trapped eh i s0 (store big eh va sz v pc s)"
  using WriteMem_wf [OF assms, of big va v]
  by (cases "WriteMem big eh va sz v s") (auto simp: store_def sound_def split: if_splits)

lemma load_sound:
  assumes "ok s" and "sz \<in> {1, 2, 4}" and "\<And>v s1. ok s1 \<Longrightarrow> sound ok trapped eh i s0 (f v s1)"
  shows "sound ok trapped eh i s0 (bindE (ReadMem big eh va sz s) (\<lambda>(r, s1).
    case r of None \<Rightarrow> Inr (Return s1) | Some v \<Rightarrow> f v s1))"
proof (cases "ReadMem big eh va sz s")
  case (Inl e)
  with ReadMem_wf [OF assms(1,2), of big va] show ?thesis by (simp add: sound_def)
next
  case (Inr x)
  obtain r s1 where x: "x = (r, s1)" by (cases x)
  note wf = ReadMem_wf [OF assms(1,2), of big va]
  show ?thesis
  proof (cases r)
    case None
    then show ?thesis using wf Inr x by (simp add: sound_def)
  next
    case (Some v)
    then show ?thesis using wf assms(3) [of s1 v] Inr x by simp
  qed
qed

lemma exec_add_sound:
  assumes "ok s" "instr_wf i" "opCode i \<notin> {OP_ADD, OP_ADDI, OP_ADDIU, OP_ADDU, OP_AND, OP_ANDI} \<Longrightarrow> sound ok trapped eh i s k"
  shows "sound ok trapped eh i s (exec_add eh i pc s k)"
  using assms
  by (cases "opCode i")
     (simp_all add: exec_add_def Let_def trap_sound instr_wf_def low_reg_not_LoadReg)

lemma exec_branch_sound:
  assumes "ok s" "instr_wf i" "opCode i \<notin> {OP_BEQ, OP_BGEZAL, OP_BGEZ, OP_BGTZ, OP_BLEZ, OP_BLTZAL, OP_BLTZ, OP_BNE} \<Longrightarrow> sound ok trapped eh i s k"
  shows "sound ok trapped eh i s (exec_branch i pc s k)"
  using assms
  by (cases "opCode i") (simp_all add: exec_branch_def Let_def instr_wf_def low_reg_not_LoadReg)

lemma exec_div_sound:
  assumes "ok s" "instr_wf i" "opCode i \<notin> {OP_DIV, OP_DIVU} \<Longrightarrow> sound ok trapped eh i s k"
  shows "sound ok trapped eh i s (exec_div i pc s k)"
proof -
  have "sound ok trapped eh i s (Inl ArithmeticTrap)" if "opCode i = OP_DIV" "reg s (rs i) = SIGN_BIT" "reg s (rt i) = - 1"
    using that by (simp add: sound_def stops_def)
  with assms show ?thesis
    by (cases "opCode i") (simp_all add: exec_div_def Let_def instr_wf_def low_reg_not_LoadReg)
qed

lemma exec_jump_sound:
  assumes "ok s" "instr_wf i" "opCode i \<notin> {OP_JAL, OP_J, OP_JALR, OP_JR} \<Longrightarrow> sound ok trapped eh i s k"
  shows "sound ok trapped eh i s (exec_jump i pc s k)"
  using assms
  by (cases "opCode i") (simp_all add: exec_jump_def Let_def instr_wf_def low_reg_not_LoadReg)

lemma exec_load_sound:
  assumes "ok s" "instr_wf i" "opCode i \<notin> {OP_LB, OP_LBU, OP_LH, OP_LHU, OP_LUI, OP_LW} \<Longrightarrow> sound ok trapped eh i s k"
  shows "sound ok trapped eh i s (exec_load big eh i pc s k)"
proof -
  have "sound ok trapped eh i s (bindE (ReadMem big eh (reg s (rs i) + extra i) sz s) (\<lambda>(r, s1).
      case r of None \<Rightarrow> Inr (Return s1) | Some v \<Rightarrow> Inr (Break pc (rt i) (f v) s1)))"
    if "sz \<in> {1, 2, 4}" for sz f
    using that assms(1,2) by (intro load_sound) (simp_all add: instr_wf_def)
  with assms show ?thesis
    by (auto simp: exec_load_def Let_def trap_sound instr_wf_def low_reg_not_LoadReg)
qed

lemma exec_load_unaligned_sound:
  assumes "ok s" "instr_wf i" "opCode i \<notin> {OP_LWL, OP_LWR} \<Longrightarrow> sound ok trapped eh i s k"
  shows "sound ok trapped eh i s (exec_load_unaligned big eh i pc s k)"
proof -
  let ?tmp = "reg s (rs i) + extra i"
  have "sound ok trapped eh i s (bindE (ReadMem big eh ?tmp 4 s) (\<lambda>(r, s1).
      case r of None \<Rightarrow> Inr (Return s1)
      | Some v \<Rightarrow>
          let next = (if unat (reg s1 LoadReg) = rt i then reg s1 LoadValueReg else reg s1 (rt i))
          in Inr (Break pc (rt i) (merge ?tmp next v) s1)))" for merge
    using assms(1,2) by (intro load_sound) (simp_all add: instr_wf_def Let_def)
  moreover have "sound ok trapped eh i s (Inl AssertFailed)" if "opCode i \<in> {OP_LWL, OP_LWR}" "?tmp AND 3 \<noteq> 0"
    using that by (auto simp: sound_def stops_def)
  ultimately show ?thesis using assms(3)
    by (cases "opCode i") (simp_all add: exec_load_unaligned_def Let_def ASSERT_def)
qed

lemma exec_move_sound:
  assumes "ok s" "instr_wf i" "opCode i \<notin> {OP_MFHI, OP_MFLO, OP_MTHI, OP_MTLO, OP_MULT, OP_MULTU, OP_NOR, OP_OR, OP_ORI} \<Longrightarrow> sound ok trapped eh i s k"
  shows "sound ok trapped eh i s (exec_move i pc s k)"
  using assms
  by (cases "opCode i")
     (simp_all add: exec_move_def Let_def instr_wf_def low_reg_not_LoadReg split: prod.split)

lemma exec_shift_sound:
  assumes "ok s" "instr_wf i" "opCode i \<notin> {OP_SB, OP_SH, OP_SLL, OP_SLLV, OP_SLT, OP_SLTI, OP_SLTIU, OP_SLTU, OP_SRA, OP_SRAV, OP_SRL, OP_SRLV} \<Longrightarrow> sound ok trapped eh i s k"
  shows "sound ok trapped eh i s (exec_shift big eh i pc s k)"
  using assms
  by (cases "opCode i")
     (simp_all add: exec_shift_def Let_def store_sound instr_wf_def low_reg_not_LoadReg)

lemma exec_store_sound:
  assumes "ok s" "instr_wf i" "opCode i \<notin> {OP_SUB, OP_SUBU, OP_SW, OP_SWL, OP_SWR, OP_SYSCALL, OP_XOR, OP_XORI, OP_RES, OP_UNIMP} \<Longrightarrow> sound ok trapped eh i s k"
  shows "sound ok trapped eh i s (exec_store big eh i pc s k)"
proof -
  let ?tmp = "reg s (rs i) + extra i"
  have "sound ok trapped eh i s (bindE (ReadMem big eh (?tmp AND NOT 3) 4 s) (\<lambda>(r, s1).
      case r of None \<Rightarrow> Inr (Return s1)
      | Some v \<Rightarrow> store big eh (?tmp AND NOT 3) 4 (merge ?tmp v (reg s1 (rt i))) pc s1))" for merge
    using assms(1) by (intro load_sound store_sound) simp_all
  moreover have "sound ok trapped eh i s (Inl AssertFailed)" if "opCode i \<in> {OP_SWL, OP_SWR}" "?tmp AND 3 \<noteq> 0"
    using that by (auto simp: sound_def stops_def)
  ultimately show ?thesis using assms
    by (cases "opCode i")
       (simp_all add: exec_store_def Let_def ASSERT_def trap_sound store_sound instr_wf_def low_reg_not_LoadReg)
qed

lemma execute_sound:
  assumes "ok s" "instr_wf i"
  shows "sound ok trapped eh i s (execute big eh i pc s)"
  unfolding execute_def using assms
  apply (intro exec_add_sound exec_branch_sound exec_div_sound exec_jump_sound exec_load_sound
    exec_load_unaligned_sound exec_move_sound exec_shift_sound exec_store_sound)
  apply simp_all
  apply (cases "opCode i"; simp add: instr_wf_def)
  done

text \<open>The invariant of the machine over one instruction.\<close>

lemma advance_ok: "ok s \<Longrightarrow> ok (advance pc s)"
  by (simp add: advance_def Let_def low_reg_not_LoadReg)

lemma OneInstruction_sound:
  assumes "ok s"
  shows "case OneInstruction big eh s of
      Inl e \<Rightarrow> (\<exists>which t. eh which t = Inl e) \<or>
        (\<exists>raw s1. ReadMem big eh (reg s PCReg) 4 s = Inr (Some raw, s1) \<and> stops (Decode raw) s1)
    | Inr s' \<Rightarrow> ok s' \<or> trapped s'"
proof -
  note rd = ReadMem_wf [OF assms, of 4 big "reg s PCReg"]
  show ?thesis
  proof (cases "ReadMem big eh (reg s PCReg) 4 s")
    case (Inr x)
    obtain r s1 where x: "x = (r, s1)" by (cases x)
    show ?thesis
    proof (cases r)
      case (Some raw)
      have wf1: "ok s1" using rd Inr x Some by simp
      have fetch: "ReadMem big eh (reg s PCReg) 4 s = Inr (Some raw, s1)" using Inr x Some by simp
      note snd = execute_sound [OF wf1 instr_wf_Decode, of raw big "reg s1 NextPCReg + 4"]
      show ?thesis
      proof (cases "execute big eh (Decode raw) (reg s1 NextPCReg + 4) s1")
        case (Inr out)
        show ?thesis
        proof (cases out)
          case (Break pc n v s2)
          have "ok s2" "n < 32" using snd Inr Break by simp_all
          from ok_DelayedLoad [OF this, of v] obtain s3
            where "DelayedLoad (word_of_nat n) v s2 = Inr s3" "ok s3" by blast
          then show ?thesis using fetch Inr Break advance_ok [of s3 pc] by (simp add: OneInstruction_def)
        qed (use snd fetch Inr in \<open>simp add: OneInstruction_def sound_def\<close>)
      qed (use snd fetch in \<open>auto simp: OneInstruction_def sound_def\<close>)
    qed (use Inr x rd in \<open>simp add: OneInstruction_def\<close>)
  qed (use rd in \<open>simp add: OneInstruction_def\<close>)
qed

end

text \<open>What the machine relies on from the kernel: a trap that returns leaves it well-formed.\<close>

locale exn_kernel =
  fixes eh :: "'a exn_handler"
  assumes eh_wf: "eh which s = Inr s' \<Longrightarrow> machine_wf s \<Longrightarrow> machine_wf s'"

sublocale exn_kernel \<subseteq> instruction_step eh machine_wf machine_wf
proof
  fix s ref ent and wr :: bool assume "machine_wf s"
  then show "machine_wf (update_entry ref (ent\<lparr>use := True, dirty := dirty ent \<or> wr\<rparr>) s)"
    by (simp add: machine_wf_def cpu_wf_def)
next
  fix s ref ent and off frame_no :: nat and bs :: "8 word list"
  assume wf: "machine_wf s" and f: "frame_no < NumPhysPages" and "off + length bs \<le> PageSize"
  then have "frame_no * PageSize + off + length bs \<le> MemorySize" by (simp add: size_defs)
  then show "machine_wf (update_entry ref (ent\<lparr>use := True, dirty := dirty ent \<or> True\<rparr>) s
      \<lparr>mainMemory := poke (frame_no * PageSize + off) bs (mainMemory s)\<rparr>)"
    using wf by (simp add: machine_wf_def cpu_wf_def)
next
  fix s st assume "machine_wf s"
  then show "machine_wf (s\<lparr>status := st\<rparr>)" by (simp add: machine_wf_def)
next
  fix s which s' assume "machine_wf s" "eh which s = Inr s'"
  then have "machine_wf s'" using eh_wf by blast
  then show "machine_wf (s'\<lparr>status := UserMode\<rparr>)" by (simp add: machine_wf_def)
qed auto

section \<open>Signed arithmetic with overflow detection\<close>

lemma sint32_eqI: "word_of_int k = w \<Longrightarrow> - (2 ^ 31) \<le> k \<Longrightarrow> k < 2 ^ 31 \<Longrightarrow> sint (w :: 32 word) = k"
  using signed_take_bit_int_eq_self [of 31 k] by (auto simp: signed_of_int)

lemma sint32_wrap:
  assumes "word_of_int k = (w :: 32 word)" and "- (2 ^ 32) \<le> k" and "k < 2 ^ 32"
  shows "sint w = (if k < - (2 ^ 31) then k + 2 ^ 32 else if 2 ^ 31 \<le> k then k - 2 ^ 32 else k)"
  using assms by (intro sint32_eqI) auto

lemma bit_31_iff: "bit w 31 \<longleftrightarrow> sint w < 0" for w :: "32 word"
  using bit_last_iff [of w] by simp

lemma sign_bit_iff: "w AND SIGN_BIT \<noteq> 0 \<longleftrightarrow> sint w < 0" for w :: "32 word"
proof -
  have "w AND SIGN_BIT = w AND 2 ^ 31" by (simp add: SIGN_BIT_def)
  then have "w AND SIGN_BIT \<noteq> 0 \<longleftrightarrow> bit w 31"
    by (simp only: and_exp_eq_0_iff_not_bit not_not)
  with bit_31_iff show ?thesis by simp
qed

lemma sign_bit_xor_iff: "(v XOR w) AND SIGN_BIT \<noteq> 0 \<longleftrightarrow> (sint v < 0) \<noteq> (sint w < 0)" for v w :: "32 word"
proof -
  have "bit (v XOR w) 31 \<longleftrightarrow> bit v 31 \<noteq> bit w 31" by (simp add: bit_xor_iff)
  moreover have "(v XOR w) AND SIGN_BIT \<noteq> 0 \<longleftrightarrow> bit (v XOR w) 31"
    by (simp only: sign_bit_iff bit_31_iff)
  ultimately show ?thesis by (simp only: bit_31_iff)
qed

definition fits32 :: "int \<Rightarrow> bool" where
  "fits32 x \<longleftrightarrow> - (2 ^ 31) \<le> x \<and> x < 2 ^ 31"

lemma sint_add_wrap: "sint (a + b) = (let k = sint a + sint b in
    if k < - (2 ^ 31) then k + 2 ^ 32 else if 2 ^ 31 \<le> k then k - 2 ^ 32 else k)" for a b :: "32 word"
  unfolding Let_def using sint32_bounds [of a] sint32_bounds [of b]
  by (intro sint32_wrap) (simp_all flip: wi_hom_add)

lemma sint_sub_wrap: "sint (a - b) = (let k = sint a - sint b in
    if k < - (2 ^ 31) then k + 2 ^ 32 else if 2 ^ 31 \<le> k then k - 2 ^ 32 else k)" for a b :: "32 word"
  unfolding Let_def using sint32_bounds [of a] sint32_bounds [of b]
  by (intro sint32_wrap) (simp_all flip: wi_hom_sub)

lemma add_test_iff:
  "(a XOR b) AND SIGN_BIT = 0 \<and> (a XOR (a + b)) AND SIGN_BIT \<noteq> 0 \<longleftrightarrow> \<not> fits32 (sint a + sint b)"
  for a b :: "32 word"
  using sint32_bounds [of a] sint32_bounds [of b] sign_bit_xor_iff [of a b] sign_bit_xor_iff [of a "a + b"]
  by (auto simp: sint_add_wrap fits32_def Let_def split: if_splits)

lemma sub_test_iff:
  "(a XOR b) AND SIGN_BIT \<noteq> 0 \<and> (a XOR (a - b)) AND SIGN_BIT \<noteq> 0 \<longleftrightarrow> \<not> fits32 (sint a - sint b)"
  for a b :: "32 word"
  using sint32_bounds [of a] sint32_bounds [of b] sign_bit_xor_iff [of a b] sign_bit_xor_iff [of a "a - b"]
  by (auto simp: sint_sub_wrap fits32_def Let_def split: if_splits)

lemmas exec_defs = exec_add_def exec_branch_def exec_div_def exec_jump_def exec_load_def
  exec_load_unaligned_def exec_move_def exec_shift_def exec_store_def

lemma ReadMem_SomeD:
  assumes "ReadMem big eh va 4 s = Inr (Some v, s1)" and "machine_wf s"
  shows "registers s1 = registers s" and "machine_wf s1" and "va AND 3 = 0"
proof -
  have sz: "(4 :: nat) \<in> {1, 2, 4}" by simp
  have "registers s1 = registers s \<and> machine_wf s1 \<and> va AND 3 = 0"
  proof (cases rule: Translate_cases [OF _ sz, of s va False])
    case 1
    then show ?case using assms(2) by (simp add: machine_wf_def)
  next
    case (2 e)
    with assms(1) show ?thesis by (auto simp: ReadMem_def)
  next
    case (3 ref ent)
    with ReadMem_ok [OF 3(1) sz, of big eh] assms show ?thesis
      by (auto simp: and_3_iff machine_wf_def cpu_wf_def)
  qed
  then show "registers s1 = registers s" "machine_wf s1" "va AND 3 = 0" by simp_all
qed

section \<open>Properties\<close>

text \<open>
  C22. Overflow detection is exact. The sign tests of \<^verbatim>\<open>ADD\<close>, \<^verbatim>\<open>ADDI\<close> and \<^verbatim>\<open>SUB\<close> raise an
  overflow exception exactly when the mathematical sum or difference of the signed operands
  does not fit in 32 bits; otherwise the destination register receives that value.
\<close>

theorem overflow_exact:
  "let a = sint (reg s (rs i)); b = sint (reg s (rt i)); c = sint (extra i);
       result = (\<lambda>d x. if fits32 x then Inr (Break pc 0 0 (set_reg d (word_of_int x) s))
                       else trap eh OverflowException 0 s)
   in case opCode i of
        OP_ADD \<Rightarrow> execute big eh i pc s = result (rd i) (a + b)
      | OP_ADDI \<Rightarrow> execute big eh i pc s = result (rt i) (a + c)
      | OP_SUB \<Rightarrow> execute big eh i pc s = result (rd i) (a - b)
      | _ \<Rightarrow> True"
proof -
  have "(c XOR (a + c)) AND SIGN_BIT \<noteq> 0 \<longleftrightarrow> (a XOR (a + c)) AND SIGN_BIT \<noteq> 0"
    if "(a XOR c) AND SIGN_BIT = 0" for a c :: "32 word"
    using that sign_bit_xor_iff by metis
  then have addi: "(a XOR c) AND SIGN_BIT = 0 \<and> (c XOR (a + c)) AND SIGN_BIT \<noteq> 0 \<longleftrightarrow>
      \<not> fits32 (sint a + sint c)" for a c :: "32 word"
    using add_test_iff [of a c] by blast
  show ?thesis
    by (cases "opCode i")
       (simp_all only: execute_def exec_defs Let_def opcode.case add_test_iff addi sub_test_iff,
        simp_all)
qed

text \<open>
  C23. The load delay slot. When \<^verbatim>\<open>LW\<close> completes, the target register still has the value it
  had (or the one an earlier load was about to deliver), the word read is pending, and the
  program counters have advanced by one instruction; the delayed load that follows, at the
  end of the next instruction or at a trap, puts the word into the register.
\<close>

theorem load_delay:
  assumes wf: "machine_wf s"
    and fetch: "ReadMem big eh (reg s PCReg) 4 s = Inr (Some raw, s1)"
    and lw: "opCode (Decode raw) = OP_LW" and nz: "rt (Decode raw) \<noteq> 0"
    and data: "ReadMem big eh (reg s1 (rs (Decode raw)) + extra (Decode raw)) 4 s1 = Inr (Some v, s2)"
  shows "\<exists>s' s''. OneInstruction big eh s = Inr s' \<and>
    reg s' (rt (Decode raw)) =
      (if unat (reg s LoadReg) = rt (Decode raw) then reg s LoadValueReg else reg s (rt (Decode raw))) \<and>
    reg s' PCReg = reg s NextPCReg \<and> reg s' NextPCReg = reg s NextPCReg + 4 \<and>
    DelayedLoad 0 0 s' = Inr s'' \<and> reg s'' (rt (Decode raw)) = v"
proof -
  let ?t = "rt (Decode raw)"
  have t: "?t < 32" using Decode_regs by simp
  note f = ReadMem_SomeD [OF fetch wf]
  note d = ReadMem_SomeD [OF data f(2)]
  have regs: "registers s2 = registers s" "registers s1 = registers s" using f(1) d(1) by simp_all
  have "execute big eh (Decode raw) (reg s1 NextPCReg + 4) s1 = Inr (Break (reg s1 NextPCReg + 4) ?t v s2)"
    using lw data d(3) by (simp add: execute_def exec_defs Let_def)
  moreover have len: "length (registers s) = 40" "unat (reg s LoadReg) < 32"
    using wf by (simp_all add: machine_wf_def cpu_wf_def reg_defs)
  moreover have u: "unat (word_of_nat ?t :: 32 word) = ?t" using t by (simp add: unat_of_nat)
  moreover have "cpu_wf s2" using d(2) by (simp add: machine_wf_def)
  ultimately show ?thesis
    using fetch t nz regs len
    by (simp add: OneInstruction_def DelayedLoad_ok advance_def Let_def set_reg_def)
       (simp add: DelayedLoad_def Let_def set_reg_def reg_defs nth_list_update)
qed

text \<open>A machine about to execute \<^verbatim>\<open>LW r2,8(r3)\<close> at address 0, with a word at address 8.\<close>

definition lw_machine :: Machine where
  "lw_machine = demo_machine\<lparr>mainMemory :=
     poke 256 (bytes_for 4 0x8C620008) (poke 264 (bytes_for 4 0x11223344) (replicate MemorySize 0))\<rparr>"

lemma lw_machine_wf: "machine_wf lw_machine"
  by (simp add: machine_wf_def lw_machine_def cpu_wf_def size_defs)
     (simp add: demo_machine_def reg_defs)

lemma Decode_lw: "Decode 0x8C620008 = \<lparr>opCode = OP_LW, rs = 3, rt = 2, rd = 0, extra = 8\<rparr>"
  by code_simp

lemma lw_translate:
  "\<exists>s'. Translate 0 4 False lw_machine = Inr (Inr 256, s') \<and> mainMemory s' = mainMemory lw_machine \<and>
     Translate 8 4 False s' = Inr (Inr 264, s') \<and> registers s' = replicate 40 0"
  by (simp add: lw_machine_def Translate_def demo_machine_def demo_table_def find_entry_def size_defs
      reg_defs Let_def)

theorem load_delay_witness:
  "\<exists>s' s''. OneInstruction False (\<lambda>_ s. Inr s) lw_machine = Inr s' \<and> reg s' 2 = 0 \<and>
     DelayedLoad 0 0 s' = Inr s'' \<and> reg s'' 2 = 0x11223344"
proof -
  let ?eh = "\<lambda>_ (s :: Machine). Inr s :: Machine res"
  obtain s1 where s1: "Translate 0 4 False lw_machine = Inr (Inr 256, s1)"
    "mainMemory s1 = mainMemory lw_machine" "Translate 8 4 False s1 = Inr (Inr 264, s1)"
    "registers s1 = replicate 40 0"
    using lw_translate by blast
  have m: "value_at (mainMemory lw_machine) 256 4 = 0x8C620008"
    "value_at (mainMemory lw_machine) 264 4 = 0x11223344"
    unfolding lw_machine_def by (simp_all add: value_at_def nth_poke size_defs)
  have fetch: "ReadMem False ?eh (reg lw_machine PCReg) 4 lw_machine = Inr (Some 0x8C620008, s1)"
    using ReadMem_ok [OF s1(1), of False ?eh] m s1(2)
    by (simp add: lw_machine_def demo_machine_def reg_defs)
  have data: "ReadMem False ?eh (reg s1 (rs (Decode 0x8C620008)) + extra (Decode 0x8C620008)) 4 s1 =
      Inr (Some 0x11223344, s1)"
    using ReadMem_ok [OF s1(3), of False ?eh] m s1(2,4) by (simp add: Decode_lw)
  have r: "reg lw_machine LoadReg = 0" "reg lw_machine 2 = 0"
    by (simp_all add: lw_machine_def demo_machine_def reg_defs)
  show ?thesis
    using load_delay [OF lw_machine_wf fetch _ _ data] r by (auto simp: Decode_lw)
qed

text \<open>
  Two instructions of the simulator differ from the architecture. \<^verbatim>\<open>OR\<close> ignores its second
  operand and copies \<^verbatim>\<open>rs\<close>; the logical shifts \<^verbatim>\<open>SRL\<close> and \<^verbatim>\<open>SRLV\<close> behave as the arithmetic
  shifts \<^verbatim>\<open>SRA\<close> and \<^verbatim>\<open>SRAV\<close>, so that a negative word stays negative.
\<close>

theorem or_srl_divergence:
  "(opCode i = OP_OR \<longrightarrow> execute big eh i pc s = Inr (Break pc 0 0 (set_reg (rd i) (reg s (rs i)) s))) \<and>
   (opCode i = OP_SRL \<longrightarrow> execute big eh i pc s = execute big eh (i\<lparr>opCode := OP_SRA\<rparr>) pc s) \<and>
   (opCode i = OP_SRLV \<longrightarrow> execute big eh i pc s = execute big eh (i\<lparr>opCode := OP_SRAV\<rparr>) pc s)"
  by (auto simp: execute_def exec_defs Let_def)

definition or_instruction :: Instruction where
  "or_instruction = \<lparr>opCode = OP_OR, rs = 1, rt = 2, rd = 3, extra = 0\<rparr>"

theorem or_srl_divergence_witness:
  "execute False (\<lambda>_ s. Inr s) or_instruction 4 (set_reg 2 1 demo_machine) =
     Inr (Break 4 0 0 (set_reg 3 0 (set_reg 2 1 demo_machine)))"
proof -
  have "reg (set_reg 2 1 demo_machine) 1 = 0" by (simp add: set_reg_def demo_machine_def reg_defs)
  then show ?thesis
    using or_srl_divergence [of or_instruction False "\<lambda>_ s. Inr s" 4 "set_reg 2 1 demo_machine"]
    by (simp add: or_instruction_def)
qed

end
