(* ===== verification/PagingFrame.thy ===== *)
theory PagingFrame
  imports Paging Mips
begin

text \<open>
  What serving a page fault leaves alone. The locale \<open>paging_frame\<close> lists the elementary changes that
  \<^verbatim>\<open>userprog/addrspace.cc\<close> and \<^verbatim>\<open>userprog/backingstore.cc\<close> make to the state for a space (an entry of
  its own page table, a frame, the allocator, the counters, its own backing file); a relation that
  holds across each of them holds across \<^verbatim>\<open>demandpage\<close>. It is used twice: the processor keeps its
  registers and its translation (\<open>same_cpu\<close>), and the tables and files of other spaces are
  untouched (\<open>foreign\<close>).
\<close>

section \<open>Relations that hold across a page fault\<close>

lemma bindO_eq_SomeInr: "bindO m f = Some (Inr y) \<longleftrightarrow> (\<exists>x. m = Some (Inr x) \<and> f x = Some (Inr y))"
  by (auto simp: bindO_def split: option.splits sum.splits)

locale paging_frame =
  fixes R :: "AddrSpace \<Rightarrow> 'a VM_scheme \<Rightarrow> 'a VM_scheme \<Rightarrow> bool"
  assumes R_refl [simp]: "R sp s s"
    and R_trans: "R sp s t \<Longrightarrow> R sp t u \<Longrightarrow> R sp s u"
    and R_space: "same_space sp sp' \<Longrightarrow> R sp' s t \<Longrightarrow> R sp s t"
    and R_pte [simp]: "R sp s (set_pte sp i e s)"
    and R_memory: "a + length bs \<le> length (mainMemory s) \<Longrightarrow> R sp s (s\<lparr>mainMemory := poke a bs (mainMemory s)\<rparr>)"
    and R_memmanage: "R sp s (s\<lparr>memmanage := mm\<rparr>)"
    and R_stats: "R sp s (s\<lparr>stats := st\<rparr>)"
    and R_backing: "bs_file (backing sp) = Some f \<Longrightarrow> OpenFile_WriteAt bs pos f (host s) = Inr (n, fs) \<Longrightarrow> R sp s (s\<lparr>host := fs\<rparr>)"
begin

lemma R_write_frame: "write_frame f bs s = Inr s' \<Longrightarrow> R sp s s'"
  using R_memory by (auto simp: write_frame_def split: if_splits)

lemma R_alloc: "alloc_page s = Inr (i, s') \<Longrightarrow> R sp s s'"
  using R_memmanage by (auto simp: alloc_page_def)

lemma R_free: "free_page i s = Inr s' \<Longrightarrow> R sp s s'"
  using R_memmanage by (auto simp: free_page_def)

lemma R_take_frame: "take_frame p sp s = Inr (g, s') \<Longrightarrow> R sp s s'"
  by (auto simp: take_frame_def intro: R_trans [OF R_alloc R_pte])

lemma R_PageOut:
  assumes "PageOut sp i s = Inr s'"
  shows "R sp s s'"
proof -
  obtain pte where pte: "get_pte sp i s = Inr pte" using assms unfolding PageOut_def by auto
  let ?s1 = "set_pte sp i (pte\<lparr>valid := False\<rparr>) s"
  obtain s2 where s2: "R sp ?s1 s2" "free_page (sint (physicalPage pte)) s2 = Inr s'"
  proof (cases "dirty pte")
    case True
    then obtain f bs pos n fs where f: "bs_file (backing sp) = Some f" "OpenFile_WriteAt bs pos f (host ?s1) = Inr (n, fs)"
        "free_page (sint (physicalPage pte)) (?s1\<lparr>host := fs, stats := (stats ?s1)\<lparr>numPageOuts := numPageOuts (stats ?s1) + 1\<rparr>\<rparr>) = Inr s'"
      using assms pte by (auto simp: PageOut_def Let_def with_file_def split: option.splits)
    show thesis using that [OF R_trans [OF R_backing [OF f(1,2)] R_stats]] f(3) by simp
  qed (use assms pte that [OF R_refl] in \<open>simp add: PageOut_def Let_def\<close>)
  show ?thesis by (rule R_trans [OF R_pte R_trans [OF s2(1) R_free [OF s2(2)]]])
qed

lemma R_PageIn:
  assumes "PageIn sp i s = Inr s'"
  shows "R sp s s'"
proof -
  obtain pte where pte: "get_pte sp i s = Inr pte" using assms unfolding PageIn_def by auto
  obtain f where f: "bs_file (backing sp) = Some f"
    using assms pte by (cases "bs_file (backing sp)") (simp_all add: PageIn_def with_file_def Let_def)
  let ?s1 = "(set_pte sp i (pte\<lparr>valid := True\<rparr>) s)\<lparr>stats := (stats s)\<lparr>numPageIns := numPageIns (stats s) + 1\<rparr>\<rparr>"
  obtain bs s2 where s2: "write_frame (physicalPage pte) bs ?s1 = Inr s2" and s': "s' = set_pte sp i (pte\<lparr>valid := True, dirty := False\<rparr>) s2"
    using assms unfolding PageIn_def Let_def with_file_def pte f by auto
  show ?thesis unfolding s' by (rule R_trans [OF R_pte R_trans [OF R_stats R_trans [OF R_write_frame [OF s2] R_pte]]])
qed

lemma R_clock_step:
  assumes "clock_step sp s = Inr (b, sp', s')"
  shows "same_space sp sp' \<and> R sp s s'"
  using assms R_PageOut by (auto simp: clock_step_def Let_def split: if_splits)

lemma R_next: "same_space sp sp1 \<and> R sp s s1 \<Longrightarrow> same_space sp1 sp' \<and> R sp1 s1 s' \<Longrightarrow> same_space sp sp' \<and> R sp s s'"
  using same_space_trans R_trans R_space by blast

lemma R_then: "same_space sp sp' \<and> R sp s s1 \<Longrightarrow> R sp' s1 s' \<Longrightarrow> same_space sp sp' \<and> R sp s s'"
  using R_next [of sp sp' s s1 sp' s'] by simp

lemma R_ClearPage:
  assumes "ClearPage sp s = Some (Inr (sp', s'))"
  shows "same_space sp sp' \<and> R sp s s'"
proof -
  let ?P = "\<lambda>sp s r. \<forall>sp' s'. r = Inr (sp', s') \<longrightarrow> same_space sp sp' \<and> R sp s s'"
  have "?P sp s r" if "ClearPage sp s = Some r" for r
    using that
  proof (rule ClearPage.raw_induct [of ?P, rotated])
    fix f :: "AddrSpace \<Rightarrow> 'a VM_scheme \<Rightarrow> (AddrSpace \<times> 'a VM_scheme) res option" and sp s r
    assume IH: "\<And>sp s r. f sp s = Some r \<Longrightarrow> ?P sp s r"
      and body: "(case clock_step sp s of Inl e \<Rightarrow> Some (Inl e) | Inr (stop, sp', s') \<Rightarrow> if stop then Some (Inr (sp', s')) else f sp' s') = Some r"
    show "?P sp s r"
    proof (cases "clock_step sp s")
      case (Inr x)
      obtain b sp1 s1 where x: "x = (b, sp1, s1)" by (cases x)
      note c = R_clock_step [OF Inr [unfolded x]]
      show ?thesis
      proof (cases b)
        case True
        then show ?thesis using body Inr x c by auto
      next
        case False
        then have "?P sp1 s1 r" using IH [of sp1 s1 r] body Inr x by simp
        then show ?thesis using R_next [OF c] by blast
      qed
    qed (use body in auto)
  qed
  then show ?thesis using assms by blast
qed

lemma R_retry:
  assumes "retry_frame p (g, sp, s) = Some (Inr (g', sp', s'))"
  shows "same_space sp sp' \<and> R sp s s'"
proof (cases g)
  case False
  then obtain s1 g2 where s1: "ClearPage sp s = Some (Inr (sp', s1))" "take_frame p sp' s1 = Inr (g2, s')"
    using assms by (auto simp: retry_frame_def)
  show ?thesis by (rule R_then [OF R_ClearPage [OF s1(1)] R_take_frame [OF s1(2)]])
qed (use assms in \<open>simp add: retry_frame_def\<close>)

lemma R_fill_page:
  assumes "fill_page h p sp s = Inr s'"
  shows "R sp s s'"
proof -
  have "\<exists>f bs s1 st. write_frame f bs s = Inr s1 \<and> (s' = s1 \<or> s' = s1\<lparr>stats := st\<rparr>)"
    using assms by (auto simp: fill_page_def Let_def split: if_splits)
  then show ?thesis using R_write_frame R_trans [OF _ R_stats] by blast
qed

lemma R_demandpage:
  assumes "demandpage big junk p sp s = Some (Inr (b, sp', s'))"
  shows "same_space sp sp' \<and> R sp s s'"
proof -
  obtain pte where pte: "get_pte sp p s = Inr pte" using assms by (auto simp: demandpage_def bindO_eq_SomeInr)
  show ?thesis
  proof (cases "sint (physicalPage pte) \<ge> 0")
    case True
    let ?s0 = "set_pte sp p (pte\<lparr>valid := False\<rparr>) s"
    obtain g1 s1 g2 sp2 s2 g3 s3 where s: "take_frame p sp ?s0 = Inr (g1, s1)" "retry_frame p (g1, sp, s1) = Some (Inr (g2, sp2, s2))"
        "retry_frame p (g2, sp2, s2) = Some (Inr (g3, sp', s3))" "PageIn sp' p s3 = Inr s'"
      using assms pte True by (auto simp: demandpage_def bindO_eq_SomeInr split: prod.splits)
    have "same_space sp sp \<and> R sp s s1" using R_trans [OF R_pte R_take_frame [OF s(1)]] by simp
    from R_then [OF R_next [OF R_next [OF this R_retry [OF s(2)]] R_retry [OF s(3)]] R_PageIn [OF s(4)]] show ?thesis .
  next
    case False
    obtain h g1 s1 g2 s2 where s: "take_frame p sp s = Inr (g1, s1)" "retry_frame p (g1, sp, s1) = Some (Inr (g2, sp', s2))"
        "s' = s2 \<or> (\<exists>s3 e. fill_page h p sp' s2 = Inr s3 \<and> s' = set_pte sp' p e s3)"
      using assms pte False by (auto simp: demandpage_def bindO_eq_SomeInr split: prod.splits if_splits) blast
    have "same_space sp sp \<and> R sp s s1" using R_take_frame [OF s(1)] by simp
    note t = R_next [OF this R_retry [OF s(2)]]
    have "R sp' s2 s'" using s(3) by (auto intro: R_trans [OF R_fill_page R_pte])
    then show ?thesis using R_then [OF t] by simp
  qed
qed

end

section \<open>The processor\<close>

text \<open>The registers and the shape of memory and page tables are the same.\<close>

definition same_cpu :: "'a Machine_scheme \<Rightarrow> 'a Machine_scheme \<Rightarrow> bool" where
  "same_cpu s s' \<longleftrightarrow> registers s' = registers s \<and> tlb s' = tlb s \<and> pageTable s' = pageTable s \<and> pageTableSize s' = pageTableSize s \<and>
     length (mainMemory s') = length (mainMemory s) \<and> (\<forall>p. map_option length (pageTables s' p) = map_option length (pageTables s p))"

lemma same_cpu_refl [simp]: "same_cpu s s"
  by (simp add: same_cpu_def)

lemma same_cpu_trans: "same_cpu s t \<Longrightarrow> same_cpu t u \<Longrightarrow> same_cpu s u"
  by (simp add: same_cpu_def)

lemma same_cpu_wf:
  assumes "same_cpu s s'"
  shows "machine_wf s' = machine_wf s"
proof -
  have pt: "map_option length (pageTables s' p) = map_option length (pageTables s p)" for p using assms by (simp add: same_cpu_def)
  have "xlate_wf s' = xlate_wf s"
  proof (cases "pageTable s")
    case (Some p)
    then show ?thesis
      using assms pt [of p] by (cases "pageTables s p"; cases "pageTables s' p"; cases "tlb s") (auto simp: xlate_wf_def same_cpu_def)
  qed (use assms in \<open>cases "tlb s"; simp add: xlate_wf_def same_cpu_def\<close>)
  then show ?thesis using assms by (simp add: machine_wf_def cpu_wf_def same_cpu_def)
qed

interpretation cpu_kept: paging_frame "\<lambda>_. same_cpu"
  by unfold_locales (auto simp: same_cpu_def set_pte_def option.map_comp comp_def)

lemmas same_cpu_free = cpu_kept.R_free

lemma same_cpu_demandpage: "demandpage big junk p sp s = Some (Inr (b, sp', s')) \<Longrightarrow> same_cpu s s'"
  using cpu_kept.R_demandpage by blast

section \<open>Other address spaces\<close>

text \<open>
  Nothing changes but the page table and the backing file of this space, frames, and what
  counts them. The record extension carries whatever else there is in the kernel.
\<close>

definition foreign :: "AddrSpace \<Rightarrow> 'a VM_scheme \<Rightarrow> 'a VM_scheme \<Rightarrow> bool" where
  "foreign sp s s' \<longleftrightarrow>
     (\<forall>p. p \<noteq> as_pageTable sp \<longrightarrow> pageTables s' p = pageTables s p) \<and>
     (\<forall>n. n \<noteq> of_inode (the (bs_file (backing sp))) \<longrightarrow> inodes (host s') n = inodes (host s) n) \<and>
     names (host s') = names (host s) \<and> next_inode (host s') = next_inode (host s) \<and>
     pt_next s' = pt_next s \<and> VM.more s' = VM.more s"

interpretation foreign_kept: paging_frame foreign
  by unfold_locales
    (auto simp: foreign_def set_pte_def OpenFile_WriteAt_def ASSERT_def split: if_splits dest!: same_space_fields)

lemmas foreign_demandpage = foreign_kept.R_demandpage

end
