(* ===== verification/Exception.thy ===== *)
theory Exception
  imports PagingFrame
begin

text \<open>
  The kernel's side of a trap, \<^verbatim>\<open>userprog/exception.cc\<close>, and the table of threads of
  \<^verbatim>\<open>threads/table.{h,cc}\<close> that its \<^verbatim>\<open>Exec\<close> and \<^verbatim>\<open>Join\<close> use. The handler reads its arguments from the
  registers, serves page faults, and returns to the program, stops the simulator, ends the
  thread or puts it to sleep in \<^verbatim>\<open>Join\<close>.
\<close>

section \<open>table.cc\<close>

text \<open>
  \<open>tb_locked\<close> is \<^verbatim>\<open>access_lock\<close>. The array is not initialised by the constructor: what the
  memory held is an argument.
\<close>

record 'o Table =
  tb_backing :: "'o option list"
  max_elements :: int
  last_element :: int
  tb_locked :: bool

definition Table_Table :: "int \<Rightarrow> 'o option list \<Rightarrow> 'o Table" where
  "Table_Table n junk = \<lparr>tb_backing = junk, max_elements = n, last_element = 0, tb_locked = False\<rparr>"

text \<open>The loop of \<^verbatim>\<open>Alloc\<close>: it looks at \<^verbatim>\<open>max_elements\<close> places, from \<^verbatim>\<open>last_element\<close> on.\<close>

fun alloc_scan :: "nat \<Rightarrow> 'o \<Rightarrow> int \<Rightarrow> 'o Table \<Rightarrow> (int \<times> 'o Table) res" where
  "alloc_scan 0 object next_element t = Inr (- 1, t)"
| "alloc_scan (Suc n) object next_element t =
     (if next_element < 0 \<or> next_element \<ge> int (length (tb_backing t)) then Inl OutOfBounds
      else if tb_backing t ! nat next_element = None
      then Inr (next_element + 1, t\<lparr>tb_backing := (tb_backing t)[nat next_element := Some object],
                  tb_locked := False, last_element := next_element + 1\<rparr>)
      else alloc_scan n object (next_element + 1) t)"

definition Table_Alloc :: "'o \<Rightarrow> 'o Table \<Rightarrow> (int \<times> 'o Table) res" where
  "Table_Alloc object t = (if tb_locked t then Inl Deadlock
     else alloc_scan (nat (max_elements t)) object (last_element t) (t\<lparr>tb_locked := True\<rparr>))"

definition Table_Get :: "int \<Rightarrow> 'o Table \<Rightarrow> 'o option res" where
  "Table_Get index t = (if index - 1 < 0 \<or> index - 1 \<ge> int (length (tb_backing t)) then Inl OutOfBounds
     else Inr (tb_backing t ! nat (index - 1)))"

definition Table_Release :: "int \<Rightarrow> 'o Table \<Rightarrow> 'o Table res" where
  "Table_Release index t = (if tb_locked t then Inl Deadlock
     else if index - 1 < 0 \<or> index - 1 \<ge> int (length (tb_backing t)) then Inl OutOfBounds
     else Inr (t\<lparr>tb_backing := (tb_backing t)[nat (index - 1) := None]\<rparr>))"

section \<open>exception.cc\<close>

text \<open>
  The state of the kernel in a trap: the address space of the current thread and its exit
  status, the table of threads, and the threads forked so far with their address spaces.
\<close>

record Process = VM +
  space :: AddrSpace
  exit_status :: int
  threadlist :: "nat Table"
  spawned :: "AddrSpace list"

definition SC_Halt :: "32 word" where "SC_Halt = 0"
definition SC_Exit :: "32 word" where "SC_Exit = 1"
definition SC_Exec :: "32 word" where "SC_Exec = 2"
definition SC_Join :: "32 word" where "SC_Join = 3"
definition SC_Write :: "32 word" where "SC_Write = 7"

lemmas sc_defs = SC_Halt_def SC_Exit_def SC_Exec_def SC_Join_def SC_Write_def

datatype action = Resume | HaltMachine | FinishThread | JoinThread nat

type_synonym 'a trap = "'a Process_scheme \<Rightarrow> (action \<times> 'a Process_scheme) res"

definition set_r2 :: "32 word \<Rightarrow> 'a trap" where
  "set_r2 v s = bindE (WriteRegister 2 v s) (\<lambda>s1. Inr (Resume, s1))"

text \<open>\<^verbatim>\<open>Destroy\<close>, and the branch for \<^verbatim>\<open>SC_Exit\<close>, which has the same code.\<close>

definition Destroy :: "'a trap" where
  "Destroy s = bindE (ReadRegister 4 s) (\<lambda>st.
     bindE (ClearState (space s) s) (\<lambda>s1. Inr (FinishThread, s1\<lparr>exit_status := 0\<rparr>)))"

definition page_fault :: "bool \<Rightarrow> 8 word list \<Rightarrow> 32 word \<Rightarrow> 'a trap" where
  "page_fault big junk pcAfter s =
     (let s1 = s\<lparr>stats := (stats s)\<lparr>numPageFaults := numPageFaults (stats s) + 1\<rparr>\<rparr> in
      bindE (ReadRegister (int BadVAddrReg) s1) (\<lambda>inp.
      case demandpage big junk (sint inp sdiv int PageSize) (space s1) s1 of
        None \<Rightarrow> Inl Deadlock
      | Some r \<Rightarrow> bindE r (\<lambda>(_, sp, s2).
          bindE (WriteRegister (int PCReg) (pcAfter - 4) (s2\<lparr>space := sp\<rparr>)) (\<lambda>s3. Inr (Resume, s3)))))"

definition sc_join :: "'a trap" where
  "sc_join s = bindE (ReadRegister 4 s) (\<lambda>i. bindE (Table_Get (sint i) (threadlist s)) (\<lambda>t.
     case t of None \<Rightarrow> Inl BadPointer | Some n \<Rightarrow> Inr (JoinThread n, s)))"

text \<open>What \<^verbatim>\<open>SC_Join\<close> does when \<^verbatim>\<open>Thread::Join\<close> returns; \<open>st\<close> is the exit status it left.\<close>

definition join_return :: "int \<Rightarrow> 'a trap" where
  "join_return st s = set_r2 (word_of_int st) (s\<lparr>exit_status := st\<rparr>)"

text \<open>The branches of the handler, in their order; \<open>exec\<close> is the one for \<^verbatim>\<open>SC_Exec\<close>.\<close>

definition handle :: "'a trap \<Rightarrow> bool \<Rightarrow> 8 word list \<Rightarrow> ExceptionType \<Rightarrow> 'a trap" where
  "handle exec big junk which s =
     bindE (ReadRegister (int PCReg) s) (\<lambda>pc. let pcAfter = pc + 4 in
     bindE (WriteRegister (int PCReg) pcAfter s) (\<lambda>s1.
     bindE (ReadRegister 2 s1) (\<lambda>ty.
       if which = SyscallException \<and> ty = SC_Halt then Inr (HaltMachine, s1)
       else if which = SyscallException \<and> ty = SC_Exec then exec s1
       else if which = SyscallException \<and> ty = SC_Exit then Destroy s1
       else if which = PageFaultException then page_fault big junk pcAfter s1
       else if which \<in> {ReadOnlyException, BusErrorException, AddressErrorException, OverflowException, IllegalInstrException} then Destroy s1
       else if which = SyscallException \<and> ty = SC_Join then sc_join s1
       else if which = SyscallException \<and> ty = SC_Write then Destroy s1
       else Inl AssertFailed)))"

definition returning :: "(action \<times> 'a Process_scheme) res \<Rightarrow> 'a Process_scheme res" where
  "returning r = bindE r (\<lambda>(a, s). if a = Resume then Inr s else Inl LeavesCpu)"

text \<open>
  Reading the file name calls \<^verbatim>\<open>ReadMem\<close>, which can trap in turn: \<open>nested_read\<close> is that call, with
  \<^verbatim>\<open>RaiseException\<close> and the handler written out. Such a trap is never a system call; it serves a page
  fault and comes back (\<open>None\<close>, as \<^verbatim>\<open>ReadMem\<close> returns false), or it ends the program and does not come
  back (\<open>Inl\<close>). \<open>fault_handler\<close> is the handler of such a trap that comes back.
\<close>

definition fault_handler :: "bool \<Rightarrow> 8 word list \<Rightarrow> ExceptionType \<Rightarrow> 'a Process_scheme \<Rightarrow> 'a Process_scheme res" where
  "fault_handler big junk which s = returning (handle (\<lambda>_. Inl AssertFailed) big junk which s)"

definition nested_read :: "bool \<Rightarrow> 8 word list \<Rightarrow> 32 word \<Rightarrow> 'a Process_scheme \<Rightarrow>
    ((action + 32 word option) \<times> 'a Process_scheme) res" where
  "nested_read big junk addr s =
     bindE (Translate addr 1 False s) (\<lambda>(r, s1).
     case r of
       Inr pa \<Rightarrow> Inr (Inr (Some (scast (mainMemory s1 ! pa))), s1)
     | Inl e \<Rightarrow>
         bindE (DelayedLoad 0 0 (set_reg BadVAddrReg addr s1)) (\<lambda>s2.
         bindE (handle (\<lambda>_. Inl AssertFailed) big junk e (s2\<lparr>status := SystemMode\<rparr>)) (\<lambda>(a, s3).
         if a = Resume then Inr (Inr None, s3\<lparr>status := UserMode\<rparr>) else Inr (Inl a, s3))))"

fun read_name :: "bool \<Rightarrow> 8 word list \<Rightarrow> nat \<Rightarrow> 32 word \<Rightarrow> 'a Process_scheme \<Rightarrow> ((action + string option) \<times> 'a Process_scheme) res" where
  "read_name big junk 0 addr s = Inr (Inr None, s)"
| "read_name big junk (Suc n) addr s =
     bindE (nested_read big junk addr s) (\<lambda>(r, s1).
     bindE (if r = Inr None then nested_read big junk addr s1 else Inr (r, s1)) (\<lambda>(r', s2).
     case r' of
       Inl a \<Rightarrow> Inr (Inl a, s2)
     | Inr None \<Rightarrow> Inl AssertFailed
     | Inr (Some v) \<Rightarrow> if v = 0 then Inr (Inr (Some []), s2)
         else bindE (read_name big junk n (addr + 1) s2) (\<lambda>(name, s3).
              Inr (map_sum id (map_option ((#) (char_of (unat (ucast v :: 8 word))))) name, s3))))"

text \<open>
  \<open>hand\<close> and \<open>junk\<close> are the uninitialised values of \<^verbatim>\<open>AddrSpace::Initialize\<close>; \<^verbatim>\<open>new\<close> returns a page table
  that is not in use. A bad address of the name ends the program in the middle of the call.
\<close>

definition sc_exec :: "bool \<Rightarrow> 8 word list \<Rightarrow> 32 word \<Rightarrow> 'a trap" where
  "sc_exec big junk hand s =
     bindE (ReadRegister 4 s) (\<lambda>addr.
     bindE (read_name big junk 1024 addr s) (\<lambda>(name, s1).
     case name of
       Inl a \<Rightarrow> Inr (a, s1)
     | Inr None \<Rightarrow> set_r2 0 s1
     | Inr (Some input) \<Rightarrow> (case FileSystem_Open input (host s1) of
           None \<Rightarrow> set_r2 0 s1
         | Some executable \<Rightarrow>
             if pageTables s1 (pt_next s1) \<noteq> None then Inl BadPointer
             else bindE (Initialize big junk hand executable s1) (\<lambda>(sp, s2).
                  bindE (Table_Alloc (length (spawned s2)) (threadlist s2)) (\<lambda>(result, tl').
                  set_r2 (word_of_int result) (s2\<lparr>threadlist := tl', spawned := spawned s2 @ [sp]\<rparr>))))))"

definition ExceptionHandler :: "bool \<Rightarrow> 8 word list \<Rightarrow> 32 word \<Rightarrow> ExceptionType \<Rightarrow> 'a trap" where
  "ExceptionHandler big junk hand = handle (sc_exec big junk hand) big junk"

text \<open>The handler as the processor calls it.\<close>

definition kernel_handler :: "bool \<Rightarrow> 8 word list \<Rightarrow> 32 word \<Rightarrow> ExceptionType \<Rightarrow> 'a Process_scheme \<Rightarrow> 'a Process_scheme res" where
  "kernel_handler big junk hand which s = returning (ExceptionHandler big junk hand which s)"

definition NewProcess :: "'a Process_scheme \<Rightarrow> 'a Process_scheme res" where
  "NewProcess s = bindE (InitRegisters (space s) s) (\<lambda>s1. Inr (RestoreState (space s1) s1))"

section \<open>The handler keeps the processor well-formed\<close>

lemma WriteRegister_wf:
  assumes "WriteRegister n v s = Inr s'" "machine_wf s" "n \<noteq> int LoadReg"
  shows "machine_wf s'"
proof -
  have "s' = set_reg (nat n) v s" "nat n \<noteq> LoadReg" using assms by (auto simp: WriteRegister_def set_reg_def reg_defs)
  then show ?thesis using assms(2) by simp
qed

lemma machine_wf_process [simp]:
  "machine_wf (s\<lparr>exit_status := e\<rparr>) = machine_wf s" "machine_wf (s\<lparr>space := sp\<rparr>) = machine_wf s" "machine_wf (s\<lparr>stats := st\<rparr>) = machine_wf s"
  "machine_wf (s\<lparr>threadlist := tl', spawned := ss\<rparr>) = machine_wf s"
  by (rule same_cpu_wf; simp add: same_cpu_def)+

lemma foldE_same_cpu:
  assumes "foldE f xs s = Inr s'" "\<And>x s s'. f x s = Inr s' \<Longrightarrow> same_cpu s s'"
  shows "same_cpu s s'"
  using assms(1)
proof (induction xs arbitrary: s)
  case (Cons x xs)
  then obtain s1 where "f x s = Inr s1" "foldE f xs s1 = Inr s'" by auto
  then show ?case using Cons.IH assms(2) same_cpu_trans by blast
qed simp

lemma same_cpu_ClearState: "ClearState sp s = Inr s' \<Longrightarrow> same_cpu s s'"
  unfolding ClearState_def by (rule foldE_same_cpu) (auto dest: same_cpu_free split: if_splits)

lemma Destroy_leaves: "Destroy s = Inr (a, s') \<Longrightarrow> a = FinishThread"
  by (auto simp: Destroy_def)

lemma page_fault_wf:
  assumes "page_fault big junk pcAfter s = Inr (a, s')" "machine_wf s"
  shows "machine_wf s'"
proof -
  let ?s1 = "s\<lparr>stats := (stats s)\<lparr>numPageFaults := numPageFaults (stats s) + 1\<rparr>\<rparr>"
  obtain pg b sp s2 where d: "demandpage big junk pg (space ?s1) ?s1 = Some (Inr (b, sp, s2))"
      "WriteRegister (int PCReg) (pcAfter - 4) (s2\<lparr>space := sp\<rparr>) = Inr s'"
    using assms(1) by (auto simp: page_fault_def Let_def split: option.splits prod.splits)
  have "machine_wf s2" using same_cpu_wf [OF same_cpu_demandpage [OF d(1)]] assms(2) by simp
  then show ?thesis using WriteRegister_wf [OF d(2)] by (simp add: reg_defs)
qed

lemma handle_wf:
  assumes h: "handle exec big junk which s = Inr (Resume, s')" and wf: "machine_wf s"
    and e: "\<And>s1 s'. exec s1 = Inr (Resume, s') \<Longrightarrow> machine_wf s1 \<Longrightarrow> machine_wf s'"
  shows "machine_wf s'"
proof -
  obtain pc s1 where s1: "WriteRegister (int PCReg) (pc + 4) s = Inr s1" "pc = registers s ! PCReg"
    using h by (auto simp: handle_def ReadRegister_def Let_def)
  have wf1: "machine_wf s1" using WriteRegister_wf [OF s1(1) wf] by (simp add: reg_defs)
  have "exec s1 = Inr (Resume, s') \<or> page_fault big junk (pc + 4) s1 = Inr (Resume, s') \<or> sc_join s1 = Inr (Resume, s')"
    using h s1 by (auto simp: handle_def ReadRegister_def Let_def dest: Destroy_leaves split: if_splits)
  then show ?thesis using e wf1 page_fault_wf by (auto simp: sc_join_def split: option.splits)
qed

lemma returning_Inr: "returning r = Inr s \<longleftrightarrow> r = Inr (Resume, s)"
  by (cases r) (auto simp: returning_def split: if_splits)

interpretation faults: exn_kernel "fault_handler big junk"
proof
  fix which and s s' :: "'a Process_scheme"
  assume "fault_handler big junk which s = Inr s'" "machine_wf s"
  then show "machine_wf s'" by (auto simp: fault_handler_def returning_Inr dest: handle_wf)
qed

text \<open>Reading one character of the name: a read that comes back, or the end of the program.\<close>

lemma nested_read_returns: "nested_read big junk addr s = Inr (Inr r, s') \<longleftrightarrow> ReadMem big (fault_handler big junk) addr 1 s = Inr (r, s')"
proof (cases "Translate addr 1 False s")
  case (Inr x)
  obtain q s1 where x: "x = (q, s1)" by (cases x)
  show ?thesis
  proof (cases q)
    case (Inl e)
    then show ?thesis using Inr x
      by (auto simp: nested_read_def ReadMem_def RaiseException_def fault_handler_def returning_def split: if_splits)
  qed (use Inr x in \<open>auto simp: nested_read_def ReadMem_def\<close>)
qed (simp add: nested_read_def ReadMem_def)

lemma nested_read_ends:
  assumes "nested_read big junk addr s = Inr (Inl a, s')"
  shows "\<exists>e s1 s2. Translate addr 1 False s = Inr (Inl e, s1) \<and> DelayedLoad 0 0 (set_reg BadVAddrReg addr s1) = Inr s2 \<and>
    handle (\<lambda>_. Inl AssertFailed) big junk e (s2\<lparr>status := SystemMode\<rparr>) = Inr (a, s') \<and> a \<noteq> Resume"
proof -
  obtain q s1 where q: "Translate addr 1 False s = Inr (q, s1)" using assms by (auto simp: nested_read_def)
  then show ?thesis using assms by (cases q) (auto simp: nested_read_def split: if_splits)
qed

text \<open>What holds across each read that comes back holds until the name is read, or until the read that does not.\<close>

lemma read_name_cases:
  assumes "read_name big junk n addr s = Inr (nm, s')" and "P s"
    and step: "\<And>addr t r t'. ReadMem big (fault_handler big junk) addr 1 t = Inr (r, t') \<Longrightarrow> P t \<Longrightarrow> P t'"
  shows "case nm of Inr _ \<Rightarrow> P s' | Inl a \<Rightarrow> \<exists>addr t. P t \<and> nested_read big junk addr t = Inr (Inl a, s')"
  using assms(1,2)
proof (induction n arbitrary: addr s nm)
  case (Suc n)
  let ?R = "nested_read big junk addr"
  have rd: "P t'" if "?R t = Inr (Inr r, t')" "P t" for t r t' using step that by (simp add: nested_read_returns)
  obtain r s1 r' s2 where s1: "?R s = Inr (r, s1)" and s2: "(if r = Inr None then ?R s1 else Inr (r, s1)) = Inr (r', s2)"
    using Suc.prems(1) by (auto split: prod.splits)
  have two: "\<exists>t. P t \<and> ?R t = Inr (r', s2)"
  proof (cases "r = Inr None")
    case True
    then show ?thesis using s1 s2 rd [of s None s1] Suc.prems(2) by auto
  qed (use s1 s2 Suc.prems(2) in auto)
  show ?case
  proof (cases r')
    case (Inl a)
    then have "nm = Inl a" "s' = s2" using Suc.prems(1) s1 s2 by simp_all
    then show ?thesis using two Inl by (simp, blast)
  next
    case (Inr q)
    then have P2: "P s2" using two rd by blast
    obtain v where v: "q = Some v" using Suc.prems(1) s1 s2 Inr by (cases q) auto
    show ?thesis
    proof (cases "v = 0")
      case True
      then show ?thesis using Suc.prems(1) s1 s2 Inr v P2 by auto
    next
      case False
      then obtain name where nm: "read_name big junk n (addr + 1) s2 = Inr (name, s')"
          "nm = map_sum id (map_option ((#) (char_of (unat (ucast v :: 8 word))))) name"
        using Suc.prems(1) s1 s2 Inr v by auto
      then show ?thesis using Suc.IH [OF nm(1) P2] by (cases name) simp_all
    qed
  qed
qed simp

lemma read_name_ends: "read_name big junk n addr s = Inr (Inl a, s') \<Longrightarrow> a \<noteq> Resume"
  using read_name_cases [of big junk n addr s "Inl a" s' "\<lambda>_. True"] nested_read_ends by fastforce

lemma read_name_wf:
  assumes "read_name big junk n addr s = Inr (Inr nm, s')" "machine_wf s"
  shows "machine_wf s'"
proof -
  have "machine_wf t'" if "ReadMem big (fault_handler big junk) ad 1 t = Inr (r, t')" "machine_wf t" for ad t r t'
    using faults.ReadMem_wf [OF that(2), of 1 big junk big ad] that(1) by simp
  from read_name_cases [of _ _ _ _ _ _ _ machine_wf, OF assms this] show ?thesis by simp
qed

lemma Initialize_wf:
  assumes "Initialize big junk hand exe s = Inr (sp, s')" "pageTables s (pt_next s) = None" "machine_wf s"
  shows "machine_wf s'"
proof -
  obtain fs es where "s' = s\<lparr>host := fs, pt_next := Suc (pt_next s), pageTables := (pageTables s)(pt_next s \<mapsto> es)\<rparr>"
    using assms(1) by (auto simp: Initialize_def Let_def split_def)
  then have "registers s' = registers s" "tlb s' = tlb s" "pageTable s' = pageTable s" "pageTableSize s' = pageTableSize s"
      "mainMemory s' = mainMemory s" "\<And>p. pageTables s p \<noteq> None \<Longrightarrow> pageTables s' p = pageTables s p"
    using assms(2) by auto
  then show ?thesis using assms(3)
    by (cases "pageTable s"; cases "tlb s") (auto simp: machine_wf_def cpu_wf_def xlate_wf_def split: option.splits)
qed

text \<open>The call comes back only when the name was read.\<close>

lemma sc_exec_named:
  assumes "sc_exec big junk hand s = Inr (Resume, s')"
  obtains addr nm s1 where "ReadRegister 4 s = Inr addr" "read_name big junk 1024 addr s = Inr (Inr nm, s1)"
proof -
  obtain addr q s1 where ad: "ReadRegister 4 s = Inr addr" and s1: "read_name big junk 1024 addr s = Inr (q, s1)"
    using assms by (auto simp: sc_exec_def)
  show thesis
  proof (cases q)
    case (Inl a)
    then have "a = Resume" using assms ad s1 by (simp add: sc_exec_def)
    then show thesis using read_name_ends s1 Inl by blast
  qed (use ad s1 that in blast)
qed

lemma sc_exec_wf:
  assumes "sc_exec big junk hand s = Inr (Resume, s')" "machine_wf s"
  shows "machine_wf s'"
proof -
  obtain addr nm s1 where ad: "ReadRegister 4 s = Inr addr" and s1: "read_name big junk 1024 addr s = Inr (Inr nm, s1)"
    using sc_exec_named [OF assms(1)] .
  have wf1: "machine_wf s1" using read_name_wf [OF s1 assms(2)] .
  have r2: "machine_wf t'" if "set_r2 v t = Inr (b, t')" "machine_wf t" for v b and t t' :: "'a Process_scheme"
    using that WriteRegister_wf [of 2 v t] by (auto simp: set_r2_def reg_defs)
  show ?thesis
  proof (cases "nm = None \<or> FileSystem_Open (the nm) (host s1) = None")
    case True
    then have "set_r2 0 s1 = Inr (Resume, s')" using assms(1) ad s1 by (auto simp: sc_exec_def split: option.splits)
    then show ?thesis using r2 wf1 by blast
  next
    case False
    then obtain input exe where nm: "nm = Some input" "FileSystem_Open input (host s1) = Some exe" by auto
    obtain sp s2 result tl' where s2: "pageTables s1 (pt_next s1) = None" "Initialize big junk hand exe s1 = Inr (sp, s2)"
        "set_r2 (word_of_int result) (s2\<lparr>threadlist := tl', spawned := spawned s2 @ [sp]\<rparr>) = Inr (Resume, s')"
      using assms(1) unfolding sc_exec_def ad bindE_simps s1 nm prod.case sum.case option.case by (auto split: if_splits)
    show ?thesis using r2 [OF s2(3)] Initialize_wf [OF s2(2,1) wf1] by simp
  qed
qed

interpretation kernel: exn_kernel "kernel_handler big junk hand"
proof
  fix which and s s' :: "'a Process_scheme"
  assume "kernel_handler big junk hand which s = Inr s'" "machine_wf s"
  then show "machine_wf s'"
    by (auto simp: kernel_handler_def ExceptionHandler_def returning_Inr dest: handle_wf [OF _ _ sc_exec_wf])
qed

section \<open>Program counters across a trap\<close>

definition pcs :: "'a Machine_scheme \<Rightarrow> 32 word \<times> 32 word" where
  "pcs s = (reg s PCReg, reg s NextPCReg)"

lemma pcs_cong: "registers s' = registers s \<Longrightarrow> pcs s' = pcs s"
  by (simp add: pcs_def)

lemma pcs_RaiseException:
  assumes "RaiseException eh which va s = Inr s'" "machine_wf s" "\<And>t t'. eh which t = Inr t' \<Longrightarrow> machine_wf t \<Longrightarrow> pcs t' = f (pcs t)"
  shows "pcs s' = f (pcs s)"
proof -
  have wf: "machine_wf (set_reg BadVAddrReg va s)" using assms(2) by (simp add: low_reg_not_LoadReg)
  obtain s1 s2 where s1: "DelayedLoad 0 0 (set_reg BadVAddrReg va s) = Inr s1" "eh which (s1\<lparr>status := SystemMode\<rparr>) = Inr s2"
      "s' = s2\<lparr>status := UserMode\<rparr>"
    using assms(1) by (auto simp: RaiseException_def)
  have wf1: "machine_wf s1" using DelayedLoad_0_wf [OF wf] s1(1) by auto
  have "unat (reg s LoadReg) < 32" using assms(2) by (simp add: machine_wf_def cpu_wf_def reg_defs)
  then have "pcs s1 = pcs s" using s1(1) by (auto simp: DelayedLoad_def Let_def set_reg_def pcs_def reg_defs split: if_splits)
  moreover have "machine_wf (s1\<lparr>status := SystemMode\<rparr>)" using wf1 by (simp add: machine_wf_def)
  ultimately show ?thesis using assms(3) [OF s1(2)] s1(3) by (simp add: pcs_def)
qed

text \<open>A trap that is not a system call and returns was a page fault; the registers are as before, so that the instruction is retried.\<close>

lemma handle_fault_registers:
  assumes h: "handle exec big junk which s = Inr (Resume, s')" and w: "which \<noteq> SyscallException"
  shows "registers s' = registers s" and "which = PageFaultException"
proof -
  let ?pc = "registers s ! PCReg"
  let ?s1 = "s\<lparr>registers := (registers s)[PCReg := ?pc + 4]\<rparr>"
  have which: "which = PageFaultException" and pf: "page_fault big junk (?pc + 4) ?s1 = Inr (Resume, s')"
    using h w by (auto simp: handle_def ReadRegister_def WriteRegister_def Let_def reg_defs dest: Destroy_leaves split: if_splits)
  let ?s2 = "?s1\<lparr>stats := (stats ?s1)\<lparr>numPageFaults := numPageFaults (stats ?s1) + 1\<rparr>\<rparr>"
  obtain pg b sp s3 where d: "demandpage big junk pg (space ?s2) ?s2 = Some (Inr (b, sp, s3))"
      "WriteRegister (int PCReg) ?pc (s3\<lparr>space := sp\<rparr>) = Inr s'"
    using pf by (auto simp: page_fault_def Let_def split: option.splits prod.splits)
  have "registers s3 = (registers s)[PCReg := ?pc + 4]" using same_cpu_demandpage [OF d(1)] by (simp add: same_cpu_def)
  then show "registers s' = registers s" using d(2) by (auto simp: WriteRegister_def)
  show "which = PageFaultException" by (rule which)
qed

text \<open>A trap that is not a system call and does not return ended the program.\<close>

lemma handle_fault_ends:
  assumes "handle exec big junk which s = Inr (a, s')" "which \<noteq> SyscallException" "a \<noteq> Resume"
  shows "Destroy (s\<lparr>registers := (registers s)[PCReg := reg s PCReg + 4]\<rparr>) = Inr (a, s')"
proof -
  have "b = Resume" if "page_fault big junk pc t = Inr (b, t')" for b pc and t t' :: "'a Process_scheme"
    using that by (auto simp: page_fault_def Let_def split: option.splits)
  then show ?thesis using assms by (auto simp: handle_def ReadRegister_def WriteRegister_def Let_def reg_defs split: if_splits)
qed

lemma sc_exec_ends:
  assumes "sc_exec big junk hand s = Inr (a, s')" "a \<noteq> Resume"
  shows "\<exists>addr. read_name big junk 1024 addr s = Inr (Inl a, s')"
proof -
  obtain addr q s1 where ad: "ReadRegister 4 s = Inr addr" and s1: "read_name big junk 1024 addr s = Inr (q, s1)"
    using assms(1) by (auto simp: sc_exec_def)
  show ?thesis
  proof (cases q)
    case (Inl b)
    then show ?thesis using assms(1) ad s1 by (auto simp: sc_exec_def)
  next
    case (Inr nm)
    then have "a = Resume"
      using assms(1) ad s1 by (auto simp: sc_exec_def set_r2_def split: option.splits if_splits)
    then show ?thesis using assms(2) by simp
  qed
qed

lemma Translate_not_syscall: "Translate va sz wr s = Inr (Inl e, s') \<Longrightarrow> e \<noteq> SyscallException"
  by (auto simp: Translate_def find_entry_def Let_def ASSERT_def split: if_splits option.splits sum.splits)

lemma pcs_ReadMem:
  assumes "ReadMem big (fault_handler big junk) va sz s = Inr (r, s')" "machine_wf s" "sz \<in> {1, 2, 4}"
  shows "pcs s' = pcs s"
proof (cases rule: Translate_cases [OF _ assms(3), of s va False])
  case 1
  then show ?case using assms(2) by (simp add: machine_wf_def)
next
  case (2 e)
  have ns: "e \<noteq> SyscallException" using Translate_not_syscall [OF 2(1)] .
  have "RaiseException (fault_handler big junk) e va s = Inr s'" using assms(1) 2 by (auto simp: ReadMem_def)
  then show ?thesis
  proof (rule pcs_RaiseException [where f = "\<lambda>x. x", OF _ assms(2)])
    show "pcs t' = pcs t" if "fault_handler big junk e t = Inr t'" for t t'
      using that ns by (auto simp: fault_handler_def returning_Inr dest: handle_fault_registers(1) intro: pcs_cong)
  qed
next
  case (3 ref ent)
  have "registers s' = registers s" using ReadMem_ok [OF 3(1) assms(3), of big "fault_handler big junk"] assms(1) by auto
  then show ?thesis by (rule pcs_cong)
qed

lemma pcs_read_name:
  assumes "read_name big junk n addr s = Inr (Inr nm, s')" "machine_wf s"
  shows "pcs s' = pcs s"
proof -
  have "machine_wf t' \<and> pcs t' = pcs s"
    if "ReadMem big (fault_handler big junk) ad 1 t = Inr (r, t')" "machine_wf t \<and> pcs t = pcs s" for ad t r t'
    using faults.ReadMem_wf [of t 1 big junk big ad] pcs_ReadMem [OF that(1)] that by simp
  from read_name_cases [OF assms(1), of "\<lambda>t. machine_wf t \<and> pcs t = pcs s", OF _ this] assms(2) show ?thesis by simp
qed

lemma pcs_set_r2: "set_r2 v s = Inr (a, s') \<Longrightarrow> pcs s' = pcs s"
  by (auto simp: set_r2_def WriteRegister_def pcs_def reg_defs)

lemma pcs_sc_exec:
  assumes "sc_exec big junk hand s = Inr (Resume, s')" "machine_wf s"
  shows "pcs s' = pcs s"
proof -
  obtain addr nm s1 where ad: "ReadRegister 4 s = Inr addr" and s1: "read_name big junk 1024 addr s = Inr (Inr nm, s1)"
    using sc_exec_named [OF assms(1)] .
  note p1 = pcs_read_name [OF s1 assms(2)]
  show ?thesis
  proof (cases "nm = None \<or> FileSystem_Open (the nm) (host s1) = None")
    case True
    then have "set_r2 0 s1 = Inr (Resume, s')" using assms(1) ad s1 by (auto simp: sc_exec_def split: option.splits)
    then show ?thesis using pcs_set_r2 p1 by metis
  next
    case False
    then obtain input exe where nm: "nm = Some input" "FileSystem_Open input (host s1) = Some exe" by auto
    obtain sp s2 result tl' where s2: "Initialize big junk hand exe s1 = Inr (sp, s2)"
        "set_r2 (word_of_int result) (s2\<lparr>threadlist := tl', spawned := spawned s2 @ [sp]\<rparr>) = Inr (Resume, s')"
      using assms(1) unfolding sc_exec_def ad bindE_simps s1 nm prod.case sum.case option.case by (auto split: if_splits)
    have "registers s2 = registers s1" using s2(1) by (auto simp: Initialize_def Let_def split_def)
    then have "pcs s2 = pcs s1" by (rule pcs_cong)
    then show ?thesis using pcs_set_r2 [OF s2(2)] p1 by (simp add: pcs_def)
  qed
qed

lemma syscall_pcs:
  assumes "kernel_handler big junk hand SyscallException s = Inr s'" "machine_wf s"
  shows "pcs s' = (fst (pcs s) + 4, snd (pcs s))"
proof -
  let ?s1 = "s\<lparr>registers := (registers s)[PCReg := reg s PCReg + 4]\<rparr>"
  have len: "length (registers s) = 40" using assms(2) by (simp add: machine_wf_def cpu_wf_def reg_defs)
  have "handle (sc_exec big junk hand) big junk SyscallException s = Inr (Resume, s')"
    using assms(1) by (simp add: kernel_handler_def ExceptionHandler_def returning_Inr)
  then have "sc_exec big junk hand ?s1 = Inr (Resume, s')"
    by (auto simp: handle_def ReadRegister_def WriteRegister_def Let_def reg_defs sc_join_def dest: Destroy_leaves split: if_splits option.splits)
  moreover have "machine_wf ?s1" using set_reg_wf [of PCReg "reg s PCReg + 4" s] assms(2) by (simp add: set_reg_def reg_defs)
  ultimately have "pcs s' = pcs ?s1" by (rule pcs_sc_exec)
  then show ?thesis using len by (simp add: pcs_def reg_defs)
qed

section \<open>Page faults, end to end\<close>

text \<open>What the paging invariant says of a state depends on these parts of it only.\<close>

lemma space_view_cong:
  assumes "pageTables s' = pageTables s" "mainMemory s' = mainMemory s" "memmanage s' = memmanage s" "host s' = host s"
  shows "space_ok X sp s' = space_ok X sp s" "tbl sp s' = tbl sp s" "page_data sp s' = page_data sp s" "resident sp s' = resident sp s"
proof -
  show t: "tbl sp s' = tbl sp s" using assms by (simp add: tbl_def)
  have w: "swap_file sp s' = swap_file sp s" "frame_bytes f s' = frame_bytes f s" for f
    using assms by (simp_all add: swap_file_def frame_bytes_def)
  show r: "resident sp s' = resident sp s" by (simp add: resident_def t)
  show "page_data sp s' = page_data sp s" by (simp add: fun_eq_iff page_data_def t w Let_def)
  have "pte_ok sp s' = pte_ok sp s" by (simp add: fun_eq_iff pte_ok_def t w assms Let_def)
  then show "space_ok X sp s' = space_ok X sp s" using assms by (simp add: space_ok_def space_shape_def t r)
qed

lemma page_number:
  fixes va :: "32 word"
  assumes "unat va < 2 ^ 31"
  shows "sint va sdiv int PageSize = int (unat va div PageSize)"
proof -
  have "sint va = int (unat va)" using assms by (rule sint_small)
  then show ?thesis by (simp add: sdiv_nonneg size_defs zdiv_int)
qed

lemma page_fault_served:
  fixes s :: "'a Process_scheme"
  assumes "machine_wf s" and "space_ok {} (space s) s" and va: "unat (reg s BadVAddrReg) < 2 ^ 31"
    and p: "p = unat (reg s BadVAddrReg) div PageSize" and "p < npages (space s)" and "\<not> valid (tbl (space s) s ! p)"
    and "\<not> {0..<int NumPhysPages} \<subseteq> pages_in_use (memmanage s) \<or> resident (space s) s \<noteq> {} \<and> hand_ok (space s)"
    and "page_data (space s) s p = None \<Longrightarrow>
      read_header big junk (stored_executable (space s)) (host s) = Inr noffH \<and> in_file_ok noffH p"
  shows "\<exists>s'. ExceptionHandler big junk hand PageFaultException s = Inr (Resume, s') \<and> registers s' = registers s \<and>
    same_space (space s) (space s') \<and> (hand_ok (space s) \<longrightarrow> hand_ok (space s')) \<and> space_ok {} (space s') s' \<and> p \<in> resident (space s') s' \<and>
    (\<forall>i < npages (space s). i \<noteq> p \<longrightarrow> page_data (space s') s' i = page_data (space s) s i) \<and>
    (\<forall>bytes. page_data (space s) s p = Some bytes \<longrightarrow> page_data (space s') s' p = Some bytes)"
proof -
  let ?pc = "reg s PCReg"
  let ?s1 = "s\<lparr>registers := (registers s)[PCReg := ?pc + 4]\<rparr>"
  let ?s2 = "?s1\<lparr>stats := (stats ?s1)\<lparr>numPageFaults := numPageFaults (stats ?s1) + 1\<rparr>\<rparr>"
  have len: "length (registers s) = 40" using assms(1) by (simp add: machine_wf_def cpu_wf_def reg_defs)
  note v2 = space_view_cong [of ?s2 s, simplified]
  have "\<exists>sp' t. demandpage big junk (int p) (space s) ?s2 = Some (Inr (True, sp', t)) \<and> same_space (space s) sp' \<and> (hand_ok (space s) \<longrightarrow> hand_ok sp') \<and>
      space_ok {} sp' t \<and> p \<in> resident sp' t \<and>
      (\<forall>i < npages (space s). i \<noteq> p \<longrightarrow> page_data sp' t i = page_data (space s) s i) \<and>
      (\<forall>bytes. page_data (space s) s p = Some bytes \<longrightarrow> page_data sp' t p = Some bytes)"
    using demandpage_serves [of "space s" ?s2 p big junk noffH] assms(2,5-8) by (auto simp: v2 split: option.splits)
  then obtain sp' t where d: "demandpage big junk (int p) (space s) ?s2 = Some (Inr (True, sp', t))" "same_space (space s) sp'" "hand_ok (space s) \<longrightarrow> hand_ok sp'"
      "space_ok {} sp' t" "p \<in> resident sp' t" "\<forall>i < npages (space s). i \<noteq> p \<longrightarrow> page_data sp' t i = page_data (space s) s i"
      "\<forall>bytes. page_data (space s) s p = Some bytes \<longrightarrow> page_data sp' t p = Some bytes" by blast
  have rt: "registers t = (registers s)[PCReg := ?pc + 4]" using same_cpu_demandpage [OF d(1)] by (simp add: same_cpu_def)
  let ?s' = "(t\<lparr>space := sp'\<rparr>)\<lparr>registers := registers s\<rparr>"
  have b: "sint (reg s BadVAddrReg) sdiv int PageSize = int p" using page_number [OF va] p by simp
  have "ExceptionHandler big junk hand PageFaultException s = Inr (Resume, ?s')"
    using d(1) rt len b
    by (simp add: ExceptionHandler_def handle_def page_fault_def ReadRegister_def WriteRegister_def Let_def reg_defs)
  moreover note v' = space_view_cong [of ?s' t, simplified]
  ultimately show ?thesis using d by (intro exI [of _ ?s']) (simp add: v')
qed

section \<open>Properties\<close>

text \<open>
  To tell the failures of the kernel from those of the processor: a handler whose every
  failure is the one error \<open>LeavesCpu\<close>, which the processor itself never has.
\<close>

definition blamed :: "(ExceptionType \<Rightarrow> 's \<Rightarrow> 's res) \<Rightarrow> ExceptionType \<Rightarrow> 's \<Rightarrow> 's res" where
  "blamed eh which s = (case eh which s of Inl _ \<Rightarrow> Inl LeavesCpu | Inr s' \<Rightarrow> Inr s')"

interpretation blamed: exn_kernel "blamed (kernel_handler big junk hand)"
  by unfold_locales (auto simp: blamed_def split: sum.splits dest: kernel.eh_wf)

text \<open>
  C33. A user instruction never corrupts the simulator. With the kernel's own handler, one
  instruction of a well-formed machine leaves it well-formed (40 registers, a delayed load
  aimed at a general register, all of physical memory, an installed translation). When it does
  not return, the cause is the kernel (a failure of its own or a thread that gives up the
  processor), or one of the two places where the simulator stops by itself: a division of
  the smallest integer by -1, and an unaligned access by \<^verbatim>\<open>LWL\<close>, \<^verbatim>\<open>LWR\<close>, \<^verbatim>\<open>SWL\<close>, \<^verbatim>\<open>SWR\<close>: once the
  failures of the kernel are marked, no other assertion fails and no array is left.
\<close>

theorem user_instruction_sound:
  fixes s :: "'a Process_scheme"
  assumes "machine_wf s"
  shows "(\<forall>s'. OneInstruction big (kernel_handler big junk hand) s = Inr s' \<longrightarrow> machine_wf s') \<and>
    (\<forall>e. OneInstruction big (blamed (kernel_handler big junk hand)) s = Inl e \<longrightarrow> e = LeavesCpu \<or>
       (\<exists>raw s1. ReadMem big (blamed (kernel_handler big junk hand)) (reg s PCReg) 4 s = Inr (Some raw, s1) \<and> stops (Decode raw) s1))"
proof (intro conjI allI impI)
  fix s' assume "OneInstruction big (kernel_handler big junk hand) s = Inr s'"
  then show "machine_wf s'" using kernel.OneInstruction_sound [OF assms, of big junk hand big] by simp
next
  fix e assume "OneInstruction big (blamed (kernel_handler big junk hand)) s = Inl e"
  moreover have "e' = LeavesCpu" if "blamed (kernel_handler big junk hand) which (t :: 'a Process_scheme) = Inl e'" for which t e'
    using that by (auto simp: blamed_def split: sum.splits)
  ultimately show "e = LeavesCpu \<or>
      (\<exists>raw s1. ReadMem big (blamed (kernel_handler big junk hand)) (reg s PCReg) 4 s = Inr (Some raw, s1) \<and> stops (Decode raw) s1)"
    using blamed.OneInstruction_sound [OF assms, of big junk hand big] by auto
qed

text \<open>
  C30. A page fault is invisible to the program. When the processor faults on an address of the
  current thread's space whose page is not resident, and a frame is free or the space has a
  resident page to give up (and a clock hand inside its table), the handler returns with every register as it was, so that the
  instruction is retried, the page resident, the invariant of the space restored, the bytes
  of all other pages of the space unchanged, and the bytes that were written out for the
  page itself brought back.
\<close>

theorem page_fault_retried:
  fixes s :: "'a Process_scheme"
  assumes "machine_wf s" and "space_ok {} (space s) s" and va: "unat (reg s BadVAddrReg) < 2 ^ 31"
    and p: "p = unat (reg s BadVAddrReg) div PageSize" and "p < npages (space s)" and "\<not> valid (tbl (space s) s ! p)"
    and "\<not> {0..<int NumPhysPages} \<subseteq> pages_in_use (memmanage s) \<or> resident (space s) s \<noteq> {} \<and> hand_ok (space s)"
    and "page_data (space s) s p = None \<Longrightarrow>
      read_header big junk (stored_executable (space s)) (host s) = Inr noffH \<and> in_file_ok noffH p"
  shows "\<exists>s'. ExceptionHandler big junk hand PageFaultException s = Inr (Resume, s') \<and> registers s' = registers s \<and>
    same_space (space s) (space s') \<and> (hand_ok (space s) \<longrightarrow> hand_ok (space s')) \<and> space_ok {} (space s') s' \<and> p \<in> resident (space s') s' \<and>
    (\<forall>i < npages (space s). i \<noteq> p \<longrightarrow> page_data (space s') s' i = page_data (space s) s i) \<and>
    (\<forall>bytes. page_data (space s) s p = Some bytes \<longrightarrow> page_data (space s') s' p = Some bytes)"
  using page_fault_served [OF assms] .

text \<open>
  C39. A system call that returns makes the next instruction run twice. The handler adds 4 to
  \<^verbatim>\<open>PCReg\<close> but leaves \<^verbatim>\<open>NextPCReg\<close>, which already points to the instruction after the system call:
  both are the same afterwards, so that whatever instruction follows (and does not itself
  write the program counters), the processor is at the same instruction again when it has
  completed.
\<close>

theorem syscall_repeats_next:
  assumes "machine_wf s" and "kernel_handler big junk hand SyscallException s = Inr s'" and "reg s NextPCReg = reg s PCReg + 4"
    and "machine_wf t" and "reg t PCReg = reg s' PCReg" and "reg t NextPCReg = reg s' NextPCReg"
  shows "reg s' PCReg = reg s PCReg + 4 \<and> reg s' NextPCReg = reg s' PCReg \<and> reg (advance pcAfter t) PCReg = reg s' PCReg"
proof -
  have e: "reg s' PCReg = reg s PCReg + 4" "reg s' NextPCReg = reg s PCReg + 4"
    using syscall_pcs [OF assms(2,1)] assms(3) by (simp_all add: pcs_def)
  have len: "length (registers t) = 40" using assms(4) by (simp add: machine_wf_def cpu_wf_def reg_defs)
  then show ?thesis using e assms(6) by (simp add: advance_def Let_def set_reg_def reg_defs)
qed

text \<open>
  C40. The table of threads hands out its places in order, and then leaves its array. While
  the place at \<^verbatim>\<open>last_element\<close> is inside a table of \<open>n\<close> places and empty, \<^verbatim>\<open>Alloc\<close> puts the object
  there and returns its number plus one, a handle from which \<^verbatim>\<open>Get\<close> returns the object; once
  \<open>n\<close> objects have been allocated the next call reads beyond the array, even when places
  have been released in between, because the search starts at \<^verbatim>\<open>last_element\<close> and never wraps
  around.
\<close>

theorem table_alloc_overrun:
  assumes "length xs = n" and "k < n" and "xs ! k = None" and "length ys = n"
  shows "Table_Alloc obj \<lparr>tb_backing = xs, max_elements = int n, last_element = int k, tb_locked = False\<rparr> =
      Inr (int k + 1, \<lparr>tb_backing = xs[k := Some obj], max_elements = int n, last_element = int k + 1, tb_locked = False\<rparr>) \<and>
    Table_Get (int k + 1) \<lparr>tb_backing = xs[k := Some obj], max_elements = int n, last_element = int k + 1, tb_locked = False\<rparr> = Inr (Some obj) \<and>
    Table_Alloc obj' \<lparr>tb_backing = ys, max_elements = int n, last_element = int n, tb_locked = False\<rparr> = Inl OutOfBounds"
proof -
  obtain m where n: "n = Suc m" using assms(2) by (cases n) auto
  show ?thesis using assms by (simp add: Table_Alloc_def Table_Get_def n nat_add_distrib)
qed

theorem table_alloc_overrun_witness:
  "Table_Alloc (7 :: nat) \<lparr>tb_backing = [Some 1, None], max_elements = 2, last_element = 1, tb_locked = False\<rparr> =
     Inr (2, \<lparr>tb_backing = [Some 1, Some 7], max_elements = 2, last_element = 2, tb_locked = False\<rparr>) \<and>
   Table_Alloc (9 :: nat) \<lparr>tb_backing = [None, None], max_elements = 2, last_element = 2, tb_locked = False\<rparr> = Inl OutOfBounds"
  using table_alloc_overrun [of "[Some 1, None]" 2 1 "[None, None]" "7 :: nat" "9 :: nat"] by simp

section \<open>Examples\<close>

text \<open>
  The processor of \<^theory_text>\<open>Paging\<close>'s example, faulting on address 0; and one about to execute
  \<^verbatim>\<open>Exec\<close> with the name at address 4, which is empty and names no file.
\<close>

definition no_threads :: "nat Table" where
  "no_threads = Table_Table 10 (replicate 10 None)"

definition faulting :: Process where
  "faulting = VM.extend demo_vm \<lparr>space = demo_space, exit_status = 0, threadlist = no_threads, spawned = []\<rparr>"

definition execing :: Process where
  "execing = (VM.extend (Machine.extend (demo_machine\<lparr>registers := (replicate 40 0)[2 := 2, 4 := 4, NextPCReg := 4]\<rparr>)
       (VM.fields (memmanage demo_vm) (host demo_vm) 1 False))
     \<lparr>space = demo_space, exit_status = 0, threadlist = no_threads, spawned = []\<rparr>)"

lemma faulting_view:
  "machine_wf faulting" "space faulting = demo_space" "reg faulting BadVAddrReg = 0" "memmanage faulting = memmanage demo_vm"
  "pageTables faulting = pageTables demo_vm" "mainMemory faulting = mainMemory demo_vm" "host faulting = host demo_vm"
  by (simp_all add: faulting_def demo_vm_def VM.defs Machine.defs machine_wf_def cpu_wf_def xlate_wf_def demo_machine_def reg_defs)

theorem user_instruction_sound_witness:
  "machine_wf faulting \<and> (case OneInstruction False (kernel_handler False (replicate 40 0) 0) faulting of Inl _ \<Rightarrow> True | Inr s' \<Rightarrow> machine_wf s') \<and>
    (case OneInstruction False (blamed (kernel_handler False (replicate 40 0) 0)) faulting of Inr _ \<Rightarrow> True
     | Inl e \<Rightarrow> e = LeavesCpu \<or> (\<exists>raw s1. ReadMem False (blamed (kernel_handler False (replicate 40 0) 0)) (reg faulting PCReg) 4 faulting =
         Inr (Some raw, s1) \<and> stops (Decode raw) s1))"
  using user_instruction_sound [OF faulting_view(1), of False "replicate 40 0" 0] faulting_view(1) by (simp split: sum.splits)

theorem page_fault_retried_witness:
  "\<exists>s'. ExceptionHandler False (replicate 40 0) 0 PageFaultException faulting = Inr (Resume, s') \<and>
     registers s' = registers faulting \<and> 0 \<in> resident (space s') s'"
proof -
  note v = space_view_cong [of faulting demo_vm, OF faulting_view(5,6,4,7)]
  have none: "page_data demo_space demo_vm 0 = None" by (simp add: page_data_def fresh_pte_def Let_def)
  have room: "\<not> {0..<int NumPhysPages} \<subseteq> pages_in_use (memmanage demo_vm)"
    unfolding demo_mm(2) by (simp add: size_defs)
  have "\<exists>s'. ExceptionHandler False (replicate 40 0) 0 PageFaultException faulting = Inr (Resume, s') \<and>
      registers s' = registers faulting \<and> same_space (space faulting) (space s') \<and> (hand_ok (space faulting) \<longrightarrow> hand_ok (space s')) \<and> space_ok {} (space s') s' \<and>
      0 \<in> resident (space s') s' \<and>
      (\<forall>i < npages (space faulting). i \<noteq> 0 \<longrightarrow> page_data (space s') s' i = page_data (space faulting) faulting i) \<and>
      (\<forall>bytes. page_data (space faulting) faulting 0 = Some bytes \<longrightarrow> page_data (space s') s' 0 = Some bytes)"
    by (rule page_fault_retried [where noffH = demo_header])
      (use faulting_view demo_space_ok demo_read_header demo_in_file room in \<open>simp_all add: v fresh_pte_def\<close>)
  then show ?thesis by blast
qed

lemma execing_wf: "machine_wf execing"
  by (simp add: execing_def VM.defs Machine.defs machine_wf_def cpu_wf_def xlate_wf_def demo_machine_def demo_table_def reg_defs)

lemma read_name_empty:
  assumes "ReadMem big (fault_handler big junk) addr 1 s = Inr (Some 0, s1)" "0 < n"
  shows "read_name big junk n addr s = Inr (Inr (Some []), s1)"
proof -
  have "nested_read big junk addr s = Inr (Inr (Some 0), s1)" using assms(1) by (simp add: nested_read_returns)
  then show ?thesis using assms(2) by (cases n) simp_all
qed

lemma execing_handled:
  "\<exists>s'. kernel_handler False junk hand SyscallException execing = Inr s' \<and> reg s' 2 = 0"
proof -
  define s where "s = execing\<lparr>registers := (registers execing)[PCReg := reg execing PCReg + 4]\<rparr>"
  have r: "registers s = (replicate 40 0)[2 := 2, 4 := 4, NextPCReg := 4, PCReg := 4]"
    by (simp add: s_def execing_def VM.defs Machine.defs demo_machine_def reg_defs)
  obtain s1 where s1: "Translate 4 1 False s = Inr (Inr 260, s1)" "mainMemory s1 = replicate MemorySize 0" "registers s1 = registers s"
      "names (host s1) = Map.empty"
    by (simp add: s_def Translate_def execing_def VM.defs Machine.defs demo_machine_def demo_table_def find_entry_def size_defs Let_def demo_vm_def)
  have "ReadMem False (fault_handler False junk) 4 1 s = Inr (Some 0, s1)"
    using ReadMem_ok [OF s1(1), of False "fault_handler False junk"] s1(2) by (simp add: value_at_def size_defs)
  then have nm: "read_name False junk 1024 4 s = Inr (Inr (Some []), s1)" by (rule read_name_empty) simp
  have "ReadRegister 4 s = Inr 4"
    unfolding ReadRegister_def r by (simp add: reg_defs)
  moreover have "FileSystem_Open [] (host s1) = None" using s1(4) by (simp add: FileSystem_Open_def)
  ultimately have "sc_exec False junk hand s = Inr (Resume, s1\<lparr>registers := (registers s1)[2 := 0]\<rparr>)"
    by (simp add: sc_exec_def nm set_r2_def WriteRegister_def reg_defs)
  then show ?thesis
    using r s1(3) by (simp add: s_def kernel_handler_def ExceptionHandler_def handle_def ReadRegister_def WriteRegister_def sc_defs reg_defs
        Let_def returning_Inr execing_def VM.defs Machine.defs demo_machine_def)
qed

theorem syscall_repeats_next_witness:
  "\<exists>s'. kernel_handler False [] 0 SyscallException execing = Inr s' \<and> reg s' PCReg = 4 \<and> reg s' NextPCReg = 4 \<and>
     reg (advance 8 s') PCReg = 4"
proof -
  obtain s' where s': "kernel_handler False [] 0 SyscallException execing = Inr s'" using execing_handled by blast
  have "machine_wf s'" using kernel.eh_wf [OF s' execing_wf] .
  moreover have "reg execing PCReg = 0" "reg execing NextPCReg = 4"
    by (simp_all add: execing_def VM.defs Machine.defs demo_machine_def reg_defs)
  ultimately show ?thesis using syscall_repeats_next [OF execing_wf s' _ _ refl refl, of 8] s' by auto
qed

end
