(* ===== verification/Isolation.thy ===== *)
theory Isolation
  imports Exception
begin

text \<open>
  User programs cannot reach each other's memory. The processor (\<^verbatim>\<open>machine/mipssim.cc\<close>,
  \<^verbatim>\<open>machine/translate.cc\<close>), the handler of traps (\<^verbatim>\<open>userprog/exception.cc\<close>) and demand paging
  (\<^verbatim>\<open>userprog/addrspace.cc\<close>) together keep what other address spaces hold: their page tables, their
  backing files and object files, and the frames they occupy.
\<close>

section \<open>Address spaces that share nothing\<close>

abbreviation swap_inode :: "AddrSpace \<Rightarrow> nat" where
  "swap_inode sp \<equiv> of_inode (the (bs_file (backing sp)))"

abbreviation exe_inode :: "AddrSpace \<Rightarrow> nat" where
  "exe_inode sp \<equiv> of_inode (stored_executable sp)"

text \<open>\<open>sp\<close> has a page table and a backing file that are not those of \<open>b\<close>, and does not page into \<open>b\<close>'s object file.\<close>

definition separate :: "AddrSpace \<Rightarrow> AddrSpace \<Rightarrow> bool" where
  "separate sp b \<longleftrightarrow> as_pageTable sp \<noteq> as_pageTable b \<and> swap_inode sp \<noteq> swap_inode b \<and> swap_inode sp \<noteq> exe_inode b"

lemma separate_same_space: "same_space sp sp' \<Longrightarrow> separate sp' b = separate sp b" "same_space b b' \<Longrightarrow> separate sp b' = separate sp b"
  by (auto simp: separate_def dest!: same_space_fields)

text \<open>Everything that the contents of \<open>b\<close> depend on is as it was.\<close>

definition untouched :: "AddrSpace \<Rightarrow> 'a VM_scheme \<Rightarrow> 'a VM_scheme \<Rightarrow> bool" where
  "untouched b s0 s \<longleftrightarrow> pageTables s (as_pageTable b) = pageTables s0 (as_pageTable b) \<and> swap_file b s = swap_file b s0 \<and>
     inodes (host s) (exe_inode b) = inodes (host s0) (exe_inode b) \<and>
     (\<forall>f \<in> own_frames b s0. frame_bytes f s = frame_bytes f s0 \<and> int f \<in> pages_in_use (memmanage s))"

text \<open>The contents of a space: its pages, and the object file that pages not yet loaded come from.\<close>

definition space_image :: "AddrSpace \<Rightarrow> 'a VM_scheme \<Rightarrow> 8 word list option list \<times> 8 word list" where
  "space_image sp s = (map (page_data sp s) [0..<npages sp], inodes (host s) (exe_inode sp))"

lemma untouched_tbl: "untouched b s0 s \<Longrightarrow> tbl b s = tbl b s0"
  by (simp add: untouched_def tbl_def)

lemma untouched_own: "untouched b s0 s \<Longrightarrow> resident b s = resident b s0 \<and> own_frames b s = own_frames b s0"
  by (simp add: own_frames_def resident_def untouched_tbl)

lemma untouched_frame: "untouched b s0 s \<Longrightarrow> i < npages b \<Longrightarrow> valid (tbl b s0 ! i) \<Longrightarrow>
    frame_bytes (frame_of (tbl b s0 ! i)) s = frame_bytes (frame_of (tbl b s0 ! i)) s0 \<and> int (frame_of (tbl b s0 ! i)) \<in> pages_in_use (memmanage s)"
  by (auto simp: untouched_def own_frames_def resident_def)

lemma untouched_image: "untouched b s0 s \<Longrightarrow> space_image b s = space_image b s0"
  using untouched_frame [of b s0 s] by (auto simp: space_image_def page_data_def Let_def untouched_tbl) (auto simp: untouched_def)

lemma untouched_ok:
  assumes u: "untouched b s0 s" and ok: "space_ok {} b s0"
    and "mm_inv (memmanage s)" "mNumPages (memmanage s) = int NumPhysPages" "length (mainMemory s) = MemorySize"
  shows "space_ok {} b s"
proof -
  have "space_shape b s" using assms by (simp add: space_ok_def space_shape_def untouched_tbl) (simp add: untouched_def)
  moreover have "pte_ok b s i" if "i < npages b" for i
  proof -
    have "pte_ok b s0 i" using ok that by (simp add: space_ok_def)
    then show ?thesis using untouched_frame [OF u that] u by (auto simp: pte_ok_def Let_def untouched_tbl [OF u] untouched_def)
  qed
  ultimately show ?thesis using ok untouched_own [OF u] by (simp add: space_ok_def untouched_tbl [OF u])
qed

lemma untouched_refl: "space_ok {} b s \<Longrightarrow> untouched b s s"
  using own_frames_in_use [of "{}" b s] by (auto simp: untouched_def)

lemma untouched_step:
  assumes "untouched b s0 s" and "separate sp b" and "foreign sp s s'"
    and "\<And>f. f \<in> own_frames b s0 \<Longrightarrow> frame_bytes f s' = frame_bytes f s \<and> int f \<in> pages_in_use (memmanage s')"
  shows "untouched b s0 s'"
  using assms by (auto simp: untouched_def separate_def foreign_def swap_file_def)

lemma untouched_cong:
  "pageTables s' = pageTables s \<Longrightarrow> mainMemory s' = mainMemory s \<Longrightarrow> memmanage s' = memmanage s \<Longrightarrow> host s' = host s \<Longrightarrow>
   untouched b s0 s' = untouched b s0 s"
  by (simp add: untouched_def swap_file_def frame_bytes_def)

section \<open>An access through the page table\<close>

text \<open>The processor sets the use and dirty bits of the entry, and a store changes bytes of its frame.\<close>

lemma access_kept:
  fixes m :: "8 word list"
  assumes ok: "space_ok {} sp s" and i: "i < npages sp" and v: "valid (tbl sp s ! i)"
    and m: "length m = length (mainMemory s)" "wr \<or> m = mainMemory s"
      "\<And>g. g < NumPhysPages \<Longrightarrow> g \<noteq> frame_of (tbl sp s ! i) \<Longrightarrow> take PageSize (drop (g * PageSize) m) = frame_bytes g s"
  defines "s' \<equiv> (set_pte sp (int i) ((tbl sp s ! i)\<lparr>use := True, dirty := dirty (tbl sp s ! i) \<or> wr\<rparr>) s)\<lparr>mainMemory := m\<rparr>"
  shows "space_ok {} sp s'" and "own_frames sp s' = own_frames sp s" and "foreign sp s s'"
proof -
  let ?e = "tbl sp s ! i" and ?e' = "(tbl sp s ! i)\<lparr>use := True, dirty := dirty (tbl sp s ! i) \<or> wr\<rparr>"
  have sh: "space_shape sp s" using ok by (simp add: space_ok_def)
  have vp: "virtualPage ?e' = word_of_nat i" and li: "i < length (tbl sp s)" using i sh by (simp_all add: space_shape_def)
  have t: "tbl sp s' = (tbl sp s)[i := ?e']"
    using sh tbl_set_pte [of s sp i ?e'] by (simp add: s'_def tbl_def space_shape_def)
  have ent: "valid (tbl sp s' ! j) = valid (tbl sp s ! j)" "physicalPage (tbl sp s' ! j) = physicalPage (tbl sp s ! j)" for j
    using li by (cases "j = i"; simp add: t)+
  have sw: "swap_file sp s' = swap_file sp s" "memmanage s' = memmanage s" by (simp_all add: s'_def swap_file_def)
  have fb: "frame_bytes g s' = frame_bytes g s" if "g < NumPhysPages" "g \<noteq> frame_of ?e" for g
    using m(3) [OF that] by (simp add: frame_bytes_def s'_def)
  have res: "resident sp s' = resident sp s" by (simp add: resident_def ent)
  then show "own_frames sp s' = own_frames sp s" by (simp add: own_frames_def ent)
  show "foreign sp s s'" by (simp add: foreign_def s'_def) (simp add: set_pte_def)
  have "space_shape sp s'"
    by (rule space_shape_cong [OF space_shape_set_pte [OF sh vp]]) (use sh m(1) in \<open>simp_all add: s'_def space_shape_def\<close>)
  moreover have "pte_ok sp s' j" if j: "j < npages sp" for j
  proof -
    have p: "pte_ok sp s j" using ok j by (simp add: space_ok_def)
    show ?thesis
    proof (cases "j = i")
      case True
      have "frame_bytes g s' = frame_bytes g s" if "\<not> wr" for g using m(2) that by (simp add: frame_bytes_def s'_def)
      then show ?thesis using p True v li by (auto simp: pte_ok_def Let_def t sw)
    next
      case False
      have "frame_bytes (frame_of (tbl sp s ! j)) s' = frame_bytes (frame_of (tbl sp s ! j)) s" if vj: "valid (tbl sp s ! j)"
      proof (rule fb)
        show "frame_of (tbl sp s ! j) < NumPhysPages" using p vj by (simp add: pte_ok_def Let_def)
        have "inj_on (\<lambda>i. frame_of (tbl sp s ! i)) (resident sp s)" using ok by (simp add: space_ok_def)
        then show "frame_of (tbl sp s ! j) \<noteq> frame_of ?e" using False i j v vj by (auto simp: resident_def inj_on_def)
      qed
      then show ?thesis using p False by (auto simp: pte_ok_def Let_def t sw)
    qed
  qed
  ultimately show "space_ok {} sp s'" using ok by (simp add: space_ok_def res ent)
qed

section \<open>A page fault\<close>

text \<open>Without \<^verbatim>\<open>Exec\<close>, the only trap that comes back to the program is a page fault.\<close>

lemma fault_handler_returns:
  assumes "fault_handler big junk which s = Inr s'"
  shows "which = PageFaultException" and "\<exists>r st b sp t. demandpage big junk (sint (reg s BadVAddrReg) sdiv int PageSize) (space s)
      (s\<lparr>registers := r, stats := st\<rparr>) = Some (Inr (b, sp, t)) \<and> s' = t\<lparr>space := sp, registers := registers s\<rparr>"
proof -
  let ?pc = "registers s ! PCReg"
  let ?s1 = "s\<lparr>registers := (registers s)[PCReg := ?pc + 4]\<rparr>"
  have h: "handle (\<lambda>_. Inl AssertFailed) big junk which s = Inr (Resume, s')"
    using assms by (simp add: fault_handler_def returning_Inr)
  have "which \<noteq> SyscallException"
    using h by (auto simp: handle_def ReadRegister_def WriteRegister_def Let_def reg_defs sc_join_def
        dest: Destroy_leaves split: if_splits option.splits)
  note f = handle_fault_registers [OF h this]
  show "which = PageFaultException" by (rule f(2))
  then have pf: "page_fault big junk (?pc + 4) ?s1 = Inr (Resume, s')"
    using h by (auto simp: handle_def ReadRegister_def WriteRegister_def Let_def reg_defs)
  let ?st = "(stats ?s1)\<lparr>numPageFaults := numPageFaults (stats ?s1) + 1\<rparr>"
  have "registers ?s1 ! BadVAddrReg = reg s BadVAddrReg" by (simp add: reg_defs)
  then obtain b sp t where d: "demandpage big junk (sint (reg s BadVAddrReg) sdiv int PageSize) (space s) (?s1\<lparr>stats := ?st\<rparr>) = Some (Inr (b, sp, t))"
      "WriteRegister (int PCReg) ?pc (t\<lparr>space := sp\<rparr>) = Inr s'"
    using pf by (auto simp: page_fault_def ReadRegister_def Let_def split: option.splits prod.splits if_splits)
  have "s' = t\<lparr>space := sp, registers := registers s'\<rparr>" using d(2) by (auto simp: WriteRegister_def split: if_splits)
  then show "\<exists>r st b sp t. demandpage big junk (sint (reg s BadVAddrReg) sdiv int PageSize) (space s)
      (s\<lparr>registers := r, stats := st\<rparr>) = Some (Inr (b, sp, t)) \<and> s' = t\<lparr>space := sp, registers := registers s\<rparr>"
    using d(1) f(1) by (intro exI [of _ "registers ?s1"] exI [of _ ?st] exI [of _ b] exI [of _ sp] exI [of _ t]) simp
qed

section \<open>An instruction\<close>

text \<open>The parts of the kernel that an instruction has no business with.\<close>

definition kernel_rest :: "'a Process_scheme \<Rightarrow> nat \<times> (string \<Rightarrow> nat option) \<times> nat \<times> int \<times> nat Table \<times> AddrSpace list \<times> 'a" where
  "kernel_rest s = (pt_next s, names (host s), next_inode (host s), exit_status s, threadlist s, spawned s, Process.more s)"

text \<open>
  The processor runs in the space of the current thread, which is the one of \<open>s0\<close>, and everything
  of the spaces \<open>B\<close> is as in \<open>s0\<close>.
\<close>

definition confined :: "AddrSpace set \<Rightarrow> 'a Process_scheme \<Rightarrow> 'a Process_scheme \<Rightarrow> bool" where
  "confined B s0 s \<longleftrightarrow> machine_wf s \<and> tlb s = None \<and> pageTable s = Some (as_pageTable (space s)) \<and> pageTableSize s = numPages (space s) \<and>
     same_space (space s0) (space s) \<and> space_ok {} (space s) s \<and> kernel_rest s = kernel_rest s0 \<and>
     (\<forall>b \<in> B. separate (space s0) b \<and> untouched b s0 s \<and> own_frames (space s) s \<inter> own_frames b s0 = {})"

lemma confined_frames:
  "confined B s0 s \<Longrightarrow> b \<in> B \<Longrightarrow> f \<in> own_frames b s0 \<Longrightarrow> int f \<in> pages_in_use (memmanage s) \<and> f \<notin> own_frames (space s) s"
  unfolding confined_def untouched_def by blast

lemma confined_cong:
  assumes "confined B s0 s" and "machine_wf s'" and "tlb s' = tlb s" "pageTable s' = pageTable s" "pageTableSize s' = pageTableSize s"
    and "pageTables s' = pageTables s" "mainMemory s' = mainMemory s" "memmanage s' = memmanage s" "host s' = host s"
    and "space s' = space s" "kernel_rest s' = kernel_rest s"
  shows "confined B s0 s'"
proof -
  note v = space_view_cong [OF assms(6-9)]
  have "own_frames (space s) s' = own_frames (space s) s" by (simp add: own_frames_def v)
  then show ?thesis using assms(1-5,10,11) untouched_cong [OF assms(6-9)] by (simp add: confined_def v)
qed

lemma confined_status: "confined B s0 s \<Longrightarrow> confined B s0 (s\<lparr>status := st\<rparr>)"
  by (rule confined_cong [of B s0 s]) (simp_all add: kernel_rest_def, simp add: confined_def machine_wf_def)

lemma confined_entry:
  assumes c: "confined B s0 s" and f: "find_entry vpn s = Inr (Inr (ref, ent))"
  shows "unat vpn < npages (space s)" and "ent = tbl (space s) s ! unat vpn" and "ref = InTable (as_pageTable (space s)) (unat vpn)"
  using f c by (auto simp: find_entry_def confined_def tbl_def word_less_nat_alt not_le split: option.splits if_splits)

lemma confined_access:
  assumes c: "confined B s0 s" and f: "find_entry vpn s = Inr (Inr (ref, ent))" and v: "valid ent"
    and m: "length m = length (mainMemory s)" "wr \<or> m = mainMemory s"
      "\<And>g. g < NumPhysPages \<Longrightarrow> g \<noteq> frame_of ent \<Longrightarrow> take PageSize (drop (g * PageSize) m) = frame_bytes g s"
    and wf: "machine_wf (update_entry ref (ent\<lparr>use := True, dirty := dirty ent \<or> wr\<rparr>) s\<lparr>mainMemory := m\<rparr>)" (is "machine_wf ?s'")
  shows "confined B s0 ?s'"
proof -
  note e = confined_entry [OF c f]
  let ?sp = "space s"
  have ok: "space_ok {} ?sp s" using c by (simp add: confined_def)
  have s': "?s' = (set_pte ?sp (int (unat vpn)) (ent\<lparr>use := True, dirty := dirty ent \<or> wr\<rparr>) s)\<lparr>mainMemory := m\<rparr>"
    by (simp add: e(3) set_pte_def)
  note a = access_kept [OF ok e(1) v [unfolded e(2)] m [unfolded e(2)], folded e(2), folded s']
  have mem: "mainMemory ?s' = m" "memmanage ?s' = memmanage s" by (simp_all add: s')
  have own: "frame_of ent \<in> own_frames ?sp s" using e(1,2) v by (auto simp: own_frames_def resident_def)
  have "untouched b s0 ?s'" if b: "b \<in> B" for b
  proof (rule untouched_step [OF _ _ a(3)])
    show u: "untouched b s0 s" and "separate ?sp b" using c b separate_same_space(1) [of "space s0" ?sp b] by (auto simp: confined_def)
    fix g assume g: "g \<in> own_frames b s0"
    then have "g \<noteq> frame_of ent" "int g \<in> pages_in_use (memmanage s)" using confined_frames [OF c b] own by auto
    moreover from this(2) have "g < NumPhysPages" using ok mmgr.taken_subset [of "memmanage s"] by (auto simp: space_ok_def space_shape_def)
    ultimately show "frame_bytes g ?s' = frame_bytes g s \<and> int g \<in> pages_in_use (memmanage ?s')"
      using m(3) [of g] mem by (simp add: frame_bytes_def)
  qed
  moreover have "tlb ?s' = tlb s" "space ?s' = space s" "kernel_rest ?s' = kernel_rest s" by (simp_all add: e(3) kernel_rest_def)
  ultimately show ?thesis using c a(1,2) wf by (simp add: confined_def)
qed

lemma process_of_VM:
  fixes s t :: "'a Process_scheme"
  assumes "VM.more t = VM.more s"
  shows "space t = space s" "exit_status t = exit_status s" "threadlist t = threadlist s" "spawned t = spawned s" "Process.more t = Process.more s"
  using assms by (cases s; cases t; simp)+

lemma confined_fault:
  assumes c: "confined B s0 s" and r: "raised which s" and h: "fault_handler big junk which s = Inr s'"
  shows "confined B s0 s'"
proof -
  let ?sp = "space s" and ?va = "reg s BadVAddrReg"
  let ?p = "unat (?va div word_of_nat PageSize)"
  obtain rg st b sp t where d: "demandpage big junk (sint ?va sdiv int PageSize) ?sp (s\<lparr>registers := rg, stats := st\<rparr>) = Some (Inr (b, sp, t))"
      and s': "s' = t\<lparr>space := sp, registers := registers s\<rparr>"
    using fault_handler_returns(2) [OF h] by blast
  let ?s1 = "s\<lparr>registers := rg, stats := st\<rparr>"
  have ok: "space_ok {} ?sp s" and wf: "machine_wf s" and tr: "tlb s = None" "pageTable s = Some (as_pageTable ?sp)" "pageTableSize s = numPages ?sp"
    using c by (auto simp: confined_def)
  note v = space_view_cong [of ?s1 s, simplified]
  have ok1: "space_ok {} ?sp ?s1" using ok v by simp
  have "find_entry (?va div word_of_nat PageSize) s = Inr (Inl PageFaultException)"
    using r fault_handler_returns(1) [OF h] by (simp add: raised_def)
  then have p: "?p < npages ?sp" and nv: "\<not> valid (tbl ?sp ?s1 ! ?p)"
    using tr by (auto simp: find_entry_def tbl_def word_less_nat_alt not_le v split: option.splits if_splits)
  have pd: "?p = unat ?va div PageSize" by (simp add: unat_div_distrib size_defs)
  have "npages ?sp * PageSize < 2 ^ 31" using ok by (simp add: space_ok_def space_shape_def)
  moreover have "unat ?va < npages ?sp * PageSize" using p pd by (simp add: size_defs div_less_iff_less_mult)
  ultimately have "unat ?va < 2 ^ 31" by linarith
  then have pn: "sint ?va sdiv int PageSize = int ?p" using page_number pd by simp
  note ret = demandpage_returned [OF ok1 p nv d [unfolded pn]]
  note cpu = same_cpu_demandpage [OF d] and fo = foreign_demandpage [OF d]
  have fo1: "foreign ?sp s t" using fo by (simp add: foreign_def)
  have ss: "same_space (space s0) sp" using c ret same_space_trans by (auto simp: confined_def)
  note v' = space_view_cong [of s' t, simplified s', simplified]
  have fields: "space s' = sp" "kernel_rest s' = kernel_rest s"
    using fo1 process_of_VM [of t s] by (simp_all add: s' kernel_rest_def foreign_def)
  have oth: "others ?sp ?s1 = others ?sp s" "frame_bytes f ?s1 = frame_bytes f s" for f
    by (simp_all add: others_def own_frames_def v frame_bytes_def)
  have sep: "separate ?sp b" "untouched b s0 s" if "b \<in> B" for b
    using c that separate_same_space(1) [of "space s0" ?sp b] by (auto simp: confined_def)
  have kept: "frame_bytes f t = frame_bytes f s \<and> int f \<in> pages_in_use (memmanage t) \<and> f \<notin> own_frames sp t"
    if "f \<in> own_frames b s0" "b \<in> B" for f b
  proof -
    have "int f \<in> others ?sp s" using confined_frames [OF c that(2,1)] by (auto simp: others_def)
    then have "int f \<in> others sp t" "frame_bytes f t = frame_bytes f s" using ret by (auto simp: oth)
    then show ?thesis by (auto simp: others_def)
  qed
  have un: "untouched b s0 t" if "b \<in> B" for b
    using untouched_step [OF sep(2,1) fo1] that kept by simp
  have "own_frames sp t \<inter> own_frames b s0 = {}" if "b \<in> B" for b using kept that by blast
  moreover have "machine_wf s'" using c faults.eh_wf [OF h] by (simp add: confined_def)
  moreover have "tlb t = tlb s" "pageTable t = pageTable s" "pageTableSize t = pageTableSize s" using cpu by (simp_all add: same_cpu_def)
  moreover have "untouched b s0 s'" if "b \<in> B" for b using un [OF that] untouched_cong [of s' t b s0] by (simp add: s')
  moreover have "own_frames sp s' = own_frames sp t" by (simp add: own_frames_def s' v')
  moreover have "space_ok {} sp s'" using ret v' by (simp add: s')
  ultimately show ?thesis
    using c tr ss fields same_space_fields [of ?sp sp] ret by (simp add: confined_def) (simp add: s')
qed

interpretation confined: instruction_step "fault_handler big junk" "confined B s0" "confined B s0"
proof
  fix s assume "confined B s0 s"
  then show "machine_wf s" by (simp add: confined_def)
next
  fix s r assume "confined B s0 s" "machine_wf (s\<lparr>registers := r\<rparr>)"
  then show "confined B s0 (s\<lparr>registers := r\<rparr>)" by (rule confined_cong) (simp_all add: kernel_rest_def)
next
  fix s st assume "confined B s0 s"
  then show "confined B s0 (s\<lparr>status := st\<rparr>)" by (rule confined_status)
next
  fix s vpn ref ent frame_no and wr :: bool
  assume c: "confined B s0 s" and f: "find_entry vpn s = Inr (Inr (ref, ent))" "valid ent"
  let ?s' = "update_entry ref (ent\<lparr>use := True, dirty := dirty ent \<or> wr\<rparr>) s"
  have "machine_wf ?s'" using c by (simp add: confined_def machine_wf_def cpu_wf_def)
  moreover have same: "?s'\<lparr>mainMemory := mainMemory s\<rparr> = ?s'" by (cases ref) simp_all
  ultimately show "confined B s0 ?s'"
    using confined_access [OF c f, of "mainMemory s" wr] by (simp only: same) (simp add: frame_bytes_def)
next
  fix s vpn ref ent off and frame_no :: nat and bs :: "8 word list"
  assume c: "confined B s0 s" and f: "find_entry vpn s = Inr (Inr (ref, ent))" "valid ent" "frame_no = frame_of ent" "frame_no < NumPhysPages"
    and off: "off + length bs \<le> PageSize"
  let ?m = "poke (frame_no * PageSize + off) bs (mainMemory s)"
  have len: "length (mainMemory s) = MemorySize" using c by (simp add: confined_def machine_wf_def cpu_wf_def)
  have r: "frame_no * PageSize + off + length bs \<le> length (mainMemory s)" using f(4) off len by (simp add: size_defs)
  show "confined B s0 (update_entry ref (ent\<lparr>use := True, dirty := dirty ent \<or> True\<rparr>) s\<lparr>mainMemory := ?m\<rparr>)"
  proof (rule confined_access [OF c f(1,2)])
    fix g assume g: "g < NumPhysPages" "g \<noteq> frame_of ent"
    consider "Suc g \<le> frame_no" | "Suc frame_no \<le> g" using g(2) f(3) by linarith
    then have "g * PageSize + PageSize \<le> frame_no * PageSize + off \<or> frame_no * PageSize + off + length bs \<le> g * PageSize"
      using off by cases (auto simp: size_defs)
    then show "take PageSize (drop (g * PageSize) ?m) = frame_bytes g s"
      unfolding frame_bytes_def using r frame_range [OF g(1)] len by (intro take_drop_poke_other) simp_all
  qed (use r c in \<open>simp_all add: confined_def machine_wf_def cpu_wf_def\<close>)
next
  fix s which s' assume "confined B s0 s" "raised which s" "fault_handler big junk which s = Inr s'"
  then have "confined B s0 s'" by (rule confined_fault)
  then show "confined B s0 (s'\<lparr>status := UserMode\<rparr>)" by (rule confined_status)
qed

end
