(* ===== verification/UserProcess.thy ===== *)
theory UserProcess
  imports Isolation
begin

text \<open>
  Several user programs at once: the user-level part of a context switch (\<^verbatim>\<open>SaveUserState\<close>,
  \<^verbatim>\<open>RestoreUserState\<close> of \<^verbatim>\<open>threads/thread.cc\<close>, the \<^verbatim>\<open>USER_PROGRAM\<close> parts of \<^verbatim>\<open>Scheduler::Run\<close> of
  \<^verbatim>\<open>threads/scheduler.cc\<close>), the start of a program (\<^verbatim>\<open>NewProcess\<close>) and its end (\<^verbatim>\<open>Finish\<close> and the
  destructor of \<^verbatim>\<open>Thread\<close>), on top of the instructions and traps of one program. The theorem
  is that no program's registers or memory change but by its own instructions.
\<close>

section \<open>State\<close>

text \<open>
  A thread with an address space is \<open>User n\<close>: 0 for the one that runs the first program, and
  \<open>n + 1\<close> for the one of \<open>spawned ! n\<close>, which \<^verbatim>\<open>Exec\<close> made. The \<^verbatim>\<open>space\<close> of the other threads is \<^verbatim>\<open>NULL\<close>.
  \<open>mode\<close> says where in the handler a program is: \<open>Resume\<close> when it is not in a trap.
  \<open>space\<close> is the object of the current thread; when it loses the processor the object goes to
  \<open>saved\<close>, and a thread that has not run yet has its object in \<open>spawned\<close>; likewise for \<open>exit_status\<close>
  and \<open>exit_statuses\<close>. \<open>dead\<close> holds the threads
  that have left \<^verbatim>\<open>Thread::Finish\<close>.
\<close>

datatype tid = User nat | KernelOnly nat

record Programs = Process +
  running :: tid
  mode :: "nat \<Rightarrow> action"
  userRegisters :: "nat \<Rightarrow> 32 word list"
  saved :: "nat \<Rightarrow> AddrSpace option"
  exit_statuses :: "nat \<Rightarrow> int"
  threadToBeDestroyed :: "tid option"
  dead :: "tid set"

definition space_of :: "nat \<Rightarrow> 'a Programs_scheme \<Rightarrow> AddrSpace" where
  "space_of t s = (if running s = User t then space s
     else case saved s t of Some sp \<Rightarrow> sp | None \<Rightarrow> spawned s ! (t - 1))"

section \<open>The context switch\<close>

definition SaveUserState :: "nat \<Rightarrow> 'a Programs_scheme \<Rightarrow> 'a Programs_scheme res" where
  "SaveUserState t s = foldE (\<lambda>i s. bindE (ReadRegister i s) (\<lambda>v.
       Inr (s\<lparr>userRegisters := (userRegisters s)(t := (userRegisters s t)[nat i := v])\<rparr>))) (range_int (int NumTotalRegs)) s"

definition RestoreUserState :: "nat \<Rightarrow> 'a Programs_scheme \<Rightarrow> 'a Programs_scheme res" where
  "RestoreUserState t s = foldE (\<lambda>i s. WriteRegister i (userRegisters s t ! nat i) s) (range_int (int NumTotalRegs)) s"

text \<open>\<^verbatim>\<open>currentThread = nextThread\<close>.\<close>

definition set_current :: "tid \<Rightarrow> 'a Programs_scheme \<Rightarrow> 'a Programs_scheme" where
  "set_current nextThread s =
     s\<lparr>running := nextThread,
       saved := (case running s of User r \<Rightarrow> (saved s)(r \<mapsto> space s) | KernelOnly _ \<Rightarrow> saved s),
       space := (case nextThread of User t \<Rightarrow> space_of t s | KernelOnly _ \<Rightarrow> space s),
       exit_statuses := (case running s of User r \<Rightarrow> (exit_statuses s)(r := exit_status s) | KernelOnly _ \<Rightarrow> exit_statuses s),
       exit_status := (case nextThread of User t \<Rightarrow> exit_statuses s t | KernelOnly _ \<Rightarrow> exit_status s)\<rparr>"

text \<open>\<^verbatim>\<open>delete threadToBeDestroyed\<close>; the destructor of \<^verbatim>\<open>Thread\<close> deletes its \<^verbatim>\<open>space\<close>.\<close>

definition delete_thread :: "'a Programs_scheme \<Rightarrow> 'a Programs_scheme res" where
  "delete_thread s =
     (case threadToBeDestroyed s of
        None \<Rightarrow> Inr s
      | Some d \<Rightarrow> ASSERT (d \<noteq> running s)
          (Inr ((case d of User t \<Rightarrow> AddrSpace_destroy (space_of t s) s | KernelOnly _ \<Rightarrow> s)\<lparr>threadToBeDestroyed := None\<rparr>)))"

text \<open>
  \<^verbatim>\<open>Scheduler::Run\<close>. \<^verbatim>\<open>SWITCH\<close> returns to where \<open>nextThread\<close> called it, the second half of \<^verbatim>\<open>Run\<close>, unless
  that thread has not run yet (\<open>fresh\<close>): it then begins in \<^verbatim>\<open>ThreadRoot\<close>, which for a program calls
  \<^verbatim>\<open>NewProcess\<close>. The status of the threads and the ready list are in \<^theory_text>\<open>Threads\<close>.
\<close>

definition Run_user :: "bool \<Rightarrow> tid \<Rightarrow> 'a Programs_scheme \<Rightarrow> 'a Programs_scheme res" where
  "Run_user fresh nextThread s =
     bindE (case running s of
              User r \<Rightarrow> bindE (SaveUserState r s) (\<lambda>s1. Inr (SaveState (space s1) s1))
            | KernelOnly _ \<Rightarrow> Inr s) (\<lambda>s1.
     let s2 = set_current nextThread s1 in
     if fresh then (case nextThread of User _ \<Rightarrow> NewProcess s2 | KernelOnly _ \<Rightarrow> Inr s2)
     else bindE (delete_thread s2) (\<lambda>s3.
       case nextThread of
         User t \<Rightarrow> bindE (RestoreUserState t s3) (\<lambda>s4. Inr (RestoreState (space s4) s4))
       | KernelOnly _ \<Rightarrow> Inr s3))"

section \<open>Running programs\<close>

text \<open>The handler, with what becomes of the current program noted in \<open>mode\<close>.\<close>

definition set_mode :: "action \<Rightarrow> 'a Programs_scheme \<Rightarrow> 'a Programs_scheme" where
  "set_mode a s = (case running s of User t \<Rightarrow> s\<lparr>mode := (mode s)(t := a)\<rparr> | KernelOnly _ \<Rightarrow> s)"

definition trap_handler :: "bool \<Rightarrow> 8 word list \<Rightarrow> 32 word \<Rightarrow> ExceptionType \<Rightarrow> 'a Programs_scheme \<Rightarrow> 'a Programs_scheme res" where
  "trap_handler big junk hand which s =
     bindE (ExceptionHandler big junk hand which s) (\<lambda>(a, s1). Inr (set_mode a s1))"

text \<open>
  A step of the whole: an instruction of the current program; the end of a \<^verbatim>\<open>Join\<close>, once the other
  program has finished; the end of \<^verbatim>\<open>Finish\<close>; and a switch to another thread, which the timer, \<^verbatim>\<open>Join\<close> and
  \<^verbatim>\<open>Finish\<close> cause. The values of uninitialised memory (\<open>junk\<close>, \<open>hand\<close>) are arbitrary, and so is the
  program of an \<^verbatim>\<open>Exec\<close>. \<open>exec_safe\<close> holds of a step that does not start a program, and of the \<^verbatim>\<open>Exec\<close> of
  one whose backing file has a name that is not in use (it is made of the size of the program, so
  that a second program of that size has the same one), whose object file is not itself a backing
  file, and whose pages are at least one and cover less than \<open>2 ^ 31\<close> bytes.
\<close>

datatype event = Instr | Joined | Died | Switched tid

definition exec_safe :: "'a Programs_scheme \<Rightarrow> 'a Programs_scheme \<Rightarrow> bool" where
  "exec_safe s s' \<longleftrightarrow> spawned s' = spawned s \<or>
     (let sp = last (spawned s') in names (host s) (bs_fname (backing sp)) = None \<and>
        (\<forall>t \<le> length (spawned s). swap_inode (space_of t s) \<noteq> exe_inode sp) \<and>
        0 < npages sp \<and> npages sp * PageSize < 2 ^ 31)"

inductive sys_step :: "bool \<Rightarrow> 'a Programs_scheme \<Rightarrow> event \<Rightarrow> 'a Programs_scheme \<Rightarrow> bool" for big where
  instruction: "running s = User t \<Longrightarrow> mode s t = Resume \<Longrightarrow> OneInstruction big (trap_handler big junk hand) s = Inr s' \<Longrightarrow>
     sys_step big s Instr s'"
| joined: "running s = User t \<Longrightarrow> mode s t = JoinThread n \<Longrightarrow> mode s (Suc n) = FinishThread \<Longrightarrow>
     join_return (exit_statuses s (Suc n)) s = Inr (a, s') \<Longrightarrow> sys_step big s Joined (set_mode Resume s')"
| died: "running s = User t \<Longrightarrow> mode s t = FinishThread \<Longrightarrow> running s \<notin> dead s \<Longrightarrow>
     sys_step big s Died (s\<lparr>threadToBeDestroyed := Some (running s), dead := insert (running s) (dead s)\<rparr>)"
| switched: "nextThread \<noteq> running s \<Longrightarrow> nextThread \<notin> dead s \<Longrightarrow>
     (\<And>t. nextThread = User t \<Longrightarrow> t \<le> length (spawned s) \<and> fresh = (saved s t = None)) \<Longrightarrow>
     (\<And>t. running s = User t \<Longrightarrow> mode s t \<noteq> HaltMachine) \<Longrightarrow>
     Run_user fresh nextThread s = Inr s' \<Longrightarrow> sys_step big s (Switched nextThread) s'"

text \<open>A run, with the steps it takes: the state before, the event, the state after.\<close>

inductive sys_run :: "bool \<Rightarrow> 'a Programs_scheme \<Rightarrow> ('a Programs_scheme \<times> event \<times> 'a Programs_scheme) list \<Rightarrow>
    'a Programs_scheme \<Rightarrow> bool" for big where
  stop: "sys_run big s [] s"
| step: "sys_step big s e s1 \<Longrightarrow> sys_run big s1 tr s' \<Longrightarrow> sys_run big s ((s, e, s1) # tr) s'"

section \<open>Saving and restoring\<close>

lemma foldE_registers:
  fixes step :: "int \<Rightarrow> 's \<Rightarrow> 's res" and put :: "32 word list \<Rightarrow> 's"
  assumes "length old = NumTotalRegs" "length new = NumTotalRegs"
    and step: "\<And>i xs. i < NumTotalRegs \<Longrightarrow> length xs = NumTotalRegs \<Longrightarrow> step (int i) (put xs) = Inr (put (xs[i := new ! i]))"
  shows "foldE step (range_int (int NumTotalRegs)) (put old) = Inr (put new)"
proof -
  have "foldE step (range_int (int k)) (put old) = Inr (put (take k new @ drop k old))" if "k \<le> NumTotalRegs" for k
    using that
  proof (induction k)
    case (Suc k)
    have "(take k new @ drop k old)[k := new ! k] = take (Suc k) new @ drop (Suc k) old"
      using Suc.prems assms(1,2) by (simp add: list_update_append take_Suc_conv_app_nth Cons_nth_drop_Suc [symmetric])
    then show ?case using Suc assms by (simp add: range_int_Suc foldE_append del: of_nat_Suc)
  qed (simp add: range_int_def)
  from this [of NumTotalRegs] show ?thesis using assms(1,2) by simp
qed

lemma SaveUserState_ok:
  assumes "length (registers s) = NumTotalRegs" "length (userRegisters s t) = NumTotalRegs"
  shows "SaveUserState t s = Inr (s\<lparr>userRegisters := (userRegisters s)(t := registers s)\<rparr>)"
  using foldE_registers [of "userRegisters s t" "registers s" _ "\<lambda>xs. s\<lparr>userRegisters := (userRegisters s)(t := xs)\<rparr>"] assms
  by (simp add: SaveUserState_def ReadRegister_def reg_defs)

lemma RestoreUserState_ok:
  assumes "length (registers s) = NumTotalRegs" "length (userRegisters s t) = NumTotalRegs"
  shows "RestoreUserState t s = Inr (s\<lparr>registers := userRegisters s t\<rparr>)"
  using foldE_registers [of "registers s" "userRegisters s t" _ "\<lambda>xs. s\<lparr>registers := xs\<rparr>"] assms
  by (simp add: RestoreUserState_def WriteRegister_def reg_defs)

section \<open>The invariant of the running programs\<close>

definition live :: "nat \<Rightarrow> 'a Programs_scheme \<Rightarrow> bool" where
  "live t s \<longleftrightarrow> t \<le> length (spawned s) \<and> mode s t \<noteq> FinishThread"

definition started :: "nat \<Rightarrow> 'a Programs_scheme \<Rightarrow> bool" where
  "started t s \<longleftrightarrow> running s = User t \<or> saved s t \<noteq> None"

text \<open>What a program sees: its registers, and the contents of its address space.\<close>

definition user_registers :: "nat \<Rightarrow> 'a Programs_scheme \<Rightarrow> 32 word list" where
  "user_registers t s = (if running s = User t then registers s else userRegisters s t)"

definition user_view :: "nat \<Rightarrow> 'a Programs_scheme \<Rightarrow> 32 word list \<times> 8 word list option list \<times> 8 word list" where
  "user_view t s = (user_registers t s, space_image (space_of t s) s)"

text \<open>The bookkeeping of threads, files and page tables.\<close>

definition threads_ok :: "'a Programs_scheme \<Rightarrow> bool" where
  "threads_ok s \<longleftrightarrow> started 0 s \<and> (\<forall>t. running s = User t \<longrightarrow> t \<le> length (spawned s)) \<and>
     (\<forall>t > length (spawned s). mode s t = Resume \<and> saved s t = None) \<and>
     (\<forall>t. length (userRegisters s t) = NumTotalRegs) \<and> (\<forall>t. saved s t \<noteq> None \<longrightarrow> unat (userRegisters s t ! LoadReg) < NumGPRegs) \<and>
     (\<forall>t. User t \<in> dead s \<longrightarrow> mode s t = FinishThread) \<and> (\<forall>d. threadToBeDestroyed s = Some d \<longrightarrow> d \<in> dead s) \<and>
     (\<forall>t. threadToBeDestroyed s = Some (User t) \<longrightarrow> t \<le> length (spawned s)) \<and>
     (\<forall>t \<le> length (spawned s). as_pageTable (space_of t s) < pt_next s) \<and>
     (\<forall>t \<le> length (spawned s). \<forall>u \<le> length (spawned s). t \<noteq> u \<longrightarrow> as_pageTable (space_of t s) \<noteq> as_pageTable (space_of u s)) \<and>
     (\<forall>nm i. names (host s) nm = Some i \<longrightarrow> i < next_inode (host s))"

text \<open>The programs that have not finished: their spaces are well-formed and share nothing.\<close>

definition spaces_ok :: "'a Programs_scheme \<Rightarrow> bool" where
  "spaces_ok s \<longleftrightarrow>
     (\<forall>t. live t s \<longrightarrow> space_ok {} (space_of t s) s \<and> swap_inode (space_of t s) < next_inode (host s) \<and> exe_inode (space_of t s) < next_inode (host s)) \<and>
     (\<forall>t u. live t s \<longrightarrow> live u s \<longrightarrow> t \<noteq> u \<longrightarrow>
        separate (space_of t s) (space_of u s) \<and> own_frames (space_of t s) s \<inter> own_frames (space_of u s) s = {})"

definition installed :: "'a Programs_scheme \<Rightarrow> bool" where
  "installed s \<longleftrightarrow> cpu_wf s \<and> tlb s = None \<and> mm_inv (memmanage s) \<and> mNumPages (memmanage s) = int NumPhysPages \<and>
     (\<forall>t. running s = User t \<longrightarrow> live t s \<longrightarrow> pageTable s = Some (as_pageTable (space s)) \<and> pageTableSize s = numPages (space s))"

definition system_ok :: "'a Programs_scheme \<Rightarrow> bool" where
  "system_ok s \<longleftrightarrow> threads_ok s \<and> spaces_ok s \<and> installed s"

text \<open>
  How the address spaces fare in a step: those of the programs in \<open>A\<close> (the acting one, or none)
  may have changed but are well-formed and hold no frame of another program, all others are
  untouched.
\<close>

lemma spaces_ok_step:
  assumes ok: "spaces_ok s" and inst: "installed s'" and len: "next_inode (host s') = next_inode (host s)"
    and live: "\<And>t. live t s' \<Longrightarrow> live t s \<and> same_space (space_of t s) (space_of t s')"
    and un: "\<And>t. live t s' \<Longrightarrow> t \<notin> A \<Longrightarrow> untouched (space_of t s) s s'"
    and act: "\<And>t. live t s' \<Longrightarrow> t \<in> A \<Longrightarrow> space_ok {} (space_of t s') s'"
      "\<And>t u. live t s' \<Longrightarrow> t \<in> A \<Longrightarrow> live u s' \<Longrightarrow> u \<noteq> t \<Longrightarrow> own_frames (space_of t s') s' \<inter> own_frames (space_of u s') s' = {}"
    and hand: "\<And>t. live t s' \<Longrightarrow> t \<notin> A \<Longrightarrow> space_of t s' = space_of t s"
  shows "spaces_ok s'"
  unfolding spaces_ok_def
proof (intro conjI allI impI)
  fix t assume t: "live t s'"
  note f = same_space_fields [OF live [OF t, THEN conjunct2]]
  show "space_ok {} (space_of t s') s'"
  proof (cases "t \<in> A")
    case False
    have "length (mainMemory s') = MemorySize" "mm_inv (memmanage s')" "mNumPages (memmanage s') = int NumPhysPages"
      using inst by (simp_all add: installed_def cpu_wf_def)
    then show ?thesis using untouched_ok [OF un [OF t False]] ok live [OF t] hand [OF t False] by (simp add: spaces_ok_def)
  qed (rule act(1) [OF t])
  show "swap_inode (space_of t s') < next_inode (host s')" "exe_inode (space_of t s') < next_inode (host s')"
    using ok live [OF t] f by (simp_all add: spaces_ok_def len)
next
  fix t u assume tu: "live t s'" "live u s'" "t \<noteq> u"
  have "separate (space_of t s) (space_of u s)" and dis: "own_frames (space_of t s) s \<inter> own_frames (space_of u s) s = {}"
    using ok live [OF tu(1)] live [OF tu(2)] tu(3) by (simp_all add: spaces_ok_def)
  then show "separate (space_of t s') (space_of u s')"
    using live [OF tu(1)] live [OF tu(2)] separate_same_space by metis
  show "own_frames (space_of t s') s' \<inter> own_frames (space_of u s') s' = {}"
  proof (cases "t \<in> A \<or> u \<in> A")
    case True
    then show ?thesis using act(2) tu by (metis inf_commute)
  next
    case False
    then show ?thesis
      using untouched_own [OF un [OF tu(1)]] untouched_own [OF un [OF tu(2)]] hand [OF tu(1)] hand [OF tu(2)] dis by simp
  qed
qed

section \<open>A switch\<close>

definition start_registers :: "AddrSpace \<Rightarrow> 32 word list" where
  "start_registers sp = (replicate NumTotalRegs 0)[PCReg := 0, NextPCReg := 4, StackReg := numPages sp * word_of_nat PageSize - 16]"

lemma InitRegisters_ok:
  assumes "length (registers s) = NumTotalRegs"
  shows "InitRegisters sp s = Inr (s\<lparr>registers := start_registers sp\<rparr>)"
proof -
  have "foldE (\<lambda>i. WriteRegister i 0) (range_int (int NumTotalRegs)) s = Inr (s\<lparr>registers := replicate NumTotalRegs 0\<rparr>)"
    using foldE_registers [of "registers s" "replicate NumTotalRegs 0" "\<lambda>i. WriteRegister i 0" "\<lambda>xs. s\<lparr>registers := xs\<rparr>"] assms
    by (simp add: WriteRegister_def reg_defs)
  then show ?thesis by (simp add: InitRegisters_def WriteRegister_def start_registers_def reg_defs)
qed

lemma length_start_registers [simp]: "length (start_registers sp) = NumTotalRegs"
  by (simp add: start_registers_def)

lemma start_LoadReg: "start_registers sp ! LoadReg = 0"
  by (simp add: start_registers_def reg_defs)

text \<open>The state when \<^verbatim>\<open>SWITCH\<close> has changed stacks, and after the second half of \<^verbatim>\<open>Run\<close>.\<close>

definition switching :: "tid \<Rightarrow> 'a Programs_scheme \<Rightarrow> 'a Programs_scheme" where
  "switching nextThread s = set_current nextThread
     (case running s of User r \<Rightarrow> s\<lparr>userRegisters := (userRegisters s)(r := registers s)\<rparr> | KernelOnly _ \<Rightarrow> s)"

lemma Run_user_halves:
  assumes "threads_ok s" "cpu_wf s"
  shows "Run_user fresh nextThread s =
    (if fresh then (case nextThread of User _ \<Rightarrow> NewProcess (switching nextThread s) | KernelOnly _ \<Rightarrow> Inr (switching nextThread s))
     else bindE (delete_thread (switching nextThread s)) (\<lambda>s3.
       case nextThread of
         User t \<Rightarrow> bindE (RestoreUserState t s3) (\<lambda>s4. Inr (RestoreState (space s4) s4))
       | KernelOnly _ \<Rightarrow> Inr s3))"
  using assms SaveUserState_ok [of s]
  by (cases "running s"; cases nextThread) (simp_all add: Run_user_def switching_def SaveState_def threads_ok_def cpu_wf_def Let_def)

lemma switching_view [simp]:
  "registers (switching nx s) = registers s" "tlb (switching nx s) = tlb s" "pageTables (switching nx s) = pageTables s"
  "mainMemory (switching nx s) = mainMemory s" "memmanage (switching nx s) = memmanage s" "host (switching nx s) = host s"
  "pt_next (switching nx s) = pt_next s" "spawned (switching nx s) = spawned s" "mode (switching nx s) = mode s"
  "dead (switching nx s) = dead s" "threadToBeDestroyed (switching nx s) = threadToBeDestroyed s" "running (switching nx s) = nx"
  by (cases "running s"; cases nx; simp add: switching_def set_current_def)+

lemma switching_space: "nx \<noteq> running s \<Longrightarrow> space_of t (switching nx s) = space_of t s"
  by (cases "running s"; cases nx) (auto simp: switching_def set_current_def space_of_def split: option.splits)

lemma switching_saved: "saved (switching nx s) = (case running s of User r \<Rightarrow> (saved s)(r \<mapsto> space s) | KernelOnly _ \<Rightarrow> saved s)"
  "userRegisters (switching nx s) = (case running s of User r \<Rightarrow> (userRegisters s)(r := registers s) | KernelOnly _ \<Rightarrow> userRegisters s)"
  by (cases "running s"; cases nx; simp add: switching_def set_current_def)+

text \<open>Deleting the thread that died before.\<close>

lemma delete_thread_view:
  assumes "delete_thread s = Inr s'"
  shows "registers s' = registers s" "tlb s' = tlb s" "mainMemory s' = mainMemory s" "memmanage s' = memmanage s"
    "inodes (host s') = inodes (host s)" "next_inode (host s') = next_inode (host s)" "\<And>nm i. names (host s') nm = Some i \<Longrightarrow> names (host s) nm = Some i"
    "pt_next s' = pt_next s" "spawned s' = spawned s" "mode s' = mode s" "dead s' = dead s" "running s' = running s" "saved s' = saved s"
    "userRegisters s' = userRegisters s" "space s' = space s" "threadToBeDestroyed s' = None"
    "\<And>p. (\<And>t. threadToBeDestroyed s = Some (User t) \<Longrightarrow> p \<noteq> as_pageTable (space_of t s)) \<Longrightarrow> pageTables s' p = pageTables s p"
  using assms
  by (auto simp: delete_thread_def AddrSpace_destroy_def BackingStore_destroy_def FileSystem_Remove_def ASSERT_def
      split: option.splits tid.splits if_splits)

text \<open>What a switch leaves as it was, for a page table that is not one of a dead thread.\<close>

definition arrived :: "tid \<Rightarrow> 'a Programs_scheme \<Rightarrow> 'a Programs_scheme \<Rightarrow> bool" where
  "arrived nx s s' \<longleftrightarrow> running s' = nx \<and> mode s' = mode s \<and> spawned s' = spawned s \<and> dead s' = dead s \<and>
     memmanage s' = memmanage s \<and> mainMemory s' = mainMemory s \<and> inodes (host s') = inodes (host s) \<and> next_inode (host s') = next_inode (host s) \<and>
     (\<forall>nm i. names (host s') nm = Some i \<longrightarrow> names (host s) nm = Some i) \<and> pt_next s' = pt_next s \<and> tlb s' = tlb s \<and>
     saved s' = saved (switching nx s) \<and> userRegisters s' = userRegisters (switching nx s) \<and> (\<forall>t. space_of t s' = space_of t s) \<and>
     (threadToBeDestroyed s' = threadToBeDestroyed s \<or> threadToBeDestroyed s' = None) \<and>
     (\<forall>p. (\<forall>t. threadToBeDestroyed s = Some (User t) \<longrightarrow> p \<noteq> as_pageTable (space_of t s)) \<longrightarrow> pageTables s' p = pageTables s p)"

lemma space_of_cong:
  "running s' = running s \<Longrightarrow> space s' = space s \<Longrightarrow> saved s' = saved s \<Longrightarrow> spawned s' = spawned s \<Longrightarrow> space_of t s' = space_of t s"
  by (simp add: space_of_def split: option.split)

lemma arrived_cpu:
  "arrived nx s s' \<Longrightarrow> arrived nx s (s'\<lparr>registers := r, pageTable := p, pageTableSize := n\<rparr>)"
  by (simp add: arrived_def space_of_cong [of "s'\<lparr>registers := r, pageTable := p, pageTableSize := n\<rparr>" s'])

lemma arrived_deleted:
  assumes "nx \<noteq> running s" and "delete_thread (switching nx s) = Inr s'"
  shows "arrived nx s s' \<and> registers s' = registers s"
proof -
  note d = delete_thread_view [OF assms(2)]
  note sp = switching_space [OF assms(1)]
  have "space_of t s' = space_of t s" for t using space_of_cong [of s' "switching nx s" t] d by (simp add: sp)
  moreover have "pageTables s' p = pageTables s p" if "\<forall>t. threadToBeDestroyed s = Some (User t) \<longrightarrow> p \<noteq> as_pageTable (space_of t s)" for p
    using d(17) [of p] that by (simp add: sp)
  ultimately show ?thesis using d by (auto simp: arrived_def)
qed

lemma Run_user_arrives:
  assumes ok: "threads_ok s" "cpu_wf s" and nx: "nx \<noteq> running s" and run: "Run_user fresh nx s = Inr s'"
  shows "arrived nx s s'" and "nx = User t \<Longrightarrow> registers s' = (if fresh then start_registers (space_of t s) else userRegisters s t) \<and>
      pageTable s' = Some (as_pageTable (space s')) \<and> pageTableSize s' = numPages (space s')"
    and "nx = KernelOnly k \<Longrightarrow> registers s' = registers s"
proof -
  note h = run [unfolded Run_user_halves [OF ok]]
  have len: "length (registers s) = NumTotalRegs" using ok(2) by (simp add: cpu_wf_def)
  have base: "arrived nx s (switching nx s)" by (auto simp: arrived_def switching_space [OF nx])
  have sp: "space (switching (User t) s) = space_of t s" if "nx = User t" for t
    using switching_space [OF nx, of t] that by (simp add: space_of_def [of t "switching (User t) s"])
  have "arrived nx s s' \<and> (\<forall>t. nx = User t \<longrightarrow> registers s' = (if fresh then start_registers (space_of t s) else userRegisters s t) \<and>
      pageTable s' = Some (as_pageTable (space s')) \<and> pageTableSize s' = numPages (space s')) \<and> (\<forall>k. nx = KernelOnly k \<longrightarrow> registers s' = registers s)"
  proof (cases fresh)
    case True
    show ?thesis
    proof (cases nx)
      case (User t)
      let ?sw = "switching (User t) s"
      have "s' = ?sw\<lparr>registers := start_registers (space_of t s), pageTable := Some (as_pageTable (space ?sw)), pageTableSize := numPages (space ?sw)\<rparr>"
        using h True User InitRegisters_ok [of ?sw] len sp [OF User] by (simp add: NewProcess_def RestoreState_def)
      then show ?thesis using base User True arrived_cpu by simp
    qed (use h True base in auto)
  next
    case False
    then obtain s3 where s3: "delete_thread (switching nx s) = Inr s3" using h by auto
    note a = arrived_deleted [OF nx s3]
    show ?thesis
    proof (cases nx)
      case (User t)
      have "userRegisters s3 t = userRegisters s t"
        using a nx User by (auto simp: arrived_def switching_saved split: tid.splits)
      moreover have "length (userRegisters s t) = NumTotalRegs" using ok(1) by (simp add: threads_ok_def)
      ultimately have "s' = s3\<lparr>registers := userRegisters s t, pageTable := Some (as_pageTable (space s3)), pageTableSize := numPages (space s3)\<rparr>"
        using h False User s3 RestoreUserState_ok [of s3 t] a len by (simp add: RestoreState_def)
      then show ?thesis using arrived_cpu [OF a [THEN conjunct1]] User False by simp
    qed (use h False s3 a in simp)
  qed
  then show "arrived nx s s'" and "nx = User t \<Longrightarrow> registers s' = (if fresh then start_registers (space_of t s) else userRegisters s t) \<and>
      pageTable s' = Some (as_pageTable (space s')) \<and> pageTableSize s' = numPages (space s')"
    and "nx = KernelOnly k \<Longrightarrow> registers s' = registers s" by blast+
qed

text \<open>A thread that died is not one of the live programs.\<close>

lemma live_not_destroyed:
  assumes "threads_ok s" "live t s" "threadToBeDestroyed s = Some (User d)"
  shows "as_pageTable (space_of t s) \<noteq> as_pageTable (space_of d s)"
proof -
  have d: "User d \<in> dead s" "d \<le> length (spawned s)" using assms(1,3) by (simp_all add: threads_ok_def)
  then have "mode s d = FinishThread" using assms(1) by (simp add: threads_ok_def)
  then have "d \<noteq> t" using assms(2) by (auto simp: live_def)
  then show ?thesis using assms(1,2) d(2) by (auto simp: threads_ok_def live_def)
qed

lemma arrived_untouched:
  assumes ok: "system_ok s" and a: "arrived nx s s'" and t: "live t s"
  shows "untouched (space_of t s) s s'"
proof -
  have "pageTables s' (as_pageTable (space_of t s)) = pageTables s (as_pageTable (space_of t s))"
    using a live_not_destroyed [OF _ t] ok by (auto simp: arrived_def system_ok_def)
  moreover have "space_ok {} (space_of t s) s" using ok t by (simp add: system_ok_def spaces_ok_def)
  ultimately show ?thesis
    using a untouched_refl [of "space_of t s" s] by (simp add: untouched_def arrived_def swap_file_def frame_bytes_def)
qed

lemma arrived_threads_ok:
  assumes ok: "threads_ok s" "cpu_wf s" and a: "arrived nx s s'" and nx: "\<And>t. nx = User t \<Longrightarrow> t \<le> length (spawned s)"
  shows "threads_ok s'"
proof -
  have sv: "saved s' t = None \<longleftrightarrow> saved s t = None \<and> running s \<noteq> User t" for t
    using a by (auto simp: arrived_def switching_saved split: tid.splits)
  have ur: "userRegisters s' t = (if running s = User t then registers s else userRegisters s t)" for t
    using a by (auto simp: arrived_def switching_saved split: tid.splits)
  have "\<forall>t. length (userRegisters s' t) = NumTotalRegs" "\<forall>t. saved s' t \<noteq> None \<longrightarrow> unat (userRegisters s' t ! LoadReg) < NumGPRegs"
    using ok sv by (auto simp: ur threads_ok_def cpu_wf_def)
  moreover have "started 0 s'" using ok sv by (auto simp: started_def threads_ok_def)
  moreover have "\<forall>t > length (spawned s'). mode s' t = Resume \<and> saved s' t = None"
    using ok a sv by (auto simp: threads_ok_def arrived_def)
  moreover have "\<forall>t. running s' = User t \<longrightarrow> t \<le> length (spawned s')" using nx a by (simp add: arrived_def)
  moreover have "\<forall>d. threadToBeDestroyed s' = Some d \<longrightarrow> d \<in> dead s'" "\<forall>t. threadToBeDestroyed s' = Some (User t) \<longrightarrow> t \<le> length (spawned s')"
    using ok a by (auto simp: threads_ok_def arrived_def)
  moreover have "\<forall>nm i. names (host s') nm = Some i \<longrightarrow> i < next_inode (host s')"
    using ok a unfolding threads_ok_def arrived_def by metis
  ultimately show ?thesis using ok a by (simp add: threads_ok_def arrived_def)
qed

lemma switch_ok:
  assumes ok: "system_ok s" and nx: "nx \<noteq> running s" "\<And>t. nx = User t \<Longrightarrow> t \<le> length (spawned s) \<and> fresh = (saved s t = None)"
    and run: "Run_user fresh nx s = Inr s'"
  shows "system_ok s'" and "live t s' = live t s" and "space_of t s' = space_of t s" and "live t s \<Longrightarrow> space_image (space_of t s) s' = space_image (space_of t s) s"
    and "user_registers t s' = (if nx = User t \<and> fresh then start_registers (space_of t s) else user_registers t s)"
proof -
  have ok': "threads_ok s" "spaces_ok s" "installed s" "cpu_wf s" using ok by (simp_all add: system_ok_def installed_def)
  note a = Run_user_arrives(1) [OF ok'(1,4) nx(1) run]
  note regs = Run_user_arrives(2,3) [OF ok'(1,4) nx(1) run]
  show live: "live t s' = live t s" and sp: "space_of t s' = space_of t s" for t using a by (simp_all add: arrived_def live_def)
  note un = arrived_untouched [OF ok a]
  show "space_image (space_of t s) s' = space_image (space_of t s) s" if "live t s" using untouched_image [OF un [OF that]] .
  show "user_registers t s' = (if nx = User t \<and> fresh then start_registers (space_of t s) else user_registers t s)"
    using a nx(1) regs(1) [of t] by (auto simp: user_registers_def arrived_def switching_saved split: tid.splits)
  have "cpu_wf s'"
  proof (cases nx)
    case (User t)
    have "saved s t \<noteq> None" if "\<not> fresh" using nx(2) [OF User] that by simp
    then show ?thesis using regs(1) [OF User] ok'(1,4) a start_LoadReg by (auto simp: cpu_wf_def threads_ok_def arrived_def reg_defs)
  next
    case (KernelOnly k)
    then show ?thesis using regs(2) [OF KernelOnly] ok'(4) a by (simp add: cpu_wf_def arrived_def)
  qed
  then have inst: "installed s'" using ok'(3) a regs(1) by (auto simp: installed_def arrived_def)
  have "threads_ok s'" using arrived_threads_ok [OF ok'(1,4) a] nx(2) by blast
  moreover have "spaces_ok s'"
    by (rule spaces_ok_step [where A = "{}", OF ok'(2) inst]) (use a un live sp in \<open>auto simp: arrived_def\<close>)
  ultimately show "system_ok s'" using inst by (simp add: system_ok_def)
qed

text \<open>A switch to a thread that has not died does not fail.\<close>

lemma Run_user_total:
  assumes ok: "system_ok s" and nx: "nx \<notin> dead s"
  shows "\<exists>s'. Run_user fresh nx s = Inr s'"
proof -
  have th: "threads_ok s" "cpu_wf s" using ok by (simp_all add: system_ok_def installed_def)
  then have len: "length (registers s) = NumTotalRegs" by (simp add: cpu_wf_def)
  have "\<exists>s3. delete_thread (switching nx s) = Inr s3"
    using th(1) nx by (cases "threadToBeDestroyed s") (auto simp: delete_thread_def ASSERT_def threads_ok_def)
  then obtain s3 where s3: "delete_thread (switching nx s) = Inr s3" by blast
  note d = delete_thread_view [OF s3]
  have "length (userRegisters s3 t) = NumTotalRegs" for t using th by (auto simp: d(14) switching_saved threads_ok_def cpu_wf_def split: tid.splits)
  then show ?thesis
    unfolding Run_user_halves [OF th] using s3 d(1) len InitRegisters_ok [of "switching nx s"] RestoreUserState_ok [of s3]
    by (cases nx) (simp_all add: NewProcess_def)
qed

end
