(* ===== verification/Protection.thy ===== *)
theory Protection
  imports UserProcess
begin

text \<open>
  The programs of \<^theory_text>\<open>UserProcess\<close> keep to themselves: each step of the system keeps the invariant
  of threads, address spaces and processor, and changes the registers and the memory of the
  program that takes it only.
\<close>

section \<open>Changes that do not concern the address spaces\<close>

lemma system_ok_cong:
  assumes ok: "system_ok s" and wf: "cpu_wf s'"
    and cpu: "pageTables s' = pageTables s" "mainMemory s' = mainMemory s" "memmanage s' = memmanage s" "host s' = host s"
      "pt_next s' = pt_next s" "tlb s' = tlb s" "pageTable s' = pageTable s" "pageTableSize s' = pageTableSize s"
    and thr: "spawned s' = spawned s" "space s' = space s" "running s' = running s" "saved s' = saved s" "userRegisters s' = userRegisters s"
      "threadToBeDestroyed s' = threadToBeDestroyed s" "dead s' = dead s"
    and mode: "\<And>t. mode s' t = FinishThread \<longleftrightarrow> mode s t = FinishThread" "\<And>t. t > length (spawned s) \<Longrightarrow> mode s' t = mode s t"
  shows "system_ok s'" and "live t s' = live t s" and "space_of t s' = space_of t s" and "space_image sp s' = space_image sp s"
proof -
  show live: "live t s' = live t s" for t by (simp add: live_def thr mode)
  show sp: "space_of t s' = space_of t s" for t by (rule space_of_cong) (rule thr)+
  note v = space_view_cong [OF cpu(1-4)]
  show "space_image sp s' = space_image sp s" by (simp add: space_image_def v cpu)
  have own: "own_frames sp s' = own_frames sp s" for sp by (simp add: own_frames_def v)
  have "threads_ok s'" using ok mode by (auto simp: system_ok_def threads_ok_def started_def thr cpu sp)
  moreover have "spaces_ok s'" using ok by (simp add: system_ok_def spaces_ok_def live sp v own cpu)
  moreover have "installed s'" using ok wf by (simp add: system_ok_def installed_def live thr cpu)
  ultimately show "system_ok s'" by (simp add: system_ok_def)
qed

lemma set_mode_view [simp]:
  "registers (set_mode a s) = registers s" "pageTables (set_mode a s) = pageTables s" "mainMemory (set_mode a s) = mainMemory s"
  "memmanage (set_mode a s) = memmanage s" "host (set_mode a s) = host s" "pt_next (set_mode a s) = pt_next s" "tlb (set_mode a s) = tlb s"
  "pageTable (set_mode a s) = pageTable s" "pageTableSize (set_mode a s) = pageTableSize s" "spawned (set_mode a s) = spawned s"
  "space (set_mode a s) = space s" "running (set_mode a s) = running s" "saved (set_mode a s) = saved s" "userRegisters (set_mode a s) = userRegisters s"
  "threadToBeDestroyed (set_mode a s) = threadToBeDestroyed s" "dead (set_mode a s) = dead s" "cpu_wf (set_mode a s) = cpu_wf s"
  by (cases "running s"; simp add: set_mode_def cpu_wf_def)+

lemma set_mode_mode: "running s = User r \<Longrightarrow> mode (set_mode a s) = (mode s)(r := a)"
  by (simp add: set_mode_def)

lemma running_le: "system_ok s \<Longrightarrow> running s = User r \<Longrightarrow> r \<le> length (spawned s)"
  by (simp add: system_ok_def threads_ok_def)

text \<open>What a step promises to a program \<open>u\<close> that it does not belong to.\<close>

definition spared :: "nat \<Rightarrow> 'a Programs_scheme \<Rightarrow> 'a Programs_scheme \<Rightarrow> bool" where
  "spared u s s' \<longleftrightarrow> live u s' \<and> (started u s \<longrightarrow> started u s') \<and> user_view u s' = user_view u s"

lemma spared_trans: "spared u s t \<Longrightarrow> spared u t v \<Longrightarrow> spared u s v"
  by (simp add: spared_def)

lemma spared_cong:
  assumes "running s' = running s" "saved s' = saved s" "userRegisters s' = userRegisters s" "running s = User r" "u \<noteq> r"
    and "live u s'" "space_of u s' = space_of u s" "space_image (space_of u s) s' = space_image (space_of u s) s"
  shows "spared u s s'"
  using assms by (simp add: spared_def started_def user_view_def user_registers_def)

lemma cpu_step:
  fixes es :: int and st :: MachineStatus
  assumes ok: "system_ok s" and r: "running s = User r" and len: "length regs = NumTotalRegs" "unat (regs ! LoadReg) < NumGPRegs"
    and a: "a \<noteq> FinishThread" "mode s r \<noteq> FinishThread"
  defines "s' \<equiv> (set_mode a (s\<lparr>registers := regs, exit_status := es\<rparr>))\<lparr>status := st\<rparr>"
  shows "system_ok s'" and "live t s' = live t s" and "live u s \<Longrightarrow> u \<noteq> r \<Longrightarrow> spared u s s'"
proof -
  have m: "mode s' = (mode s)(r := a)" using r by (simp add: s'_def set_mode_mode)
  have wf: "cpu_wf s'" using ok len by (simp add: s'_def system_ok_def installed_def cpu_wf_def)
  have view: "pageTables s' = pageTables s" "mainMemory s' = mainMemory s" "memmanage s' = memmanage s" "host s' = host s"
      "pt_next s' = pt_next s" "tlb s' = tlb s" "pageTable s' = pageTable s" "pageTableSize s' = pageTableSize s"
      "spawned s' = spawned s" "space s' = space s" "running s' = running s" "saved s' = saved s" "userRegisters s' = userRegisters s"
      "threadToBeDestroyed s' = threadToBeDestroyed s" "dead s' = dead s"
    by (simp_all add: s'_def)
  have mode: "mode s' t = FinishThread \<longleftrightarrow> mode s t = FinishThread" "t > length (spawned s) \<Longrightarrow> mode s' t = mode s t" for t
    using running_le [OF ok r] a by (auto simp: m)
  note c = system_ok_cong [OF ok wf view mode]
  show "system_ok s'" by (rule c(1))
  show "live t s' = live t s" by (rule c(2))
  show "spared u s s'" if "live u s" "u \<noteq> r" using that c(2-4) view r by (intro spared_cong) simp_all
qed

section \<open>An instruction without a trap, or with a page fault\<close>

definition neighbours :: "nat \<Rightarrow> 'a Programs_scheme \<Rightarrow> AddrSpace set" where
  "neighbours r s = {space_of u s |u. live u s \<and> u \<noteq> r}"

lemma system_of_Process:
  fixes s t :: "'a Programs_scheme"
  assumes "Process.more t = Process.more s"
  shows "running t = running s" "mode t = mode s" "userRegisters t = userRegisters s" "saved t = saved s"
    "threadToBeDestroyed t = threadToBeDestroyed s" "dead t = dead s" "exit_statuses t = exit_statuses s"
  using assms by (cases s; cases t; simp)+

lemma confined_start:
  assumes ok: "system_ok s" and r: "running s = User r" and l: "live r s"
  shows "confined (neighbours r s) s s"
proof -
  have sp: "space_of r s = space s" using r by (simp add: space_of_def)
  have i: "cpu_wf s" "tlb s = None" "pageTable s = Some (as_pageTable (space s))" "pageTableSize s = numPages (space s)"
    using ok r l by (simp_all add: system_ok_def installed_def)
  have spok: "space_ok {} (space s) s" using ok l sp by (auto simp: system_ok_def spaces_ok_def)
  then have "xlate_wf s" using i by (auto simp: xlate_wf_def space_ok_def space_shape_def tbl_def split: option.splits)
  moreover have "separate (space s) b \<and> untouched b s s \<and> own_frames (space s) s \<inter> own_frames b s = {}" if b: "b \<in> neighbours r s" for b
  proof -
    obtain u where u: "b = space_of u s" "live u s" "u \<noteq> r" using b by (auto simp: neighbours_def)
    have pair: "live t s \<Longrightarrow> live v s \<Longrightarrow> t \<noteq> v \<Longrightarrow>
        separate (space_of t s) (space_of v s) \<and> own_frames (space_of t s) s \<inter> own_frames (space_of v s) s = {}" for t v
      using ok by (simp add: system_ok_def spaces_ok_def)
    have "space_ok {} b s" using ok u by (simp add: system_ok_def spaces_ok_def)
    then show ?thesis using pair [OF l u(2)] u sp untouched_refl by auto
  qed
  ultimately show ?thesis using i spok by (simp add: confined_def machine_wf_def)
qed

lemma confined_space_of:
  assumes "confined B s t" "running s = User r"
  shows "running t = User r" "space_of u t = (if u = r then space t else space_of u s)" "live u t = live u s"
proof -
  have k: "Process.more t = Process.more s" "spawned t = spawned s" using assms(1) by (simp_all add: confined_def kernel_rest_def)
  note v = system_of_Process [OF k(1)]
  show "running t = User r" using assms(2) v by simp
  show "space_of u t = (if u = r then space t else space_of u s)" using assms(2) by (simp add: space_of_def v k split: option.split)
  show "live u t = live u s" by (simp add: live_def v k)
qed

lemma confined_threads_ok:
  assumes ok: "threads_ok s" and r: "running s = User r" and c: "confined B s t"
  shows "threads_ok t"
proof -
  note v = system_of_Process [of t s] and so = confined_space_of [OF c r]
  have k: "Process.more t = Process.more s" "spawned t = spawned s" "pt_next t = pt_next s" "names (host t) = names (host s)"
      "next_inode (host t) = next_inode (host s)"
    using c by (simp_all add: confined_def kernel_rest_def)
  have "as_pageTable (space_of u t) = as_pageTable (space_of u s)" for u
    using so(2) [of u] r c same_space_fields [of "space s" "space t"] by (simp add: confined_def space_of_def [of r s])
  then show ?thesis using ok by (simp add: threads_ok_def started_def k v [OF k(1)])
qed

lemma confined_ok:
  assumes ok: "system_ok s" and r: "running s = User r" and l: "live r s" and c: "confined (neighbours r s) s t"
  shows "system_ok t" and "live u s \<Longrightarrow> u \<noteq> r \<Longrightarrow> spared u s t"
proof -
  note so = confined_space_of [OF c r]
  have k: "Process.more t = Process.more s" "next_inode (host t) = next_inode (host s)" using c by (simp_all add: confined_def kernel_rest_def)
  note v = system_of_Process [OF k(1)]
  have un: "untouched (space_of u s) s t \<and> own_frames (space t) t \<inter> own_frames (space_of u s) s = {}" if "live u s" "u \<noteq> r" for u
    using c that by (auto simp: confined_def neighbours_def)
  have spr: "space_of r s = space s" "space_of r t = space t" using r so(1) by (simp_all add: space_of_def)
  have t: "machine_wf t" "tlb t = None" "pageTable t = Some (as_pageTable (space t))" "pageTableSize t = numPages (space t)"
      "same_space (space s) (space t)" "space_ok {} (space t) t"
    using c by (simp_all add: confined_def)
  have inst: "installed t" using t so(1) by (simp add: installed_def machine_wf_def space_ok_def space_shape_def)
  have "spaces_ok t"
  proof (rule spaces_ok_step [where A = "{r}", OF _ inst k(2)])
    show "spaces_ok s" using ok by (simp add: system_ok_def)
    show "live u s \<and> same_space (space_of u s) (space_of u t)" if "live u t" for u
      using that so(2,3) spr t(5) by (cases "u = r") simp_all
    show "own_frames (space_of v t) t \<inter> own_frames (space_of u t) t = {}" if "live v t" "v \<in> {r}" "live u t" "u \<noteq> v" for v u
      using un [of u] untouched_own [of "space_of u s" s t] that so spr by simp
  qed (use un so spr t(6) in auto)
  then show "system_ok t" using confined_threads_ok [OF _ r c] ok inst by (simp add: system_ok_def)
  show "spared u s t" if "live u s" "u \<noteq> r"
    using that untouched_image [of "space_of u s" s t] un [OF that] so v r by (intro spared_cong) simp_all
qed

section \<open>The end of a program\<close>

lemma destroy_ok:
  fixes st :: MachineStatus
  assumes ok: "system_ok s" and r: "running s = User r" and l: "live r s" and d: "Destroy s = Inr (a, s1)"
  defines "s' \<equiv> (set_mode a s1)\<lparr>status := st\<rparr>"
  shows "system_ok s'" and "live u s \<Longrightarrow> u \<noteq> r \<Longrightarrow> spared u s s'" and "spawned s' = spawned s"
proof -
  have sp: "space_of r s = space s" using r by (simp add: space_of_def)
  have spok: "space_ok {} (space s) s" using ok l sp by (auto simp: system_ok_def spaces_ok_def)
  obtain mm where mm: "ClearState (space s) s = Inr (s\<lparr>memmanage := mm\<rparr>)" "mm_inv mm" "mNumPages mm = int NumPhysPages" "pages_in_use mm = others (space s) s"
    using clear_state_frees [OF spok] by blast
  then have s1: "s1 = s\<lparr>memmanage := mm, exit_status := 0\<rparr>" "a = FinishThread" using d by (auto simp: Destroy_def)
  have view: "pageTables s' = pageTables s" "mainMemory s' = mainMemory s" "memmanage s' = mm" "host s' = host s"
      "pt_next s' = pt_next s" "tlb s' = tlb s" "registers s' = registers s"
      "spawned s' = spawned s" "space s' = space s" "running s' = running s" "saved s' = saved s" "userRegisters s' = userRegisters s"
      "threadToBeDestroyed s' = threadToBeDestroyed s" "dead s' = dead s" "mode s' = (mode s)(r := FinishThread)"
    using r by (simp_all add: s'_def s1 set_mode_mode)
  show "spawned s' = spawned s" by (rule view(8))
  have so: "space_of u s' = space_of u s" for u by (rule space_of_cong) (simp_all add: view)
  have lv: "live u s' \<longleftrightarrow> live u s \<and> u \<noteq> r" for u by (auto simp: live_def view)
  have un: "untouched (space_of u s) s s'" if u: "live u s" "u \<noteq> r" for u
  proof -
    have "own_frames (space s) s \<inter> own_frames (space_of u s) s = {}" "space_ok {} (space_of u s) s"
      using ok l u sp unfolding system_ok_def spaces_ok_def by metis+
    then show ?thesis using own_frames_in_use [of "{}" "space_of u s" s]
      by (auto simp: untouched_def view swap_file_def frame_bytes_def mm(4) others_def)
  qed
  have inst: "installed s'" using ok mm(2,3) r by (simp add: system_ok_def installed_def cpu_wf_def view lv)
  have "threads_ok s'" using ok running_le [OF ok r] by (auto simp: system_ok_def threads_ok_def started_def view so)
  moreover have "spaces_ok s'"
    by (rule spaces_ok_step [where A = "{}", OF _ inst]) (use ok un lv so view in \<open>auto simp: system_ok_def\<close>)
  ultimately show "system_ok s'" using inst by (simp add: system_ok_def)
  show "spared u s s'" if "live u s" "u \<noteq> r"
    using that untouched_image [OF un [OF that]] lv so view r by (intro spared_cong) simp_all
qed

section \<open>A new program\<close>

lemma Initialize_new_file:
  assumes "Initialize big junk hand exe s = Inr (sp, s')" and "names (host s) (bs_fname (backing sp)) = None"
  shows "s' = s\<lparr>host := host s', pt_next := Suc (pt_next s), pageTables := (pageTables s)(pt_next s \<mapsto> map fresh_pte [0..<npages sp])\<rparr>"
    and "as_pageTable sp = pt_next s" "stored_executable sp = exe" "bs_file (backing sp) \<noteq> None" "swap_inode sp = next_inode (host s)"
    and "next_inode (host s') = Suc (next_inode (host s))" "n < next_inode (host s) \<Longrightarrow> inodes (host s') n = inodes (host s) n"
    and "names (host s') = (names (host s))(bs_fname (backing sp) \<mapsto> next_inode (host s))"
  using assms
  by (auto simp: Initialize_def Let_def split_def BackingStore_BackingStore_def FileSystem_Create_def FileSystem_Open_def OpenForWrite_def)

text \<open>A new program: its page table and its backing file are new, nothing else changes.\<close>

definition added :: "AddrSpace \<Rightarrow> 'a Programs_scheme \<Rightarrow> 'a Programs_scheme \<Rightarrow> bool" where
  "added sp s s' \<longleftrightarrow> registers s' = registers s \<and> mainMemory s' = mainMemory s \<and> memmanage s' = memmanage s \<and> tlb s' = tlb s \<and>
     pageTable s' = pageTable s \<and> pageTableSize s' = pageTableSize s \<and> pt_next s' = Suc (pt_next s) \<and>
     pageTables s' = (pageTables s)(pt_next s \<mapsto> map fresh_pte [0..<npages sp]) \<and> spawned s' = spawned s @ [sp] \<and> space s' = space s \<and>
     running s' = running s \<and> saved s' = saved s \<and> userRegisters s' = userRegisters s \<and> mode s' = mode s \<and>
     threadToBeDestroyed s' = threadToBeDestroyed s \<and> dead s' = dead s \<and>
     as_pageTable sp = pt_next s \<and> bs_file (backing sp) \<noteq> None \<and> swap_inode sp = next_inode (host s) \<and> exe_inode sp < next_inode (host s) \<and>
     next_inode (host s') = Suc (next_inode (host s)) \<and> (\<forall>n < next_inode (host s). inodes (host s') n = inodes (host s) n) \<and>
     names (host s') = (names (host s))(bs_fname (backing sp) \<mapsto> next_inode (host s))"

lemma Initialize_adds:
  assumes th: "threads_ok s" and opn: "FileSystem_Open input (host s) = Some exe" and init: "Initialize big junk hand exe s = Inr (sp, s1)"
    and new: "names (host s) (bs_fname (backing sp)) = None"
  shows "added sp s (s1\<lparr>threadlist := tl', spawned := spawned s1 @ [sp]\<rparr>)"
proof -
  note i = Initialize_new_file [OF init new]
  have "of_inode exe < next_inode (host s)" using th opn by (auto simp: threads_ok_def FileSystem_Open_def)
  moreover have "registers s1 = registers s" "mainMemory s1 = mainMemory s" "memmanage s1 = memmanage s" "tlb s1 = tlb s"
      "pageTable s1 = pageTable s" "pageTableSize s1 = pageTableSize s" "pt_next s1 = Suc (pt_next s)" "spawned s1 = spawned s"
      "pageTables s1 = (pageTables s)(pt_next s \<mapsto> map fresh_pte [0..<npages sp])" "space s1 = space s" "running s1 = running s" "saved s1 = saved s"
      "userRegisters s1 = userRegisters s" "threadToBeDestroyed s1 = threadToBeDestroyed s" "dead s1 = dead s" "mode s1 = mode s"
    by (subst i(1), simp)+
  ultimately show ?thesis using i(2-8) by (simp add: added_def)
qed

lemma added_space_of:
  assumes "threads_ok s" "added sp s s'"
  shows "u \<le> length (spawned s) \<Longrightarrow> space_of u s' = space_of u s" and "space_of (Suc (length (spawned s))) s' = sp"
    and "live u s' \<longleftrightarrow> live u s \<or> u = Suc (length (spawned s))"
proof -
  show "space_of u s' = space_of u s" if "u \<le> length (spawned s)"
    using that assms by (cases u) (auto simp: space_of_def added_def nth_append threads_ok_def started_def split: option.split)
  show "space_of (Suc (length (spawned s))) s' = sp"
    using assms by (auto simp: space_of_def added_def threads_ok_def nth_append split: option.split)
  show "live u s' \<longleftrightarrow> live u s \<or> u = Suc (length (spawned s))" using assms by (auto simp: live_def added_def threads_ok_def)
qed

lemma added_old:
  assumes ok: "system_ok s" and a: "added sp s s'" and u: "live u s"
  shows "untouched (space_of u s) s s'" and "separate sp (space_of u s)" and "swap_inode (space_of u s) \<noteq> exe_inode sp \<Longrightarrow> separate (space_of u s) sp"
proof -
  have old: "space_ok {} (space_of u s) s" "swap_inode (space_of u s) < next_inode (host s)" "exe_inode (space_of u s) < next_inode (host s)"
      "as_pageTable (space_of u s) < pt_next s"
    using ok u by (simp_all add: system_ok_def spaces_ok_def threads_ok_def live_def)
  show "untouched (space_of u s) s s'"
    using untouched_refl [OF old(1)] old(2-4) a by (simp add: untouched_def added_def swap_file_def frame_bytes_def)
  show "separate sp (space_of u s)" using old(2-4) a by (auto simp: separate_def added_def)
  show "separate (space_of u s) sp" if "swap_inode (space_of u s) \<noteq> exe_inode sp" using old(2-4) a that by (auto simp: separate_def added_def)
qed

lemma added_new:
  assumes "installed s" and a: "added sp s s'" and "0 < npages sp" "npages sp * PageSize < 2 ^ 31"
  shows "space_ok {} sp s'" and "own_frames sp s' = {}"
proof -
  have t: "tbl sp s' = map fresh_pte [0..<npages sp]" using a by (simp add: tbl_def added_def)
  have "space_shape sp s'"
    using assms by (simp add: space_shape_def t) (simp add: added_def installed_def cpu_wf_def fresh_pte_def)
  note fr = fresh_space_ok [OF this t]
  then show "space_ok {} sp s'" and "own_frames sp s' = {}" by (simp_all add: own_frames_def)
qed

lemma added_spaces_ok:
  assumes ok: "system_ok s" and a: "added sp s s'" and inst: "installed s'" and sp: "space_ok {} sp s'" "own_frames sp s' = {}"
    and exe: "\<And>t. t \<le> length (spawned s) \<Longrightarrow> swap_inode (space_of t s) \<noteq> exe_inode sp"
  shows "spaces_ok s'"
proof -
  let ?N = "Suc (length (spawned s))"
  have th: "threads_ok s" and sps: "spaces_ok s" using ok by (simp_all add: system_ok_def)
  note so = added_space_of [OF th a] and un = added_old [OF ok a]
  have le: "u \<le> length (spawned s)" if "live u s" for u using that by (simp add: live_def)
  have "space_ok {} (space_of u s') s' \<and> swap_inode (space_of u s') < next_inode (host s') \<and> exe_inode (space_of u s') < next_inode (host s')"
    if "live u s'" for u
  proof (cases "u = ?N")
    case True
    then show ?thesis using sp(1) so(2) a by (simp add: added_def)
  next
    case False
    then have u: "live u s" using that so(3) by simp
    then have "space_ok {} (space_of u s) s'"
      using untouched_ok [OF un(1) [OF u]] sps inst by (simp add: spaces_ok_def installed_def cpu_wf_def)
    then show ?thesis using sps u so(1) [OF le [OF u]] a by (simp add: spaces_ok_def added_def less_Suc_eq)
  qed
  moreover have "separate (space_of t s') (space_of u s') \<and> own_frames (space_of t s') s' \<inter> own_frames (space_of u s') s' = {}"
    if tu: "live t s'" "live u s'" "t \<noteq> u" for t u
  proof (cases "t = ?N \<or> u = ?N")
    case True
    then show ?thesis using tu so le un(2,3) exe sp(2) by auto
  next
    case False
    then have l: "live t s" "live u s" using tu so(3) by auto
    then have "separate (space_of t s) (space_of u s) \<and> own_frames (space_of t s) s \<inter> own_frames (space_of u s) s = {}"
      using sps tu(3) by (simp add: spaces_ok_def)
    then show ?thesis using l so(1) le untouched_own [OF un(1) [OF l(1)]] untouched_own [OF un(1) [OF l(2)]] by simp
  qed
  ultimately show ?thesis by (simp add: spaces_ok_def)
qed

lemma added_threads_ok:
  assumes th: "threads_ok s" and a: "added sp s s'"
  shows "threads_ok s'"
proof -
  let ?N = "Suc (length (spawned s))"
  note so = added_space_of [OF th a]
  have pt: "as_pageTable (space_of u s') < pt_next s' \<and> (u = ?N \<or> as_pageTable (space_of u s') < pt_next s)" if "u \<le> ?N" for u
    using that so(1) [of u] so(2) th a by (cases "u = ?N") (auto simp: threads_ok_def added_def less_Suc_eq)
  have "as_pageTable (space_of t s') \<noteq> as_pageTable (space_of u s')" if tu: "t \<le> ?N" "u \<le> ?N" "t \<noteq> u" for t u
  proof (cases "t = ?N \<or> u = ?N")
    case True
    then show ?thesis using pt [OF tu(1)] pt [OF tu(2)] so(2) a tu(3) by (auto simp: added_def)
  next
    case False
    then show ?thesis using th tu so(1) [of t] so(1) [of u] by (simp add: threads_ok_def)
  qed
  moreover have "\<forall>nm n. names (host s') nm = Some n \<longrightarrow> n < next_inode (host s')" using th a by (auto simp: threads_ok_def added_def less_Suc_eq)
  ultimately show ?thesis using th pt a by (auto simp: threads_ok_def started_def added_def)
qed

lemma spawn_ok:
  assumes ok: "system_ok s" and a: "added sp s s'" and exe: "\<And>t. t \<le> length (spawned s) \<Longrightarrow> swap_inode (space_of t s) \<noteq> exe_inode sp"
    and size: "0 < npages sp" "npages sp * PageSize < 2 ^ 31"
  shows "system_ok s'" and "live u s \<Longrightarrow> spared u s s'"
proof -
  have th: "threads_ok s" and inst: "installed s" using ok by (simp_all add: system_ok_def)
  note so = added_space_of [OF th a]
  have inst': "installed s'" using inst running_le [OF ok] so(3) a by (auto simp: installed_def cpu_wf_def added_def live_def)
  show "system_ok s'"
    using added_threads_ok [OF th a] added_spaces_ok [OF ok a inst' added_new [OF inst a size] exe] inst' by (simp add: system_ok_def)
  show "spared u s s'" if "live u s"
  proof -
    have "space_image (space_of u s) s' = space_image (space_of u s) s" by (rule untouched_image [OF added_old(1) [OF ok a that]])
    then show ?thesis
      using that so(3) so(1) [of u] a by (simp add: spared_def started_def user_view_def user_registers_def added_def live_def)
  qed
qed

section \<open>A trap\<close>

lemma set_mode_same: "running s = User r \<Longrightarrow> mode s r = a \<Longrightarrow> set_mode a s = s"
  by (cases s) (auto simp: set_mode_def fun_upd_idem)

text \<open>Reading the name of an \<^verbatim>\<open>Exec\<close>: the program stays confined, and a trap that ends it is a \<^verbatim>\<open>Destroy\<close>.\<close>

lemma PC_confined:
  assumes "confined B s0 t"
  shows "confined B s0 (t\<lparr>registers := (registers t)[PCReg := v]\<rparr>)"
  using confined.ok_set_reg [OF assms, of PCReg v] low_reg_not_LoadReg by (simp add: set_reg_def)

lemma nested_read_destroys:
  assumes c: "confined B s0 t" and n: "nested_read big junk addr t = Inr (Inl a, s')"
  shows "\<exists>t1. confined B s0 t1 \<and> Destroy t1 = Inr (a, s')"
proof -
  obtain e t1 t2 where e: "Translate addr 1 False t = Inr (Inl e, t1)" "DelayedLoad 0 0 (set_reg BadVAddrReg addr t1) = Inr t2"
      "handle (\<lambda>_. Inl AssertFailed) big junk e (t2\<lparr>status := SystemMode\<rparr>) = Inr (a, s')" "a \<noteq> Resume"
    using nested_read_ends [OF n] by blast
  have "xlate_wf t" using confined.ok_wf [OF c] by (simp add: machine_wf_def)
  then have "t1 = t" by (rule Translate_cases [of t 1 addr False]) (use e(1) in simp_all)
  then have "confined B s0 (set_reg BadVAddrReg addr t1)" using confined.ok_set_reg [OF c] low_reg_not_LoadReg by simp
  from confined.ok_DelayedLoad [OF this, of 0 0] have "confined B s0 t2" using e(2) by simp
  then have "confined B s0 (t2\<lparr>status := SystemMode\<rparr>)" by (rule confined_status)
  then show ?thesis using PC_confined handle_fault_ends [OF e(3) Translate_not_syscall [OF e(1)] e(4)] by blast
qed

lemma confined_read_name:
  assumes "read_name big junk n addr s = Inr (nm, s')" "confined B s0 s"
  shows "case nm of Inr _ \<Rightarrow> confined B s0 s' | Inl a \<Rightarrow> \<exists>t. confined B s0 t \<and> Destroy t = Inr (a, s')"
proof -
  have step: "confined B s0 t'" if "ReadMem big (fault_handler big junk) ad 1 t = Inr (r, t')" "confined B s0 t" for ad t r t'
    using confined.ReadMem_wf [OF that(2), of 1 big junk big ad] that(1) by simp
  have c: "case nm of Inr _ \<Rightarrow> confined B s0 s' | Inl a \<Rightarrow> \<exists>addr t. confined B s0 t \<and> nested_read big junk addr t = Inr (Inl a, s')"
    by (rule read_name_cases [where P = "confined B s0", OF assms]) (rule step)
  show ?thesis
  proof (cases nm)
    case (Inl a)
    then obtain ad t where "confined B s0 t" "nested_read big junk ad t = Inr (Inl a, s')" using c by auto
    then show ?thesis using nested_read_destroys Inl by fastforce
  qed (use c in simp)
qed

lemma set_r2_result: "set_r2 v s = Inr (a, s') \<Longrightarrow> a = Resume \<and> s' = s\<lparr>registers := (registers s)[2 := v]\<rparr>"
  by (auto simp: set_r2_def WriteRegister_def)

lemma sc_exec_result:
  assumes "sc_exec big junk hand s = Inr (Resume, s')"
  obtains addr nm t v where "read_name big junk 1024 addr s = Inr (Inr nm, t)" "s' = t\<lparr>registers := (registers t)[2 := v]\<rparr>"
  | addr input t exe sp t1 tl v where "read_name big junk 1024 addr s = Inr (Inr (Some input), t)" "FileSystem_Open input (host t) = Some exe"
      "Initialize big junk hand exe t = Inr (sp, t1)"
      "s' = t1\<lparr>threadlist := tl, spawned := spawned t1 @ [sp]\<rparr>\<lparr>registers := (registers t1)[2 := v]\<rparr>"
proof -
  obtain addr nm t where ad: "ReadRegister 4 s = Inr addr" and t: "read_name big junk 1024 addr s = Inr (Inr nm, t)"
    using sc_exec_named [OF assms] .
  show thesis
  proof (cases "nm = None \<or> FileSystem_Open (the nm) (host t) = None")
    case True
    then have "set_r2 0 t = Inr (Resume, s')" using assms ad t by (auto simp: sc_exec_def split: option.splits)
    then show thesis using that(1) [OF t] set_r2_result by blast
  next
    case False
    then obtain input exe where nm: "nm = Some input" "FileSystem_Open input (host t) = Some exe" by auto
    obtain sp t1 result tl where t1: "Initialize big junk hand exe t = Inr (sp, t1)"
        "set_r2 (word_of_int result) (t1\<lparr>threadlist := tl, spawned := spawned t1 @ [sp]\<rparr>) = Inr (Resume, s')"
      using assms unfolding sc_exec_def ad bindE_simps t nm prod.case sum.case option.case by (auto split: if_splits)
    show thesis using that(2) [OF t [unfolded nm(1)] nm(2) t1(1)] set_r2_result [OF t1(2)] by simp
  qed
qed

lemma handle_cases:
  assumes "handle exec big junk which s = Inr (a, s')"
  obtains "a = HaltMachine" "s' = s\<lparr>registers := (registers s)[PCReg := reg s PCReg + 4]\<rparr>"
  | "exec (s\<lparr>registers := (registers s)[PCReg := reg s PCReg + 4]\<rparr>) = Inr (a, s')"
  | "Destroy (s\<lparr>registers := (registers s)[PCReg := reg s PCReg + 4]\<rparr>) = Inr (a, s')"
  | "a = Resume" "fault_handler big junk which s = Inr s'"
  | n where "a = JoinThread n" "s' = s\<lparr>registers := (registers s)[PCReg := reg s PCReg + 4]\<rparr>"
proof -
  let ?s1 = "s\<lparr>registers := (registers s)[PCReg := reg s PCReg + 4]\<rparr>"
  have pf: "b = Resume" if "page_fault big junk pc t = Inr (b, t')" for b pc and t t' :: "'a Process_scheme"
    using that by (auto simp: page_fault_def Let_def split: option.splits)
  have "a = HaltMachine \<and> s' = ?s1 \<or> exec ?s1 = Inr (a, s') \<or> Destroy ?s1 = Inr (a, s') \<or>
      (which = PageFaultException \<and> page_fault big junk (reg s PCReg + 4) ?s1 = Inr (a, s')) \<or> (\<exists>n. a = JoinThread n \<and> s' = ?s1)"
    using assms by (auto simp: handle_def ReadRegister_def WriteRegister_def Let_def reg_defs sc_join_def split: if_splits option.splits)
  moreover have "fault_handler big junk which s = Inr s'" if "which = PageFaultException" "page_fault big junk (reg s PCReg + 4) ?s1 = Inr (Resume, s')"
    using that assms by (auto simp: fault_handler_def returning_Inr handle_def ReadRegister_def WriteRegister_def Let_def reg_defs)
  ultimately show thesis using that pf by blast
qed

lemma registers_step:
  assumes ok: "system_ok s" and r: "running s = User r" and len: "length regs = NumTotalRegs" "unat (regs ! LoadReg) < NumGPRegs"
  shows "system_ok (s\<lparr>registers := regs\<rparr>)" and "live u s \<Longrightarrow> u \<noteq> r \<Longrightarrow> spared u s (s\<lparr>registers := regs\<rparr>)"
proof -
  have wf: "cpu_wf (s\<lparr>registers := regs\<rparr>)" using ok len by (simp add: system_ok_def installed_def cpu_wf_def)
  note c = system_ok_cong [OF ok wf, simplified]
  show "system_ok (s\<lparr>registers := regs\<rparr>)" by (rule c(1))
  show "spared u s (s\<lparr>registers := regs\<rparr>)" if "live u s" "u \<noteq> r" using that c r by (intro spared_cong) simp_all
qed

lemma cpu_registers:
  assumes "n \<noteq> LoadReg" "system_ok s"
  shows "length ((registers s)[n := v]) = NumTotalRegs" "unat ((registers s)[n := v] ! LoadReg) < NumGPRegs"
  using assms by (simp_all add: system_ok_def installed_def cpu_wf_def)

lemma r2_registers:
  assumes "system_ok s"
  shows "length ((registers s)[2 := v]) = NumTotalRegs" "unat ((registers s)[2 := v] ! LoadReg) < NumGPRegs"
  using cpu_registers [OF _ assms, of 2 v] low_reg_not_LoadReg(1) [of 2] by simp_all

lemma exec_ok:
  assumes ok: "system_ok s" and r: "running s = User r" and l: "live r s" and c: "confined (neighbours r s) s t"
    and ex: "sc_exec big junk hand t = Inr (Resume, s')" and safe: "exec_safe s s'"
  shows "system_ok s'" and "live u s \<Longrightarrow> u \<noteq> r \<Longrightarrow> spared u s s'" and "mode s' = mode s" and "running s' = User r"
proof -
  have "system_ok s' \<and> (\<forall>u. live u s \<longrightarrow> u \<noteq> r \<longrightarrow> spared u s s') \<and> mode s' = mode s \<and> running s' = User r"
    using ex
  proof (cases rule: sc_exec_result)
    case (1 addr nm t1 v)
    note c1 = confined_read_name [OF 1(1) c, simplified]
    note o1 = confined_ok [OF ok r l c1] and r1 = confined_space_of [OF c1 r]
    note rs = registers_step [OF o1(1) r1(1) r2_registers [OF o1(1), of v]]
    have "mode t1 = mode s" using c1 system_of_Process(2) [of t1 s] by (simp add: confined_def kernel_rest_def)
    then show ?thesis using 1(2) o1(2) rs r1 spared_trans by (simp add: reg_defs) blast
  next
    case (2 addr input t1 exe sp t2 tl v)
    note c1 = confined_read_name [OF 2(1) c, simplified]
    note o1 = confined_ok [OF ok r l c1] and r1 = confined_space_of [OF c1 r]
    have k: "names (host t1) = names (host s)" "spawned t1 = spawned s" "mode t1 = mode s"
      using c1 system_of_Process(2) [of t1 s] by (simp_all add: confined_def kernel_rest_def)
    have t2: "spawned t2 = spawned t1" "registers t2 = registers t1" "mode t2 = mode t1"
      using 2(3) by (auto simp: Initialize_def Let_def split_def)
    let ?t3 = "t2\<lparr>threadlist := tl, spawned := spawned t2 @ [sp]\<rparr>"
    have safe': "names (host t1) (bs_fname (backing sp)) = None" "0 < npages sp" "npages sp * PageSize < 2 ^ 31"
        and sw: "u \<le> length (spawned s) \<Longrightarrow> swap_inode (space_of u s) \<noteq> exe_inode sp" for u
      using safe 2(4) t2 k by (auto simp: exec_safe_def Let_def)
    have "swap_inode (space_of u t1) = swap_inode (space_of u s)" for u
      using r1(2) [of u] c1 same_space_fields [of "space s" "space t1"] r by (simp add: confined_def space_of_def [of r s])
    then have sw1: "\<And>u. u \<le> length (spawned t1) \<Longrightarrow> swap_inode (space_of u t1) \<noteq> exe_inode sp" using sw k by simp
    have ad: "added sp t1 ?t3" using Initialize_adds [OF _ 2(2,3) safe'(1)] o1(1) by (simp add: system_ok_def)
    note sp = spawn_ok [OF o1(1) ad sw1 safe'(2,3)]
    have r3: "running ?t3 = User r" using ad r1(1) by (simp add: added_def)
    note rs = registers_step [OF sp(1) r3 r2_registers [OF sp(1), of v]]
    have "spared u t1 ?t3" if "live u s" for u using sp(2) [of u] r1(3) that by simp
    moreover have "live u ?t3" if "live u s" for u using sp(2) [of u] r1(3) that by (simp add: spared_def)
    ultimately have "spared u s s'" if "live u s" "u \<noteq> r" for u
      using that o1(2) [OF that] rs(2) [of u] spared_trans 2(4) by (simp add: reg_defs) blast
    then show ?thesis using 2(4) rs(1) r3 k t2 by (simp add: reg_defs)
  qed
  then show "system_ok s'" and "live u s \<Longrightarrow> u \<noteq> r \<Longrightarrow> spared u s s'" and "mode s' = mode s" and "running s' = User r" by blast+
qed

lemma trap_ok:
  assumes ok: "system_ok s" and r: "running s = User r" and l: "live r s" and m: "mode s r = Resume"
    and c: "confined (neighbours r s) s t" and rs: "raised which t" and h: "trap_handler big junk hand which t = Inr t'"
    and safe: "exec_safe s (t'\<lparr>status := UserMode\<rparr>)"
  shows "system_ok (t'\<lparr>status := UserMode\<rparr>) \<and> (\<forall>u. live u s \<longrightarrow> u \<noteq> r \<longrightarrow> spared u s (t'\<lparr>status := UserMode\<rparr>))"
proof -
  let ?pc = "t\<lparr>registers := (registers t)[PCReg := reg t PCReg + 4]\<rparr>"
  obtain a s1 where a: "handle (sc_exec big junk hand) big junk which t = Inr (a, s1)" and t': "t' = set_mode a s1"
    using h by (auto simp: trap_handler_def ExceptionHandler_def)
  note cpc = PC_confined [OF c, of "reg t PCReg + 4"]
  note opc = confined_ok [OF ok r l cpc] and so = confined_space_of [OF cpc r]
  have mpc: "mode ?pc = mode s" using cpc system_of_Process(2) [of ?pc s] by (simp add: confined_def kernel_rest_def)
  have regs: "length (registers ?pc) = NumTotalRegs" "unat (registers ?pc ! LoadReg) < NumGPRegs"
    using opc(1) by (simp_all add: system_ok_def installed_def cpu_wf_def)
  have stay: ?thesis if "s1 = ?pc" "a \<noteq> FinishThread"
    using cpu_step [OF opc(1) so(1) regs that(2), where es = "exit_status ?pc" and st = UserMode] mpc m so(3) opc(2) spared_trans that(1)
    by (simp add: t') blast
  have ends: ?thesis if u: "confined (neighbours r s) s u" "Destroy u = Inr (a, s1)" for u
  proof -
    note ou = confined_ok [OF ok r l u(1)] and su = confined_space_of [OF u(1) r]
    have "live r u" using l su(3) by simp
    note d = destroy_ok [OF ou(1) su(1) this u(2), where st = UserMode]
    then show ?thesis using ou(2) su(3) spared_trans by (simp add: t') blast
  qed
  from a show ?thesis
  proof (cases rule: handle_cases)
    case 1
    then show ?thesis using stay by simp
  next
    case 2
    show ?thesis
    proof (cases "a = Resume")
      case True
      have e: "exec_safe s s1" using safe by (simp add: t' exec_safe_def)
      note ex = exec_ok [OF ok r l cpc 2 [unfolded True] e]
      have regs1: "length (registers s1) = NumTotalRegs" "unat (registers s1 ! LoadReg) < NumGPRegs"
        using ex(1) by (simp_all add: system_ok_def installed_def cpu_wf_def)
      have "live u s1" if "live u s" "u \<noteq> r" for u using ex(2) [OF that] by (simp add: spared_def)
      then show ?thesis
        using cpu_step [OF ex(1,4) regs1, where a = Resume and es = "exit_status s1" and st = UserMode] True ex(2,3) m spared_trans by (simp add: t') blast
    next
      case False
      from sc_exec_ends [OF 2 this] obtain addr where "read_name big junk 1024 addr ?pc = Inr (Inl a, s1)" by blast
      from confined_read_name [OF this cpc] show ?thesis using ends by auto
    qed
  next
    case 3
    then show ?thesis by (rule ends [OF cpc])
  next
    case 4
    note cf = confined_fault [OF c rs 4(2)]
    have "mode s1 = mode s" "running s1 = User r" using confined_space_of(1) [OF cf r] cf system_of_Process(2) [of s1 s] by (simp_all add: confined_def kernel_rest_def)
    then have "t' = s1" using set_mode_same [of s1 r Resume] m 4(1) t' by simp
    then show ?thesis using confined_ok [OF ok r l confined_status [OF cf]] by simp
  next
    case (5 n)
    then show ?thesis using stay by simp
  qed
qed

section \<open>Every step\<close>

interpretation program: instruction_step "trap_handler big junk hand" "confined B s0"
  "\<lambda>s'. \<exists>t t' which. confined B s0 t \<and> raised which t \<and> trap_handler big junk hand which t = Inr t' \<and> s' = t'\<lparr>status := UserMode\<rparr>"
  by (unfold_locales; (rule confined.ok_wf confined.ok_registers confined.ok_status confined.ok_access confined.ok_write; assumption)?) blast

lemma instruction_ok:
  assumes ok: "system_ok s" and r: "running s = User r" "mode s r = Resume"
    and run: "OneInstruction big (trap_handler big junk hand) s = Inr s'" and safe: "exec_safe s s'"
  shows "system_ok s' \<and> (\<forall>u. live u s \<longrightarrow> u \<noteq> r \<longrightarrow> spared u s s')"
proof -
  have l: "live r s" using running_le [OF ok r(1)] r(2) by (simp add: live_def)
  have "confined (neighbours r s) s s' \<or> (\<exists>t t' which. confined (neighbours r s) s t \<and> raised which t \<and>
      trap_handler big junk hand which t = Inr t' \<and> s' = t'\<lparr>status := UserMode\<rparr>)"
    using program.OneInstruction_sound [OF confined_start [OF ok r(1) l], of big junk hand big] run by simp
  then show ?thesis
  proof (elim disjE exE conjE)
    show ?thesis if "confined (neighbours r s) s s'" using confined_ok [OF ok r(1) l that] by blast
    show ?thesis if "confined (neighbours r s) s t" "raised which t" "trap_handler big junk hand which t = Inr t'" "s' = t'\<lparr>status := UserMode\<rparr>" for t t' which
      using trap_ok [OF ok r(1) l r(2) that(1-3)] safe that(4) by simp
  qed
qed

lemma joined_ok:
  assumes ok: "system_ok s" and r: "running s = User r" "mode s r = JoinThread n" and j: "join_return st s = Inr (a, s')"
  shows "system_ok (set_mode Resume s') \<and> (\<forall>u. live u s \<longrightarrow> u \<noteq> r \<longrightarrow> spared u s (set_mode Resume s'))"
proof -
  have "s' = s\<lparr>registers := (registers s)[2 := word_of_int st], exit_status := st\<rparr>"
    using set_r2_result [OF j [unfolded join_return_def]] by simp
  then have "set_mode Resume s' = (set_mode Resume (s\<lparr>registers := (registers s)[2 := word_of_int st], exit_status := st\<rparr>))\<lparr>status := status s\<rparr>"
    using r by (simp add: set_mode_def)
  then show ?thesis
    using cpu_step [OF ok r(1) r2_registers [OF ok, of "word_of_int st"], where a = Resume and es = st and st = "status s"] r(2) by simp
qed

lemma died_ok:
  assumes ok: "system_ok s" and r: "running s = User r" "mode s r = FinishThread"
  defines "s' \<equiv> s\<lparr>threadToBeDestroyed := Some (running s), dead := insert (running s) (dead s)\<rparr>"
  shows "system_ok s'" and "live u s \<Longrightarrow> spared u s s'"
proof -
  have v: "space_ok {} sp s' = space_ok {} sp s" "page_data sp s' = page_data sp s" "own_frames sp s' = own_frames sp s" for sp
    using space_view_cong [of s' s] by (simp_all add: s'_def own_frames_def)
  have so: "space_of t s' = space_of t s" for t by (rule space_of_cong) (simp_all add: s'_def)
  have lv: "live t s' = live t s" for t by (simp add: live_def s'_def)
  have view: "host s' = host s" "pt_next s' = pt_next s" "spawned s' = spawned s" "running s' = running s" "saved s' = saved s"
      "userRegisters s' = userRegisters s" "mode s' = mode s" "threadToBeDestroyed s' = Some (User r)" "dead s' = insert (User r) (dead s)"
    by (simp_all add: s'_def r)
  have "threads_ok s'" using ok r running_le [OF ok r(1)] by (simp add: system_ok_def threads_ok_def started_def so view)
  moreover have "spaces_ok s'" using ok by (simp add: system_ok_def spaces_ok_def so lv v) (simp add: s'_def)
  moreover have "installed s'" using ok by (simp add: system_ok_def installed_def lv) (simp add: s'_def cpu_wf_def)
  ultimately show "system_ok s'" by (simp add: system_ok_def)
  show "spared u s s'" if "live u s"
    using that by (simp add: spared_def lv so user_view_def user_registers_def space_image_def v started_def) (simp add: s'_def)
qed

lemma sys_step_ok:
  assumes "sys_step big s e s'" and ok: "system_ok s" and safe: "exec_safe s s'"
  shows "system_ok s' \<and> (\<forall>u. live u s \<longrightarrow> started u s \<longrightarrow> (running s = User u \<longrightarrow> (\<exists>nx. e = Switched nx)) \<longrightarrow> spared u s s')"
  using assms(1)
proof (cases rule: sys_step.cases)
  case (instruction r junk hand)
  then show ?thesis using instruction_ok [OF ok, of r big junk hand s'] safe by auto
next
  case (joined r n a s1)
  then show ?thesis using joined_ok [OF ok joined(3,4,6)] by auto
next
  case (died r)
  then show ?thesis using died_ok [OF ok died(3,4)] by auto
next
  case (switched nx fresh)
  note sw = switch_ok [OF ok switched(2,4,6)]
  have "user_registers u s' = user_registers u s" if "started u s" for u
    using sw(5) [of u] that switched(2) switched(4) [of u] by (auto simp: started_def split: if_splits)
  moreover have "started u s'" if "started u s" for u
  proof -
    have "arrived nx s s'" using Run_user_arrives(1) [OF _ _ switched(2,6)] ok by (simp add: system_ok_def installed_def)
    then show ?thesis using that by (auto simp: started_def arrived_def switching_saved split: tid.splits)
  qed
  ultimately show ?thesis using sw(1-4) by (simp add: spared_def user_view_def)
qed

section \<open>Properties\<close>

text \<open>The program \<open>u\<close> does nothing in a run but lose and regain the processor.\<close>

definition idle :: "nat \<Rightarrow> ('a Programs_scheme \<times> event \<times> 'a Programs_scheme) list \<Rightarrow> bool" where
  "idle u tr \<longleftrightarrow> (\<forall>(s1, e, s2) \<in> set tr. running s1 = User u \<longrightarrow> (\<exists>nx. e = Switched nx))"

text \<open>
  C2. User programs are isolated from each other. Take any run of the system in which programs
  execute arbitrary instructions, fault, page out, start programs with \<^verbatim>\<open>Exec\<close>, join, exit, are
  ended by a trap (also in the middle of an \<^verbatim>\<open>Exec\<close>) and are switched. Every \<^verbatim>\<open>Exec\<close> of the run is
  assumed to start a program whose backing file has an unused name (not true of two programs of one
  size, see \<open>backing_store_collision\<close>), whose object file is not a backing file, and which has
  pages for less than \<open>2 ^ 31\<close> bytes (\<open>exec_safe\<close>). The invariant holds at its end: each program that has
  not finished has a well-formed address space, no two share a page table, a backing file or a frame,
  and the processor translates through the table of the current one. A started program that executed
  nothing in the run has the same registers, the same contents of every page and the same object
  file as before.
\<close>

theorem process_isolation:
  assumes "system_ok s" and "sys_run big s tr s'" and "\<forall>(s1, e, s2) \<in> set tr. exec_safe s1 s2"
  shows "system_ok s' \<and> (\<forall>u. live u s \<and> started u s \<and> idle u tr \<longrightarrow> live u s' \<and> user_view u s' = user_view u s)"
proof -
  have "system_ok s' \<and> (\<forall>u. live u s \<longrightarrow> started u s \<longrightarrow> idle u tr \<longrightarrow> spared u s s')"
    using assms(2,1,3)
  proof (induction rule: sys_run.induct)
    case (stop s)
    then show ?case by (simp add: spared_def)
  next
    case (step s e s1 tr s')
    have "exec_safe s s1" and IH: "system_ok s1 \<Longrightarrow> system_ok s' \<and> (\<forall>u. live u s1 \<longrightarrow> started u s1 \<longrightarrow> idle u tr \<longrightarrow> spared u s1 s')"
      using step.IH step.prems(2) by simp_all
    note st = sys_step_ok [OF step(1) step.prems(1) this(1)]
    have "spared u s s'" if u: "live u s" "started u s" "idle u ((s, e, s1) # tr)" for u
    proof -
      have s1: "spared u s s1" using st u by (auto simp: idle_def)
      then have "live u s1" "started u s1" using u(2) by (simp_all add: spared_def)
      then show ?thesis using spared_trans [OF s1] IH st u(3) by (simp add: idle_def)
    qed
    then show ?case using IH st by blast
  qed
  then show ?thesis by (auto simp: spared_def)
qed

text \<open>
  C31. A context switch saves and restores the user-level state. \<^verbatim>\<open>Run\<close> does not fail on a thread
  that has not died. Every other program keeps its registers, those of the one that leaves the
  processor are saved, and the one that enters it finds the registers it left, or on its first
  run those of \<^verbatim>\<open>InitRegisters\<close>; the processor translates through its page table. Every program
  that has not finished keeps the contents of its pages, although the address space of a
  thread that died is deleted on the way.
\<close>

theorem context_switch:
  assumes "system_ok s" and "nx \<noteq> running s" and "nx \<notin> dead s"
    and "\<And>t. nx = User t \<Longrightarrow> t \<le> length (spawned s) \<and> fresh = (saved s t = None)"
  shows "\<exists>s'. Run_user fresh nx s = Inr s' \<and> system_ok s' \<and> running s' = nx \<and>
    (\<forall>t. user_registers t s' = (if nx = User t \<and> fresh then start_registers (space_of t s) else user_registers t s)) \<and>
    (\<forall>t. nx = User t \<longrightarrow> pageTable s' = Some (as_pageTable (space_of t s)) \<and> pageTableSize s' = numPages (space_of t s)) \<and>
    (\<forall>t. live t s \<longrightarrow> live t s' \<and> space_of t s' = space_of t s \<and> space_image (space_of t s) s' = space_image (space_of t s) s)"
proof -
  obtain s' where run: "Run_user fresh nx s = Inr s'" using Run_user_total [OF assms(1,3)] by blast
  have th: "threads_ok s" "cpu_wf s" using assms(1) by (simp_all add: system_ok_def installed_def)
  note sw = switch_ok [OF assms(1,2,4) run]
  note a = Run_user_arrives [OF th assms(2) run]
  have "pageTable s' = Some (as_pageTable (space_of t s)) \<and> pageTableSize s' = numPages (space_of t s)" if "nx = User t" for t
  proof -
    have "space_of t s' = space s'" using a(1) that by (simp add: arrived_def space_of_def)
    then show ?thesis using a(2) [OF that] sw(3) [of t] by simp
  qed
  then show ?thesis using run sw a(1) by (intro exI [of _ s']) (simp add: arrived_def)
qed

section \<open>Examples\<close>

text \<open>Two programs that have not touched their only page; the first one runs and is about to fetch its first instruction.\<close>

definition second_space :: AddrSpace where
  "second_space = \<lparr>clock_hand = 0, backing = \<lparr>bs_fname = ''bs256'', bs_file = Some \<lparr>of_inode = 3, currentOffset = 0\<rparr>\<rparr>,
     stored_executable = \<lparr>of_inode = 2, currentOffset = 0\<rparr>, as_pageTable = 1, numPages = 1\<rparr>"

definition two_programs :: Programs where
  "two_programs = VM.extend (demo_vm\<lparr>pageTables := [0 \<mapsto> [fresh_pte 0], 1 \<mapsto> [fresh_pte 0]], pt_next := 2,
       host := \<lparr>inodes = (\<lambda>_. [])(0 := demo_exe, 2 := demo_exe), names = Map.empty, next_inode = 4\<rparr>\<rparr>)
     \<lparr>space = demo_space, exit_status = 0, threadlist = no_threads, spawned = [second_space], running = User 0, mode = (\<lambda>_. Resume),
      userRegisters = (\<lambda>_. replicate NumTotalRegs 0), saved = [1 \<mapsto> second_space], exit_statuses = (\<lambda>_. 0), threadToBeDestroyed = None, dead = {}\<rparr>"

lemma two_programs_view [simp]:
  "registers two_programs = replicate NumTotalRegs 0" "mainMemory two_programs = replicate MemorySize 0" "tlb two_programs = None"
  "pageTable two_programs = Some 0" "pageTableSize two_programs = 1" "pageTables two_programs = [0 \<mapsto> [fresh_pte 0], 1 \<mapsto> [fresh_pte 0]]"
  "memmanage two_programs = memmanage demo_vm" "pt_next two_programs = 2" "space two_programs = demo_space" "spawned two_programs = [second_space]"
  "running two_programs = User 0" "mode two_programs t = Resume" "userRegisters two_programs t = replicate NumTotalRegs 0"
  "saved two_programs = [1 \<mapsto> second_space]" "threadToBeDestroyed two_programs = None" "dead two_programs = {}"
  "host two_programs = \<lparr>inodes = (\<lambda>_. [])(0 := demo_exe, 2 := demo_exe), names = Map.empty, next_inode = 4\<rparr>"
  by (simp_all add: two_programs_def demo_vm_def demo_machine_def VM.defs Machine.defs)

lemma two_programs_spaces [simp]: "space_of 0 two_programs = demo_space" "space_of (Suc 0) two_programs = second_space"
  by (simp_all add: space_of_def)

lemma two_programs_live: "live t two_programs \<longleftrightarrow> t = 0 \<or> t = Suc 0" "started 0 two_programs" "started (Suc 0) two_programs"
  by (auto simp: live_def started_def)

lemma two_programs_ok: "system_ok two_programs"
proof -
  have shape: "space_shape sp two_programs" "tbl sp two_programs = map fresh_pte [0..<npages sp]" if "sp = demo_space \<or> sp = second_space" for sp
    using that demo_mm(1) by (auto simp: space_shape_def tbl_def demo_space_def second_space_def size_defs fresh_pte_def)
  note sp = fresh_space_ok [OF shape]
  have "threads_ok two_programs"
    using le_Suc_eq by (auto simp: threads_ok_def started_def le_Suc_eq reg_defs) (auto simp: demo_space_def second_space_def)
  moreover have "spaces_ok two_programs"
    using sp(1,2) by (auto simp: spaces_ok_def two_programs_live own_frames_def) (auto simp: demo_space_def second_space_def separate_def)
  moreover have "installed two_programs"
    using demo_mm(1) by (simp add: installed_def cpu_wf_def reg_defs size_defs) (simp add: demo_space_def)
  ultimately show ?thesis by (simp add: system_ok_def)
qed

text \<open>The fetch of its first instruction faults; the handler brings the page in.\<close>

lemma OneInstruction_fault:
  assumes "Translate (reg s PCReg) 4 False s = Inr (Inl PageFaultException, s)" and "DelayedLoad 0 0 (set_reg BadVAddrReg (reg s PCReg) s) = Inr s1"
    and "eh PageFaultException (s1\<lparr>status := SystemMode\<rparr>) = Inr s2"
  shows "OneInstruction big eh s = Inr (s2\<lparr>status := UserMode\<rparr>)"
  using assms by (simp add: OneInstruction_def ReadMem_def RaiseException_def)

lemma two_programs_fault:
  defines "t \<equiv> two_programs\<lparr>status := SystemMode\<rparr>"
  shows "\<exists>s'. ExceptionHandler False (replicate 40 0) 0 PageFaultException t = Inr (Resume, s')" and "raised PageFaultException t"
proof -
  have wf: "machine_wf t" using two_programs_ok confined_start [of two_programs 0] by (simp add: t_def two_programs_live confined_def machine_wf_def)
  have sp: "space t = demo_space" "reg t BadVAddrReg = 0" "pageTables t = pageTables two_programs" "memmanage t = memmanage demo_vm"
      "host t = host two_programs" "tlb t = None" "pageTable t = Some 0" "pageTableSize t = 1"
    by (simp_all add: t_def reg_defs)
  have ok: "space_ok {} demo_space t"
    using two_programs_ok space_view_cong(1) [of t two_programs "{}" demo_space] two_programs_live(1) [of 0]
    by (auto simp: system_ok_def spaces_ok_def t_def)
  have tb: "tbl demo_space t = [fresh_pte 0]" by (simp add: tbl_def sp demo_space_def)
  have rd: "read_header False (replicate 40 0) (stored_executable demo_space) (host t) = Inr demo_header"
    using demo_header_bytes by (simp add: read_header_def OpenFile_ReadAt_def Let_def demo_space_def sp) (simp add: demo_header_def)
  have room: "\<not> {0..<int NumPhysPages} \<subseteq> pages_in_use (memmanage t)" unfolding sp demo_mm(2) by (simp add: size_defs)
  have "0 = unat (reg t BadVAddrReg) div PageSize" "\<not> valid (tbl (space t) t ! 0)" by (simp_all add: sp tb fresh_pte_def)
  then show "\<exists>s'. ExceptionHandler False (replicate 40 0) 0 PageFaultException t = Inr (Resume, s')"
    using page_fault_served [OF wf, of 0 False "replicate 40 0" demo_header 0] ok rd room demo_in_file by (simp add: sp) blast
  show "raised PageFaultException t" by (simp add: raised_def find_entry_def sp fresh_pte_def)
qed

lemma two_programs_instruction:
  "\<exists>s'. sys_step False two_programs Instr s' \<and> exec_safe two_programs s'"
proof -
  let ?t = "two_programs\<lparr>status := SystemMode\<rparr>"
  obtain s2 where h: "ExceptionHandler False (replicate 40 0) 0 PageFaultException ?t = Inr (Resume, s2)" using two_programs_fault(1) by blast
  have "Translate (reg two_programs PCReg) 4 False two_programs = Inr (Inl PageFaultException, two_programs)"
    by (simp add: Translate_def find_entry_def Let_def reg_defs fresh_pte_def)
  moreover have "DelayedLoad 0 0 (set_reg BadVAddrReg (reg two_programs PCReg) two_programs) = Inr two_programs"
  proof -
    have "(replicate 40 0)[n := 0] = replicate 40 (0 :: 32 word)" for n
      by (cases "n < 40") (simp_all add: list_update_same_conv list_update_beyond)
    moreover have "two_programs\<lparr>registers := replicate 40 0\<rparr> = two_programs"
      by (simp add: two_programs_def demo_vm_def demo_machine_def VM.defs Machine.defs reg_defs)
    ultimately show ?thesis by (simp add: DelayedLoad_def set_reg_def Let_def reg_defs)
  qed
  moreover have "trap_handler False (replicate 40 0) 0 PageFaultException ?t = Inr (set_mode Resume s2)" using h by (simp add: trap_handler_def)
  ultimately have run: "OneInstruction False (trap_handler False (replicate 40 0) 0) two_programs = Inr ((set_mode Resume s2)\<lparr>status := UserMode\<rparr>)"
    by (rule OneInstruction_fault)
  have c: "confined {} two_programs ?t" using confined_start [OF two_programs_ok, of 0] two_programs_live(1) [of 0]
    by (intro confined_status) (simp add: confined_def)
  have "fault_handler False (replicate 40 0) PageFaultException ?t = Inr s2"
    using h by (auto simp: ExceptionHandler_def handle_def fault_handler_def returning_Inr ReadRegister_def WriteRegister_def Let_def)
  from confined_fault [OF c two_programs_fault(2) this] have "spawned s2 = spawned two_programs" by (simp add: confined_def kernel_rest_def)
  then show ?thesis using sys_step.instruction [OF _ _ run] by (auto simp: exec_safe_def)
qed

theorem process_isolation_witness:
  "\<exists>s'. sys_run False two_programs [(two_programs, Instr, s')] s' \<and> exec_safe two_programs s' \<and> system_ok s' \<and> live 1 s' \<and>
     user_view 1 s' = user_view 1 two_programs"
proof -
  obtain s1 where s1: "sys_step False two_programs Instr s1" and safe: "exec_safe two_programs s1" using two_programs_instruction by blast
  have run: "sys_run False two_programs [(two_programs, Instr, s1)] s1" by (rule sys_run.step [OF s1 sys_run.stop])
  show ?thesis using process_isolation [OF two_programs_ok run] run safe two_programs_live by (auto simp: idle_def)
qed

theorem context_switch_witness:
  "\<exists>s'. Run_user False (User 1) two_programs = Inr s' \<and> system_ok s' \<and> pageTable s' = Some 1 \<and>
     user_registers 0 s' = replicate NumTotalRegs 0 \<and> space_image demo_space s' = space_image demo_space two_programs"
proof -
  have r: "user_registers 0 two_programs = replicate NumTotalRegs 0" by (simp add: user_registers_def)
  have "User 1 \<noteq> running two_programs" "User 1 \<notin> dead two_programs"
      "\<And>t. User 1 = User t \<Longrightarrow> t \<le> length (spawned two_programs) \<and> False = (saved two_programs t = None)" by simp_all
  from context_switch [OF two_programs_ok this] obtain s' where s': "Run_user False (User 1) two_programs = Inr s'" "system_ok s'"
      "\<forall>t. user_registers t s' = user_registers t two_programs" "pageTable s' = Some (as_pageTable (space_of 1 two_programs))"
      "space_image (space_of 0 two_programs) s' = space_image (space_of 0 two_programs) two_programs"
    using two_programs_live(1) [of 0] by auto
  then show ?thesis by (simp add: r) (simp add: second_space_def)
qed

end
