(* ===== verification/Boot.thy ===== *)
theory Boot
  imports Protection
begin

text \<open>
  The way from the command line to the first user program, in the build of \<^verbatim>\<open>userprog\<close>
  (\<^verbatim>\<open>USER_PROGRAM\<close>, \<^verbatim>\<open>FILESYS_NEEDED\<close>, \<^verbatim>\<open>FILESYS_STUB\<close>): \<^verbatim>\<open>Initialize\<close> of \<^verbatim>\<open>threads/system.cc\<close>, \<^verbatim>\<open>main\<close> of \<^verbatim>\<open>threads/main.cc\<close>
  and \<^verbatim>\<open>StartProcess\<close> of \<^verbatim>\<open>userprog/progtest.cc\<close>. It ends in a state that satisfies the invariant
  of \<^theory_text>\<open>UserProcess\<close>.
\<close>

section \<open>system.cc\<close>

text \<open>The variables that the loop over the arguments sets; \<open>seed\<close> is the argument of \<^verbatim>\<open>RandomInit\<close>.\<close>

record Options =
  debugArgs :: string
  seed :: "string option"
  randomYield :: bool
  debugUserProg :: bool
  format :: bool

definition no_options :: Options where
  "no_options = \<lparr>debugArgs = '''', seed = None, randomYield = False, debugUserProg = False, format = False\<rparr>"

fun parse_options :: "string list \<Rightarrow> Options \<Rightarrow> Options res" where
  "parse_options [] opt = Inr opt"
| "parse_options (a # argv) opt =
     (if a = ''-d'' then
        (case argv of
           [] \<Rightarrow> parse_options [] (opt\<lparr>debugArgs := ''+''\<rparr>)
         | flags # argv' \<Rightarrow> parse_options argv' (opt\<lparr>debugArgs := flags\<rparr>))
      else if a = ''-rs'' then
        (case argv of
           [] \<Rightarrow> Inl AssertFailed
         | n # argv' \<Rightarrow> parse_options argv' (opt\<lparr>seed := Some n, randomYield := True\<rparr>))
      else parse_options argv (opt\<lparr>debugUserProg := debugUserProg opt \<or> a = ''-s'', format := format opt \<or> a = ''-f''\<rparr>))"

definition MAX_PROGS :: int where "MAX_PROGS = 1023"

text \<open>
  The objects of the user side. The interrupt hardware \<open>i\<close> with the statistics, the timer and
  the enabled interrupts is made before, \<open>fs\<close> are the files of the host; uninitialised memory is
  an argument: \<open>sz\<close>, \<open>garbage\<close> and \<open>places\<close> of the three constructors, \<open>sp0\<close> and \<open>regs0\<close> of the
  threads. The main thread has no address space.
\<close>

definition Initialize_user :: "bool \<Rightarrow> bool \<Rightarrow> 32 word \<Rightarrow> TranslationEntry \<Rightarrow> 32 word list \<Rightarrow> nat option list \<Rightarrow> AddrSpace \<Rightarrow> (nat \<Rightarrow> 32 word list) \<Rightarrow>
    HostFs \<Rightarrow> Interrupt \<Rightarrow> Options \<Rightarrow> Programs res" where
  "Initialize_user HOST_IS_BIG_ENDIAN big sz entry garbage places sp0 regs0 fs i opt =
     bindE (Machine_Machine HOST_IS_BIG_ENDIAN big False (debugUserProg opt) sz entry Map.empty i) (\<lambda>m.
     bindE (MemoryManager_MemoryManager (int NumPhysPages) garbage) (\<lambda>mm.
     Inr (VM.extend (Machine.extend m (VM.fields mm fs 0 False))
       \<lparr>space = sp0, exit_status = 0, threadlist = Table_Table MAX_PROGS places, spawned = [], running = KernelOnly 0, mode = (\<lambda>_. Resume),
        userRegisters = regs0, saved = Map.empty, exit_statuses = (\<lambda>_. 0), threadToBeDestroyed = None, dead = {}\<rparr>)))"

section \<open>progtest.cc\<close>

text \<open>\<^verbatim>\<open>StartProcess\<close>, up to the call of \<^verbatim>\<open>machine->Run\<close>; the result says whether it is reached.\<close>

definition StartProcess :: "bool \<Rightarrow> 8 word list \<Rightarrow> 32 word \<Rightarrow> string \<Rightarrow> 'a Programs_scheme \<Rightarrow> (bool \<times> 'a Programs_scheme) res" where
  "StartProcess big junk hand filename s =
     (case FileSystem_Open filename (host s) of
        None \<Rightarrow> Inr (False, s)
      | Some executable \<Rightarrow>
          bindE (Initialize big junk hand executable s) (\<lambda>(sp, s1).
          bindE (InitRegisters sp (s1\<lparr>space := sp, running := User 0\<rparr>)) (\<lambda>s2.
          Inr (True, RestoreState sp s2))))"

section \<open>main.cc\<close>

text \<open>What \<^verbatim>\<open>main\<close> comes to: the first program, the test of the console, or the end of the main thread.\<close>

datatype 's boot_result = InUser 's | InConsole "string list" 's | MainFinishes 's

fun main_args :: "bool \<Rightarrow> 8 word list \<Rightarrow> 32 word \<Rightarrow> string list \<Rightarrow> 'a Programs_scheme \<Rightarrow> 'a Programs_scheme boot_result res" where
  "main_args big junk hand [] s = Inr (MainFinishes s)"
| "main_args big junk hand (a # argv) s =
     (if a = ''-b'' then main_args big junk hand argv (s\<lparr>use_fifo := True\<rparr>)
      else if a = ''-x'' then
        (case argv of
           [] \<Rightarrow> Inl AssertFailed
         | filename # argv' \<Rightarrow> bindE (StartProcess big junk hand filename s) (\<lambda>(started, s1).
             if started then Inr (InUser s1) else main_args big junk hand argv' s1))
      else if a = ''-c'' then
        (case argv of
           [] \<Rightarrow> Inr (InConsole [] s)
         | [_] \<Rightarrow> Inl AssertFailed
         | inp # out # _ \<Rightarrow> Inr (InConsole [inp, out] s))
      else main_args big junk hand argv s)"

definition main_user :: "bool \<Rightarrow> bool \<Rightarrow> 32 word \<Rightarrow> TranslationEntry \<Rightarrow> 32 word list \<Rightarrow> nat option list \<Rightarrow> AddrSpace \<Rightarrow> (nat \<Rightarrow> 32 word list) \<Rightarrow>
    8 word list \<Rightarrow> 32 word \<Rightarrow> HostFs \<Rightarrow> Interrupt \<Rightarrow> string list \<Rightarrow> Programs boot_result res" where
  "main_user HOST_IS_BIG_ENDIAN big sz entry garbage places sp0 regs0 junk hand fs i argv =
     bindE (parse_options argv no_options) (\<lambda>opt.
     bindE (Initialize_user HOST_IS_BIG_ENDIAN big sz entry garbage places sp0 regs0 fs i opt)
       (main_args big junk hand argv))"

section \<open>A booted system\<close>

definition files_wf :: "HostFs \<Rightarrow> bool" where
  "files_wf fs \<longleftrightarrow> (\<forall>nm i. names fs nm = Some i \<longrightarrow> i < next_inode fs)"

definition booted :: "'a Programs_scheme \<Rightarrow> bool" where
  "booted s \<longleftrightarrow> cpu_wf s \<and> tlb s = None \<and> mm_inv (memmanage s) \<and> mNumPages (memmanage s) = int NumPhysPages \<and>
     spawned s = [] \<and> (\<forall>t. mode s t = Resume \<and> saved s t = None \<and> length (userRegisters s t) = NumTotalRegs) \<and>
     threadToBeDestroyed s = None \<and> dead s = {} \<and> files_wf (host s)"

lemma CheckEndian_ok: "CheckEndian big big = Inr ()"
  by (cases big) (simp_all add: CheckEndian_def host_load32_def ASSERT_def, code_simp+)

lemma Initialize_user_ok:
  assumes "garbage \<noteq> []" and "\<forall>t. length (regs0 t) = NumTotalRegs" and "files_wf fs"
  shows "\<exists>s. Initialize_user big big sz entry garbage places sp0 regs0 fs i opt = Inr s \<and> booted s \<and> host s = fs \<and> use_fifo s = False \<and>
    pages_in_use (memmanage s) = {}"
proof -
  have "nat (divRoundUp 4 BitsInWord) \<le> length garbage" using assms(1) by (cases garbage) (simp_all add: divRoundUp_nonneg BitsInWord_def)
  from BitMap_BitMap_empty [OF this] obtain bm where bm: "BitMap_BitMap 4 garbage = Inr bm" "wf_bitmap bm" "numBits bm = 4" "used bm = {}" by blast
  then have "mm_inv \<lparr>mNumPages = 4, mm_bmap = bm\<rparr>" by (simp add: mm_inv_def bitmap_inv_def)
  with bm assms(2,3) show ?thesis
    by (simp add: Initialize_user_def Machine_Machine_def CheckEndian_ok MemoryManager_MemoryManager_def NumPhysPages_def booted_def
        VM.defs Machine.defs Interrupt.defs cpu_wf_def pages_in_use_def reg_defs)
qed

lemma Initialize_files:
  assumes "Initialize big junk hand exe s = Inr (sp, s')" and "files_wf (host s)"
  shows "as_pageTable sp < pt_next s'" "stored_executable sp = exe" "swap_inode sp < next_inode (host s')"
    and "files_wf (host s')" "next_inode (host s) \<le> next_inode (host s')"
    and "registers s' = registers s" "VM.more s' = VM.more s" "tlb s' = tlb s" "use_fifo s' = use_fifo s"
  using assms
  by (auto simp: files_wf_def Initialize_def Let_def split_def BackingStore_BackingStore_def FileSystem_Create_def FileSystem_Open_def OpenForWrite_def
      less_Suc_eq split: option.splits if_splits)

lemma first_program_ok:
  assumes b: "booted s" and s': "cpu_wf s'" "tlb s' = None" "memmanage s' = memmanage s" "running s' = User 0" "space s' = sp" "space_ok {} sp s'"
      "pageTable s' = Some (as_pageTable sp)" "pageTableSize s' = numPages sp" "spawned s' = []" "mode s' = mode s" "saved s' = saved s"
      "userRegisters s' = userRegisters s" "threadToBeDestroyed s' = None" "dead s' = {}" "as_pageTable sp < pt_next s'"
      "swap_inode sp < next_inode (host s')" "exe_inode sp < next_inode (host s')" "files_wf (host s')"
  shows "system_ok s'"
proof -
  have sp: "space_of 0 s' = sp" using s' by (simp add: space_of_def)
  have "live t s' \<longleftrightarrow> t = 0" for t using b s' by (auto simp: live_def booted_def)
  then have "spaces_ok s'" using s' sp by (simp add: spaces_ok_def)
  moreover have "threads_ok s'" using b s' sp by (auto simp: threads_ok_def started_def booted_def files_wf_def)
  moreover have "installed s'" using b s' by (simp add: installed_def booted_def)
  ultimately show ?thesis by (simp add: system_ok_def)
qed

text \<open>The conditions on an object file under which \<^verbatim>\<open>Initialize\<close> makes a good address space of it.\<close>

definition loadable :: "bool \<Rightarrow> 8 word list \<Rightarrow> string \<Rightarrow> HostFs \<Rightarrow> NoffHeader \<Rightarrow> bool" where
  "loadable big junk filename fs h \<longleftrightarrow>
     (\<exists>n. names fs filename = Some n \<and> read_header big junk \<lparr>of_inode = n, currentOffset = 0\<rparr> fs = Inr h \<and>
        (\<forall>k. names fs (''bs'' @ digits k) \<noteq> Some n)) \<and>
     unat (seg_size (code h)) + unat (seg_size (initData h)) + unat (seg_size (uninitData h)) + 1024 < 2 ^ 31 - 128"

lemma StartProcess_ok:
  assumes b: "booted s" and l: "loadable big junk filename (host s) h"
  shows "\<exists>s'. StartProcess big junk hand filename s = Inr (True, s') \<and> system_ok s' \<and> running s' = User 0 \<and>
    registers s' = start_registers (space s') \<and> (\<forall>i < npages (space s'). page_data (space s') s' i = None) \<and> use_fifo s' = use_fifo s"
proof -
  obtain n where n: "names (host s) filename = Some n" "read_header big junk \<lparr>of_inode = n, currentOffset = 0\<rparr> (host s) = Inr h"
      "\<And>k. names (host s) (''bs'' @ digits k) \<noteq> Some n"
    and sz: "unat (seg_size (code h)) + unat (seg_size (initData h)) + unat (seg_size (uninitData h)) + 1024 < 2 ^ 31 - 128"
    using l by (auto simp: loadable_def)
  let ?exe = "\<lparr>of_inode = n, currentOffset = 0\<rparr>"
  have nm: "files_wf (host s)" using b by (simp add: booted_def)
  have exe: "of_inode ?exe < next_inode (host s)" using nm n(1) by (simp add: files_wf_def)
  have mm: "mm_inv (memmanage s)" "mNumPages (memmanage s) = int NumPhysPages" "length (mainMemory s) = MemorySize"
    using b by (simp_all add: booted_def cpu_wf_def)
  obtain sp s1 where s1: "Initialize big junk hand ?exe s = Inr (sp, s1)" "space_ok {} sp s1" "\<forall>i < npages sp. page_data sp s1 i = None"
      "memmanage s1 = memmanage s" "mainMemory s1 = mainMemory s"
    using Initialize_new [OF n(2) sz exe _ mm, of hand] n(3) by auto
  note f = Initialize_files [OF s1(1) nm]
  note more = process_of_VM [OF f(7)] and sys = system_of_Process [OF process_of_VM(5) [OF f(7)]]
  let ?s' = "s1\<lparr>space := sp, running := User 0, registers := start_registers sp, pageTable := Some (as_pageTable sp), pageTableSize := numPages sp\<rparr>"
  have len: "length (registers s1) = NumTotalRegs" using b f(6) by (simp add: booted_def cpu_wf_def)
  have run: "StartProcess big junk hand filename s = Inr (True, ?s')"
    using n(1) s1(1) InitRegisters_ok [of "s1\<lparr>space := sp, running := User 0\<rparr>" sp] len
    by (simp add: StartProcess_def FileSystem_Open_def RestoreState_def)
  note v = space_view_cong [of ?s' s1, simplified]
  have bt: "mode s = (\<lambda>_. Resume)" "spawned s = []" "threadToBeDestroyed s = None" "dead s = {}" "tlb s = None" using b by (auto simp: booted_def)
  have "system_ok ?s'"
  proof (rule first_program_ok [OF b])
    show "cpu_wf ?s'" using mm(3) s1(5) start_LoadReg by (simp add: cpu_wf_def reg_defs)
    show "exe_inode sp < next_inode (host ?s')" using exe f(2,5) by simp
  qed (use s1 f more sys bt v in auto)
  then show ?thesis using run s1(3) v f(9) by (intro exI [of _ ?s']) simp
qed

text \<open>The arguments before \<^verbatim>\<open>-x\<close>.\<close>

lemma main_args_skip:
  assumes "''-x'' \<notin> set pre" "''-c'' \<notin> set pre"
  shows "main_args big junk hand (pre @ argv) s = main_args big junk hand argv (s\<lparr>use_fifo := use_fifo s \<or> ''-b'' \<in> set pre\<rparr>)"
  using assms
proof (induction pre arbitrary: s)
  case Nil
  then show ?case by simp
next
  case (Cons a pre)
  then show ?case by (cases "a = ''-b''") auto
qed

section \<open>Properties\<close>

text \<open>
  C32. Nachos boots into a well-formed system with one program. When the arguments parse, the
  first \<^verbatim>\<open>-x\<close> names an object file that can be loaded (\<open>loadable\<close>: it exists, has a good header, fits, and is not
  a backing file), \<^verbatim>\<open>main\<close> reaches the processor with the invariant of the running programs, whatever
  the memory held before: program 0 runs, with the registers of \<^verbatim>\<open>InitRegisters\<close>, none of its pages
  loaded, and its page table installed. The replacement of pages is first-in first-out exactly
  when \<^verbatim>\<open>-b\<close> came before.
\<close>

theorem boot_first_program:
  assumes "parse_options (pre @ ''-x'' # filename # post) no_options = Inr opt" and "''-x'' \<notin> set pre" and "''-c'' \<notin> set pre"
    and "garbage \<noteq> []" and "\<forall>t. length (regs0 t) = NumTotalRegs" and "files_wf fs"
    and "loadable big junk filename fs h"
  shows "\<exists>s'. main_user big big sz entry garbage places sp0 regs0 junk hand fs i (pre @ ''-x'' # filename # post) = Inr (InUser s') \<and>
    system_ok s' \<and> running s' = User 0 \<and> registers s' = start_registers (space s') \<and>
    (\<forall>i < npages (space s'). page_data (space s') s' i = None) \<and> use_fifo s' = (''-b'' \<in> set pre)"
proof -
  obtain s where s: "Initialize_user big big sz entry garbage places sp0 regs0 fs i opt = Inr s" "booted s" "host s = fs" "use_fifo s = False"
    using Initialize_user_ok [OF assms(4-6)] by blast
  let ?s = "s\<lparr>use_fifo := ''-b'' \<in> set pre\<rparr>"
  have "booted ?s" "loadable big junk filename (host ?s) h" using s(2,3) assms(7) by (simp_all add: booted_def cpu_wf_def)
  from StartProcess_ok [OF this, of hand] obtain s' where s': "StartProcess big junk hand filename ?s = Inr (True, s')" "system_ok s'" "running s' = User 0"
      "registers s' = start_registers (space s')" "\<forall>i < npages (space s'). page_data (space s') s' i = None" "use_fifo s' = (''-b'' \<in> set pre)" by auto
  have "main_user big big sz entry garbage places sp0 regs0 junk hand fs i (pre @ ''-x'' # filename # post) = Inr (InUser s')"
    using assms(1) s(1,4) s'(1) main_args_skip [OF assms(2,3), of big junk hand "''-x'' # filename # post" s] by (simp add: main_user_def)
  with s' show ?thesis by blast
qed

text \<open>The files of \<open>Paging\<close>'s example, with a name for the object file.\<close>

definition demo_files :: HostFs where
  "demo_files = \<lparr>inodes = (\<lambda>_. [])(0 := demo_exe), names = [''halt'' \<mapsto> 0], next_inode = 1\<rparr>"

theorem boot_first_program_witness:
  "\<exists>s'. main_user False False 0 (fresh_pte 0) [7] [] demo_space (\<lambda>_. replicate NumTotalRegs 0) (replicate 40 0) 77 demo_files (Interrupt_Interrupt Statistics_Statistics)
     [''-b'', ''-x'', ''halt''] = Inr (InUser s') \<and> system_ok s' \<and> running s' = User 0 \<and> use_fifo s'"
proof -
  have "''bs'' @ digits k \<noteq> ''halt''" for k by simp
  moreover have "read_header False (replicate 40 0) \<lparr>of_inode = 0, currentOffset = 0\<rparr> demo_files = Inr demo_header"
    using demo_header_bytes by (simp add: read_header_def OpenFile_ReadAt_def Let_def demo_files_def) (simp add: demo_header_def)
  ultimately have "loadable False (replicate 40 0) ''halt'' demo_files demo_header"
    by (simp add: loadable_def demo_files_def) (simp add: demo_header_def)
  moreover have "parse_options ([''-b''] @ ''-x'' # ''halt'' # []) no_options = Inr no_options" by (simp add: no_options_def)
  moreover have "files_wf demo_files" by (auto simp: files_wf_def demo_files_def split: if_splits)
  ultimately have "\<exists>s'. main_user False False 0 (fresh_pte 0) [7] [] demo_space (\<lambda>_. replicate NumTotalRegs 0) (replicate 40 0) 77 demo_files
      (Interrupt_Interrupt Statistics_Statistics) ([''-b''] @ ''-x'' # ''halt'' # []) = Inr (InUser s') \<and> system_ok s' \<and> running s' = User 0 \<and>
      registers s' = start_registers (space s') \<and> (\<forall>i < npages (space s'). page_data (space s') s' i = None) \<and> use_fifo s' = (''-b'' \<in> set [''-b''])"
    by (intro boot_first_program) simp_all
  then show ?thesis by auto
qed

end
