(* ===== verification/Coff2Noff.thy ===== *)
theory Coff2Noff
  imports Paging
begin

text \<open>
  The converter of object files, \<^verbatim>\<open>bin/coff2noff.c\<close>, which makes the NOFF files that
  \<^verbatim>\<open>userprog/addrspace.cc\<close> loads from the COFF files of the compiler. It is built with
  \<^verbatim>\<open>gcc -m32\<close>, so that \<^verbatim>\<open>long\<close> has 32 bits and the structs of \<^verbatim>\<open>bin/coff.h\<close> have the layout of the
  file. The files are those of \<open>HostFs\<close>; every \<^verbatim>\<open>exit(1)\<close> is a failure with the files as they are
  left. \<^verbatim>\<open>malloc\<close> succeeds and the host's disk is not full; whether the output can be opened at all is
  an argument, as is what the uninitialised local \<^verbatim>\<open>noffH\<close> held.
\<close>

section \<open>State\<close>

definition MIPSELMAGIC :: "16 word" where "MIPSELMAGIC = 0x0162"
definition OMAGIC :: "16 word" where "OMAGIC = 0x107"

lemmas magic_defs = MIPSELMAGIC_def OMAGIC_def NOFFMAGIC_def

record scnhdr =
  s_name :: "8 word list"
  s_paddr :: "32 word"
  s_size :: "32 word"
  s_scnptr :: "32 word"

datatype coff_exit = Usage | NoInput | TooShort | CannotWrite | NotMipsel | NotOmagic | BothData
  | BothBss | UnknownSegment

text \<open>The locals of \<^verbatim>\<open>main\<close>; a descriptor that is \<^verbatim>\<open>-1\<close> and a NULL name are \<open>None\<close>.\<close>

record Converter =
  files :: HostFs
  fdIn :: OpenFile
  fdOut :: "OpenFile option"
  noffFileName :: "string option"
  noffH :: NoffHeader
  inNoffFile :: "32 word"

type_synonym 'a run = "coff_exit \<times> HostFs + 'a"

section \<open>The calls of UNIX\<close>

text \<open>
  \<^verbatim>\<open>read\<close> and \<^verbatim>\<open>write\<close> advance the position of the descriptor; a count that is negative as an \<^verbatim>\<open>int\<close>
  exceeds \<^verbatim>\<open>SSIZE_MAX\<close> and gives \<^verbatim>\<open>-1\<close>, as does a bad descriptor. \<^verbatim>\<open>lseek\<close> to a negative offset fails
  and leaves the position.
\<close>

definition sys_read :: "int \<Rightarrow> Converter \<Rightarrow> int \<times> 8 word list \<times> Converter" where
  "sys_read n c =
     (if n < 0 then (- 1, [], c)
      else let f = fdIn c;
               bs = pread (inodes (files c) (of_inode f)) (nat (currentOffset f)) (nat n)
           in (int (length bs), bs, c\<lparr>fdIn := f\<lparr>currentOffset := currentOffset f + int (length bs)\<rparr>\<rparr>))"

definition sys_write :: "8 word list \<Rightarrow> int \<Rightarrow> Converter \<Rightarrow> int \<times> Converter" where
  "sys_write buf n c =
     (case fdOut c of
        None \<Rightarrow> (- 1, c)
      | Some f \<Rightarrow>
          if n < 0 then (- 1, c)
          else let i = of_inode f; fs = files c
               in (n, c\<lparr>files := fs\<lparr>inodes := (inodes fs)(i :=
                          pwrite (inodes fs i) (nat (currentOffset f)) (take (nat n) buf))\<rparr>,
                        fdOut := Some (f\<lparr>currentOffset := currentOffset f + n\<rparr>)\<rparr>))"

definition lseek_in :: "int \<Rightarrow> Converter \<Rightarrow> Converter" where
  "lseek_in off c = (if off < 0 then c else c\<lparr>fdIn := (fdIn c)\<lparr>currentOffset := off\<rparr>\<rparr>)"

definition lseek_out :: "int \<Rightarrow> Converter \<Rightarrow> Converter" where
  "lseek_out off c =
     (if off < 0 then c else c\<lparr>fdOut := map_option (\<lambda>f. f\<lparr>currentOffset := off\<rparr>) (fdOut c)\<rparr>)"

section \<open>coff2noff.c\<close>

text \<open>\<^verbatim>\<open>unlink(noffFileName); exit(1);\<close>\<close>

definition unlink_exit :: "coff_exit \<Rightarrow> Converter \<Rightarrow> 'a run" where
  "unlink_exit e c = Inl (e, case noffFileName c of None \<Rightarrow> files c
                                | Some n \<Rightarrow> snd (FileSystem_Remove n (files c)))"

definition Read_check :: "int \<Rightarrow> Converter \<Rightarrow> (8 word list \<times> Converter) run" where
  "Read_check nBytes c =
     (let (r, bs, c1) = sys_read nBytes c
      in if r \<noteq> nBytes then unlink_exit TooShort c1 else Inr (bs, c1))"

definition Write_check :: "8 word list \<Rightarrow> int \<Rightarrow> Converter \<Rightarrow> Converter run" where
  "Write_check buf nBytes c =
     (let (r, c1) = sys_write buf nBytes c
      in if r \<noteq> nBytes then unlink_exit CannotWrite c1 else Inr c1)"

text \<open>
  Entry \<open>i\<close> of the array \<^verbatim>\<open>sections\<close>, with the conversion of its three words. The names that
  \<^verbatim>\<open>strcmp\<close> compares with are shorter than the field, so that it stops inside of it.
\<close>

definition section_of :: "bool \<Rightarrow> 8 word list \<Rightarrow> nat \<Rightarrow> scnhdr" where
  "section_of big bs i =
     \<lparr>s_name = take 8 (drop (40 * i) bs),
      s_paddr = WordToHost big (host_load32 big bs (40 * i + 8)),
      s_size = WordToHost big (host_load32 big bs (40 * i + 16)),
      s_scnptr = WordToHost big (host_load32 big bs (40 * i + 20))\<rparr>"

definition named :: "scnhdr \<Rightarrow> string \<Rightarrow> bool" where
  "named sec nm \<longleftrightarrow> take (Suc (length nm)) (s_name sec) = map of_char nm @ [0]"

text \<open>The lines that the branches of \<^verbatim>\<open>.text\<close> and \<^verbatim>\<open>.data\<close> share.\<close>

definition copy_section :: "scnhdr \<Rightarrow> Converter \<Rightarrow> Converter run" where
  "copy_section sec c =
     bindE (Read_check (sint (s_size sec)) (lseek_in (sint (s_scnptr sec)) c)) (\<lambda>(buffer, c1).
     bindE (Write_check buffer (sint (s_size sec)) c1) (\<lambda>c2.
     Inr (c2\<lparr>inNoffFile := inNoffFile c2 + s_size sec\<rparr>)))"

definition segment_at :: "scnhdr \<Rightarrow> Converter \<Rightarrow> Segment" where
  "segment_at sec c = \<lparr>virtualAddr = s_paddr sec, inFileAddr = inNoffFile c, seg_size = s_size sec\<rparr>"

definition load_section :: "scnhdr \<Rightarrow> Converter \<Rightarrow> Converter run" where
  "load_section sec c =
     (let h = noffH c; u = uninitData h in
      if s_size sec = 0 then Inr c
      else if named sec ''.text'' then
        copy_section sec (c\<lparr>noffH := h\<lparr>code := segment_at sec c\<rparr>\<rparr>)
      else if named sec ''.data'' \<or> named sec ''.rdata'' then
        (if seg_size (initData h) \<noteq> 0 then unlink_exit BothData c
         else copy_section sec (c\<lparr>noffH := h\<lparr>initData := segment_at sec c\<rparr>\<rparr>))
      else if named sec ''.bss'' \<or> named sec ''.sbss'' then
        (if seg_size u \<noteq> 0 then
           if s_paddr sec = virtualAddr u + seg_size u then unlink_exit BothBss c
           else Inr (c\<lparr>noffH := h\<lparr>uninitData := u\<lparr>seg_size := seg_size u + s_size sec\<rparr>\<rparr>\<rparr>)
         else Inr (c\<lparr>noffH := h\<lparr>uninitData := u\<lparr>virtualAddr := s_paddr sec, seg_size := s_size sec\<rparr>\<rparr>\<rparr>))
      else unlink_exit UnknownSegment c)"

text \<open>The bytes of \<^verbatim>\<open>noffH\<close> in memory.\<close>

definition segment_bytes :: "bool \<Rightarrow> Segment \<Rightarrow> 8 word list" where
  "segment_bytes big g =
     host_bytes32 big (virtualAddr g) @ host_bytes32 big (inFileAddr g) @ host_bytes32 big (seg_size g)"

definition header_bytes :: "bool \<Rightarrow> NoffHeader \<Rightarrow> 8 word list" where
  "header_bytes big h = host_bytes32 big (noffMagic h) @ segment_bytes big (code h) @
     segment_bytes big (initData h) @ segment_bytes big (uninitData h)"

definition empty_header :: "NoffHeader \<Rightarrow> NoffHeader" where
  "empty_header junk = junk\<lparr>noffMagic := NOFFMAGIC, code := (code junk)\<lparr>seg_size := 0\<rparr>,
     initData := (initData junk)\<lparr>seg_size := 0\<rparr>, uninitData := (uninitData junk)\<lparr>seg_size := 0\<rparr>\<rparr>"

text \<open>From the reading of the headers on, and the whole of \<^verbatim>\<open>main\<close>.\<close>

definition read_sections :: "bool \<Rightarrow> Converter \<Rightarrow> (scnhdr list \<times> Converter) run" where
  "read_sections big c =
     bindE (Read_check 20 c) (\<lambda>(fileh, c1).
     if ShortToHost big (host_load16 big fileh 0) \<noteq> MIPSELMAGIC then unlink_exit NotMipsel c1
     else let numsections = unat (ShortToHost big (host_load16 big fileh 2)) in
     bindE (Read_check 56 c1) (\<lambda>(systemh, c2).
     if ShortToHost big (host_load16 big systemh 0) \<noteq> OMAGIC then unlink_exit NotOmagic c2
     else bindE (Read_check (int (numsections * 40)) c2) (\<lambda>(sections, c3).
     Inr (map (section_of big sections) [0..<numsections], c3))))"

definition convert :: "bool \<Rightarrow> NoffHeader \<Rightarrow> Converter \<Rightarrow> Converter run" where
  "convert big junk c =
     bindE (read_sections big c) (\<lambda>(sections, c1).
     bindE (foldE load_section sections
              (lseek_out 40 (c1\<lparr>noffH := empty_header junk, inNoffFile := 40\<rparr>))) (\<lambda>c2.
     Write_check (header_bytes big (noffH c2)) 40 (lseek_out 0 c2)))"

definition open_output :: "bool \<Rightarrow> string list \<Rightarrow> HostFs \<Rightarrow> OpenFile option \<times> HostFs" where
  "open_output granted argv fs =
     (if 2 < length argv \<and> granted
      then let (i, fs1) = OpenForWrite (argv ! 2) fs in (Some \<lparr>of_inode = i, currentOffset = 0\<rparr>, fs1)
      else (None, fs))"

definition coff2noff :: "bool \<Rightarrow> NoffHeader \<Rightarrow> bool \<Rightarrow> string list \<Rightarrow> HostFs \<Rightarrow> HostFs run" where
  "coff2noff big junk granted argv fs =
     (if length argv < 2 then Inl (Usage, fs)
      else case names fs (argv ! 1) of None \<Rightarrow> Inl (NoInput, fs)
      | Some i \<Rightarrow>
        let (out, fs1) = open_output granted argv fs;
            c = \<lparr>files = fs1, fdIn = \<lparr>of_inode = i, currentOffset = 0\<rparr>, fdOut = out,
                 noffFileName = (if 2 < length argv then Some (argv ! 2) else None),
                 noffH = junk, inNoffFile = 0\<rparr>
        in bindE (convert big junk c) (\<lambda>c1. Inr (files c1)))"


section \<open>What a COFF file says\<close>

text \<open>
  The sections of a COFF file, read from its bytes with no regard to the host: a file header of 20
  bytes, a system header of 56, then 40 bytes for each section.
\<close>

definition word_at :: "8 word list \<Rightarrow> nat \<Rightarrow> 32 word" where
  "word_at d a = le32 (d ! a) (d ! (a + 1)) (d ! (a + 2)) (d ! (a + 3))"

definition short_at :: "8 word list \<Rightarrow> nat \<Rightarrow> 16 word" where
  "short_at d a = le16 (d ! a) (d ! (a + 1))"

definition coff_section :: "8 word list \<Rightarrow> nat \<Rightarrow> scnhdr" where
  "coff_section d i =
     \<lparr>s_name = take 8 (drop (76 + 40 * i) d), s_paddr = word_at d (76 + 40 * i + 8),
      s_size = word_at d (76 + 40 * i + 16), s_scnptr = word_at d (76 + 40 * i + 20)\<rparr>"

definition coff_sections :: "8 word list \<Rightarrow> scnhdr list" where
  "coff_sections d = map (coff_section d) [0..<unat (short_at d 2)]"

datatype segment_kind = Text | Data | Bss

definition section_kind :: "scnhdr \<Rightarrow> segment_kind option" where
  "section_kind sec =
     (if s_size sec = 0 then None
      else if named sec ''.text'' then Some Text
      else if named sec ''.data'' \<or> named sec ''.rdata'' then Some Data
      else if named sec ''.bss'' \<or> named sec ''.sbss'' then Some Bss
      else None)"

definition in_file :: "scnhdr \<Rightarrow> bool" where
  "in_file sec \<longleftrightarrow> section_kind sec = Some Text \<or> section_kind sec = Some Data"

fun segment :: "segment_kind \<Rightarrow> NoffHeader \<Rightarrow> Segment" where
  "segment Text h = code h"
| "segment Data h = initData h"
| "segment Bss h = uninitData h"

definition section_data :: "8 word list \<Rightarrow> scnhdr \<Rightarrow> 8 word list" where
  "section_data d sec = pread d (unat (s_scnptr sec)) (unat (s_size sec))"

definition bytes_to_copy :: "scnhdr list \<Rightarrow> nat" where
  "bytes_to_copy secs = sum_list (map (\<lambda>sec. unat (s_size sec)) (filter in_file secs))"

text \<open>
  The files that the comment at the head of the source admits: both magic numbers, known sections
  only, at most one of each kind that is not empty, their bytes in the file.
\<close>

definition section_ok :: "8 word list \<Rightarrow> scnhdr \<Rightarrow> bool" where
  "section_ok d sec \<longleftrightarrow>
     (s_size sec = 0 \<or> section_kind sec \<noteq> None) \<and>
     (in_file sec \<longrightarrow> unat (s_scnptr sec) < 2 ^ 31 \<and> unat (s_scnptr sec) + unat (s_size sec) \<le> length d \<and>
        unat (s_paddr sec) + unat (s_size sec) < 2 ^ 31)"

definition coff_ok :: "8 word list \<Rightarrow> bool" where
  "coff_ok d \<longleftrightarrow>
     76 + 40 * unat (short_at d 2) \<le> length d \<and> short_at d 0 = MIPSELMAGIC \<and> short_at d 20 = OMAGIC \<and>
     (\<forall>sec \<in> set (coff_sections d). section_ok d sec) \<and>
     distinct (List.map_filter section_kind (coff_sections d)) \<and>
     40 + bytes_to_copy (coff_sections d) < 2 ^ 31"

text \<open>The segment of the header \<open>h\<close> describes section \<open>sec\<close>, and \<open>out\<close> has the bytes where it says.\<close>

definition stored :: "8 word list \<Rightarrow> 8 word list \<Rightarrow> NoffHeader \<Rightarrow> scnhdr \<Rightarrow> bool" where
  "stored d out h sec \<longleftrightarrow>
     (case section_kind sec of
        None \<Rightarrow> True
      | Some k \<Rightarrow>
          (let g = segment k h; a = unat (inFileAddr g) in
           virtualAddr g = s_paddr sec \<and> seg_size g = s_size sec \<and>
           (k \<noteq> Bss \<longrightarrow> 40 \<le> a \<and> a + unat (s_size sec) \<le> length out \<and> a + unat (s_size sec) < 2 ^ 31 \<and>
              pread out a (unat (s_size sec)) = section_data d sec)))"

section \<open>The headers\<close>

lemma section_of_bytes:
  assumes "i < n" "76 + 40 * n \<le> length d"
  shows "section_of big (pread d 76 (n * 40)) i = coff_section d i"
proof -
  have i: "40 * i + 40 \<le> n * 40" using assms by simp
  then have w: "WordToHost big (host_load32 big (pread d 76 (n * 40)) (40 * i + b)) = word_at d (76 + 40 * i + b)"
    if "b + 4 \<le> 40" for b
    using that assms by (simp add: pread_def word_at_def add.assoc)
  have "take 8 (drop (40 * i) (pread d 76 (n * 40))) = take 8 (drop (76 + 40 * i) d)"
    using i by (simp add: pread_def take_drop min_def add.commute)
  then show ?thesis using w [of 8] w [of 16] w [of 20] by (simp add: section_of_def coff_section_def)
qed

lemma length_host_bytes32 [simp]: "length (host_bytes32 big w) = 4"
  by (simp add: host_bytes32_def)

lemma length_header_bytes [simp]: "length (header_bytes big h) = 40"
  by (simp add: header_bytes_def segment_bytes_def)

text \<open>A word written by one host and read by another of the same or the other byte order.\<close>

definition recode :: "bool \<Rightarrow> bool \<Rightarrow> 32 word \<Rightarrow> 32 word" where
  "recode bigr bigw w = (if bigr = bigw then w else WordToHost True w)"

lemma host_load32_field:
  "host_load32 bigr (host_bytes32 bigw w @ bs) 0 = recode bigr bigw w"
  "host_load32 bigr (host_bytes32 bigw w) 0 = recode bigr bigw w"
proof -
  have "WordToHost True w = le32 (byte_of 3 w) (byte_of 2 w) (byte_of (Suc 0) w) (byte_of 0 w)"
    using WordToHost_le32 [of "byte_of 0 w" "byte_of (Suc 0) w" "byte_of 2 w" "byte_of 3 w"] by simp
  then show "host_load32 bigr (host_bytes32 bigw w @ bs) 0 = recode bigr bigw w"
    "host_load32 bigr (host_bytes32 bigw w) 0 = recode bigr bigw w"
    by (auto simp: host_load32_def host_bytes32_def recode_def)
qed

lemma host_load32_skip:
  "4 \<le> n \<Longrightarrow> host_load32 bigr (host_bytes32 bigw v @ bs) n = host_load32 bigr bs (n - 4)"
  by (auto simp: le_iff_add host_load32_def nth_append add.assoc)

definition recode_header :: "bool \<Rightarrow> bool \<Rightarrow> NoffHeader \<Rightarrow> NoffHeader" where
  "recode_header bigr bigw h = (if bigr = bigw then h else SwapHeader True h)"

lemma header_of_bytes: "header_of bigr (header_bytes bigw h) = recode_header bigr bigw h"
  unfolding header_bytes_def segment_bytes_def append_assoc header_of_def
  by (simp add: host_load32_skip host_load32_field recode_header_def recode_def SwapHeader_def swap_segment_def)

lemma WordToHost_twice [simp]: "WordToHost True (WordToHost True w) = w"
proof -
  let ?b = "\<lambda>k. byte_of k w"
  have "WordToHost True (le32 (?b 0) (?b (Suc 0)) (?b 2) (?b 3)) = le32 (?b 3) (?b 2) (?b (Suc 0)) (?b 0)"
    by (rule WordToHost_le32)
  then show ?thesis by (simp add: WordToHost_le32)
qed

lemma SwapHeader_twice: "SwapHeader True (SwapHeader True h) = h"
  by (simp add: SwapHeader_def swap_segment_def)

lemma swapped_magic: "WordToHost True NOFFMAGIC \<noteq> NOFFMAGIC"
  by (simp add: WordToHost_def NOFFMAGIC_def)

text \<open>
  The kernel reads back the header that the converter wrote, on any host if the converter ran on
  a little-endian one, and else on a big-endian one.
\<close>

lemma read_written_header:
  assumes out: "pread (inodes fs (of_inode f)) 0 40 = header_bytes bigw h" and m: "noffMagic h = NOFFMAGIC"
    and junk: "length junk = 40" and order: "bigw \<longrightarrow> bigr"
  shows "read_header bigr junk f fs = Inr h"
proof -
  have "header_of bigr (poke 0 (header_bytes bigw h) junk) = recode_header bigr bigw h"
    using junk by (simp add: poke_def header_of_bytes)
  then have "read_header bigr junk f fs =
    (let h1 = recode_header bigr bigw h;
         h' = (if noffMagic h1 \<noteq> NOFFMAGIC \<and> WordToHost bigr (noffMagic h1) = NOFFMAGIC then SwapHeader bigr h1 else h1)
     in ASSERT (noffMagic h' = NOFFMAGIC) (Inr h'))"
    by (simp add: read_header_def OpenFile_ReadAt_def out Let_def)
  also have "\<dots> = Inr h"
  proof (cases "bigr = bigw")
    case True
    then show ?thesis using m by (simp add: recode_header_def)
  next
    case False
    then have "bigr" "\<not> bigw" using order by auto
    moreover have "noffMagic (SwapHeader True h) = WordToHost True NOFFMAGIC" using m by (simp add: SwapHeader_def)
    ultimately show ?thesis using m swapped_magic by (simp add: recode_header_def SwapHeader_twice)
  qed
  finally show ?thesis .
qed

section \<open>The loop over the sections\<close>

fun set_segment :: "segment_kind \<Rightarrow> Segment \<Rightarrow> NoffHeader \<Rightarrow> NoffHeader" where
  "set_segment Text g h = h\<lparr>code := g\<rparr>"
| "set_segment Data g h = h\<lparr>initData := g\<rparr>"
| "set_segment Bss g h = h\<lparr>uninitData := g\<rparr>"

lemma segment_set_segment [simp]: "segment k' (set_segment k g h) = (if k' = k then g else segment k' h)"
  by (cases k; cases k') simp_all

lemma noffMagic_set_segment [simp]: "noffMagic (set_segment k g h) = noffMagic h"
  by (cases k) simp_all

text \<open>After the sections \<open>ys\<close>; \<open>i\<close> and \<open>j\<close> are the inodes of the input and of the output.\<close>

definition loop_inv :: "HostFs \<Rightarrow> 8 word list \<Rightarrow> nat \<Rightarrow> nat \<Rightarrow> scnhdr list \<Rightarrow> Converter \<Rightarrow> bool" where
  "loop_inv fs d i j ys c \<longleftrightarrow>
     (\<exists>out. files c = fs\<lparr>inodes := (inodes fs)(j := out)\<rparr> \<and> length out \<le> 40 + bytes_to_copy ys \<and>
        (\<forall>sec \<in> set ys. stored d out (noffH c) sec)) \<and>
     of_inode (fdIn c) = i \<and>
     fdOut c = Some \<lparr>of_inode = j, currentOffset = int (40 + bytes_to_copy ys)\<rparr> \<and>
     inNoffFile c = word_of_nat (40 + bytes_to_copy ys) \<and> noffMagic (noffH c) = NOFFMAGIC \<and>
     (\<forall>k. (\<forall>sec \<in> set ys. section_kind sec \<noteq> Some k) \<longrightarrow> seg_size (segment k (noffH c)) = 0)"

lemma bytes_to_copy_simps [simp]:
  "bytes_to_copy [] = 0"
  "bytes_to_copy (ys @ zs) = bytes_to_copy ys + bytes_to_copy zs"
  "bytes_to_copy (y # ys) = (if in_file y then unat (s_size y) else 0) + bytes_to_copy ys"
  by (simp_all add: bytes_to_copy_def)

lemma stored_append:
  assumes "stored d out h sec" "section_kind sec \<noteq> Some k" "length out \<le> pos"
  shows "stored d (pwrite out pos bs) (set_segment k g h) sec"
  using assms by (auto simp: stored_def Let_def length_pwrite pread_pwrite_other split: option.splits)

lemma stored_set_segment:
  assumes "stored d out h sec" "section_kind sec \<noteq> Some k"
  shows "stored d out (set_segment k g h) sec"
  using assms by (auto simp: stored_def Let_def split: option.splits)

lemma copy_section_ok:
  assumes ptr: "unat (s_scnptr sec) < 2 ^ 31" "unat (s_size sec) < 2 ^ 31"
    and len: "unat (s_scnptr sec) + unat (s_size sec) \<le> length (inodes (files c) (of_inode (fdIn c)))"
    and out: "fdOut c = Some \<lparr>of_inode = j, currentOffset = int pos\<rparr>"
  shows "copy_section sec c = Inr (c\<lparr>
    files := (files c)\<lparr>inodes := (inodes (files c))(j :=
      pwrite (inodes (files c) j) pos (section_data (inodes (files c) (of_inode (fdIn c))) sec))\<rparr>,
    fdIn := (fdIn c)\<lparr>currentOffset := int (unat (s_scnptr sec) + unat (s_size sec))\<rparr>,
    fdOut := Some \<lparr>of_inode = j, currentOffset = int (pos + unat (s_size sec))\<rparr>,
    inNoffFile := inNoffFile c + s_size sec\<rparr>)"
proof -
  have "length (section_data (inodes (files c) (of_inode (fdIn c))) sec) = unat (s_size sec)"
    unfolding section_data_def by (rule length_pread [OF len])
  then show ?thesis using out ptr
    by (simp add: copy_section_def Read_check_def Write_check_def sys_read_def sys_write_def lseek_in_def
        sint_small Let_def section_data_def)
qed

lemma loop_copy:
  assumes inv: "loop_inv fs d i j ys c" and d: "inodes fs i = d" "i \<noteq> j" and k: "section_kind y = Some k" "k \<noteq> Bss"
    and ok: "section_ok d y" and uniq: "\<forall>sec \<in> set ys. section_kind sec \<noteq> Some k"
    and small: "40 + bytes_to_copy (ys @ [y]) < 2 ^ 31"
  shows "\<exists>c'. copy_section y (c\<lparr>noffH := set_segment k (segment_at y c) (noffH c)\<rparr>) = Inr c' \<and> loop_inv fs d i j (ys @ [y]) c'"
proof -
  have f: "in_file y" using k by (cases k) (auto simp: in_file_def)
  let ?pos = "40 + bytes_to_copy ys" and ?n = "unat (s_size y)" and ?c = "c\<lparr>noffH := set_segment k (segment_at y c) (noffH c)\<rparr>"
  obtain out where out: "files c = fs\<lparr>inodes := (inodes fs)(j := out)\<rparr>" "length out \<le> ?pos"
    "\<forall>sec \<in> set ys. stored d out (noffH c) sec"
    using inv by (auto simp: loop_inv_def)
  have c: "of_inode (fdIn c) = i" "fdOut c = Some \<lparr>of_inode = j, currentOffset = int ?pos\<rparr>"
    "inNoffFile c = word_of_nat ?pos" "noffMagic (noffH c) = NOFFMAGIC"
    "\<forall>k. (\<forall>sec \<in> set ys. section_kind sec \<noteq> Some k) \<longrightarrow> seg_size (segment k (noffH c)) = 0"
    using inv by (simp_all add: loop_inv_def)
  have rng: "unat (s_scnptr y) < 2 ^ 31" "unat (s_scnptr y) + ?n \<le> length d" "?n < 2 ^ 31"
    using ok f by (simp_all add: section_ok_def)
  have len: "length (section_data d y) = ?n" unfolding section_data_def by (rule length_pread [OF rng(2)])
  have at: "unat (word_of_nat ?pos :: 32 word) = ?pos" using small by (simp add: unat_of_nat take_bit_nat_eq_self del: of_nat_add)
  let ?out = "pwrite out ?pos (section_data d y)"
  have len_out: "length ?out = ?pos + ?n" using out(2) len by (simp add: length_pwrite)
  have "pread ?out ?pos ?n = section_data d y" using pread_pwrite_same [of out ?pos "section_data d y"] len by simp
  then have "stored d ?out (noffH ?c) y"
    using k small f by (simp add: stored_def Let_def segment_at_def c(3) at len_out del: of_nat_add)
  moreover have "\<forall>sec \<in> set ys. stored d ?out (noffH ?c) sec"
    using out(2,3) uniq by (auto intro: stored_append)
  moreover have "copy_section y ?c = Inr (?c\<lparr>files := fs\<lparr>inodes := (inodes fs)(j := ?out)\<rparr>,
      fdIn := (fdIn c)\<lparr>currentOffset := int (unat (s_scnptr y) + ?n)\<rparr>,
      fdOut := Some \<lparr>of_inode = j, currentOffset = int (?pos + ?n)\<rparr>, inNoffFile := inNoffFile c + s_size y\<rparr>)"
    using copy_section_ok [of y ?c j ?pos] rng c d out(1) by simp
  moreover have "inNoffFile c + s_size y = word_of_nat (?pos + ?n)" by (simp add: c(3) of_nat_unat)
  ultimately show ?thesis
    using c f k len_out by (auto simp: loop_inv_def)
qed


lemma load_section_kind:
  "section_kind y = Some Text \<Longrightarrow>
     load_section y c = copy_section y (c\<lparr>noffH := set_segment Text (segment_at y c) (noffH c)\<rparr>)"
  "section_kind y = Some Data \<Longrightarrow> seg_size (initData (noffH c)) = 0 \<Longrightarrow>
     load_section y c = copy_section y (c\<lparr>noffH := set_segment Data (segment_at y c) (noffH c)\<rparr>)"
  "section_kind y = Some Bss \<Longrightarrow> seg_size (uninitData (noffH c)) = 0 \<Longrightarrow>
     load_section y c = Inr (c\<lparr>noffH := set_segment Bss
       ((uninitData (noffH c))\<lparr>virtualAddr := s_paddr y, seg_size := s_size y\<rparr>) (noffH c)\<rparr>)"
  by (auto simp: load_section_def section_kind_def Let_def split: if_splits)

lemma loop_step:
  assumes inv: "loop_inv fs d i j ys c" and d: "inodes fs i = d" "i \<noteq> j" and ok: "section_ok d y"
    and uniq: "\<And>k sec. section_kind y = Some k \<Longrightarrow> sec \<in> set ys \<Longrightarrow> section_kind sec \<noteq> Some k"
    and small: "40 + bytes_to_copy (ys @ [y]) < 2 ^ 31"
  shows "\<exists>c'. load_section y c = Inr c' \<and> loop_inv fs d i j (ys @ [y]) c'"
proof (cases "section_kind y")
  case None
  then have "s_size y = 0" "\<not> in_file y" "stored d out h y" for out h
    using ok by (auto simp: section_ok_def in_file_def stored_def)
  then show ?thesis using inv None by (auto simp: load_section_def loop_inv_def Let_def)
next
  case (Some k)
  then have u: "\<forall>sec \<in> set ys. section_kind sec \<noteq> Some k" using uniq by blast
  then have z: "seg_size (segment k (noffH c)) = 0" using inv by (simp add: loop_inv_def)
  show ?thesis
  proof (cases "k = Bss")
    case False
    then have "load_section y c = copy_section y (c\<lparr>noffH := set_segment k (segment_at y c) (noffH c)\<rparr>)"
      using z Some by (cases k) (simp_all add: load_section_kind)
    then show ?thesis using loop_copy [OF inv d Some False ok u small] by simp
  next
    case True
    let ?g = "(uninitData (noffH c))\<lparr>virtualAddr := s_paddr y, seg_size := s_size y\<rparr>"
    have "load_section y c = Inr (c\<lparr>noffH := set_segment Bss ?g (noffH c)\<rparr>)"
      using z Some True by (simp add: load_section_kind)
    moreover have "stored d out (set_segment Bss ?g (noffH c)) y" for out
      using Some True by (simp add: stored_def Let_def)
    moreover have "\<not> in_file y" using Some True by (simp add: in_file_def)
    ultimately show ?thesis using inv u True Some
      by (auto simp: loop_inv_def simp del: set_segment.simps intro!: stored_set_segment)
  qed
qed

lemma map_filter_append: "List.map_filter f (xs @ ys) = List.map_filter f xs @ List.map_filter f ys"
  by (induction xs) (auto split: option.splits)

lemma loop_ok:
  assumes start: "loop_inv fs d i j [] c" and d: "inodes fs i = d" "i \<noteq> j"
    and ok: "\<forall>sec \<in> set secs. section_ok d sec" and uniq: "distinct (List.map_filter section_kind secs)"
    and small: "40 + bytes_to_copy secs < 2 ^ 31"
  shows "\<exists>c'. foldE load_section secs c = Inr c' \<and> loop_inv fs d i j secs c'"
proof (rule foldE_inv [where P = "loop_inv fs d i j"])
  fix ys y zs c1 assume s: "secs = ys @ y # zs" and inv: "loop_inv fs d i j ys c1"
  have "section_kind sec \<noteq> Some k" if "section_kind y = Some k" "sec \<in> set ys" for k sec
    using uniq that by (force simp: s map_filter_append List.map_filter_simps List.map_filter_def)
  then show "\<exists>c2. load_section y c1 = Inr c2 \<and> loop_inv fs d i j (ys @ [y]) c2"
    using loop_step [OF inv d, of y] ok small by (auto simp: s)
qed (rule start)


section \<open>The pages that the kernel loads\<close>

definition page_in :: "nat \<Rightarrow> scnhdr \<Rightarrow> bool" where
  "page_in p sec \<longleftrightarrow>
     unat (s_paddr sec) \<le> p * PageSize \<and> (p + 1) * PageSize \<le> unat (s_paddr sec) + unat (s_size sec)"

definition covers :: "scnhdr \<Rightarrow> nat \<Rightarrow> bool" where
  "covers sec a \<longleftrightarrow> unat (s_paddr sec) \<le> a \<and> a < unat (s_paddr sec) + unat (s_size sec)"

lemma unat_add_small: "unat a + unat b < 2 ^ 31 \<Longrightarrow> unat (a + b) = unat a + unat b" for a b :: "32 word"
  by (simp add: unat_word_ariths)

lemma unat_page_addr:
  "p * PageSize < 2 ^ 31 \<Longrightarrow> unat (word_of_nat p * word_of_nat PageSize :: 32 word) = p * PageSize"
  by (simp add: unat_of_nat flip: of_nat_mult)

lemma in_segment_iff:
  assumes "unat (virtualAddr g) + unat (seg_size g) < 2 ^ 31" "unat a < 2 ^ 31"
  shows "in_segment g a \<longleftrightarrow> unat (virtualAddr g) \<le> unat a \<and> unat a < unat (virtualAddr g) + unat (seg_size g)"
proof -
  have "sint (virtualAddr g + seg_size g) = int (unat (virtualAddr g) + unat (seg_size g))"
    using assms by (subst sint_small) (simp_all add: unat_add_small)
  moreover have "sint (virtualAddr g) = int (unat (virtualAddr g))" using assms by (intro sint_small) simp
  ultimately show ?thesis using assms by (auto simp: in_segment_def sint_small)
qed

lemma pread_inside: "m + n \<le> len \<Longrightarrow> pread d (a + m) n = take n (drop m (pread d a len))"
  by (simp add: pread_def take_drop min_def add.commute add.left_commute)

lemma stored_image:
  assumes st: "stored d out h sec" and ok: "section_ok d sec" and k: "section_kind sec = Some k" "k \<noteq> Bss"
    and p: "page_in p sec"
    and data: "k = Data \<Longrightarrow> \<not> in_segment (code h) (word_of_nat p * word_of_nat PageSize)"
  shows "image_bytes h p out = pread d (unat (s_scnptr sec) + (p * PageSize - unat (s_paddr sec))) PageSize"
proof -
  let ?g = "segment k h" and ?a = "word_of_nat p * word_of_nat PageSize :: 32 word"
  let ?m = "p * PageSize - unat (s_paddr sec)"
  have "in_file sec" using k by (cases k) (simp_all add: in_file_def)
  then have fit: "unat (s_paddr sec) + unat (s_size sec) < 2 ^ 31" using ok by (simp add: section_ok_def)
  have g: "virtualAddr ?g = s_paddr sec" "seg_size ?g = s_size sec"
    "unat (inFileAddr ?g) + unat (s_size sec) < 2 ^ 31"
    "pread out (unat (inFileAddr ?g)) (unat (s_size sec)) = section_data d sec"
    using st k by (simp_all add: stored_def Let_def)
  have page: "unat (s_paddr sec) \<le> p * PageSize" "p * PageSize + PageSize \<le> unat (s_paddr sec) + unat (s_size sec)"
    using p by (simp_all add: page_in_def add.commute)
  have a: "unat ?a = p * PageSize" using page fit by (intro unat_page_addr) simp
  have pos: "0 < PageSize" by (simp add: size_defs)
  have seg: "in_segment ?g ?a" using page fit pos a by (subst in_segment_iff) (simp_all add: g)
  have "unat (?a - virtualAddr ?g) = ?m" using page a by (simp add: g unat_sub word_le_nat_alt)
  moreover have m: "?m + PageSize \<le> unat (s_size sec)" using page by simp
  ultimately have off: "unat (inFileAddr ?g + (?a - virtualAddr ?g)) = unat (inFileAddr ?g) + ?m"
    using g(3) by (subst unat_add_small) simp_all
  then have "nat (sint (inFileAddr ?g + (?a - virtualAddr ?g))) = unat (inFileAddr ?g) + ?m"
    using g(3) m by (subst sint_small) (simp_all del: of_nat_add)
  then have "image_bytes h p out = pread out (unat (inFileAddr ?g) + ?m) PageSize"
    using k seg data by (cases k) (simp_all add: image_bytes_def Let_def)
  also have "\<dots> = pread d (unat (s_scnptr sec) + ?m) PageSize"
    using pread_inside [OF m, of out] pread_inside [OF m, of d] g(4) by (simp add: section_data_def)
  finally show ?thesis .
qed

lemma code_elsewhere:
  assumes st: "\<forall>sec \<in> set secs. stored d out h sec" "\<forall>sec \<in> set secs. section_ok d sec"
    and none: "(\<forall>sec \<in> set secs. section_kind sec \<noteq> Some Text) \<longrightarrow> seg_size (code h) = 0"
    and out: "\<forall>t \<in> set secs. section_kind t = Some Text \<longrightarrow> \<not> covers t (p * PageSize)" and p: "p * PageSize < 2 ^ 31"
  shows "\<not> in_segment (code h) (word_of_nat p * word_of_nat PageSize)"
proof (cases "\<exists>t \<in> set secs. section_kind t = Some Text")
  case True
  then obtain t where t: "t \<in> set secs" "section_kind t = Some Text" by blast
  then have "virtualAddr (code h) = s_paddr t" "seg_size (code h) = s_size t"
    "unat (s_paddr t) + unat (s_size t) < 2 ^ 31" "\<not> covers t (p * PageSize)"
    using st out by (auto simp: stored_def section_ok_def in_file_def Let_def)
  then show ?thesis using p by (subst in_segment_iff) (simp_all add: unat_page_addr covers_def)
next
  case False
  then show ?thesis using none by (auto simp: in_segment_def)
qed


section \<open>The whole program\<close>

lemma Read_check_ok:
  assumes "currentOffset (fdIn c) = int pos" "pos + n \<le> length (inodes (files c) (of_inode (fdIn c)))"
  shows "Read_check (int n) c = Inr (pread (inodes (files c) (of_inode (fdIn c))) pos n,
    c\<lparr>fdIn := (fdIn c)\<lparr>currentOffset := int (pos + n)\<rparr>\<rparr>)"
  using assms by (simp add: Read_check_def sys_read_def Let_def length_pread)

lemma read_sections_ok:
  assumes ok: "coff_ok d" and d: "inodes (files c) (of_inode (fdIn c)) = d" and pos: "currentOffset (fdIn c) = 0"
  shows "read_sections big c =
    Inr (coff_sections d, c\<lparr>fdIn := (fdIn c)\<lparr>currentOffset := int (76 + 40 * unat (short_at d 2))\<rparr>\<rparr>)"
proof -
  let ?n = "unat (short_at d 2)"
  have len: "76 + 40 * ?n \<le> length d" and magic: "short_at d 0 = MIPSELMAGIC" "short_at d 20 = OMAGIC"
    using ok by (simp_all add: coff_ok_def)
  have sh: "ShortToHost big (host_load16 big (pread d 0 20) 0) = short_at d 0"
    "ShortToHost big (host_load16 big (pread d 0 20) 2) = short_at d 2"
    "ShortToHost big (host_load16 big (pread d 20 56) 0) = short_at d 20"
    using len by (simp_all add: pread_def short_at_def)
  have secs: "map (section_of big (pread d 76 (?n * 40))) [0..<?n] = coff_sections d"
    using len by (simp add: coff_sections_def section_of_bytes)
  define at where "at = (\<lambda>p. c\<lparr>fdIn := (fdIn c)\<lparr>currentOffset := int p\<rparr>\<rparr>)"
  have r: "Read_check (int n) (at p) = Inr (pread d p n, at (p + n))" if "p + n \<le> length d" for p n
    using that d by (subst Read_check_ok [where pos = p]) (simp_all add: at_def)
  have "at 0 = c" using pos by (simp add: at_def)
  then have "Read_check 20 c = Inr (pread d 0 20, at 20)" "Read_check 56 (at 20) = Inr (pread d 20 56, at 76)"
    "Read_check (int (?n * 40)) (at 76) = Inr (pread d 76 (?n * 40), at (76 + 40 * ?n))"
    using r [where p = 0 and n = 20] r [where p = 20 and n = 56] r [where p = 76 and n = "?n * 40"] len by (simp_all add: mult.commute)
  then show ?thesis
    using len by (simp add: read_sections_def Let_def sh magic secs at_def del: of_nat_mult of_nat_add ShortToHost_load)
qed


lemma convert_ok:
  assumes ok: "coff_ok d" and c: "files c = fs" "fdIn c = \<lparr>of_inode = i, currentOffset = 0\<rparr>"
      "fdOut c = Some \<lparr>of_inode = j, currentOffset = 0\<rparr>"
    and d: "inodes fs i = d" "i \<noteq> j" and new: "inodes fs j = []"
  shows "\<exists>c' out. convert big junk c = Inr c' \<and> files c' = fs\<lparr>inodes := (inodes fs)(j := out)\<rparr> \<and>
    pread out 0 40 = header_bytes big (noffH c') \<and> noffMagic (noffH c') = NOFFMAGIC \<and>
    (\<forall>sec \<in> set (coff_sections d). stored d out (noffH c') sec) \<and>
    (\<forall>k. (\<forall>sec \<in> set (coff_sections d). section_kind sec \<noteq> Some k) \<longrightarrow> seg_size (segment k (noffH c')) = 0)"
proof -
  let ?c1 = "lseek_out 40 (c\<lparr>fdIn := (fdIn c)\<lparr>currentOffset := int (76 + 40 * unat (short_at d 2))\<rparr>,
    noffH := empty_header junk, inNoffFile := 40\<rparr>)"
  have "fs = fs\<lparr>inodes := (inodes fs)(j := [])\<rparr>" using new by (simp add: fun_upd_idem)
  moreover have "seg_size (segment k (empty_header junk)) = 0" for k by (cases k) (simp_all add: empty_header_def)
  ultimately have "loop_inv fs d i j [] ?c1"
    using c by (auto simp: loop_inv_def lseek_out_def empty_header_def intro: exI [of _ "[]"])
  then obtain c2 where c2: "foldE load_section (coff_sections d) ?c1 = Inr c2" "loop_inv fs d i j (coff_sections d) c2"
    using loop_ok [OF _ d, of ?c1 "coff_sections d"] ok by (auto simp: coff_ok_def)
  then obtain out where out: "files c2 = fs\<lparr>inodes := (inodes fs)(j := out)\<rparr>"
    "\<forall>sec \<in> set (coff_sections d). stored d out (noffH c2) sec"
    by (auto simp: loop_inv_def)
  let ?hb = "header_bytes big (noffH c2)" and ?out = "pwrite out 0 (header_bytes big (noffH c2))"
  have "convert big junk c = Inr (c2\<lparr>files := fs\<lparr>inodes := (inodes fs)(j := ?out)\<rparr>,
      fdOut := Some \<lparr>of_inode = j, currentOffset = 40\<rparr>\<rparr>)"
    using read_sections_ok [OF ok, of c big] c d c2
    by (simp add: convert_def Write_check_def sys_write_def lseek_out_def Let_def out(1) loop_inv_def)
  moreover have "stored d ?out h sec" if "stored d out h sec" for h sec
    using that by (auto simp: stored_def Let_def length_pwrite pread_pwrite_other split: option.splits)
  moreover have "pread ?out 0 40 = ?hb" using pread_pwrite_same [of out 0 ?hb] by simp
  ultimately show ?thesis using c2(2) out(2) by (auto simp: loop_inv_def)
qed


text \<open>
  C24. The converter of object files. For a COFF file with the two magic numbers, known sections that
  lie in the file and at most one section of each kind, \<^verbatim>\<open>coff2noff\<close> exits with 0. The kernel reads
  from the file that it made a header which describes each section of the COFF file: its address, its size, and a place
  in the file where its bytes are; a segment with no section is empty. Every page that lies inside of the text, or
  inside of the data and does not start in the text, is loaded with the bytes that the COFF file has for its addresses.
  No other file changes.
\<close>

theorem coff2noff_correct:
  assumes inp: "names fs inp = Some i" "i < next_inode fs" "names fs outp \<noteq> Some i"
    and ok: "coff_ok (inodes fs i)" and len: "length bytes = 40" and order: "big \<longrightarrow> bigr"
  shows "\<exists>fs' f h. coff2noff big junk True [prog, inp, outp] fs = Inr fs' \<and>
    FileSystem_Open outp fs' = Some f \<and> read_header bigr bytes f fs' = Inr h \<and>
    (\<forall>sec \<in> set (coff_sections (inodes fs i)). stored (inodes fs i) (inodes fs' (of_inode f)) h sec) \<and>
    (\<forall>k. (\<forall>sec \<in> set (coff_sections (inodes fs i)). section_kind sec \<noteq> Some k) \<longrightarrow> seg_size (segment k h) = 0) \<and>
    (\<forall>sec \<in> set (coff_sections (inodes fs i)). \<forall>p. page_in p sec \<and>
       (section_kind sec = Some Text \<or> section_kind sec = Some Data \<and>
          (\<forall>t \<in> set (coff_sections (inodes fs i)). section_kind t = Some Text \<longrightarrow> \<not> covers t (p * PageSize))) \<longrightarrow>
       image_bytes h p (inodes fs' (of_inode f)) =
         pread (inodes fs i) (unat (s_scnptr sec) + (p * PageSize - unat (s_paddr sec))) PageSize) \<and>
    (\<forall>x. x \<noteq> of_inode f \<longrightarrow> inodes fs' x = inodes fs x) \<and> (\<forall>n. n \<noteq> outp \<longrightarrow> names fs' n = names fs n)"
proof -
  let ?d = "inodes fs i" and ?secs = "coff_sections (inodes fs i)"
  obtain j fs1 where w: "OpenForWrite outp fs = (j, fs1)" by fastforce
  then have j: "i \<noteq> j" "inodes fs1 j = []" "inodes fs1 i = ?d" "names fs1 outp = Some j"
    "\<forall>x. x \<noteq> j \<longrightarrow> inodes fs1 x = inodes fs x" "\<forall>n. n \<noteq> outp \<longrightarrow> names fs1 n = names fs n"
    using inp by (auto simp: OpenForWrite_def Let_def split: option.splits)
  let ?c = "\<lparr>files = fs1, fdIn = \<lparr>of_inode = i, currentOffset = 0\<rparr>, fdOut = Some \<lparr>of_inode = j, currentOffset = 0\<rparr>,
    noffFileName = Some outp, noffH = junk, inNoffFile = 0\<rparr>"
  obtain c' out where c': "convert big junk ?c = Inr c'" "files c' = fs1\<lparr>inodes := (inodes fs1)(j := out)\<rparr>"
      "pread out 0 40 = header_bytes big (noffH c')" "noffMagic (noffH c') = NOFFMAGIC"
      "\<forall>sec \<in> set ?secs. stored ?d out (noffH c') sec"
      "\<forall>k. (\<forall>sec \<in> set ?secs. section_kind sec \<noteq> Some k) \<longrightarrow> seg_size (segment k (noffH c')) = 0"
    using convert_ok [OF ok, of ?c fs1 i j big junk] j by auto
  let ?fs' = "fs1\<lparr>inodes := (inodes fs1)(j := out)\<rparr>" and ?f = "\<lparr>of_inode = j, currentOffset = 0\<rparr>"
  have oks: "\<forall>sec \<in> set ?secs. section_ok ?d sec" using ok by (simp add: coff_ok_def)
  have run: "coff2noff big junk True [prog, inp, outp] fs = Inr ?fs'"
    using inp w c'(1,2) by (simp add: coff2noff_def open_output_def numeral_2_eq_2)
  have img: "image_bytes (noffH c') p out = pread ?d (unat (s_scnptr sec) + (p * PageSize - unat (s_paddr sec))) PageSize"
    if sec: "sec \<in> set ?secs" and p: "page_in p sec" and k: "section_kind sec = Some Text \<or> section_kind sec = Some Data \<and>
      (\<forall>t \<in> set ?secs. section_kind t = Some Text \<longrightarrow> \<not> covers t (p * PageSize))" for sec p
  proof -
    have "in_file sec" using k by (auto simp: in_file_def)
    then have "p * PageSize < 2 ^ 31" using p oks sec by (auto simp: page_in_def section_ok_def)
    then have "\<not> in_segment (code (noffH c')) (word_of_nat p * word_of_nat PageSize)" if "section_kind sec = Some Data"
      using code_elsewhere [OF c'(5) oks, of p] c'(6) [THEN spec, of Text] k that by auto
    then show ?thesis
      using stored_image [OF c'(5) [rule_format, OF sec] oks [rule_format, OF sec] _ _ p] k by auto
  qed
  have "read_header bigr bytes ?f ?fs' = Inr (noffH c')" using c'(3,4) len order by (intro read_written_header) simp_all
  moreover have "FileSystem_Open outp ?fs' = Some ?f" using j by (simp add: FileSystem_Open_def)
  ultimately show ?thesis
    using run c'(5,6) j(5,6) img by (intro exI [of _ ?fs'] exI [of _ ?f] exI [of _ "noffH c'"]) simp
qed

text \<open>An object file with a page of text at address 0 and a word of zeroed data after it.\<close>

definition demo_coff :: "8 word list" where
  "demo_coff = [0x62, 1, 2, 0] @ replicate 16 0 @ [7, 1] @ replicate 54 0 @
     [46, 116, 101, 120, 116, 0, 0, 0] @ replicate 8 0 @ [128, 0, 0, 0] @ [156, 0, 0, 0] @ replicate 16 0 @
     [46, 98, 115, 115, 0, 0, 0, 0] @ [128, 0, 0, 0] @ replicate 4 0 @ [4, 0, 0, 0] @ replicate 20 0 @ replicate 128 9"

definition demo_sections :: "scnhdr list" where
  "demo_sections = [\<lparr>s_name = [46, 116, 101, 120, 116, 0, 0, 0], s_paddr = 0, s_size = 128, s_scnptr = 156\<rparr>,
     \<lparr>s_name = [46, 98, 115, 115, 0, 0, 0, 0], s_paddr = 128, s_size = 4, s_scnptr = 0\<rparr>]"

lemma demo_sections: "coff_sections demo_coff = demo_sections"
  by code_simp

lemma demo_kinds: "map section_kind demo_sections = [Some Text, Some Bss]"
  by code_simp

lemma demo_coff_bytes: "length demo_coff = 284" "short_at demo_coff 0 = MIPSELMAGIC" "short_at demo_coff 2 = 2"
    "short_at demo_coff 20 = OMAGIC"
  by code_simp+

lemma demo_coff_ok: "coff_ok demo_coff"
proof -
  have k: "section_kind (demo_sections ! 0) = Some Text" "section_kind (demo_sections ! 1) = Some Bss"
    using demo_kinds by (simp_all add: demo_sections_def)
  then have "\<forall>sec \<in> set demo_sections. section_ok demo_coff sec"
    by (simp add: demo_sections_def section_ok_def in_file_def demo_coff_bytes)
  moreover have "List.map_filter section_kind demo_sections = [Text, Bss]" "bytes_to_copy demo_sections = 128"
    using k by (simp_all add: demo_sections_def List.map_filter_def in_file_def)
  ultimately show ?thesis by (simp add: coff_ok_def demo_sections demo_coff_bytes)
qed

definition demo_host :: HostFs where
  "demo_host = \<lparr>inodes = (\<lambda>_. [])(0 := demo_coff), names = [''a.coff'' \<mapsto> 0], next_inode = 1\<rparr>"

lemma demo_host_simps [simp]: "names demo_host = [''a.coff'' \<mapsto> 0]" "next_inode demo_host = 1" "inodes demo_host 0 = demo_coff"
  by (simp_all add: demo_host_def)

theorem coff2noff_correct_witness:
  "\<exists>fs' f h. coff2noff False demo_header True [''coff2noff'', ''a.coff'', ''a.noff''] demo_host = Inr fs' \<and>
     FileSystem_Open ''a.noff'' fs' = Some f \<and> read_header True (replicate 40 0) f fs' = Inr h \<and>
     seg_size (code h) = 128 \<and> virtualAddr (uninitData h) = 128 \<and> seg_size (initData h) = 0 \<and>
     image_bytes h 0 (inodes fs' (of_inode f)) = replicate 128 9"
proof -
  let ?t = "demo_sections ! 0" and ?b = "demo_sections ! 1"
  have k: "section_kind ?t = Some Text" "section_kind ?b = Some Bss" using demo_kinds by (simp_all add: demo_sections_def)
  have m: "?t \<in> set demo_sections" "?b \<in> set demo_sections" "set demo_sections = {?t, ?b}"
    by (simp_all add: demo_sections_def)
  obtain fs' f h where run: "coff2noff False demo_header True [''coff2noff'', ''a.coff'', ''a.noff''] demo_host = Inr fs'"
      "FileSystem_Open ''a.noff'' fs' = Some f" "read_header True (replicate 40 0) f fs' = Inr h"
    and st: "\<forall>sec \<in> set demo_sections. stored demo_coff (inodes fs' (of_inode f)) h sec"
    and none: "\<forall>k. (\<forall>sec \<in> set demo_sections. section_kind sec \<noteq> Some k) \<longrightarrow> seg_size (segment k h) = 0"
    and img: "\<forall>sec \<in> set demo_sections. \<forall>p. page_in p sec \<and> section_kind sec = Some Text \<longrightarrow>
       image_bytes h p (inodes fs' (of_inode f)) =
         pread demo_coff (unat (s_scnptr sec) + (p * PageSize - unat (s_paddr sec))) PageSize"
    using coff2noff_correct [of demo_host "''a.coff''" 0 "''a.noff''" "replicate 40 0" False True demo_header "''coff2noff''"]
      demo_coff_ok by (auto simp: demo_sections)
  have "page_in 0 ?t" by (simp add: page_in_def demo_sections_def size_defs)
  then have "image_bytes h 0 (inodes fs' (of_inode f)) = pread demo_coff 156 128"
    using img m(1) k(1) by (simp add: demo_sections_def size_defs)
  moreover have "pread demo_coff 156 128 = replicate 128 9" by (simp add: pread_def demo_coff_def)
  moreover have "seg_size (code h) = 128" "virtualAddr (uninitData h) = 128"
    using st m(1,2) k by (auto simp: stored_def Let_def demo_sections_def)
  moreover have "seg_size (initData h) = 0" using none [THEN spec, of Data] m(3) k by simp
  ultimately show ?thesis using run by auto
qed


section \<open>Failures\<close>

text \<open>
  At any point only the output \<open>j\<close> has changed, and \<open>granted\<close> says whether it is open; a failure
  takes away its name \<open>n\<close>.
\<close>

definition undisturbed :: "HostFs \<Rightarrow> nat \<Rightarrow> string \<Rightarrow> bool \<Rightarrow> Converter \<Rightarrow> bool" where
  "undisturbed fs j n granted c \<longleftrightarrow>
     names (files c) = names fs \<and> (\<forall>x. x \<noteq> j \<longrightarrow> inodes (files c) x = inodes fs x) \<and> noffFileName c = Some n \<and>
     (\<forall>f. fdOut c = Some f \<longrightarrow> of_inode f = j) \<and> (fdOut c \<noteq> None \<longleftrightarrow> granted)"

definition cleaned_up :: "HostFs \<Rightarrow> nat \<Rightarrow> string \<Rightarrow> coff_exit \<times> HostFs \<Rightarrow> bool" where
  "cleaned_up fs j n r \<longleftrightarrow> fst r \<noteq> Usage \<and> fst r \<noteq> NoInput \<and> names (snd r) = (names fs)(n := None) \<and>
     (\<forall>x. x \<noteq> j \<longrightarrow> inodes (snd r) x = inodes fs x)"

definition orderly :: "HostFs \<Rightarrow> nat \<Rightarrow> string \<Rightarrow> bool \<Rightarrow> ('a \<Rightarrow> Converter) \<Rightarrow> 'a run \<Rightarrow> bool" where
  "orderly fs j n granted get r \<longleftrightarrow>
     (case r of Inl l \<Rightarrow> cleaned_up fs j n l | Inr x \<Rightarrow> undisturbed fs j n granted (get x))"

lemma orderly_Inr [simp]: "orderly fs j n granted get (Inr x) \<longleftrightarrow> undisturbed fs j n granted (get x)"
  by (simp add: orderly_def)

lemma orderly_bind:
  assumes "orderly fs j n granted get m" "\<And>x. undisturbed fs j n granted (get x) \<Longrightarrow> orderly fs j n granted get' (f x)"
  shows "orderly fs j n granted get' (bindE m f)"
  using assms by (cases m) (simp_all add: orderly_def)

lemma orderly_exit:
  "undisturbed fs j n granted c \<Longrightarrow> e \<noteq> Usage \<Longrightarrow> e \<noteq> NoInput \<Longrightarrow> orderly fs j n granted get (unlink_exit e c)"
  by (simp add: orderly_def unlink_exit_def cleaned_up_def undisturbed_def FileSystem_Remove_def)

lemma undisturbed_updates [simp]:
  "undisturbed fs j n granted (c\<lparr>fdIn := f\<rparr>) = undisturbed fs j n granted c"
  "undisturbed fs j n granted (c\<lparr>noffH := h\<rparr>) = undisturbed fs j n granted c"
  "undisturbed fs j n granted (c\<lparr>inNoffFile := w\<rparr>) = undisturbed fs j n granted c"
  "undisturbed fs j n granted (lseek_in off c) = undisturbed fs j n granted c"
  "undisturbed fs j n granted (lseek_out off c) = undisturbed fs j n granted c"
  by (auto simp: undisturbed_def lseek_in_def lseek_out_def)

lemma orderly_Read: "undisturbed fs j n granted c \<Longrightarrow> orderly fs j n granted snd (Read_check k c)"
  by (auto simp: Read_check_def sys_read_def Let_def intro!: orderly_exit)

lemma orderly_Write: "undisturbed fs j n granted c \<Longrightarrow> orderly fs j n granted id (Write_check bs k c)"
proof -
  assume u: "undisturbed fs j n granted c"
  obtain r c1 where w: "sys_write bs k c = (r, c1)" by fastforce
  then have "undisturbed fs j n granted c1"
    using u by (auto simp: sys_write_def undisturbed_def Let_def split: option.splits if_splits)
  then show ?thesis by (auto simp: Write_check_def w intro!: orderly_exit)
qed

lemma orderly_copy: "undisturbed fs j n granted c \<Longrightarrow> orderly fs j n granted id (copy_section sec c)"
  unfolding copy_section_def
  by (rule orderly_bind [OF orderly_Read]) (auto intro!: orderly_bind [OF orderly_Write])

lemma orderly_load: "undisturbed fs j n granted c \<Longrightarrow> orderly fs j n granted id (load_section sec c)"
  by (auto simp: load_section_def Let_def intro!: orderly_copy orderly_exit)

lemma orderly_fold: "undisturbed fs j n granted c \<Longrightarrow> orderly fs j n granted id (foldE load_section secs c)"
  by (induction secs arbitrary: c) (auto intro!: orderly_bind [OF orderly_load])

lemma orderly_read_sections: "undisturbed fs j n granted c \<Longrightarrow> orderly fs j n granted snd (read_sections big c)"
  unfolding read_sections_def
  by (rule orderly_bind [OF orderly_Read])
     (auto simp: Let_def intro!: orderly_bind [OF orderly_Read] orderly_exit)

lemma orderly_convert: "undisturbed fs j n granted c \<Longrightarrow> orderly fs j n granted id (convert big junk c)"
  unfolding convert_def
  by (rule orderly_bind [OF orderly_read_sections])
     (auto intro!: orderly_bind [OF orderly_fold] orderly_Write)

lemma convert_needs_output: "convert big junk c = Inr c' \<Longrightarrow> fdOut c' \<noteq> None"
  by (auto simp: convert_def Write_check_def sys_write_def Let_def unlink_exit_def split: option.splits if_splits)

text \<open>
  C29. How the converter fails, for any input. If the input does not exist, nothing changes. Every
  other failure (a short file, a wrong magic number, sections that cannot be merged, an unknown
  section, an output that cannot be written) leaves no file under the name of the output and all other
  names and the contents of all other files as they were; a run whose output could not be opened
  fails, and a run that succeeds leaves the output under its name.
\<close>

theorem coff2noff_failure:
  "case coff2noff big junk granted [prog, inp, outp] fs of
     Inr fs' \<Rightarrow> granted \<and> names fs' outp \<noteq> None
   | Inl (e, fs') \<Rightarrow>
       if names fs inp = None then e = NoInput \<and> fs' = fs
       else e \<noteq> NoInput \<and> names fs' = (names fs)(outp := None) \<and>
         (\<forall>x. names fs outp \<noteq> Some x \<and> x < next_inode fs \<longrightarrow> inodes fs' x = inodes fs x)"
proof (cases "names fs inp")
  case None
  then show ?thesis by (simp add: coff2noff_def)
next
  case (Some i)
  obtain o1 fs1 where o1: "open_output granted [prog, inp, outp] fs = (o1, fs1)" by fastforce
  define j where "j = (case names fs outp of Some x \<Rightarrow> x | None \<Rightarrow> next_inode fs)"
  let ?c = "\<lparr>files = fs1, fdIn = \<lparr>of_inode = i, currentOffset = 0\<rparr>, fdOut = o1, noffFileName = Some outp,
    noffH = junk, inNoffFile = 0\<rparr>"
  have u: "undisturbed fs1 j outp granted ?c" and fs1: "\<forall>x. x \<noteq> j \<longrightarrow> inodes fs1 x = inodes fs x"
      "(names fs1)(outp := None) = (names fs)(outp := None)" "granted \<longrightarrow> names fs1 outp \<noteq> None"
    using o1 by (auto simp: open_output_def OpenForWrite_def undisturbed_def j_def Let_def split: if_splits option.splits)
  have run: "coff2noff big junk granted [prog, inp, outp] fs = bindE (convert big junk ?c) (\<lambda>c1. Inr (files c1))"
    using Some o1 by (simp add: coff2noff_def numeral_2_eq_2)
  show ?thesis
  proof (cases "convert big junk ?c")
    case (Inl l)
    then have "cleaned_up fs1 j outp l" using orderly_convert [OF u, of big junk] by (simp add: orderly_def)
    moreover have "x \<noteq> j" if "names fs outp \<noteq> Some x" "x < next_inode fs" for x
      using that by (auto simp: j_def split: option.splits)
    ultimately show ?thesis using Inl run Some fs1 by (auto simp: cleaned_up_def)
  next
    case (Inr c')
    then have "undisturbed fs1 j outp granted c'" using orderly_convert [OF u, of big junk] by simp
    then show ?thesis using Inr run fs1(3) convert_needs_output [OF Inr] by (simp add: undisturbed_def)
  qed
qed

theorem coff2noff_failure_witness:
  "\<exists>e fs'. coff2noff False demo_header False [''coff2noff'', ''a.coff'', ''a.noff''] demo_host = Inl (e, fs') \<and> e \<noteq> NoInput \<and>
     names fs' = [''a.coff'' \<mapsto> 0] \<and> inodes fs' 0 = demo_coff"
proof -
  have "(names demo_host)(''a.noff'' := None) = [''a.coff'' \<mapsto> 0]" by auto
  then show ?thesis
    using coff2noff_failure [where big = False and junk = demo_header and granted = False and
      prog = "''coff2noff''" and inp = "''a.coff''" and outp = "''a.noff''" and fs = demo_host]
    by (auto split: sum.splits)
qed

text \<open>
  Two sections of zeroed data, \<^verbatim>\<open>.bss\<close> and \<^verbatim>\<open>.sbss\<close>. The comment wants them contiguous; the test
  refuses them exactly then, and merges two that are apart into one segment that starts at the first.
\<close>

theorem bss_contiguity_inverted:
  assumes "section_kind sec = Some Bss" "seg_size (uninitData (noffH c)) \<noteq> 0"
  shows "load_section sec c =
    (if s_paddr sec = virtualAddr (uninitData (noffH c)) + seg_size (uninitData (noffH c)) then unlink_exit BothBss c
     else Inr (c\<lparr>noffH := set_segment Bss \<lparr>virtualAddr = virtualAddr (uninitData (noffH c)),
       inFileAddr = inFileAddr (uninitData (noffH c)),
       seg_size = seg_size (uninitData (noffH c)) + s_size sec\<rparr> (noffH c)\<rparr>))"
  using assms by (auto simp: load_section_def section_kind_def Let_def split: if_splits)

end
