(* ===== verification/FileHdr.thy ===== *)
theory FileHdr
  imports BitMap
begin

text \<open>
  The disk as the file system sees it, and the file headers of \<^verbatim>\<open>filesys/filehdr.{h,cc}\<close>.
  \<^verbatim>\<open>SynchDisk\<close> (\<^verbatim>\<open>filesys/synchdisk.cc\<close>) gives its single caller an array of sectors that
  are read and written as a whole; \<open>ReadSector\<close> and \<open>WriteSector\<close> are that contract. A
  header is one sector on disk: the length of the file, the number of its data blocks and
  the sectors that hold them.
\<close>

section \<open>The array of sectors\<close>

definition SectorsPerTrack :: int where "SectorsPerTrack = 32"
definition NumTracks :: int where "NumTracks = 32"
definition NumSectors :: int where "NumSectors = SectorsPerTrack * NumTracks"

lemma NumSectors_val [simp]: "NumSectors = 1024"
  by (simp add: NumSectors_def SectorsPerTrack_def NumTracks_def)

lemma SectorSize_val [simp]: "SectorSize = 128"
  by (simp add: SectorSize_def)

type_synonym sectors = "8 word list list"

definition ReadSector :: "int \<Rightarrow> sectors \<Rightarrow> 8 word list res" where
  "ReadSector sectorNumber d =
     ASSERT (sectorNumber \<ge> 0 \<and> sectorNumber < NumSectors) (Inr (d ! nat sectorNumber))"

definition WriteSector :: "int \<Rightarrow> 8 word list \<Rightarrow> sectors \<Rightarrow> sectors res" where
  "WriteSector sectorNumber data d =
     ASSERT (sectorNumber \<ge> 0 \<and> sectorNumber < NumSectors) (Inr (d[nat sectorNumber := data]))"

definition disk_ok :: "sectors \<Rightarrow> bool" where
  "disk_ok d \<longleftrightarrow> length d = nat NumSectors \<and> (\<forall>s \<in> set d. length s = SectorSize)"

section \<open>File headers\<close>

definition NumDirect :: nat where "NumDirect = (SectorSize - 2 * 4) div 4"
definition MaxFileSize :: int where "MaxFileSize = int NumDirect * int SectorSize"

lemma NumDirect_val [simp]: "NumDirect = 30" by (simp add: NumDirect_def)
lemma MaxFileSize_val [simp]: "MaxFileSize = 3840" by (simp add: MaxFileSize_def)

record FileHeader =
  numBytes :: int
  numSectors :: int
  dataSectors :: "int list"

text \<open>
  \<^verbatim>\<open>Allocate\<close> on a header whose fields hold what the memory held. The loop stores the
  sector numbers without comparing \<^verbatim>\<open>numSectors\<close> with the size of the array.
\<close>

definition alloc_block :: "int \<Rightarrow> FileHeader \<times> BitMap \<Rightarrow> (FileHeader \<times> BitMap) res" where
  "alloc_block i = (\<lambda>(h, bm). bindE (BitMap_Find bm) (\<lambda>(sec, bm').
     if nat i < length (dataSectors h)
     then Inr (h\<lparr>dataSectors := (dataSectors h)[nat i := sec]\<rparr>, bm')
     else Inl OutOfBounds))"

definition FileHeader_Allocate :: "int \<Rightarrow> FileHeader \<Rightarrow> BitMap \<Rightarrow> (bool \<times> FileHeader \<times> BitMap) res" where
  "FileHeader_Allocate fileSize h freeMap =
     (let h1 = h\<lparr>numBytes := fileSize, numSectors := divRoundUp fileSize (int SectorSize)\<rparr> in
      bindE (BitMap_NumClear freeMap) (\<lambda>c.
      if c < numSectors h1 then Inr (False, h1, freeMap)
      else bindE (foldE alloc_block (range_int (numSectors h1)) (h1, freeMap)) (\<lambda>(h2, bm2).
           Inr (True, h2, bm2))))"

definition FileHeader_Deallocate :: "FileHeader \<Rightarrow> BitMap \<Rightarrow> BitMap res" where
  "FileHeader_Deallocate h freeMap =
     foldE (\<lambda>i bm. if nat i < length (dataSectors h)
        then bindE (BitMap_Test (dataSectors h ! nat i) bm) (\<lambda>b. ASSERT b (BitMap_Clear (dataSectors h ! nat i) bm))
        else Inl OutOfBounds) (range_int (numSectors h)) freeMap"

text \<open>The header as the bytes of its sector.\<close>

definition hdr_bytes :: "FileHeader \<Rightarrow> 8 word list" where
  "hdr_bytes h = concat (map int_bytes (numBytes h # numSectors h # dataSectors h))"

definition hdr_of :: "8 word list \<Rightarrow> FileHeader" where
  "hdr_of bs = (case map sint (words_of bs) of
       n # k # secs \<Rightarrow> \<lparr>numBytes = n, numSectors = k, dataSectors = secs\<rparr>
     | _ \<Rightarrow> \<lparr>numBytes = 0, numSectors = 0, dataSectors = []\<rparr>)"

definition FileHeader_FetchFrom :: "int \<Rightarrow> sectors \<Rightarrow> FileHeader res" where
  "FileHeader_FetchFrom sector d = bindE (ReadSector sector d) (\<lambda>bs. Inr (hdr_of bs))"

definition FileHeader_WriteBack :: "int \<Rightarrow> FileHeader \<Rightarrow> sectors \<Rightarrow> sectors res" where
  "FileHeader_WriteBack sector h d = WriteSector sector (hdr_bytes h) d"

definition ByteToSector :: "int \<Rightarrow> FileHeader \<Rightarrow> int res" where
  "ByteToSector offset h =
     (let i = offset sdiv int SectorSize in
      if 0 \<le> i \<and> i < int (length (dataSectors h)) then Inr (dataSectors h ! nat i) else Inl OutOfBounds)"

definition FileLength :: "FileHeader \<Rightarrow> int" where
  "FileLength h = numBytes h"

text \<open>
  \<^verbatim>\<open>Print\<close> shows the length, the blocks and, block by block, the bytes of the file; the
  counter \<^verbatim>\<open>k\<close> stops the output at the end of the file.
\<close>

definition FileHeader_Print :: "FileHeader \<Rightarrow> sectors \<Rightarrow> (int \<times> int list \<times> 8 word list list) res" where
  "FileHeader_Print h d =
     bindE (foldE (\<lambda>i (out, k). if nat i < length (dataSectors h)
        then bindE (ReadSector (dataSectors h ! nat i) d) (\<lambda>data.
          let line = take (nat (numBytes h - k)) data
          in Inr (out @ [line], k + int (length line)))
        else Inl OutOfBounds) (range_int (numSectors h)) ([], 0)) (\<lambda>(out, _).
     Inr (numBytes h, take (nat (numSectors h)) (dataSectors h), out))"

section \<open>Well-formed headers\<close>

definition blocks :: "FileHeader \<Rightarrow> int list" where
  "blocks h = take (nat (numSectors h)) (dataSectors h)"

definition hdr_shape :: "FileHeader \<Rightarrow> bool" where
  "hdr_shape h \<longleftrightarrow> length (dataSectors h) = NumDirect \<and> (\<forall>x \<in> set (dataSectors h). fits_int x)"

definition hdr_ok :: "FileHeader \<Rightarrow> bool" where
  "hdr_ok h \<longleftrightarrow> hdr_shape h \<and> 0 \<le> numBytes h \<and> numBytes h \<le> MaxFileSize \<and>
     numSectors h = divRoundUp (numBytes h) (int SectorSize) \<and>
     distinct (blocks h) \<and> set (blocks h) \<subseteq> {0..<NumSectors}"

lemma num_blocks_bound:
  assumes "0 \<le> n" "n \<le> MaxFileSize"
  shows "0 \<le> divRoundUp n (int SectorSize)" "divRoundUp n (int SectorSize) \<le> int NumDirect"
proof -
  note b = divRoundUp_bounds [OF assms(1), of "int SectorSize"]
  show "0 \<le> divRoundUp n (int SectorSize)" using b assms by simp
  show "divRoundUp n (int SectorSize) \<le> int NumDirect" using b assms by simp
qed

lemma hdr_okD:
  assumes "hdr_ok h"
  shows "0 \<le> numSectors h" "numSectors h \<le> 30" "length (blocks h) = nat (numSectors h)"
    "numBytes h \<le> numSectors h * 128" "numSectors h * 128 < numBytes h + 128"
    "length (dataSectors h) = 30"
  using assms num_blocks_bound [of "numBytes h"] divRoundUp_bounds [of "numBytes h" "int SectorSize"]
  by (simp_all add: hdr_ok_def hdr_shape_def blocks_def)

lemma hdr_round_trip:
  assumes "hdr_shape h" "fits_int (numBytes h)" "fits_int (numSectors h)"
  shows "hdr_of (hdr_bytes h) = h" and "length (hdr_bytes h) = SectorSize"
proof -
  have c: "hdr_bytes h = concat (map word_bytes (map word_of_int (numBytes h # numSectors h # dataSectors h)))"
    by (simp add: hdr_bytes_def int_bytes_def [abs_def] comp_def)
  have m: "map (\<lambda>x. sint (word_of_int x :: 32 word)) (dataSectors h) = dataSectors h"
    using assms(1) by (intro map_idI) (simp add: hdr_shape_def sint_word_of_int_fits)
  show "hdr_of (hdr_bytes h) = h"
    unfolding c hdr_of_def words_of_concat using assms m by (simp add: sint_word_of_int_fits comp_def)
  show "length (hdr_bytes h) = SectorSize"
    unfolding hdr_bytes_def using assms(1) by (subst length_concat_const [of _ _ 4]) (simp_all add: hdr_shape_def)
qed

lemma hdr_ok_fits: "hdr_ok h \<Longrightarrow> hdr_shape h \<and> fits_int (numBytes h) \<and> fits_int (numSectors h)"
  using hdr_okD(1,2) [of h] by (simp add: hdr_ok_def fits_int_def)

section \<open>Allocation of the blocks of a file\<close>

lemma Allocate_loop:
  assumes "bitmap_inv bm" "k \<le> NumDirect" "length (dataSectors h) = NumDirect"
    "int k \<le> numBits bm - int (card (used bm))"
  shows "\<exists>h2 bm2 xs. foldE alloc_block (range_int (int k)) (h, bm) = Inr (h2, bm2) \<and>
     bitmap_inv bm2 \<and> numBits bm2 = numBits bm \<and> length xs = k \<and> distinct xs \<and>
     set xs \<subseteq> {0..<numBits bm} - used bm \<and> used bm2 = used bm \<union> set xs \<and>
     h2 = h\<lparr>dataSectors := xs @ drop k (dataSectors h)\<rparr>"
  using assms(2,4)
proof (induction k)
  case 0
  then show ?case using assms(1) by (simp add: range_int_def)
next
  case (Suc k)
  then obtain h2 bm2 xs where ih: "foldE alloc_block (range_int (int k)) (h, bm) = Inr (h2, bm2)"
     "bitmap_inv bm2" "numBits bm2 = numBits bm" "length xs = k" "distinct xs"
     "set xs \<subseteq> {0..<numBits bm} - used bm" "used bm2 = used bm \<union> set xs"
     "h2 = h\<lparr>dataSectors := xs @ drop k (dataSectors h)\<rparr>"
    by auto
  have "card (used bm2) = card (used bm) + k"
    using ih by (subst ih(7), subst card_Un_disjoint) (auto simp: distinct_card)
  with Suc.prems have "\<not> {0..<numBits bm2} \<subseteq> used bm2"
    using ih(3) by (intro bmap.room_not_full [OF ih(2)]) simp
  from bmap.find_free [OF ih(2) this] obtain i bm3 where f: "BitMap_Find bm2 = Inr (i, bm3)" "bitmap_inv bm3"
      "numBits bm3 = numBits bm2" "0 \<le> i" "i < numBits bm2" "i \<notin> used bm2" "used bm3 = insert i (used bm2)"
    by blast
  have u: "(xs @ drop k (dataSectors h))[k := i] = (xs @ [i]) @ drop (Suc k) (dataSectors h)"
  proof -
    obtain y ys where d: "drop k (dataSectors h) = y # ys"
      using Suc.prems(1) assms(3) by (cases "drop k (dataSectors h)") auto
    then have "drop (Suc k) (dataSectors h) = ys" by (metis drop_Suc list.sel(3) tl_drop)
    then show ?thesis using ih(4) d by (simp add: list_update_append)
  qed
  show ?case
    unfolding range_int_Suc foldE_append ih(1)
    using ih f u Suc.prems(1) assms(3)
    by (intro exI [of _ "h\<lparr>dataSectors := (xs @ [i]) @ drop (Suc k) (dataSectors h)\<rparr>"] exI [of _ bm3] exI [of _ "xs @ [i]"]) (auto simp: alloc_block_def)
qed

lemma Allocate_ok:
  assumes bm: "bitmap_inv bm" "numBits bm = NumSectors" and h: "hdr_shape h"
    and n: "0 \<le> n" "n \<le> MaxFileSize"
    and room: "divRoundUp n (int SectorSize) \<le> numBits bm - int (card (used bm))"
  shows "\<exists>h' bm'. FileHeader_Allocate n h bm = Inr (True, h', bm') \<and> hdr_ok h' \<and> numBytes h' = n \<and>
    bitmap_inv bm' \<and> numBits bm' = numBits bm \<and> set (blocks h') \<inter> used bm = {} \<and>
    used bm' = used bm \<union> set (blocks h')"
proof -
  let ?k = "nat (divRoundUp n (int SectorSize))"
  let ?h1 = "h\<lparr>numBytes := n, numSectors := divRoundUp n (int SectorSize)\<rparr>"
  note b = num_blocks_bound [OF n]
  have k: "divRoundUp n (int SectorSize) = int ?k" "?k \<le> NumDirect" using b by simp_all
  obtain h2 bm2 xs where l: "foldE alloc_block (range_int (int ?k)) (?h1, bm) = Inr (h2, bm2)"
    "bitmap_inv bm2" "numBits bm2 = numBits bm" "length xs = ?k" "distinct xs"
    "set xs \<subseteq> {0..<numBits bm} - used bm" "used bm2 = used bm \<union> set xs"
    "h2 = ?h1\<lparr>dataSectors := xs @ drop ?k (dataSectors ?h1)\<rparr>"
    using Allocate_loop [OF bm(1) k(2), of ?h1] h room b by (auto simp: hdr_shape_def)
  have blk: "blocks h2 = xs" using l(4,8) by (simp add: blocks_def)
  have fits: "fits_int x" if "x \<in> set xs" for x using that l(6) bm(2) by (auto simp: fits_int_def)
  have "hdr_shape h2" using h l(4) k(2) fits by (auto simp: l(8) hdr_shape_def dest: in_set_dropD)
  moreover have "numBytes h2 = n" "numSectors h2 = divRoundUp n (int SectorSize)" using l(8) by simp_all
  ultimately have ok: "hdr_ok h2" "numBytes h2 = n" using l(5,6) n bm(2) by (auto simp: hdr_ok_def blk)
  have "FileHeader_Allocate n h bm = Inr (True, h2, bm2)"
    using l(1) room b by (simp add: FileHeader_Allocate_def Let_def bmap.count_taken [OF bm(1)])
  then show ?thesis using l(2,3,6,7) blk ok by auto
qed

lemma Allocate_no_room:
  assumes "bitmap_inv bm" and "numBits bm - int (card (used bm)) < divRoundUp n (int SectorSize)"
  shows "\<exists>h'. FileHeader_Allocate n h bm = Inr (False, h', bm)"
  using assms by (simp add: FileHeader_Allocate_def Let_def bmap.count_taken)

lemma foldE_map: "foldE f (map g xs) s = foldE (\<lambda>x. f (g x)) xs s"
proof (induction xs arbitrary: s)
  case (Cons x xs)
  then show ?case by (cases "f (g x) s") simp_all
qed simp

lemma foldE_cong: "(\<And>x s. x \<in> set xs \<Longrightarrow> f x s = g x s) \<Longrightarrow> foldE f xs s = foldE g xs s"
proof (induction xs arbitrary: s)
  case (Cons x xs)
  then show ?case by (cases "g x s") simp_all
qed simp

lemma Deallocate_ok:
  assumes "bitmap_inv bm" "hdr_ok h" "set (blocks h) \<subseteq> used bm"
  shows "\<exists>bm'. FileHeader_Deallocate h bm = Inr bm' \<and> bitmap_inv bm' \<and> numBits bm' = numBits bm \<and>
    used bm' = used bm - set (blocks h)"
proof -
  note d = hdr_okD [OF assms(2)]
  have b: "map (\<lambda>i. dataSectors h ! nat i) (range_int (numSectors h)) = blocks h"
    using d by (intro nth_equalityI) (simp_all add: blocks_def)
  have "FileHeader_Deallocate h bm =
      foldE (\<lambda>i bm. bindE (BitMap_Test i bm) (\<lambda>b. ASSERT b (BitMap_Clear i bm))) (blocks h) bm"
    unfolding FileHeader_Deallocate_def b [symmetric] foldE_map using d by (intro foldE_cong) (auto simp: nat_less_iff)
  with bmap.release_many [OF assms(1) _ assms(3)] assms(2) show ?thesis by (simp add: hdr_ok_def)
qed

text \<open>
  C20. The blocks of a file are its own. For a size within \<^verbatim>\<open>MaxFileSize\<close>, \<^verbatim>\<open>Allocate\<close> either finds
  too little room and leaves the free map alone, or fills in a header with exactly the blocks
  the size needs, all of them free before, all different, and now marked; a header survives
  the trip to its sector and back; and \<^verbatim>\<open>Deallocate\<close> returns the map to the sectors it had.
\<close>

theorem file_blocks_exclusive:
  assumes "bitmap_inv bm" "numBits bm = NumSectors" "hdr_shape h" "0 \<le> n" "n \<le> MaxFileSize"
  shows "if divRoundUp n (int SectorSize) \<le> numBits bm - int (card (used bm))
    then \<exists>h' bm' bm''. FileHeader_Allocate n h bm = Inr (True, h', bm') \<and> hdr_ok h' \<and> FileLength h' = n \<and>
      set (blocks h') \<inter> used bm = {} \<and> used bm' = used bm \<union> set (blocks h') \<and>
      hdr_of (hdr_bytes h') = h' \<and>
      FileHeader_Deallocate h' bm' = Inr bm'' \<and> used bm'' = used bm
    else \<exists>h'. FileHeader_Allocate n h bm = Inr (False, h', bm)"
proof (cases "divRoundUp n (int SectorSize) \<le> numBits bm - int (card (used bm))")
  case True
  obtain h' bm' where a: "FileHeader_Allocate n h bm = Inr (True, h', bm')" "hdr_ok h'" "numBytes h' = n"
      "bitmap_inv bm'" "set (blocks h') \<inter> used bm = {}" "used bm' = used bm \<union> set (blocks h')"
    using Allocate_ok [OF assms True] by blast
  obtain bm'' where "FileHeader_Deallocate h' bm' = Inr bm''" "used bm'' = used bm' - set (blocks h')"
    using Deallocate_ok [OF a(4,2)] a(6) by blast
  moreover have "used bm' - set (blocks h') = used bm" using a(5,6) by blast
  moreover have "hdr_of (hdr_bytes h') = h'" using hdr_round_trip(1) hdr_ok_fits [OF a(2)] by blast
  ultimately show ?thesis using a True by (auto simp: FileLength_def)
next
  case False
  with Allocate_no_room [OF assms(1)] show ?thesis by auto
qed

definition demo_header :: FileHeader where
  "demo_header = \<lparr>numBytes = 0, numSectors = 0, dataSectors = replicate 30 0\<rparr>"

lemma empty_map:
  "\<exists>bm. BitMap_BitMap NumSectors (replicate 32 0) = Inr bm \<and> bitmap_inv bm \<and> numBits bm = NumSectors \<and> used bm = {}"
  using BitMap_BitMap_empty [of NumSectors "replicate 32 0"]
  by (auto simp: BitsInWord_def divRoundUp_nonneg bitmap_inv_def)

theorem file_blocks_exclusive_witness:
  "\<exists>bm h' bm' bm''. FileHeader_Allocate 300 demo_header bm = Inr (True, h', bm') \<and> card (used bm') = 3 \<and>
     FileHeader_Deallocate h' bm' = Inr bm'' \<and> used bm'' = {}"
proof -
  obtain bm where bm: "bitmap_inv bm" "numBits bm = NumSectors" "used bm = {}" using empty_map by blast
  have s: "hdr_shape demo_header" by (simp add: hdr_shape_def demo_header_def fits_int_def)
  have k: "divRoundUp 300 128 = 3" by (simp add: divRoundUp_nonneg)
  obtain h' bm' bm'' where a: "FileHeader_Allocate 300 demo_header bm = Inr (True, h', bm')" "hdr_ok h'"
      "FileLength h' = 300" "used bm' = set (blocks h')" "FileHeader_Deallocate h' bm' = Inr bm''" "used bm'' = {}"
    using file_blocks_exclusive [OF bm(1,2) s, of 300] bm(2,3) by (auto simp: k)
  have "card (used bm') = 3"
    using a(2,3,4) hdr_okD(3) [OF a(2)] k by (simp add: hdr_ok_def distinct_card FileLength_def)
  with a show ?thesis by blast
qed

text \<open>
  A file larger than the header can describe is not refused. \<^verbatim>\<open>Allocate\<close> never compares the
  size with \<^verbatim>\<open>MaxFileSize\<close>: when the disk has room for such a file, it stores sector numbers
  behind the end of the \<^verbatim>\<open>dataSectors\<close> array.
\<close>

theorem allocate_overruns_header:
  assumes bm: "bitmap_inv bm" "numBits bm = NumSectors" and h: "length (dataSectors h) = NumDirect"
    and n: "MaxFileSize < n" and room: "divRoundUp n (int SectorSize) \<le> numBits bm - int (card (used bm))"
  shows "FileHeader_Allocate n h bm = Inl OutOfBounds"
proof -
  let ?h1 = "h\<lparr>numBytes := n, numSectors := divRoundUp n (int SectorSize)\<rparr>"
  have big: "divRoundUp n (int SectorSize) > 30"
    using divRoundUp_bounds(1) [of n "int SectorSize"] n by simp
  then have "31 \<le> nat (divRoundUp n (int SectorSize))" by linarith
  then obtain m where m: "nat (divRoundUp n (int SectorSize)) = 31 + m" using le_Suc_ex by blast
  have split: "range_int (divRoundUp n (int SectorSize)) = range_int (int 30) @ int 30 # map int [31..<31 + m]"
    unfolding range_int_def m nat_int using upt_add_eq_append [of 0 30 "1 + m"] by (simp add: upt_conv_Cons)
  obtain h2 bm2 xs where l: "foldE alloc_block (range_int (int 30)) (?h1, bm) = Inr (h2, bm2)"
    "length xs = 30" "h2 = ?h1\<lparr>dataSectors := xs @ drop 30 (dataSectors ?h1)\<rparr>" "bitmap_inv bm2"
    using Allocate_loop [OF bm(1), of 30 ?h1] h room big by auto
  have "alloc_block (int 30) (h2, bm2) = Inl OutOfBounds"
  proof (cases "{0..<numBits bm2} \<subseteq> used bm2")
    case True
    from bmap.find_full [OF l(4) this] l h show ?thesis by (simp add: alloc_block_def)
  next
    case False
    from bmap.find_free [OF l(4) this] l h show ?thesis by (auto simp: alloc_block_def)
  qed
  then show ?thesis
    using room unfolding FileHeader_Allocate_def Let_def
    by (simp add: bmap.count_taken [OF bm(1)] split [simplified] foldE_append l(1) [simplified])
qed

theorem allocate_overruns_header_witness:
  "\<exists>bm. bitmap_inv bm \<and> used bm = {} \<and> FileHeader_Allocate 3841 demo_header bm = Inl OutOfBounds"
proof -
  obtain bm where bm: "bitmap_inv bm" "numBits bm = NumSectors" "used bm = {}" using empty_map by blast
  have "FileHeader_Allocate 3841 demo_header bm = Inl OutOfBounds"
    by (rule allocate_overruns_header [OF bm(1,2)]) (simp_all add: bm(2,3) demo_header_def divRoundUp_nonneg)
  with bm show ?thesis by blast
qed

end
