(* ===== verification/FsOpenFile.thy ===== *)
theory FsOpenFile
  imports FileHdr
begin

text \<open>
  Open files of the Nachos file system, \<^verbatim>\<open>filesys/openfile.{h,cc}\<close> in the build without
  \<^verbatim>\<open>FILESYS_STUB\<close>: reads and writes of any extent on a disk that transfers whole sectors. The
  refinement is to a byte array of fixed length, the contents of the file. The \<^verbatim>\<open>into\<close>
  buffer of a read is the list of bytes it returns; a buffer from \<^verbatim>\<open>new char[]\<close> holds \<open>junk\<close>.
\<close>

record FsOpenFile =
  hdr :: FileHeader
  seekPosition :: int

definition OpenFile_OpenFile :: "int \<Rightarrow> sectors \<Rightarrow> FsOpenFile res" where
  "OpenFile_OpenFile sector d = bindE (FileHeader_FetchFrom sector d) (\<lambda>h. Inr \<lparr>hdr = h, seekPosition = 0\<rparr>)"

definition Seek :: "int \<Rightarrow> FsOpenFile \<Rightarrow> FsOpenFile" where
  "Seek position f = f\<lparr>seekPosition := position\<rparr>"

text \<open>The loop that brings in the sectors \<^verbatim>\<open>firstSector\<close> to \<^verbatim>\<open>lastSector\<close>.\<close>

definition read_sectors :: "FileHeader \<Rightarrow> sectors \<Rightarrow> int list \<Rightarrow> 8 word list res" where
  "read_sectors h d is = foldE (\<lambda>i buf. bindE (ByteToSector (i * int SectorSize) h) (\<lambda>sec.
     bindE (ReadSector sec d) (\<lambda>bs. Inr (buf @ bs)))) is []"

definition ReadAt :: "int \<Rightarrow> int \<Rightarrow> FsOpenFile \<Rightarrow> sectors \<Rightarrow> 8 word list res" where
  "ReadAt nbytes position f d =
     (let fileLength = FileLength (hdr f) in
      if nbytes \<le> 0 \<or> position \<ge> fileLength then Inr []
      else
        let n = (if position + nbytes > fileLength then fileLength - position else nbytes);
            firstSector = divRoundDown position (int SectorSize);
            lastSector = divRoundDown (position + n - 1) (int SectorSize);
            off = position - firstSector * int SectorSize
        in bindE (read_sectors (hdr f) d [firstSector..lastSector]) (\<lambda>buf.
           if 0 \<le> off \<and> off + n \<le> int (length buf) then Inr (take (nat n) (drop (nat off) buf))
           else Inl OutOfBounds))"

definition write_sectors :: "FileHeader \<Rightarrow> (int \<Rightarrow> 8 word list) \<Rightarrow> int list \<Rightarrow> sectors \<Rightarrow> sectors res" where
  "write_sectors h data is d = foldE (\<lambda>i d. bindE (ByteToSector (i * int SectorSize) h) (\<lambda>sec.
     WriteSector sec (data i) d)) is d"

text \<open>
  The buffer of \<^verbatim>\<open>WriteAt\<close>, with the first and the last sector read in when they are only
  partly overwritten.
\<close>

definition edge_buffer :: "(nat \<Rightarrow> 8 word) \<Rightarrow> int \<Rightarrow> int \<Rightarrow> int \<Rightarrow> int \<Rightarrow> FsOpenFile \<Rightarrow> sectors \<Rightarrow> 8 word list res" where
  "edge_buffer junk n position firstSector lastSector f d =
     (let buf = map junk [0..<nat ((1 + lastSector - firstSector) * int SectorSize)];
          firstAligned = (position = firstSector * int SectorSize);
          lastAligned = (position + n = (lastSector + 1) * int SectorSize)
      in bindE (if \<not> firstAligned
                then bindE (ReadAt (int SectorSize) (firstSector * int SectorSize) f d) (\<lambda>bs. Inr (poke 0 bs buf))
                else Inr buf) (\<lambda>buf1.
         if \<not> lastAligned \<and> (firstSector \<noteq> lastSector \<or> firstAligned)
         then bindE (ReadAt (int SectorSize) (lastSector * int SectorSize) f d) (\<lambda>bs.
                Inr (poke (nat ((lastSector - firstSector) * int SectorSize)) bs buf1))
         else Inr buf1))"

definition WriteAt :: "(nat \<Rightarrow> 8 word) \<Rightarrow> 8 word list \<Rightarrow> int \<Rightarrow> FsOpenFile \<Rightarrow> sectors \<Rightarrow> (int \<times> sectors) res" where
  "WriteAt junk from position f d =
     (let fileLength = FileLength (hdr f); nbytes = int (length from) in
      if nbytes \<le> 0 \<or> position \<ge> fileLength then Inr (0, d)
      else
        let n = (if position + nbytes > fileLength then fileLength - position else nbytes);
            firstSector = divRoundDown position (int SectorSize);
            lastSector = divRoundDown (position + n - 1) (int SectorSize);
            off = position - firstSector * int SectorSize
        in bindE (edge_buffer junk n position firstSector lastSector f d) (\<lambda>buf2.
           if 0 \<le> off \<and> off + n \<le> int (length buf2)
           then let buf3 = poke (nat off) (take (nat n) from) buf2
                in bindE (write_sectors (hdr f)
                     (\<lambda>i. take SectorSize (drop (nat ((i - firstSector) * int SectorSize)) buf3))
                     [firstSector..lastSector] d) (\<lambda>d'. Inr (n, d'))
           else Inl OutOfBounds))"

definition Read :: "int \<Rightarrow> FsOpenFile \<Rightarrow> sectors \<Rightarrow> (8 word list \<times> FsOpenFile) res" where
  "Read nbytes f d = bindE (ReadAt nbytes (seekPosition f) f d) (\<lambda>bs.
     Inr (bs, f\<lparr>seekPosition := seekPosition f + int (length bs)\<rparr>))"

definition Write :: "(nat \<Rightarrow> 8 word) \<Rightarrow> 8 word list \<Rightarrow> FsOpenFile \<Rightarrow> sectors \<Rightarrow>
    (int \<times> FsOpenFile \<times> sectors) res" where
  "Write junk into f d = bindE (WriteAt junk into (seekPosition f) f d) (\<lambda>(n, d').
     Inr (n, f\<lparr>seekPosition := seekPosition f + n\<rparr>, d'))"

definition Length :: "FsOpenFile \<Rightarrow> int" where
  "Length f = FileLength (hdr f)"

section \<open>The contents of a file\<close>

definition fbytes :: "FileHeader \<Rightarrow> sectors \<Rightarrow> 8 word list" where
  "fbytes h d = concat (map (\<lambda>s. d ! nat s) (blocks h))"

definition contents :: "FileHeader \<Rightarrow> sectors \<Rightarrow> 8 word list" where
  "contents h d = take (nat (numBytes h)) (fbytes h d)"

lemma nth_concat_const:
  "\<forall>x \<in> set xs. length x = n \<Longrightarrow> 0 < n \<Longrightarrow> j < n * length xs \<Longrightarrow> concat xs ! j = xs ! (j div n) ! (j mod n)"
proof (induction xs arbitrary: j)
  case (Cons x xs)
  show ?case
  proof (cases "j < n")
    case False
    then have "j - n < n * length xs" "concat (x # xs) ! j = concat xs ! (j - n)"
      using Cons.prems by (simp_all add: nth_append)
    moreover have "j div n = Suc ((j - n) div n)" "j mod n = (j - n) mod n"
      using False Cons.prems(2) by (simp_all add: le_div_geq le_mod_geq)
    ultimately show ?thesis using Cons.IH [of "j - n"] Cons.prems by simp
  qed (use Cons.prems in \<open>simp add: nth_append\<close>)
qed simp

lemma sector_length: "disk_ok d \<Longrightarrow> 0 \<le> s \<Longrightarrow> s < NumSectors \<Longrightarrow> length (d ! nat s) = 128"
  by (simp add: disk_ok_def)

lemma block_bound: "hdr_ok h \<Longrightarrow> i < length (blocks h) \<Longrightarrow> 0 \<le> blocks h ! i \<and> blocks h ! i < NumSectors"
  unfolding hdr_ok_def by (meson atLeastLessThan_iff nth_mem subsetD)

lemma length_fbytes: "hdr_ok h \<Longrightarrow> disk_ok d \<Longrightarrow> length (fbytes h d) = 128 * nat (numSectors h)"
  unfolding fbytes_def using hdr_okD(3) [of h]
  by (subst length_concat_const [of _ _ 128]) (auto simp: hdr_ok_def intro!: sector_length)

lemma nth_fbytes:
  assumes "hdr_ok h" "disk_ok d" "j < 128 * nat (numSectors h)"
  shows "fbytes h d ! j = d ! nat (blocks h ! (j div 128)) ! (j mod 128)"
proof -
  have "j div 128 < length (blocks h)" using assms hdr_okD(3) [OF assms(1)] by (simp add: div_less_iff_less_mult mult.commute)
  moreover have "\<forall>x \<in> set (map (\<lambda>s. d ! nat s) (blocks h)). length x = 128"
    using assms by (auto simp: hdr_ok_def intro!: sector_length)
  ultimately show ?thesis
    unfolding fbytes_def using nth_concat_const [of "map (\<lambda>s. d ! nat s) (blocks h)" 128 j] assms(3) hdr_okD(3) [OF assms(1)]
    by simp
qed

lemma length_contents: "hdr_ok h \<Longrightarrow> disk_ok d \<Longrightarrow> length (contents h d) = nat (numBytes h)"
  using hdr_okD(4) [of h] by (simp add: contents_def length_fbytes)

lemma nth_contents: "hdr_ok h \<Longrightarrow> disk_ok d \<Longrightarrow> j < nat (numBytes h) \<Longrightarrow>
    contents h d ! j = d ! nat (blocks h ! (j div 128)) ! (j mod 128)"
  using hdr_okD(4) [of h] by (simp add: contents_def nth_fbytes)

lemma ByteToSector_block:
  assumes "hdr_ok h" "0 \<le> i" "i < numSectors h"
  shows "ByteToSector (i * int SectorSize) h = Inr (blocks h ! nat i)"
  using assms hdr_okD [OF assms(1)] by (simp add: ByteToSector_def Let_def blocks_def sdiv_nonneg)

lemma ReadSector_block: "hdr_ok h \<Longrightarrow> 0 \<le> i \<Longrightarrow> i < numSectors h \<Longrightarrow>
    ReadSector (blocks h ! nat i) d = Inr (d ! nat (blocks h ! nat i))"
  using block_bound [of h "nat i"] hdr_okD(3) [of h] by (simp add: ReadSector_def)

lemma read_sectors_ok:
  assumes "hdr_ok h" "\<forall>i \<in> set is. 0 \<le> i \<and> i < numSectors h"
  shows "read_sectors h d is = Inr (concat (map (\<lambda>i. d ! nat (blocks h ! nat i)) is))"
proof -
  have "foldE (\<lambda>i buf. bindE (ByteToSector (i * int SectorSize) h) (\<lambda>sec.
      bindE (ReadSector sec d) (\<lambda>bs. Inr (buf @ bs)))) is b =
      Inr (b @ concat (map (\<lambda>i. d ! nat (blocks h ! nat i)) is))" for b
    using assms(2)
  proof (induction "is" arbitrary: b)
    case (Cons i js)
    then show ?case using ByteToSector_block [OF assms(1), of i] ReadSector_block [OF assms(1), of i] by simp
  qed simp
  then show ?thesis by (simp add: read_sectors_def)
qed

section \<open>Reading\<close>

text \<open>The sectors a transfer of \<open>n\<close> bytes at \<open>p\<close> touches lie in the file, and where its bytes are in them.\<close>

lemma extent_arith:
  fixes p n K :: int
  assumes "0 \<le> p" "0 < n" "p + n \<le> K * 128"
  shows "0 \<le> p div 128" "p div 128 \<le> (p + n - 1) div 128" "(p + n - 1) div 128 < K"
    "0 \<le> p - p div 128 * 128" "p - p div 128 * 128 < 128"
    "p + n \<le> ((p + n - 1) div 128 + 1) * 128"
proof -
  show "0 \<le> p div 128" using assms by simp
  show "p div 128 \<le> (p + n - 1) div 128" using assms by (intro zdiv_mono1) simp_all
  show "(p + n - 1) div 128 < K" using assms by (simp add: div_less_iff_less_mult [of 128])
  show "0 \<le> p - p div 128 * 128" "p - p div 128 * 128 < 128" "p + n \<le> ((p + n - 1) div 128 + 1) * 128" by presburger+
qed

lemma block_length: "disk_ok d \<Longrightarrow> hdr_ok h \<Longrightarrow> 0 \<le> i \<Longrightarrow> i < numSectors h \<Longrightarrow>
    length (d ! nat (blocks h ! nat i)) = 128"
  using block_bound [of h "nat i"] hdr_okD(3) [of h] by (auto intro!: sector_length)

lemma nth_upto_blocks:
  assumes "disk_ok d" "hdr_ok h" "0 \<le> a" "a \<le> b" "b < numSectors h" "j < nat (128 * (b - a + 1))"
  shows "concat (map (\<lambda>i. d ! nat (blocks h ! nat i)) [a..b]) ! j =
    d ! nat (blocks h ! nat (a + int j div 128)) ! (j mod 128)"
proof -
  let ?xs = "map (\<lambda>i. d ! nat (blocks h ! nat i)) [a..b]"
  have l: "\<forall>x \<in> set ?xs. length x = 128"
    using assms by (auto intro!: block_length)
  have jl: "j < 128 * length ?xs" using assms by (simp add: nat_mult_distrib add.commute)
  then have k: "j div 128 < length ?xs" by (simp add: div_less_iff_less_mult mult.commute)
  then have "[a..b] ! (j div 128) = a + int j div 128" by (simp add: nth_upto zdiv_int)
  with nth_concat_const [OF l _ jl] k show ?thesis by simp
qed

lemma length_upto_blocks:
  assumes "disk_ok d" "hdr_ok h" "0 \<le> a" "a \<le> b" "b < numSectors h"
  shows "length (concat (map (\<lambda>i. d ! nat (blocks h ! nat i)) [a..b])) = nat (128 * (b - a + 1))"
  using assms by (subst length_concat_const [of _ _ 128]) (auto simp: nat_mult_distrib add.commute intro!: block_length)

lemma ReadAt_ok:
  assumes h: "hdr_ok (hdr f)" and d: "disk_ok d" and p: "0 \<le> p"
  shows "ReadAt n p f d = Inr (take (nat n) (drop (nat p) (contents (hdr f) d)))"
proof (cases "n \<le> 0 \<or> p \<ge> numBytes (hdr f)")
  case True
  then show ?thesis using length_contents [OF h d] by (auto simp: ReadAt_def FileLength_def Let_def)
next
  case False
  let ?h = "hdr f"
  define m where "m = (if p + n > numBytes ?h then numBytes ?h - p else n)"
  have m: "0 < m" "p + m \<le> numBytes ?h" "p + m \<le> numSectors ?h * 128" "m \<le> n"
    using False hdr_okD(4) [OF h] by (auto simp: m_def)
  note e = extent_arith [OF p m(1,3)]
  let ?a = "p div 128" and ?b = "(p + m - 1) div 128"
  let ?buf = "concat (map (\<lambda>i. d ! nat (blocks ?h ! nat i)) [?a..?b])"
  have rd: "read_sectors ?h d [?a..?b] = Inr ?buf" using e by (intro read_sectors_ok [OF h]) auto
  have lb: "int (length ?buf) = 128 * (?b - ?a + 1)" using length_upto_blocks [OF d h e(1,2,3)] e by simp
  have inb: "p - ?a * 128 + m \<le> int (length ?buf)" unfolding lb using e(6) by (simp add: algebra_simps)
  have "take (nat m) (drop (nat (p - ?a * 128)) ?buf) = take (nat n) (drop (nat p) (contents ?h d))"
  proof (rule nth_equalityI)
    have "nat m \<le> length ?buf - nat (p - ?a * 128)" using inb e(4) by linarith
    moreover have "min (nat n) (length (contents ?h d) - nat p) = nat m"
      unfolding length_contents [OF h d] m_def using False p by auto
    ultimately show "length (take (nat m) (drop (nat (p - ?a * 128)) ?buf)) = length (take (nat n) (drop (nat p) (contents ?h d)))"
      by (simp add: min.commute min_absorb2)
  next
    fix j assume "j < length (take (nat m) (drop (nat (p - ?a * 128)) ?buf))"
    then have j: "j < nat m" "nat (p - ?a * 128) + j < length ?buf"
      by (simp_all only: length_take length_drop min_less_iff_conj less_diff_conv add.commute [of j])
    let ?o = "nat (p - ?a * 128)"
    have o: "int (?o + j) = p + int j - ?a * 128" using e(4) by simp
    have sh: "(x - a * 128) div 128 = x div 128 - a" "(x - a * 128) mod 128 = x mod 128" for x a :: int
      using div_mult_self1 [of 128 x "- a"] mod_mult_self1 [of x "- a" 128] by simp_all
    have dv: "?a + int (?o + j) div 128 = (p + int j) div 128" unfolding o sh by simp
    have "int ((?o + j) mod 128) = (p + int j) mod 128" unfolding zmod_int o of_nat_numeral sh by simp
    then have md: "(?o + j) mod 128 = nat ((p + int j) mod 128)" by linarith
    have "?buf ! (?o + j) = d ! nat (blocks ?h ! nat ((p + int j) div 128)) ! nat ((p + int j) mod 128)"
      using nth_upto_blocks [OF d h e(1,2,3), of "?o + j"] j(2) length_upto_blocks [OF d h e(1,2,3)] by (simp only: dv md)
    moreover have "nat p + j < nat (numBytes ?h)" using j(1) m(2) p by linarith
    moreover have "nat ((p + int j) div 128) = (nat p + j) div 128" "nat ((p + int j) mod 128) = (nat p + j) mod 128"
      using p by (simp_all add: nat_div_distrib nat_mod_distrib nat_add_distrib)
    moreover have "j < nat n" using j(1) m(4) by linarith
    moreover have "take (nat m) (drop ?o ?buf) ! j = ?buf ! (?o + j)"
      using nth_take [OF j(1), of "drop ?o ?buf"] nth_drop [OF le_trans [OF le_add1 less_imp_le [OF j(2)]], of j] by (rule trans)
    moreover have "take (nat n) (drop (nat p) (contents ?h d)) ! j = contents ?h d ! (nat p + j)"
      using length_contents [OF h d] calculation(2,5) by simp
    ultimately show "take (nat m) (drop ?o ?buf) ! j = take (nat n) (drop (nat p) (contents ?h d)) ! j"
      using nth_contents [OF h d, of "nat p + j"] by (simp only:)
  qed
  then show ?thesis
    using False rd e(4) inb unfolding ReadAt_def FileLength_def Let_def m_def [symmetric]
    using divRoundDown_nonneg [of "p + m - 1" 128] divRoundDown_nonneg [of p 128] p m(1) by simp
qed

section \<open>Writing\<close>

lemma write_sectors_ok:
  assumes h: "hdr_ok h" and "disk_ok d" "\<forall>i \<in> set is. 0 \<le> i \<and> i < numSectors h" "distinct is"
    and "\<And>i. i \<in> set is \<Longrightarrow> length (data i) = 128"
  shows "\<exists>d'. write_sectors h data is d = Inr d' \<and> disk_ok d' \<and>
    (\<forall>j < nat (numSectors h). d' ! nat (blocks h ! j) =
       (if int j \<in> set is then data (int j) else d ! nat (blocks h ! j))) \<and>
    (\<forall>s. s \<notin> nat ` set (blocks h) \<longrightarrow> d' ! s = d ! s)"
  using assms(2-)
proof (induction "is" arbitrary: d)
  case (Cons i js)
  let ?s = "nat (blocks h ! nat i)"
  have i: "0 \<le> i" "i < numSectors h" "i \<notin> set js" using Cons.prems by auto
  have ib: "nat i < length (blocks h)" using i hdr_okD(3) [OF h] by simp
  note bb = block_bound [OF h ib]
  have w: "WriteSector (blocks h ! nat i) (data i) d = Inr (d[?s := data i])"
    using bb by (simp add: WriteSector_def)
  have "disk_ok (d[?s := data i])"
    using Cons.prems(1,4) by (auto simp: disk_ok_def dest!: set_update_subset_insert [THEN subsetD])
  from Cons.IH [OF this] Cons.prems obtain d' where d': "write_sectors h data js (d[?s := data i]) = Inr d'" "disk_ok d'"
      "\<And>j. j < nat (numSectors h) \<Longrightarrow> d' ! nat (blocks h ! j) =
       (if int j \<in> set js then data (int j) else d[?s := data i] ! nat (blocks h ! j))"
      "\<And>s. s \<notin> nat ` set (blocks h) \<Longrightarrow> d' ! s = d[?s := data i] ! s"
    by auto
  have same: "d[?s := data i] ! nat (blocks h ! j) = (if int j = i then data i else d ! nat (blocks h ! j))"
    if "j < nat (numSectors h)" for j
  proof -
    have j: "j < length (blocks h)" using that hdr_okD(3) [OF h] by simp
    then have "?s = nat (blocks h ! j) \<longleftrightarrow> int j = i"
      using bb block_bound [OF h j] h ib i(1) by (auto simp: hdr_ok_def nth_eq_iff_index_eq eq_nat_nat_iff)
    moreover have "?s < length d" using Cons.prems(1) bb by (simp add: disk_ok_def nat_less_iff)
    ultimately show ?thesis by (auto simp: nth_list_update)
  qed
  have "write_sectors h data (i # js) d = Inr d'"
    using ByteToSector_block [OF h i(1,2)] w d'(1) by (simp add: write_sectors_def)
  moreover have "d' ! s = d ! s" if "s \<notin> nat ` set (blocks h)" for s
  proof -
    have "?s \<in> nat ` set (blocks h)" using ib by simp
    with that have "?s \<noteq> s" by metis
    then show ?thesis using d'(4) [OF that] by simp
  qed
  ultimately show ?case using d' same i(3) by (intro exI [of _ d']) (auto split: if_splits)
qed (simp add: write_sectors_def)

lemma nth_take_drop: "i < length (take n (drop k xs)) \<Longrightarrow> take n (drop k xs) ! i = xs ! (k + i)"
  by (cases "k \<le> length xs") simp_all

text \<open>
  The buffer has the length of the sectors it covers, and the bytes of the file that the
  write leaves alone are in it.
\<close>

lemma edge_buffer_ok:
  assumes h: "hdr_ok (hdr f)" and d: "disk_ok d" and p: "0 \<le> p" and n: "0 < n" "p + n \<le> numBytes (hdr f)"
  defines "a \<equiv> p div 128" and "b \<equiv> (p + n - 1) div 128"
  shows "\<exists>buf. edge_buffer junk n p a b f d = Inr buf \<and> int (length buf) = (1 + b - a) * 128 \<and>
    (\<forall>j. int j < (1 + b - a) * 128 \<and> a * 128 + int j < numBytes (hdr f) \<and>
         (a * 128 + int j < p \<or> p + n \<le> a * 128 + int j) \<longrightarrow>
       buf ! j = contents (hdr f) d ! nat (a * 128 + int j))"
proof -
  let ?C = "contents (hdr f) d" and ?N = "nat ((1 + b - a) * 128)"
  have "p + n \<le> numSectors (hdr f) * 128" using n hdr_okD(4) [OF h] by simp
  note e = extent_arith [OF p n(1) this, folded a_def b_def]
  have b128: "b * 128 < p + n" unfolding b_def by linarith
  have lC: "length ?C = nat (numBytes (hdr f))" using length_contents [OF h d] .
  have N: "int ?N = (1 + b - a) * 128" using e by simp
  define buf0 where "buf0 = map junk [0..<?N]"
  define F where "F = take 128 (drop (nat (a * 128)) ?C)"
  define G where "G = take 128 (drop (nat (b * 128)) ?C)"
  have rF: "ReadAt 128 (a * 128) f d = Inr F" and rG: "ReadAt 128 (b * 128) f d = Inr G"
    using e ReadAt_ok [OF h d, of "a * 128" 128] ReadAt_ok [OF h d, of "b * 128" 128] by (simp_all add: F_def G_def)
  define buf1 where "buf1 = (if p \<noteq> a * 128 then poke 0 F buf0 else buf0)"
  define buf2 where "buf2 = (if p + n \<noteq> (b + 1) * 128 \<and> (a \<noteq> b \<or> p = a * 128)
    then poke (nat ((b - a) * 128)) G buf1 else buf1)"
  have eb: "edge_buffer junk n p a b f d = Inr buf2"
    using rF rG by (simp add: edge_buffer_def Let_def buf0_def buf1_def buf2_def)
  have l0: "length buf0 = ?N" by (simp add: buf0_def)
  have lF: "length F \<le> 128" and lG: "length G \<le> 128" by (simp_all add: F_def G_def)
  have l1: "length buf1 = ?N" using l0 lF N e by (auto simp: buf1_def)
  have G_in: "nat ((b - a) * 128) + length G \<le> ?N" 
  proof -
    have "int (nat ((b - a) * 128)) + 128 = int ?N" unfolding N using e by (simp add: algebra_simps)
    then show ?thesis using lG by linarith
  qed
  have l2: "length buf2 = ?N" using l1 G_in by (auto simp: buf2_def)
  have "buf2 ! j = ?C ! nat (a * 128 + int j)"
    if j: "int j < (1 + b - a) * 128" "a * 128 + int j < numBytes (hdr f)" "a * 128 + int j < p \<or> p + n \<le> a * 128 + int j" for j
  proof -
    have jN: "j < ?N" using j(1) by linarith
    have F1: "buf1 ! j = ?C ! nat (a * 128 + int j)" if "p \<noteq> a * 128" "j < 128"
    proof -
      have "j < length F" using that j(2) lC e by (simp add: F_def)
      moreover have "nat (a * 128) + j = nat (a * 128 + int j)" using e by simp
      moreover have "poke 0 F buf0 ! j = F ! j" using calculation(1) l0 jN by (simp add: poke_def nth_append)
      ultimately show ?thesis using that lC by (simp add: buf1_def F_def)
    qed
    show ?thesis
    proof (cases "p + n \<noteq> (b + 1) * 128 \<and> (a \<noteq> b \<or> p = a * 128)")
      case True
      show ?thesis
      proof (cases "a * 128 + int j < b * 128")
        case False
        then have j': "nat ((b - a) * 128) \<le> j" "j - nat ((b - a) * 128) < length G"
          using j lC e by (simp_all add: G_def) linarith+
        have "nat (b * 128) + (j - nat ((b - a) * 128)) = nat (a * 128 + int j)" using False e by (simp add: algebra_simps)
        moreover have "G ! (j - nat ((b - a) * 128)) = ?C ! (nat (b * 128) + (j - nat ((b - a) * 128)))"
          using j'(2) unfolding G_def by (rule nth_take_drop)
        moreover have "poke (nat ((b - a) * 128)) G buf1 ! j = G ! (j - nat ((b - a) * 128))"
          using nth_poke [of "nat ((b - a) * 128)" G buf1 j] G_in l1 jN j' by (simp only:) auto
        ultimately show ?thesis unfolding buf2_def if_P [OF True] by (simp only:)
      next
        case lt: True
        then have o: "j < nat ((b - a) * 128)" by (simp add: algebra_simps)
        have "a * 128 + int j < p" using j(3) b128 lt by linarith
        then have "p \<noteq> a * 128" "j < 128" using e by linarith+
        with F1 show ?thesis using True o l1 jN G_in by (simp add: buf2_def nth_poke)
      qed
    next
      case False
      have "p \<noteq> a * 128 \<and> j < 128"
      proof (cases "a * 128 + int j < p")
        case True
        then show ?thesis using e by linarith
      next
        case ge: False
        then have "p + n \<noteq> (b + 1) * 128" using j(1,3) by (auto simp: algebra_simps)
        then show ?thesis using False j(1) by auto
      qed
      with F1 show ?thesis unfolding buf2_def if_not_P [OF False] by blast
    qed
  qed
  then show ?thesis using eb l2 N by (intro exI [of _ buf2]) auto
qed

lemma poke_length_take: "length (take n xs) = n \<Longrightarrow> a + n \<le> length m \<Longrightarrow> length (poke a (take n xs) m) = length m"
  by (simp add: poke_def)

text \<open>A buffer written to the sectors \<open>a\<close> to \<open>b\<close> of a file, byte by byte.\<close>

lemma write_buffer_ok:
  assumes h: "hdr_ok h" and d: "disk_ok d" and ab: "0 \<le> a" "b < numSectors h" and buf: "int (length buf) = (1 + b - a) * 128"
  shows "\<exists>d'. write_sectors h (\<lambda>i. take 128 (drop (nat ((i - a) * 128)) buf)) [a..b] d = Inr d' \<and> disk_ok d' \<and>
    (\<forall>j < nat (numBytes h). contents h d' ! j =
       (if a * 128 \<le> int j \<and> int j < (b + 1) * 128 then buf ! (j - nat (a * 128)) else contents h d ! j)) \<and>
    (\<forall>s. s \<notin> nat ` set (blocks h) \<longrightarrow> d' ! s = d ! s)"
proof -
  let ?data = "\<lambda>i. take 128 (drop (nat ((i - a) * 128)) buf)"
  have ld: "length (?data i) = 128" if "i \<in> set [a..b]" for i using that buf by (simp add: min_absorb2) linarith
  obtain d' where d': "write_sectors h ?data [a..b] d = Inr d'" "disk_ok d'"
    "\<And>j. j < nat (numSectors h) \<Longrightarrow> d' ! nat (blocks h ! j) =
       (if int j \<in> set [a..b] then ?data (int j) else d ! nat (blocks h ! j))"
    "\<And>s. s \<notin> nat ` set (blocks h) \<Longrightarrow> d' ! s = d ! s"
    using write_sectors_ok [OF h d, of "[a..b]" ?data] ab ld by auto
  have "contents h d' ! j = (if a * 128 \<le> int j \<and> int j < (b + 1) * 128 then buf ! (j - nat (a * 128)) else contents h d ! j)"
    if j: "j < nat (numBytes h)" for j
  proof -
    let ?k = "j div 128"
    have "j < 128 * nat (numSectors h)" using j hdr_okD(4) [OF h] by linarith
    then have k: "?k < nat (numSectors h)" by (simp add: div_less_iff_less_mult mult.commute)
    note c = nth_contents [OF h d'(2) j] nth_contents [OF h d j] d'(3) [OF k]
    show ?thesis
    proof (cases "int ?k \<in> set [a..b]")
      case True
      have rng: "a * 128 \<le> int j" "int j < (b + 1) * 128" using True by simp_all linarith+
      have "nat ((int ?k - a) * 128) = ?k * 128 - nat (a * 128)" "nat (a * 128) \<le> ?k * 128"
        using True ab by (simp_all add: nat_mult_distrib nat_diff_distrib diff_mult_distrib nat_le_iff)
      then have "nat ((int ?k - a) * 128) + j mod 128 = j - nat (a * 128)"
        using div_mult_mod_eq [of j 128] by (metis Nat.add_diff_assoc2)
      moreover have "j mod 128 < length (?data (int ?k))" using ld [OF True] by simp
      ultimately have "contents h d' ! j = buf ! (j - nat (a * 128))"
        using c True nth_take_drop [of "j mod 128" 128 "nat ((int ?k - a) * 128)" buf] by simp
      then show ?thesis using rng by simp
    next
      case False
      then have "int j < a * 128 \<or> (b + 1) * 128 \<le> int j" by (auto simp: not_le)
      then show ?thesis unfolding c if_not_P [OF False] by auto
    qed
  qed
  then show ?thesis using d' by blast
qed

text \<open>What a write does to the sector array, for a transfer that stays in the file.\<close>

lemma WriteAt_ok:
  assumes h: "hdr_ok (hdr f)" and d: "disk_ok d" and p: "0 \<le> p" "p < numBytes (hdr f)" and fr: "from \<noteq> []"
  defines "n \<equiv> (if p + int (length from) > numBytes (hdr f) then numBytes (hdr f) - p else int (length from))"
  shows "\<exists>d'. WriteAt junk from p f d = Inr (n, d') \<and> disk_ok d' \<and>
    contents (hdr f) d' = poke (nat p) (take (nat n) from) (contents (hdr f) d) \<and>
    (\<forall>s. s \<notin> nat ` set (blocks (hdr f)) \<longrightarrow> d' ! s = d ! s)"
proof -
  let ?h = "hdr f" and ?C = "contents (hdr f) d"
  define a where "a = p div 128"
  define b where "b = (p + n - 1) div 128"
  define off where "off = p - a * 128"
  define w where "w = take (nat n) from"
  have n: "0 < n" "p + n \<le> numBytes ?h" "n \<le> int (length from)" using p fr by (auto simp: n_def)
  have "p + n \<le> numSectors ?h * 128" using n hdr_okD(4) [OF h] by simp
  note e = extent_arith [OF p(1) n(1) this, folded a_def b_def]
  obtain buf where buf: "edge_buffer junk n p a b f d = Inr buf" "int (length buf) = (1 + b - a) * 128"
    "\<And>j. int j < (1 + b - a) * 128 \<Longrightarrow> a * 128 + int j < numBytes ?h \<Longrightarrow>
         a * 128 + int j < p \<or> p + n \<le> a * 128 + int j \<Longrightarrow> buf ! j = ?C ! nat (a * 128 + int j)"
    using edge_buffer_ok [OF h d p(1) n(1,2), folded a_def b_def] by blast
  have off: "0 \<le> off" "off + n \<le> int (length buf)" using e unfolding buf(2) off_def by (simp_all add: algebra_simps)
  have lw: "length w = nat n" using n by (simp add: w_def)
  have inb: "nat off + length w \<le> length buf" using off lw n(1) by linarith
  then have "int (length (poke (nat off) w buf)) = (1 + b - a) * 128" using buf(2) by simp
  from write_buffer_ok [OF h d _ _ this] e(1,3) obtain d' where
    d': "write_sectors ?h (\<lambda>i. take 128 (drop (nat ((i - a) * 128)) (poke (nat off) w buf))) [a..b] d = Inr d'" "disk_ok d'"
    "\<forall>j < nat (numBytes ?h). contents ?h d' ! j =
       (if a * 128 \<le> int j \<and> int j < (b + 1) * 128 then poke (nat off) w buf ! (j - nat (a * 128)) else ?C ! j)"
    "\<forall>s. s \<notin> nat ` set (blocks ?h) \<longrightarrow> d' ! s = d ! s" by blast
  have wr: "WriteAt junk from p f d = Inr (n, d')"
    using p n fr e(1) buf(1) off d'(1) divRoundDown_nonneg [of p 128] divRoundDown_nonneg [of "p + n - 1" 128]
    unfolding WriteAt_def FileLength_def Let_def n_def [symmetric]
    by (simp add: a_def [symmetric] b_def [symmetric] off_def [symmetric] w_def [symmetric])
  have pC: "nat p + length w \<le> length ?C" using n p lw length_contents [OF h d] by simp
  have "contents ?h d' ! j = poke (nat p) w ?C ! j" if j: "j < nat (numBytes ?h)" for j
  proof -
    have rhs: "poke (nat p) w ?C ! j = (if p \<le> int j \<and> int j < p + n then w ! (j - nat p) else ?C ! j)"
      using nth_poke [OF pC, of j] j lw p(1) n(1) length_contents [OF h d] by (auto simp: nat_le_iff)
    show ?thesis
    proof (cases "a * 128 \<le> int j \<and> int j < (b + 1) * 128")
      case False
      then have "\<not> (p \<le> int j \<and> int j < p + n)" using e(4,6) by linarith
      then show ?thesis using d'(3) j False rhs by auto
    next
      case True
      let ?q = "j - nat (a * 128)"
      have q: "int ?q = int j - a * 128" using True e(1) by linarith
      then have ql: "?q < length buf" using True buf(2) by (simp add: algebra_simps)
      have "poke (nat off) w buf ! ?q = (if off \<le> int ?q \<and> int ?q < off + n then w ! (?q - nat off) else buf ! ?q)"
        using nth_poke [OF inb ql] off(1) lw n(1) by (auto simp: nat_le_iff)
      moreover have "off \<le> int ?q \<and> int ?q < off + n \<longleftrightarrow> p \<le> int j \<and> int j < p + n" using q by (auto simp: off_def)
      moreover have "nat (a * 128) + nat off = nat p" using off(1) e(1) p(1) by (simp add: off_def flip: nat_add_distrib)
      then have "?q - nat off = j - nat p" by simp
      moreover have "buf ! ?q = ?C ! j" if "\<not> (p \<le> int j \<and> int j < p + n)"
        using buf(3) [of ?q] ql buf(2) q j that by auto
      ultimately show ?thesis using d'(3) j True rhs by auto
    qed
  qed
  then have "contents ?h d' = poke (nat p) w ?C"
    using pC by (intro nth_equalityI) (simp_all add: length_contents [OF h d] length_contents [OF h d'(2)])
  with wr d' show ?thesis unfolding w_def by blast
qed

lemma WriteAt_outside:
  assumes "from = [] \<or> numBytes (hdr f) \<le> p"
  shows "WriteAt junk from p f d = Inr (0, d)"
  using assms by (auto simp: WriteAt_def FileLength_def Let_def)

text \<open>
  C5. A file is an array of bytes of fixed length. On a well-formed header and disk, a write at
  any position that is not negative, of any length, across any sector boundaries, returns
  the number of bytes that fit and changes exactly those bytes of the file, whatever the
  uninitialised buffer held; sectors of other files stay as they are. A read returns the
  bytes of the file at that position, cut off at its end, so it returns what was written.
\<close>

theorem file_is_byte_array:
  assumes "hdr_ok (hdr f)" and "disk_ok d" and "0 \<le> p"
  shows "\<exists>n d'. WriteAt junk from p f d = Inr (n, d') \<and> disk_ok d' \<and>
    n = max 0 (min (int (length from)) (Length f - p)) \<and>
    contents (hdr f) d' = poke (nat p) (take (nat n) from) (contents (hdr f) d) \<and>
    (\<forall>s. s \<notin> nat ` set (blocks (hdr f)) \<longrightarrow> d' ! s = d ! s) \<and>
    ReadAt n p f d' = Inr (take (nat n) from) \<and>
    (\<forall>k q. 0 \<le> q \<longrightarrow> ReadAt k q f d' = Inr (take (nat k) (drop (nat q) (contents (hdr f) d'))))"
proof -
  note rd = ReadAt_ok [OF assms(1)]
  show ?thesis
  proof (cases "from = [] \<or> numBytes (hdr f) \<le> p")
    case True
    have "max 0 (min (int (length from)) (Length f - p)) = 0"
      using True by (auto simp: Length_def FileLength_def)
    with WriteAt_outside [OF True] rd [OF assms(2)] assms show ?thesis by (simp add: poke_def)
  next
    case False
    define n where "n = max 0 (min (int (length from)) (Length f - p))"
    have n: "n = (if p + int (length from) > numBytes (hdr f) then numBytes (hdr f) - p else int (length from))"
      using False by (auto simp: n_def Length_def FileLength_def)
    obtain d' where d': "WriteAt junk from p f d = Inr (n, d')" "disk_ok d'"
      "contents (hdr f) d' = poke (nat p) (take (nat n) from) (contents (hdr f) d)"
      "\<forall>s. s \<notin> nat ` set (blocks (hdr f)) \<longrightarrow> d' ! s = d ! s"
      using WriteAt_ok [OF assms, of "from" junk] False by (auto simp: n not_le)
    have "length (take (nat n) from) = nat n" "nat p + nat n \<le> length (contents (hdr f) d)"
      using assms False length_contents [OF assms(1,2)] by (auto simp: n)
    then have "take (nat n) (drop (nat p) (contents (hdr f) d')) = take (nat n) from"
      unfolding d'(3) by (metis take_drop_poke_same)
    with rd [OF d'(2) assms(3), of n] have "ReadAt n p f d' = Inr (take (nat n) from)" by simp
    with d' rd [OF d'(2)] show ?thesis unfolding n_def [symmetric] by (intro exI [of _ n] exI [of _ d']) simp
  qed
qed

definition demo_file :: FsOpenFile where
  "demo_file = \<lparr>hdr = \<lparr>numBytes = 200, numSectors = 2, dataSectors = [7, 5] @ replicate 28 0\<rparr>, seekPosition = 0\<rparr>"

lemma demo_file_ok: "hdr_ok (hdr demo_file)" "disk_ok (replicate 1024 (replicate 128 0))"
  by (auto simp: demo_file_def hdr_ok_def hdr_shape_def blocks_def fits_int_def divRoundUp_nonneg disk_ok_def numeral_2_eq_2)

theorem file_is_byte_array_witness:
  "\<exists>d'. WriteAt (\<lambda>_. 0) [1, 2, 3] 127 demo_file (replicate 1024 (replicate 128 0)) = Inr (3, d') \<and>
     ReadAt 3 127 demo_file d' = Inr [1, 2, 3]"
proof -
  obtain n d' where w: "WriteAt (\<lambda>_. 0) [1, 2, 3] 127 demo_file (replicate 1024 (replicate 128 0)) = Inr (n, d')"
    "n = max 0 (min (int (length [1, 2, 3 :: 8 word])) (Length demo_file - 127))"
    "ReadAt n 127 demo_file d' = Inr (take (nat n) [1, 2, 3])"
    using file_is_byte_array [OF demo_file_ok, of 127 "\<lambda>_. 0" "[1, 2, 3]"] by auto
  have "n = 3" using w(2) by (simp add: Length_def FileLength_def demo_file_def)
  with w show ?thesis by simp
qed

end
