(* ===== verification/FsDirectory.thy ===== *)
theory FsDirectory
  imports FsOpenFile
begin

text \<open>
  The directory of \<^verbatim>\<open>filesys/directory.{h,cc}\<close>, a table of file names and header sectors of
  fixed size, and the transfer of a directory and of a bitmap to and from the file that
  holds it. The table is refined to a finite map with a capacity, keyed by the part of the
  name that the code compares.
\<close>

section \<open>C strings\<close>

text \<open>
  \<^verbatim>\<open>strncmp(a, b, n) == 0\<close> and \<^verbatim>\<open>strncpy(dst, src, n)\<close>. A string is the bytes before its NUL;
  reading behind them yields the NUL.
\<close>

definition head0 :: "8 word list \<Rightarrow> 8 word" where
  "head0 s = (case s of [] \<Rightarrow> 0 | c # _ \<Rightarrow> c)"

fun strncmp_eq :: "nat \<Rightarrow> 8 word list \<Rightarrow> 8 word list \<Rightarrow> bool" where
  "strncmp_eq 0 a b = True"
| "strncmp_eq (Suc n) a b =
     (if head0 a \<noteq> head0 b then False else if head0 a = 0 then True else strncmp_eq n (tl a) (tl b))"

definition strncpy :: "nat \<Rightarrow> 8 word list \<Rightarrow> 8 word list \<Rightarrow> 8 word list" where
  "strncpy n dst src = take n (takeWhile (\<lambda>c. c \<noteq> 0) src @ replicate n 0) @ drop n dst"

section \<open>The directory\<close>

definition FileNameMaxLen :: nat where "FileNameMaxLen = 9"

text \<open>
  A directory entry occupies 20 bytes: the flag, three bytes of padding, the sector, the ten
  bytes of the name and two bytes of padding.
\<close>

record DirectoryEntry =
  inUse :: bool
  sector :: int
  dname :: "8 word list"
  padding :: "8 word list"

record Directory =
  tableSize :: int
  table :: "DirectoryEntry list"

definition Directory_Directory :: "int \<Rightarrow> DirectoryEntry list \<Rightarrow> Directory" where
  "Directory_Directory n garbage =
     \<lparr>tableSize = n, table = map (\<lambda>e. e\<lparr>inUse := False\<rparr>) (take (nat n) garbage)\<rparr>"

fun find_index_loop :: "8 word list \<Rightarrow> DirectoryEntry list \<Rightarrow> int \<Rightarrow> int" where
  "find_index_loop name [] i = - 1"
| "find_index_loop name (e # es) i =
     (if inUse e \<and> strncmp_eq FileNameMaxLen (dname e) name then i else find_index_loop name es (i + 1))"

definition FindIndex :: "8 word list \<Rightarrow> Directory \<Rightarrow> int" where
  "FindIndex name dir = find_index_loop name (take (nat (tableSize dir)) (table dir)) 0"

definition Directory_Find :: "8 word list \<Rightarrow> Directory \<Rightarrow> int" where
  "Directory_Find name dir =
     (let i = FindIndex name dir in if i \<noteq> - 1 then sector (table dir ! nat i) else - 1)"

fun add_loop :: "8 word list \<Rightarrow> int \<Rightarrow> DirectoryEntry list \<Rightarrow> bool \<times> DirectoryEntry list" where
  "add_loop name newSector [] = (False, [])"
| "add_loop name newSector (e # es) =
     (if \<not> inUse e
      then (True, e\<lparr>inUse := True, dname := strncpy FileNameMaxLen (dname e) name, sector := newSector\<rparr> # es)
      else let (b, es') = add_loop name newSector es in (b, e # es'))"

definition Directory_Add :: "8 word list \<Rightarrow> int \<Rightarrow> Directory \<Rightarrow> bool \<times> Directory" where
  "Directory_Add name newSector dir =
     (if FindIndex name dir \<noteq> - 1 then (False, dir)
      else let (b, es) = add_loop name newSector (take (nat (tableSize dir)) (table dir))
           in (b, dir\<lparr>table := es @ drop (nat (tableSize dir)) (table dir)\<rparr>))"

definition Directory_Remove :: "8 word list \<Rightarrow> Directory \<Rightarrow> bool \<times> Directory" where
  "Directory_Remove name dir =
     (let i = FindIndex name dir in
      if i = - 1 then (False, dir)
      else (True, dir\<lparr>table := (table dir)[nat i := (table dir ! nat i)\<lparr>inUse := False\<rparr>]\<rparr>))"

text \<open>
  \<^verbatim>\<open>printf\<close> with \<^verbatim>\<open>%s\<close> of a name prints up to its NUL, and leaves the array when there is none.
  \<^verbatim>\<open>List\<close> prints the names; \<^verbatim>\<open>Print\<close> adds the header and the data of each file.
\<close>

definition print_name :: "8 word list \<Rightarrow> 8 word list res" where
  "print_name s = (if 0 \<in> set s then Inr (takeWhile (\<lambda>c. c \<noteq> 0) s) else Inl OutOfBounds)"

definition Directory_List :: "Directory \<Rightarrow> 8 word list list res" where
  "Directory_List dir = foldE (\<lambda>e out. bindE (print_name (dname e)) (\<lambda>n. Inr (out @ [n])))
     (filter inUse (take (nat (tableSize dir)) (table dir))) []"

definition Directory_Print :: "Directory \<Rightarrow> sectors \<Rightarrow>
    (8 word list \<times> int \<times> int \<times> int list \<times> 8 word list list) list res" where
  "Directory_Print dir d =
     foldE (\<lambda>e out. bindE (print_name (dname e)) (\<lambda>n.
       bindE (FileHeader_FetchFrom (sector e) d) (\<lambda>h. bindE (FileHeader_Print h d) (\<lambda>p.
       Inr (out @ [(n, sector e, p)])))))
       (filter inUse (take (nat (tableSize dir)) (table dir))) []"

section \<open>Transfers\<close>

definition entry_bytes :: "DirectoryEntry \<Rightarrow> 8 word list" where
  "entry_bytes e = (if inUse e then 1 else 0) # take 3 (padding e) @ int_bytes (sector e) @ dname e @ drop 3 (padding e)"

definition entry_of :: "8 word list \<Rightarrow> DirectoryEntry" where
  "entry_of bs = \<lparr>inUse = (bs ! 0 \<noteq> 0), sector = sint (le32 (bs ! 4) (bs ! 5) (bs ! 6) (bs ! 7)),
     dname = take 10 (drop 8 bs), padding = take 3 (drop 1 bs) @ take 2 (drop 18 bs)\<rparr>"

definition dir_bytes :: "DirectoryEntry list \<Rightarrow> 8 word list" where
  "dir_bytes es = concat (map entry_bytes es)"

definition entries_of :: "nat \<Rightarrow> 8 word list \<Rightarrow> DirectoryEntry list" where
  "entries_of n bs = map (\<lambda>i. entry_of (take 20 (drop (20 * i) bs))) [0..<n]"

text \<open>A read lays the bytes it got over the memory of the table.\<close>

definition Directory_FetchFrom :: "FsOpenFile \<Rightarrow> sectors \<Rightarrow> Directory \<Rightarrow> Directory res" where
  "Directory_FetchFrom f d dir =
     bindE (ReadAt (tableSize dir * 20) 0 f d) (\<lambda>bs.
     Inr (dir\<lparr>table := entries_of (length (table dir)) (poke 0 bs (dir_bytes (table dir)))\<rparr>))"

definition Directory_WriteBack :: "(nat \<Rightarrow> 8 word) \<Rightarrow> FsOpenFile \<Rightarrow> Directory \<Rightarrow> sectors \<Rightarrow> sectors res" where
  "Directory_WriteBack junk f dir d =
     bindE (WriteAt junk (take (nat (tableSize dir * 20)) (dir_bytes (table dir))) 0 f d) (\<lambda>(_, d'). Inr d')"

definition BitMap_FetchFrom :: "FsOpenFile \<Rightarrow> sectors \<Rightarrow> BitMap \<Rightarrow> BitMap res" where
  "BitMap_FetchFrom f d bm =
     bindE (ReadAt (numWords bm * 4) 0 f d) (\<lambda>bs.
     Inr (bm\<lparr>words := words_of (poke 0 bs (concat (map word_bytes (words bm))))\<rparr>))"

definition BitMap_WriteBack :: "(nat \<Rightarrow> 8 word) \<Rightarrow> FsOpenFile \<Rightarrow> BitMap \<Rightarrow> sectors \<Rightarrow> sectors res" where
  "BitMap_WriteBack junk f bm d =
     bindE (WriteAt junk (take (nat (numWords bm * 4)) (concat (map word_bytes (words bm)))) 0 f d) (\<lambda>(_, d'). Inr d')"

section \<open>Names\<close>

text \<open>The part of a name that the directory compares.\<close>

definition fname :: "8 word list \<Rightarrow> 8 word list" where
  "fname s = takeWhile (\<lambda>c. c \<noteq> 0) (take FileNameMaxLen s)"

lemma strncmp_eq_takeWhile:
  "strncmp_eq n a b \<longleftrightarrow> takeWhile (\<lambda>c. c \<noteq> 0) (take n a) = takeWhile (\<lambda>c. c \<noteq> 0) (take n b)"
proof (induction n arbitrary: a b)
  case (Suc n)
  then show ?case by (cases a; cases b) (auto simp: head0_def)
qed simp

lemma strncmp_fname: "strncmp_eq FileNameMaxLen a b \<longleftrightarrow> fname a = fname b"
  by (simp add: strncmp_eq_takeWhile fname_def)

lemma takeWhile_take: "takeWhile P (take n xs) = take n (takeWhile P xs)"
  by (induction xs arbitrary: n) (auto simp: take_Cons split: nat.splits)

lemma fname_strncpy [simp]: "fname (strncpy FileNameMaxLen dst src) = fname src"
proof -
  let ?w = "takeWhile (\<lambda>c. c \<noteq> 0) src"
  have "takeWhile (\<lambda>c. c \<noteq> 0) (take 9 ?w @ replicate k 0) = take 9 ?w" for k
    by (subst takeWhile_append2) (auto dest: set_takeWhileD in_set_takeD simp: takeWhile_eq_Nil_iff hd_replicate)
  then show ?thesis by (simp add: fname_def strncpy_def FileNameMaxLen_def takeWhile_take)
qed

lemma length_strncpy: "n \<le> length dst \<Longrightarrow> length (strncpy n dst src) = length dst"
  by (simp add: strncpy_def)

section \<open>The table as a map\<close>

definition dir_files :: "DirectoryEntry list \<Rightarrow> (8 word list \<times> int) list" where
  "dir_files es = map (\<lambda>e. (fname (dname e), sector e)) (filter inUse es)"

definition dir_map :: "Directory \<Rightarrow> 8 word list \<Rightarrow> int option" where
  "dir_map dir = map_of (dir_files (table dir))"

definition entry_ok :: "DirectoryEntry \<Rightarrow> bool" where
  "entry_ok e \<longleftrightarrow> length (dname e) = 10 \<and> length (padding e) = 5 \<and> fits_int (sector e)"

definition dir_ok :: "Directory \<Rightarrow> bool" where
  "dir_ok dir \<longleftrightarrow> 0 \<le> tableSize dir \<and> length (table dir) = nat (tableSize dir) \<and>
     (\<forall>e \<in> set (table dir). entry_ok e) \<and> distinct (map fst (dir_files (table dir))) \<and>
     (\<forall>(k, s) \<in> set (dir_files (table dir)). 0 \<le> s)"

lemma dir_files_simps [simp]:
  "dir_files [] = []"
  "dir_files (e # es) = (if inUse e then (fname (dname e), sector e) # dir_files es else dir_files es)"
  "dir_files (xs @ ys) = dir_files xs @ dir_files ys"
  by (simp_all add: dir_files_def)

lemma dir_ok_take: "dir_ok dir \<Longrightarrow> take (nat (tableSize dir)) (table dir) = table dir"
  by (simp add: dir_ok_def)

lemma find_index_loop_cases:
  "(find_index_loop name es i = - 1 \<and> map_of (dir_files es) (fname name) = None) \<or>
   (\<exists>xs e ys. es = xs @ e # ys \<and> find_index_loop name es i = i + int (length xs) \<and> inUse e \<and>
      fname (dname e) = fname name \<and> map_of (dir_files xs) (fname name) = None)"
proof (induction es arbitrary: i)
  case (Cons e es)
  show ?case
  proof (cases "inUse e \<and> strncmp_eq FileNameMaxLen (dname e) name")
    case True
    then show ?thesis by (intro disjI2 exI [of _ "[]"] exI [of _ e] exI [of _ es]) (simp add: strncmp_fname)
  next
    case False
    from Cons.IH [of "i + 1"] show ?thesis
    proof (elim disjE exE conjE)
      fix xs e' ys
      assume "es = xs @ e' # ys" "find_index_loop name es (i + 1) = i + 1 + int (length xs)" "inUse e'"
        "fname (dname e') = fname name" "map_of (dir_files xs) (fname name) = None"
      with False show ?thesis
        by (intro disjI2 exI [of _ "e # xs"] exI [of _ e'] exI [of _ ys]) (auto simp: strncmp_fname)
    qed (use False in \<open>auto simp: strncmp_fname\<close>)
  qed
qed simp

lemma FindIndex_cases:
  assumes "dir_ok dir"
  obtains (none) "FindIndex name dir = - 1" "dir_map dir (fname name) = None"
  | (some) xs e ys where "table dir = xs @ e # ys" "FindIndex name dir = int (length xs)" "inUse e"
      "fname (dname e) = fname name" "map_of (dir_files xs) (fname name) = None"
  using find_index_loop_cases [of name "table dir" 0] dir_ok_take [OF assms]
  by (auto simp: FindIndex_def dir_map_def)

lemma Find_map:
  assumes "dir_ok dir"
  shows "Directory_Find name dir = (case dir_map dir (fname name) of None \<Rightarrow> - 1 | Some s \<Rightarrow> s)"
  using assms
proof (cases rule: FindIndex_cases [where name = name])
  case (some xs e ys)
  then show ?thesis by (simp add: Directory_Find_def Let_def dir_map_def nth_append map_add_def)
qed (simp add: Directory_Find_def)

lemma add_loop_cases:
  "(fst (add_loop name s es) = False \<and> snd (add_loop name s es) = es \<and> (\<forall>e \<in> set es. inUse e)) \<or>
   (\<exists>xs e ys. es = xs @ e # ys \<and> (\<forall>x \<in> set xs. inUse x) \<and> \<not> inUse e \<and>
      add_loop name s es = (True, xs @ e\<lparr>inUse := True, dname := strncpy FileNameMaxLen (dname e) name, sector := s\<rparr> # ys))"
proof (induction es)
  case (Cons e es)
  show ?case
  proof (cases "inUse e")
    case False
    then show ?thesis by (intro disjI2 exI [of _ "[]"] exI [of _ e] exI [of _ es]) simp
  next
    case True
    from Cons.IH show ?thesis
    proof (elim disjE exE conjE)
      fix xs e' ys
      assume "es = xs @ e' # ys" "\<forall>x \<in> set xs. inUse x" "\<not> inUse e'" "add_loop name s es = (True, xs @ e'\<lparr>inUse := True,
        dname := strncpy FileNameMaxLen (dname e') name, sector := s\<rparr> # ys)"
      with True show ?thesis by (intro disjI2 exI [of _ "e # xs"] exI [of _ e'] exI [of _ ys]) simp
    qed (use True in \<open>auto simp: split_beta\<close>)
  qed
qed simp

section \<open>The contract of a directory\<close>

text \<open>
  A table of names: \<open>entries\<close> is what it stands for, \<open>cap\<close> its capacity, \<open>key\<close> the part of a
  name that counts.
\<close>

fun spec_request :: "nat \<Rightarrow> ('n \<Rightarrow> 'k) \<Rightarrow> ('n \<times> int) + 'n \<Rightarrow> ('k \<Rightarrow> int option) \<Rightarrow> bool \<times> ('k \<Rightarrow> int option)" where
  "spec_request c key (Inl (n, s)) m =
     (if key n \<in> dom m \<or> c \<le> card (dom m) then (False, m) else (True, m(key n \<mapsto> s)))"
| "spec_request c key (Inr n) m = (key n \<in> dom m, m(key n := None))"

fun run_requests :: "('r \<Rightarrow> 'm \<Rightarrow> bool \<times> 'm) \<Rightarrow> 'r list \<Rightarrow> 'm \<Rightarrow> bool list \<times> 'm" where
  "run_requests f [] m = ([], m)"
| "run_requests f (r # rs) m = (let (b, m1) = f r m; (bs, m2) = run_requests f rs m1 in (b # bs, m2))"

locale name_table =
  fixes inv :: "'d \<Rightarrow> bool"
    and entries :: "'d \<Rightarrow> 'k \<Rightarrow> int option"
    and cap :: "'d \<Rightarrow> nat"
    and key :: "'n \<Rightarrow> 'k"
    and find :: "'n \<Rightarrow> 'd \<Rightarrow> int"
    and add :: "'n \<Rightarrow> int \<Rightarrow> 'd \<Rightarrow> bool \<times> 'd"
    and remove :: "'n \<Rightarrow> 'd \<Rightarrow> bool \<times> 'd"
  assumes find_entries: "inv d \<Longrightarrow> find n d = (case entries d (key n) of None \<Rightarrow> - 1 | Some s \<Rightarrow> s)"
    and add_request: "inv d \<Longrightarrow> 0 \<le> s \<Longrightarrow> fits_int s \<Longrightarrow> add n s d = (b, d') \<Longrightarrow>
      inv d' \<and> cap d' = cap d \<and> (b, entries d') = spec_request (cap d) key (Inl (n, s)) (entries d)"
    and remove_request: "inv d \<Longrightarrow> remove n d = (b, d') \<Longrightarrow>
      inv d' \<and> cap d' = cap d \<and> (b, entries d') = spec_request (cap d) key (Inr n) (entries d)"
begin

definition request :: "('n \<times> int) + 'n \<Rightarrow> 'd \<Rightarrow> bool \<times> 'd" where
  "request r d = (case r of Inl (n, s) \<Rightarrow> add n s d | Inr n \<Rightarrow> remove n d)"

lemma requests_refine:
  assumes "inv d" and "\<forall>(n, s) \<in> set (map projl (filter isl rs)). 0 \<le> s \<and> fits_int s"
    and "run_requests request rs d = (bs, d')"
  shows "inv d' \<and> cap d' = cap d \<and> run_requests (spec_request (cap d) key) rs (entries d) = (bs, entries d')"
  using assms
proof (induction rs arbitrary: d bs)
  case (Cons r rs)
  obtain b d1 where r: "request r d = (b, d1)" by (cases "request r d")
  obtain bs1 where rs: "run_requests request rs d1 = (bs1, d')" "bs = b # bs1"
    using Cons.prems(3) r by (auto simp: Let_def split: prod.splits)
  have "inv d1 \<and> cap d1 = cap d \<and> (b, entries d1) = spec_request (cap d) key r (entries d)"
  proof (cases r)
    case (Inl x)
    with r add_request [OF Cons.prems(1), of "snd x" "fst x" b d1] Cons.prems(2) show ?thesis
      by (auto simp: request_def split: prod.splits)
  next
    case (Inr n)
    with r remove_request [OF Cons.prems(1), of n b d1] show ?thesis by (simp add: request_def)
  qed
  moreover have "\<forall>(n, s) \<in> set (map projl (filter isl rs)). 0 \<le> s \<and> fits_int s" using Cons.prems(2) by auto
  ultimately show ?case
    using Cons.IH [of d1 bs1] rs by (metis (no_types, lifting) case_prod_conv run_requests.simps(2))
qed simp

end

lemma card_dir_files: "distinct (map fst xs) \<Longrightarrow> card (dom (map_of xs)) = length xs"
  by (metis dom_map_of_conv_image_fst distinct_card length_map set_map)

lemma length_dir_files: "length (dir_files es) \<le> length es"
  by (simp add: dir_files_def)

lemma Add_request:
  assumes d: "dir_ok dir" and s: "0 \<le> s" "fits_int s" and add: "Directory_Add name s dir = (b, dir')"
  shows "dir_ok dir' \<and> nat (tableSize dir') = nat (tableSize dir) \<and>
    (b, dir_map dir') = spec_request (nat (tableSize dir)) fname (Inl (name, s)) (dir_map dir)"
  using d
proof (cases rule: FindIndex_cases [where name = name])
  case none
  have dis: "distinct (map fst (dir_files (table dir)))" using d by (simp add: dir_ok_def)
  have nd: "fname name \<notin> dom (dir_map dir)" using none(2) by auto
  then have nk: "fname name \<notin> fst ` set (dir_files (table dir))" by (simp add: dir_map_def dom_map_of_conv_image_fst)
  have c: "card (dom (dir_map dir)) = length (dir_files (table dir))" using card_dir_files [OF dis] by (simp add: dir_map_def)
  from add_loop_cases [of name s "table dir"] show ?thesis
  proof (elim disjE exE conjE)
    assume "fst (add_loop name s (table dir)) = False" "snd (add_loop name s (table dir)) = table dir"
      and full: "\<forall>e \<in> set (table dir). inUse e"
    then have "b = False" "dir' = dir" using add none(1) dir_ok_take [OF d] d
      by (auto simp: Directory_Add_def split: prod.splits simp: dir_ok_def)
    moreover have "nat (tableSize dir) \<le> card (dom (dir_map dir))"
      using full d unfolding c by (simp add: dir_files_def dir_ok_def)
    ultimately show ?thesis using d by simp
  next
    fix xs ys and e :: DirectoryEntry
    let ?e = "e\<lparr>inUse := True, dname := strncpy FileNameMaxLen (dname e) name, sector := s\<rparr>"
    assume t: "table dir = xs @ e # ys" "\<not> inUse e" and a: "add_loop name s (table dir) = (True, xs @ ?e # ys)"
    then have b: "b" and dir': "dir' = dir\<lparr>table := xs @ ?e # ys\<rparr>"
      using add none(1) dir_ok_take [OF d] d by (auto simp: Directory_Add_def dir_ok_def split: prod.splits)
    have "entry_ok ?e" using d t s by (auto simp: dir_ok_def entry_ok_def length_strncpy FileNameMaxLen_def)
    then have ok: "dir_ok dir'" using d t s nk by (auto simp: dir_ok_def dir')
    have lt: "length (dir_files (table dir)) < nat (tableSize dir)"
      using length_dir_files [of xs] length_dir_files [of ys] d t by (simp add: dir_ok_def)
    have "map_of (dir_files xs) (fname name) = None" using nk t by (auto simp: map_of_eq_None_iff)
    then have "dir_map dir' = (dir_map dir)(fname name \<mapsto> s)"
      using t by (intro ext) (simp add: dir_map_def dir' map_add_def split: option.split)
    with ok b nd lt show ?thesis by (simp add: c dir')
  qed
next
  case (some xs e ys)
  then have "FindIndex name dir \<noteq> - 1" by simp
  then have "b = False" "dir' = dir" using add by (simp_all add: Directory_Add_def)
  moreover have "fname name \<in> dom (dir_map dir)" using some by (auto simp: dir_map_def)
  ultimately show ?thesis using d by simp
qed

lemma map_of_remove:
  assumes "distinct (map fst (xs @ (k, v) # ys))"
  shows "map_of (xs @ ys) = (map_of (xs @ (k, v) # ys))(k := None)"
proof -
  have "map_of xs k = None" "map_of ys k = None" using assms by (auto simp: map_of_eq_None_iff)
  then show ?thesis by (intro ext) (simp add: map_add_def split: option.split)
qed

lemma Remove_request:
  assumes d: "dir_ok dir" and rm: "Directory_Remove name dir = (b, dir')"
  shows "dir_ok dir' \<and> nat (tableSize dir') = nat (tableSize dir) \<and>
    (b, dir_map dir') = spec_request (nat (tableSize dir)) fname (Inr name) (dir_map dir)"
  using d
proof (cases rule: FindIndex_cases [where name = name])
  case none
  then show ?thesis using rm d by (auto simp: Directory_Remove_def fun_upd_idem)
next
  case (some xs e ys)
  let ?k = "fname name"
  have dir': "b" "dir' = dir\<lparr>table := xs @ e\<lparr>inUse := False\<rparr> # ys\<rparr>"
    using rm some by (auto simp: Directory_Remove_def Let_def nth_append)
  have dis: "distinct (map fst (dir_files xs @ (?k, sector e) # dir_files ys))" using d some by (simp add: dir_ok_def)
  note map_of_remove [OF this]
  moreover have "?k \<in> dom (dir_map dir)" using some by (auto simp: dir_map_def)
  moreover have "dir_ok dir'" using d some by (auto simp: dir_ok_def dir' entry_ok_def)
  ultimately show ?thesis using some dir' by (simp add: dir_map_def)
qed

interpretation fsdir: name_table dir_ok dir_map "\<lambda>d. nat (tableSize d)" fname Directory_Find Directory_Add Directory_Remove
  by unfold_locales (use Find_map Add_request Remove_request in blast)+

section \<open>Transfers and their round trips\<close>

lemma length_entry_bytes [simp]: "entry_ok e \<Longrightarrow> length (entry_bytes e) = 20"
  by (simp add: entry_bytes_def entry_ok_def)

lemma length_dir_bytes: "\<forall>e \<in> set es. entry_ok e \<Longrightarrow> length (dir_bytes es) = 20 * length es"
  unfolding dir_bytes_def by (intro length_concat_const) simp

lemma list_3_2:
  assumes "length xs = 5"
  obtains a b c d e where "xs = [a, b, c, d, e]"
  using assms by (auto simp: length_Suc_conv numeral_eq_Suc)

lemma entry_round_trip:
  assumes "entry_ok e"
  shows "entry_of (entry_bytes e @ rest) = e"
proof -
  obtain a b c p q where pad: "padding e = [a, b, c, p, q]" using assms list_3_2 [of "padding e"] unfolding entry_ok_def by metis
  have l: "length (dname e) = 10" "fits_int (sector e)" using assms by (simp_all add: entry_ok_def)
  show ?thesis
    using l sint_word_of_int_fits [OF l(2)]
    by (simp add: entry_of_def entry_bytes_def pad int_bytes_def word_bytes_def)
qed

lemma entries_of_append:
  assumes "length b = 20"
  shows "entries_of (Suc n) (b @ bs) = entry_of b # entries_of n bs"
proof -
  have "[0..<Suc n] = 0 # map Suc [0..<n]" by (simp add: upt_conv_Cons map_Suc_upt del: upt_Suc)
  then show ?thesis using assms by (simp add: entries_of_def comp_def del: upt_Suc)
qed

lemma dir_round_trip: "\<forall>e \<in> set es. entry_ok e \<Longrightarrow> entries_of (length es) (dir_bytes es) = es"
proof (induction es)
  case (Cons e es)
  then show ?case
    using entry_round_trip [of e "[]"] entries_of_append [of "entry_bytes e" "length es" "dir_bytes es"]
    by (simp add: dir_bytes_def)
qed (simp add: entries_of_def)

lemma poke_all: "length bs = length m \<Longrightarrow> poke 0 bs m = bs"
  by (simp add: poke_def)

lemma Directory_FetchFrom_ok:
  assumes "hdr_ok (hdr f)" "disk_ok d" and c: "contents (hdr f) d = dir_bytes es" "\<forall>e \<in> set es. entry_ok e"
    and dir: "length (table dir) = length es" "tableSize dir = int (length es)" "\<forall>e \<in> set (table dir). entry_ok e"
  shows "Directory_FetchFrom f d dir = Inr (dir\<lparr>table := es\<rparr>)"
proof -
  have "ReadAt (tableSize dir * 20) 0 f d = Inr (dir_bytes es)"
    using ReadAt_ok [OF assms(1,2), of 0 "tableSize dir * 20"] c dir(2) length_dir_bytes [OF c(2)] by simp
  then show ?thesis
    using dir_round_trip [OF c(2)] length_dir_bytes [OF c(2)] length_dir_bytes [OF dir(3)] dir(1)
    by (simp add: Directory_FetchFrom_def poke_all)
qed

text \<open>Writing a whole file: its contents become the bytes given.\<close>

lemma WriteAt_whole:
  assumes "hdr_ok (hdr f)" "disk_ok d" "int (length bs) = numBytes (hdr f)" "bs \<noteq> []"
  shows "\<exists>n d'. WriteAt junk bs 0 f d = Inr (n, d') \<and> disk_ok d' \<and> contents (hdr f) d' = bs \<and>
    (\<forall>s. s \<notin> nat ` set (blocks (hdr f)) \<longrightarrow> d' ! s = d ! s)"
proof -
  have "nat (numBytes (hdr f)) = length bs" "0 < numBytes (hdr f)" using assms(3,4) by (auto simp flip: assms(3))
  then show ?thesis
    using WriteAt_ok [OF assms(1,2), of 0 bs junk] assms(3,4) length_contents [OF assms(1,2)]
    by (simp add: poke_all) blast
qed

lemma Directory_WriteBack_ok:
  assumes "hdr_ok (hdr f)" "disk_ok d" "numBytes (hdr f) = tableSize dir * 20" "dir_ok dir" "0 < tableSize dir"
  shows "\<exists>d'. Directory_WriteBack junk f dir d = Inr d' \<and> disk_ok d' \<and> contents (hdr f) d' = dir_bytes (table dir) \<and>
    (\<forall>s. s \<notin> nat ` set (blocks (hdr f)) \<longrightarrow> d' ! s = d ! s)"
proof -
  have l: "length (dir_bytes (table dir)) = 20 * nat (tableSize dir)"
    using length_dir_bytes [of "table dir"] assms(4) by (simp add: dir_ok_def)
  then have "int (length (dir_bytes (table dir))) = numBytes (hdr f)" "dir_bytes (table dir) \<noteq> []"
    using assms(3,5) by auto
  from WriteAt_whole [OF assms(1,2) this, of junk] l assms(5) show ?thesis
    by (auto simp: Directory_WriteBack_def nat_mult_distrib)
qed

definition map_bytes :: "BitMap \<Rightarrow> 8 word list" where
  "map_bytes bm = concat (map word_bytes (words bm))"

lemma length_map_bytes: "length (map_bytes bm) = 4 * length (words bm)"
  unfolding map_bytes_def by (intro length_concat_const) simp

lemma BitMap_FetchFrom_ok:
  assumes "hdr_ok (hdr f)" "disk_ok d" and c: "contents (hdr f) d = map_bytes bm0"
    and w: "length (words bm0) = nat (numWords bm)" "length (words bm) = nat (numWords bm)" "0 \<le> numWords bm"
  shows "BitMap_FetchFrom f d bm = Inr (bm\<lparr>words := words bm0\<rparr>)"
proof -
  have "ReadAt (numWords bm * 4) 0 f d = Inr (map_bytes bm0)"
    using ReadAt_ok [OF assms(1,2), of 0 "numWords bm * 4"] c w length_map_bytes [of bm0] by (simp add: nat_mult_distrib)
  moreover have "poke 0 (map_bytes bm0) (concat (map word_bytes (words bm))) = map_bytes bm0"
    using length_map_bytes [of bm0] length_map_bytes [of bm] w by (intro poke_all) (simp add: map_bytes_def)
  ultimately show ?thesis by (simp add: BitMap_FetchFrom_def) (simp add: map_bytes_def)
qed

lemma BitMap_WriteBack_ok:
  assumes "hdr_ok (hdr f)" "disk_ok d" "numBytes (hdr f) = numWords bm * 4"
    "length (words bm) = nat (numWords bm)" "0 < numWords bm"
  shows "\<exists>d'. BitMap_WriteBack junk f bm d = Inr d' \<and> disk_ok d' \<and> contents (hdr f) d' = map_bytes bm \<and>
    (\<forall>s. s \<notin> nat ` set (blocks (hdr f)) \<longrightarrow> d' ! s = d ! s)"
proof -
  have "int (length (map_bytes bm)) = numBytes (hdr f)" "map_bytes bm \<noteq> []"
    using assms(3-5) length_map_bytes [of bm] by auto
  from WriteAt_whole [OF assms(1,2) this, of junk] show ?thesis
    using length_map_bytes [of bm] assms(4,5)
    by (auto simp: BitMap_WriteBack_def nat_mult_distrib simp flip: map_bytes_def)
qed

text \<open>
  C17. The directory is a finite map with a capacity. Any sequence of \<^verbatim>\<open>Add\<close> and \<^verbatim>\<open>Remove\<close> calls
  on a well-formed table gives the answers of the map from names, cut off after nine
  characters, to sectors: a name is added when it is not there yet and an entry is free,
  removed when it is there, and every other name keeps its sector. \<^verbatim>\<open>Find\<close> afterwards reads
  that map, and returns \<open>- 1\<close> for a name it does not hold.
\<close>

theorem directory_refines_map:
  assumes "dir_ok dir" and "\<forall>(n, s) \<in> set (map projl (filter isl rs)). 0 \<le> s \<and> fits_int s"
  shows "\<exists>bs dir'. run_requests (\<lambda>r d. case r of Inl (n, s) \<Rightarrow> Directory_Add n s d | Inr n \<Rightarrow> Directory_Remove n d) rs dir
      = (bs, dir') \<and> dir_ok dir' \<and>
    run_requests (spec_request (nat (tableSize dir)) fname) rs (dir_map dir) = (bs, dir_map dir') \<and>
    (\<forall>name. Directory_Find name dir' = (case dir_map dir' (fname name) of None \<Rightarrow> - 1 | Some s \<Rightarrow> s))"
proof -
  obtain bs dir' where r: "run_requests fsdir.request rs dir = (bs, dir')" by (cases "run_requests fsdir.request rs dir")
  have "fsdir.request = (\<lambda>r d. case r of Inl (n, s) \<Rightarrow> Directory_Add n s d | Inr n \<Rightarrow> Directory_Remove n d)"
    by (intro ext) (simp add: fsdir.request_def)
  with fsdir.requests_refine [OF assms r] Find_map r show ?thesis by auto
qed

definition demo_dir :: Directory where
  "demo_dir = Directory_Directory 2 (replicate 2 \<lparr>inUse = True, sector = 0, dname = replicate 10 7, padding = replicate 5 9\<rparr>)"

lemma demo_dir_ok: "dir_ok demo_dir"
  by (simp add: demo_dir_def Directory_Directory_def dir_ok_def entry_ok_def fits_int_def numeral_2_eq_2)

theorem directory_refines_map_witness:
  "\<exists>bs dir'. run_requests (\<lambda>r d. case r of Inl (n, s) \<Rightarrow> Directory_Add n s d | Inr n \<Rightarrow> Directory_Remove n d)
     [Inl ([65], 5), Inl ([66], 6), Inl ([67], 7), Inr [65]] demo_dir = (bs, dir') \<and> dir_ok dir' \<and>
     Directory_Find [66] dir' = 6 \<and> Directory_Find [67] dir' = - 1 \<and> bs = [True, True, False, True]"
proof -
  have m: "dir_map demo_dir = Map.empty" "tableSize demo_dir = 2"
    by (simp_all add: demo_dir_def Directory_Directory_def dir_map_def numeral_2_eq_2)
  have sp: "run_requests (spec_request 2 fname) [Inl ([65], 5), Inl ([66], 6), Inl ([67], 7), Inr [65]] Map.empty =
      ([True, True, False, True], [fname [66] \<mapsto> 6])"
    by (simp add: fname_def FileNameMaxLen_def)
  have "fname [66] \<noteq> fname [67]" by (simp add: fname_def FileNameMaxLen_def)
  have ok: "\<forall>(n, s) \<in> set (map projl (filter isl [Inl ([65 :: 8 word], 5), Inl ([66], 6), Inl ([67], 7), Inr [65]])). 0 \<le> s \<and> fits_int s"
    by (simp add: fits_int_def)
  obtain bs dir' where r: "run_requests (\<lambda>r d. case r of Inl (n, s) \<Rightarrow> Directory_Add n s d | Inr n \<Rightarrow> Directory_Remove n d)
      [Inl ([65], 5), Inl ([66], 6), Inl ([67], 7), Inr [65]] demo_dir = (bs, dir')" "dir_ok dir'"
    "(bs, dir_map dir') = ([True, True, False, True], [fname [66] \<mapsto> 6])"
    "\<And>name. Directory_Find name dir' = (case dir_map dir' (fname name) of None \<Rightarrow> - 1 | Some s \<Rightarrow> s)"
    using directory_refines_map [OF demo_dir_ok ok] unfolding m nat_numeral sp by metis
  with \<open>fname [66] \<noteq> fname [67]\<close> show ?thesis by (intro exI [of _ bs] exI [of _ dir']) (simp del: run_requests.simps)
qed

text \<open>
  \<^verbatim>\<open>List\<close> prints the name of every entry in use, in the order of the table, provided that all of
  them have their NUL.
\<close>

lemma List_fold:
  "foldE (\<lambda>e out. bindE (print_name (dname e)) (\<lambda>n. Inr (out @ [n]))) es out =
     (if \<forall>e \<in> set es. 0 \<in> set (dname e) then Inr (out @ map (\<lambda>e. takeWhile (\<lambda>c. c \<noteq> 0) (dname e)) es) else Inl OutOfBounds)"
  by (induction es arbitrary: out) (auto simp: print_name_def)

lemma Directory_List_names:
  "length (table dir) = nat (tableSize dir) \<Longrightarrow> Directory_List dir =
     (if \<forall>e \<in> set (table dir). inUse e \<longrightarrow> 0 \<in> set (dname e)
      then Inr (map (\<lambda>e. takeWhile (\<lambda>c. c \<noteq> 0) (dname e)) (filter inUse (table dir))) else Inl OutOfBounds)"
  by (auto simp: Directory_List_def List_fold)

lemma strncpy_long:
  assumes "length dst = 10" and "9 \<le> length name" and "0 \<notin> set name"
  shows "strncpy FileNameMaxLen dst name = take 9 name @ [dst ! 9]"
proof -
  have "drop 9 dst = [dst ! 9]" using assms(1) by (simp add: drop_eq_Nil Cons_nth_drop_Suc [symmetric])
  moreover have tw: "takeWhile (\<lambda>c. c \<noteq> 0) name = name" using assms(3) by (auto simp: takeWhile_eq_all_conv)
  ultimately show ?thesis unfolding strncpy_def tw using assms(2) by (simp add: FileNameMaxLen_def)
qed

text \<open>
  C28. What becomes of a name of nine characters or more, in a directory of any size. \<^verbatim>\<open>Add\<close> puts it
  into the first free entry and copies nine of its bytes with \<^verbatim>\<open>strncpy\<close>, which writes no NUL; the
  tenth byte of the entry is the one that the memory (the constructor clears only \<^verbatim>\<open>inUse\<close>) or an
  earlier use of the entry left there. If that byte is zero, \<^verbatim>\<open>List\<close> prints the nine bytes among
  the other names; if it is not, \<^verbatim>\<open>List\<close> runs past the end of the array.
\<close>

theorem long_name_unterminated:
  assumes ok: "dir_ok dir" and n: "9 \<le> length name" "0 \<notin> set name"
    and add: "Directory_Add name s dir = (True, dir')"
  shows "\<exists>xs e ys. table dir = xs @ e # ys \<and> (\<forall>x \<in> set xs. inUse x) \<and> \<not> inUse e \<and>
    table dir' = xs @ e\<lparr>inUse := True, dname := take 9 name @ [dname e ! 9], sector := s\<rparr> # ys \<and>
    (dname e ! 9 \<noteq> 0 \<longrightarrow> Directory_List dir' = Inl OutOfBounds) \<and>
    (dname e ! 9 = 0 \<longrightarrow> (\<forall>names. Directory_List dir = Inr names \<longrightarrow>
       (\<exists>us vs. names = us @ vs \<and> Directory_List dir' = Inr (us @ take 9 name # vs))))"
proof -
  have len: "length (table dir) = nat (tableSize dir)" using ok by (simp add: dir_ok_def)
  from add have "FindIndex name dir = - 1" by (auto simp: Directory_Add_def split: if_splits)
  with add len have al: "add_loop name s (table dir) = (True, table dir')" "tableSize dir' = tableSize dir"
    by (auto simp: Directory_Add_def split: prod.splits)
  with add_loop_cases [of name s "table dir"] obtain xs e ys where
    t: "table dir = xs @ e # ys" "\<forall>x \<in> set xs. inUse x" "\<not> inUse e"
      "table dir' = xs @ e\<lparr>inUse := True, dname := strncpy FileNameMaxLen (dname e) name, sector := s\<rparr> # ys"
    by auto
  have "length (dname e) = 10" using ok t(1) by (auto simp: dir_ok_def entry_ok_def)
  then have c: "strncpy FileNameMaxLen (dname e) name = take 9 name @ [dname e ! 9]" by (rule strncpy_long [OF _ n])
  have l': "length (table dir') = nat (tableSize dir')" using len al(2) t(1,4) by simp
  have nz: "0 \<notin> set (take 9 name)" using n(2) by (auto dest: in_set_takeD)
  then have tw: "takeWhile (\<lambda>c. c \<noteq> 0) (take 9 name @ [0]) = take 9 name" by (subst takeWhile_append2) auto
  show ?thesis
  proof (rule exI [of _ xs], rule exI [of _ e], rule exI [of _ ys], intro conjI t(1-3) impI allI)
    show "table dir' = xs @ e\<lparr>inUse := True, dname := take 9 name @ [dname e ! 9], sector := s\<rparr> # ys"
      using t(4) by (simp only: c)
    show "Directory_List dir' = Inl OutOfBounds" if "dname e ! 9 \<noteq> 0"
      using that nz by (auto simp: Directory_List_names [OF l'] t(4) c)
    show "\<exists>us vs. names = us @ vs \<and> Directory_List dir' = Inr (us @ take 9 name # vs)"
      if "dname e ! 9 = 0" "Directory_List dir = Inr names" for names
      using that t(3) tw by (auto simp: Directory_List_names [OF l'] Directory_List_names [OF len] t(1,4) c split: if_splits)
  qed
qed

text \<open>A directory as \<^verbatim>\<open>FileSystem\<close> makes it, with ten entries, on memory filled with 7.\<close>

definition garbage_dir :: Directory where
  "garbage_dir = Directory_Directory 10 (replicate 10 \<lparr>inUse = True, sector = 0, dname = replicate 10 7, padding = replicate 5 7\<rparr>)"

theorem long_name_unterminated_witness:
  "\<exists>dir'. Directory_Add (replicate 9 65) 5 garbage_dir = (True, dir') \<and> Directory_List garbage_dir = Inr [] \<and>
     Directory_List dir' = Inl OutOfBounds"
proof -
  have ok: "dir_ok garbage_dir"
    by (simp add: garbage_dir_def Directory_Directory_def dir_ok_def entry_ok_def fits_int_def dir_files_def)
  have tb: "table garbage_dir = replicate 10 \<lparr>inUse = False, sector = 0, dname = replicate 10 7, padding = replicate 5 7\<rparr>"
    by (simp add: garbage_dir_def Directory_Directory_def)
  obtain dir' where d: "Directory_Add (replicate 9 65) 5 garbage_dir = (True, dir')"
    by (simp add: Directory_Add_def FindIndex_def numeral_eq_Suc garbage_dir_def Directory_Directory_def)
  have "replicate 9 (65 :: 8 word) \<noteq> []" "0 \<notin> set (replicate 9 (65 :: 8 word))" by simp_all
  then obtain xs e ys where "table garbage_dir = xs @ e # ys" "dname e ! 9 \<noteq> 0 \<longrightarrow> Directory_List dir' = Inl OutOfBounds"
    using long_name_unterminated [OF ok _ _ d] by auto
  moreover from this(1) have "e \<in> set (table garbage_dir)" by simp
  then have "dname e ! 9 \<noteq> 0" unfolding tb by simp
  moreover have "Directory_List garbage_dir = Inr []"
    by (simp add: Directory_List_def garbage_dir_def Directory_Directory_def)
  ultimately show ?thesis using d by blast
qed

end
