(* ===== verification/FileSys.thy ===== *)
theory FileSys
  imports FsDirectory
begin

text \<open>
  The file system of \<^verbatim>\<open>filesys/filesys.{h,cc}\<close>: formatting a disk, creating, opening and
  removing files, with the bitmap of free sectors and the directory kept in files of their
  own whose headers are in sectors 0 and 1. The refinement is to a map from names to the
  contents of files; the invariant says that every sector in use belongs to one file.
\<close>

definition FreeMapSector :: int where "FreeMapSector = 0"
definition DirectorySector :: int where "DirectorySector = 1"
definition BitsInByte :: int where "BitsInByte = 8"
definition FreeMapFileSize :: int where "FreeMapFileSize = NumSectors sdiv BitsInByte"
definition NumDirEntries :: int where "NumDirEntries = 10"
definition DirectoryFileSize :: int where "DirectoryFileSize = 20 * NumDirEntries"

lemma fs_consts [simp]: "FreeMapSector = 0" "DirectorySector = 1" "FreeMapFileSize = 128" "NumDirEntries = 10"
    "DirectoryFileSize = 200"
  by (simp_all add: FreeMapSector_def DirectorySector_def FreeMapFileSize_def BitsInByte_def NumDirEntries_def
      DirectoryFileSize_def sdiv_nonneg)

record FileSystem =
  freeMapFile :: FsOpenFile
  directoryFile :: FsOpenFile

text \<open>What the memory held that \<^verbatim>\<open>new\<close> returns for a bitmap, a directory, a header and a buffer.\<close>

record Fresh =
  fr_words :: "32 word list"
  fr_entries :: "DirectoryEntry list"
  fr_hdr :: FileHeader
  fr_buf :: "nat \<Rightarrow> 8 word"

definition FileSystem_FileSystem :: "Fresh \<Rightarrow> bool \<Rightarrow> sectors \<Rightarrow> (FileSystem \<times> sectors) res" where
  "FileSystem_FileSystem m format d =
     (if format then
        bindE (BitMap_BitMap NumSectors (fr_words m)) (\<lambda>fm0.
        let directory = Directory_Directory NumDirEntries (fr_entries m) in
        bindE (BitMap_Mark FreeMapSector fm0) (\<lambda>fm1.
        bindE (BitMap_Mark DirectorySector fm1) (\<lambda>fm2.
        bindE (FileHeader_Allocate FreeMapFileSize (fr_hdr m) fm2) (\<lambda>(b1, mapHdr, fm3). ASSERT b1 (
        bindE (FileHeader_Allocate DirectoryFileSize (fr_hdr m) fm3) (\<lambda>(b2, dirHdr, freeMap). ASSERT b2 (
        bindE (FileHeader_WriteBack FreeMapSector mapHdr d) (\<lambda>d1.
        bindE (FileHeader_WriteBack DirectorySector dirHdr d1) (\<lambda>d2.
        bindE (OpenFile_OpenFile FreeMapSector d2) (\<lambda>fmf.
        bindE (OpenFile_OpenFile DirectorySector d2) (\<lambda>df.
        bindE (BitMap_WriteBack (fr_buf m) fmf freeMap d2) (\<lambda>d3.
        bindE (Directory_WriteBack (fr_buf m) df directory d3) (\<lambda>d4.
        Inr (\<lparr>freeMapFile = fmf, directoryFile = df\<rparr>, d4))))))))))))))
      else
        bindE (OpenFile_OpenFile FreeMapSector d) (\<lambda>fmf.
        bindE (OpenFile_OpenFile DirectorySector d) (\<lambda>df.
        Inr (\<lparr>freeMapFile = fmf, directoryFile = df\<rparr>, d))))"

definition Create :: "Fresh \<Rightarrow> 8 word list \<Rightarrow> int \<Rightarrow> FileSystem \<Rightarrow> sectors \<Rightarrow> (bool \<times> sectors) res" where
  "Create m name initialSize fs d =
     bindE (Directory_FetchFrom (directoryFile fs) d (Directory_Directory NumDirEntries (fr_entries m))) (\<lambda>directory.
     if Directory_Find name directory \<noteq> - 1 then Inr (False, d)
     else
       bindE (BitMap_BitMap NumSectors (fr_words m)) (\<lambda>fm0.
       bindE (BitMap_FetchFrom (freeMapFile fs) d fm0) (\<lambda>fm1.
       bindE (BitMap_Find fm1) (\<lambda>(sec, fm2).
       if sec = - 1 then Inr (False, d)
       else let (added, directory') = Directory_Add name sec directory in
         if \<not> added then Inr (False, d)
         else bindE (FileHeader_Allocate initialSize (fr_hdr m) fm2) (\<lambda>(room, h, fm3).
           if \<not> room then Inr (False, d)
           else bindE (FileHeader_WriteBack sec h d) (\<lambda>d1.
                bindE (Directory_WriteBack (fr_buf m) (directoryFile fs) directory' d1) (\<lambda>d2.
                bindE (BitMap_WriteBack (fr_buf m) (freeMapFile fs) fm3 d2) (\<lambda>d3.
                Inr (True, d3)))))))))"

definition Open :: "Fresh \<Rightarrow> 8 word list \<Rightarrow> FileSystem \<Rightarrow> sectors \<Rightarrow> FsOpenFile option res" where
  "Open m name fs d =
     bindE (Directory_FetchFrom (directoryFile fs) d (Directory_Directory NumDirEntries (fr_entries m))) (\<lambda>directory.
     let sec = Directory_Find name directory in
     if sec \<ge> 0 then bindE (OpenFile_OpenFile sec d) (\<lambda>f. Inr (Some f)) else Inr None)"

definition Remove :: "Fresh \<Rightarrow> 8 word list \<Rightarrow> FileSystem \<Rightarrow> sectors \<Rightarrow> (bool \<times> sectors) res" where
  "Remove m name fs d =
     bindE (Directory_FetchFrom (directoryFile fs) d (Directory_Directory NumDirEntries (fr_entries m))) (\<lambda>directory.
     let sec = Directory_Find name directory in
     if sec = - 1 then Inr (False, d)
     else
       bindE (FileHeader_FetchFrom sec d) (\<lambda>fileHdr.
       bindE (BitMap_BitMap NumSectors (fr_words m)) (\<lambda>fm0.
       bindE (BitMap_FetchFrom (freeMapFile fs) d fm0) (\<lambda>fm1.
       bindE (FileHeader_Deallocate fileHdr fm1) (\<lambda>fm2.
       bindE (BitMap_Clear sec fm2) (\<lambda>fm3.
       let (_, directory') = Directory_Remove name directory in
       bindE (BitMap_WriteBack (fr_buf m) (freeMapFile fs) fm3 d) (\<lambda>d1.
       bindE (Directory_WriteBack (fr_buf m) (directoryFile fs) directory' d1) (\<lambda>d2.
       Inr (True, d2)))))))))"

definition FileSystem_List :: "Fresh \<Rightarrow> FileSystem \<Rightarrow> sectors \<Rightarrow> 8 word list list res" where
  "FileSystem_List m fs d =
     bindE (Directory_FetchFrom (directoryFile fs) d (Directory_Directory NumDirEntries (fr_entries m))) (\<lambda>directory.
     Directory_List directory)"

text \<open>The four parts of the report that \<^verbatim>\<open>Print\<close> writes, in order.\<close>

definition FileSystem_Print :: "Fresh \<Rightarrow> FileSystem \<Rightarrow> sectors \<Rightarrow>
    ((int \<times> int list \<times> 8 word list list) \<times> (int \<times> int list \<times> 8 word list list) \<times> int list \<times>
     (8 word list \<times> int \<times> int \<times> int list \<times> 8 word list list) list) res" where
  "FileSystem_Print m fs d =
     bindE (BitMap_BitMap NumSectors (fr_words m)) (\<lambda>fm0.
     bindE (FileHeader_FetchFrom FreeMapSector d) (\<lambda>bitHdr.
     bindE (FileHeader_Print bitHdr d) (\<lambda>p1.
     bindE (FileHeader_FetchFrom DirectorySector d) (\<lambda>dirHdr.
     bindE (FileHeader_Print dirHdr d) (\<lambda>p2.
     bindE (BitMap_FetchFrom (freeMapFile fs) d fm0) (\<lambda>freeMap.
     bindE (BitMap_Print freeMap) (\<lambda>p3.
     bindE (Directory_FetchFrom (directoryFile fs) d (Directory_Directory NumDirEntries (fr_entries m))) (\<lambda>directory.
     bindE (Directory_Print directory d) (\<lambda>p4.
     Inr (p1, p2, p3, p4))))))))))"

section \<open>The invariant\<close>

definition fresh_ok :: "Fresh \<Rightarrow> bool" where
  "fresh_ok m \<longleftrightarrow> 32 \<le> length (fr_words m) \<and> 10 \<le> length (fr_entries m) \<and>
     (\<forall>e \<in> set (fr_entries m). entry_ok e) \<and> hdr_shape (fr_hdr m)"

text \<open>What the disk stores: the directory, the free map, the header of a file and its sectors.\<close>

definition disk_dir :: "FileSystem \<Rightarrow> sectors \<Rightarrow> Directory" where
  "disk_dir fs d = \<lparr>tableSize = 10, table = entries_of 10 (contents (hdr (directoryFile fs)) d)\<rparr>"

definition disk_map :: "FileSystem \<Rightarrow> sectors \<Rightarrow> BitMap" where
  "disk_map fs d = \<lparr>numBits = 1024, numWords = 32, words = words_of (contents (hdr (freeMapFile fs)) d)\<rparr>"

abbreviation hdr_at :: "sectors \<Rightarrow> int \<Rightarrow> FileHeader" where
  "hdr_at d s \<equiv> hdr_of (d ! nat s)"

definition file_sectors :: "sectors \<Rightarrow> int \<Rightarrow> int set" where
  "file_sectors d s = insert s (set (blocks (hdr_at d s)))"

definition headers :: "FileSystem \<Rightarrow> sectors \<Rightarrow> int set" where
  "headers fs d = {0, 1} \<union> ran (dir_map (disk_dir fs d))"

definition owned :: "sectors \<Rightarrow> int set \<Rightarrow> bool" where
  "owned d H \<longleftrightarrow> (\<forall>s \<in> H. 0 \<le> s \<and> s < NumSectors \<and> hdr_ok (hdr_at d s) \<and> s \<notin> set (blocks (hdr_at d s))) \<and>
     (\<forall>s \<in> H. \<forall>t \<in> H. s \<noteq> t \<longrightarrow> file_sectors d s \<inter> file_sectors d t = {})"

definition fs_ok :: "FileSystem \<Rightarrow> sectors \<Rightarrow> bool" where
  "fs_ok fs d \<longleftrightarrow> disk_ok d \<and>
     hdr_at d 0 = hdr (freeMapFile fs) \<and> numBytes (hdr (freeMapFile fs)) = FreeMapFileSize \<and>
     hdr_at d 1 = hdr (directoryFile fs) \<and> numBytes (hdr (directoryFile fs)) = DirectoryFileSize \<and>
     dir_ok (disk_dir fs d) \<and> contents (hdr (directoryFile fs)) d = dir_bytes (table (disk_dir fs d)) \<and>
     owned d (headers fs d) \<and>
     inj_on (dir_map (disk_dir fs d)) (dom (dir_map (disk_dir fs d))) \<and>
     ran (dir_map (disk_dir fs d)) \<inter> {0, 1} = {} \<and>
     used (disk_map fs d) = (\<Union>s \<in> headers fs d. file_sectors d s)"

text \<open>The file system as its users see it: the contents of each named file.\<close>

definition files :: "FileSystem \<Rightarrow> sectors \<Rightarrow> 8 word list \<Rightarrow> 8 word list option" where
  "files fs d k = map_option (\<lambda>s. contents (hdr_at d s) d) (dir_map (disk_dir fs d) k)"

definition free_sectors :: "FileSystem \<Rightarrow> sectors \<Rightarrow> int" where
  "free_sectors fs d = NumSectors - int (card (used (disk_map fs d)))"

lemma fs_okD:
  assumes "fs_ok fs d"
  shows "disk_ok d" "hdr_ok (hdr (freeMapFile fs))" "hdr_ok (hdr (directoryFile fs))"
    "numBytes (hdr (freeMapFile fs)) = 128" "numBytes (hdr (directoryFile fs)) = 200"
    "dir_ok (disk_dir fs d)" "owned d (headers fs d)"
    "hdr_at d 0 = hdr (freeMapFile fs)" "hdr_at d 1 = hdr (directoryFile fs)"
    "contents (hdr (directoryFile fs)) d = dir_bytes (table (disk_dir fs d))"
    "used (disk_map fs d) = (\<Union>s \<in> headers fs d. file_sectors d s)"
    "inj_on (dir_map (disk_dir fs d)) (dom (dir_map (disk_dir fs d)))"
    "ran (dir_map (disk_dir fs d)) \<inter> {0, 1} = {}"
proof -
  have "\<forall>s \<in> {0, 1}. hdr_ok (hdr_at d s)" using assms unfolding fs_ok_def owned_def headers_def by blast
  then show "hdr_ok (hdr (freeMapFile fs))" "hdr_ok (hdr (directoryFile fs))" using assms by (auto simp: fs_ok_def)
qed (use assms in \<open>simp_all add: fs_ok_def\<close>)

section \<open>Reading the system files\<close>

lemma words_bytes_of: "length bs mod 4 = 0 \<Longrightarrow> concat (map word_bytes (words_of bs)) = bs"
  by (induction bs rule: words_of.induct) (simp_all add: word_bytes_def)

lemma disk_map_ok:
  assumes "fs_ok fs d"
  shows "bitmap_inv (disk_map fs d)" "numBits (disk_map fs d) = 1024" "map_bytes (disk_map fs d) = contents (hdr (freeMapFile fs)) d"
    "length (words (disk_map fs d)) = 32"
proof -
  have l: "length (contents (hdr (freeMapFile fs)) d) = 4 * 32"
    using length_contents [OF fs_okD(2,1) [OF assms]] fs_okD(4) [OF assms] by simp
  then show w: "length (words (disk_map fs d)) = 32" by (simp add: disk_map_def length_words_of)
  show "map_bytes (disk_map fs d) = contents (hdr (freeMapFile fs)) d"
    using words_bytes_of [of "contents (hdr (freeMapFile fs)) d"] l by (simp add: disk_map_def map_bytes_def)
  show "numBits (disk_map fs d) = 1024" by (simp add: disk_map_def)
  show "bitmap_inv (disk_map fs d)"
    using w by (simp add: bitmap_inv_def wf_bitmap_def disk_map_def BitsInWord_def divRoundUp_nonneg)
qed

lemma new_map:
  assumes "fresh_ok m"
  obtains bm where "BitMap_BitMap NumSectors (fr_words m) = Inr bm" "numBits bm = 1024" "numWords bm = 32"
    "length (words bm) = 32" "used bm = {}" "bitmap_inv bm"
proof -
  have "nat (divRoundUp NumSectors BitsInWord) \<le> length (fr_words m)"
    using assms by (simp add: fresh_ok_def BitsInWord_def divRoundUp_nonneg)
  from BitMap_BitMap_empty [OF this] show ?thesis
    using that by (auto simp: wf_bitmap_def bitmap_inv_def BitsInWord_def divRoundUp_nonneg)
qed

lemma new_dir:
  assumes "fresh_ok m"
  shows "dir_ok (Directory_Directory NumDirEntries (fr_entries m))"
    "tableSize (Directory_Directory NumDirEntries (fr_entries m)) = 10"
    "length (table (Directory_Directory NumDirEntries (fr_entries m))) = 10"
    "dir_map (Directory_Directory NumDirEntries (fr_entries m)) = Map.empty"
    "\<forall>e \<in> set (table (Directory_Directory NumDirEntries (fr_entries m))). entry_ok e"
proof -
  have n: "dir_files (map (\<lambda>e. e\<lparr>inUse := False\<rparr>) xs) = []" for xs :: "DirectoryEntry list"
    by (induction xs) simp_all
  show "\<forall>e \<in> set (table (Directory_Directory NumDirEntries (fr_entries m))). entry_ok e"
    using assms by (auto simp: fresh_ok_def Directory_Directory_def entry_ok_def dest: in_set_takeD)
  then show "dir_ok (Directory_Directory NumDirEntries (fr_entries m))"
    using assms n by (auto simp: dir_ok_def fresh_ok_def Directory_Directory_def)
qed (use assms in \<open>simp_all add: Directory_Directory_def fresh_ok_def dir_map_def dir_files_def comp_def\<close>)

lemma fetch_dir:
  assumes "fs_ok fs d" "fresh_ok m"
  shows "Directory_FetchFrom (directoryFile fs) d (Directory_Directory NumDirEntries (fr_entries m)) = Inr (disk_dir fs d)"
proof -
  have "dir_ok (disk_dir fs d)" using fs_okD(6) [OF assms(1)] .
  then have es: "\<forall>e \<in> set (table (disk_dir fs d)). entry_ok e" "length (table (disk_dir fs d)) = 10"
    by (simp_all add: dir_ok_def disk_dir_def)
  show ?thesis
    using Directory_FetchFrom_ok [OF fs_okD(3,1) [OF assms(1)] fs_okD(10) [OF assms(1)] es(1),
        of "Directory_Directory NumDirEntries (fr_entries m)"] new_dir(2,3,5) [OF assms(2)] es(2)
    by (simp add: disk_dir_def)
qed

lemma fetch_map:
  assumes "fs_ok fs d" "numBits bm = 1024" "numWords bm = 32" "length (words bm) = 32"
  shows "BitMap_FetchFrom (freeMapFile fs) d bm = Inr (disk_map fs d)"
proof -
  have "BitMap_FetchFrom (freeMapFile fs) d bm = Inr (bm\<lparr>words := words (disk_map fs d)\<rparr>)"
    using disk_map_ok(3,4) [OF assms(1)] assms fs_okD [OF assms(1)]
    by (intro BitMap_FetchFrom_ok) simp_all
  then show ?thesis using assms by (simp add: disk_map_def)
qed

section \<open>Frames\<close>

lemma file_sectors_cong: "d' ! nat s = d ! nat s \<Longrightarrow> file_sectors d' s = file_sectors d s"
  by (simp add: file_sectors_def)

lemma owned_cong: "\<forall>s \<in> H. d' ! nat s = d ! nat s \<Longrightarrow> owned d' H = owned d H"
  by (simp add: owned_def file_sectors_def)

lemma contents_cong: "\<forall>x \<in> set (blocks h). d' ! nat x = d ! nat x \<Longrightarrow> contents h d' = contents h d"
  by (simp add: contents_def fbytes_def cong: map_cong)

lemma owned_bound: "owned d H \<Longrightarrow> s \<in> H \<Longrightarrow> x \<in> file_sectors d s \<Longrightarrow> 0 \<le> x \<and> x < NumSectors"
proof -
  assume "owned d H" "s \<in> H" and x: "x \<in> file_sectors d s"
  then have "0 \<le> s" "s < NumSectors" "hdr_ok (hdr_at d s)" unfolding owned_def by blast+
  with x show ?thesis unfolding file_sectors_def hdr_ok_def by auto
qed

text \<open>The blocks of the directory and of the free map are apart, and no header is among them.\<close>

lemma system_blocks:
  assumes "fs_ok fs d"
  shows "set (blocks (hdr (freeMapFile fs))) \<inter> set (blocks (hdr (directoryFile fs))) = {}"
    and "s \<in> headers fs d \<Longrightarrow> s \<notin> set (blocks (hdr (freeMapFile fs))) \<and> s \<notin> set (blocks (hdr (directoryFile fs)))"
proof -
  note ow = fs_okD(7) [OF assms]
  have H: "0 \<in> headers fs d" "1 \<in> headers fs d" by (simp_all add: headers_def)
  have fm: "file_sectors d 0 = insert 0 (set (blocks (hdr (freeMapFile fs))))"
    and df: "file_sectors d 1 = insert 1 (set (blocks (hdr (directoryFile fs))))"
    unfolding file_sectors_def by (simp_all add: fs_okD(8,9) [OF assms, simplified])
  have dis: "s \<noteq> t \<Longrightarrow> s \<in> headers fs d \<Longrightarrow> t \<in> headers fs d \<Longrightarrow> file_sectors d s \<inter> file_sectors d t = {}" for s t
    using ow by (auto simp: owned_def)
  show "set (blocks (hdr (freeMapFile fs))) \<inter> set (blocks (hdr (directoryFile fs))) = {}"
    using dis [of 0 1] H fm df by auto
  assume s: "s \<in> headers fs d"
  have self: "s \<notin> set (blocks (hdr_at d s))" "s \<in> file_sectors d s" using ow s by (auto simp: owned_def file_sectors_def)
  have "s \<notin> set (blocks (hdr (freeMapFile fs)))"
    using self dis [OF _ s H(1)] fm fs_okD(8) [OF assms] by (cases "s = 0") auto
  moreover have "s \<notin> set (blocks (hdr (directoryFile fs)))"
    using self dis [OF _ s H(2)] df fs_okD(9) [OF assms] by (cases "s = 1") auto
  ultimately show "s \<notin> set (blocks (hdr (freeMapFile fs))) \<and> s \<notin> set (blocks (hdr (directoryFile fs)))" by simp
qed

lemma nat_image_notin: "0 \<le> x \<Longrightarrow> x \<notin> B \<Longrightarrow> (\<forall>y \<in> B. 0 \<le> y) \<Longrightarrow> nat x \<notin> nat ` B"
  by (auto simp: eq_nat_nat_iff)

lemma hdr_ok_blocks_nonneg: "hdr_ok h \<Longrightarrow> \<forall>y \<in> set (blocks h). 0 \<le> y"
  by (auto simp: hdr_ok_def)

text \<open>
  A disk to which a directory and a free map were flushed is a well-formed file system when
  the new headers own what the new map marks.
\<close>

lemma flushed_ok:
  assumes fs: "hdr_ok (hdr (freeMapFile fs))" "hdr_ok (hdr (directoryFile fs))"
    "numBytes (hdr (freeMapFile fs)) = 128" "numBytes (hdr (directoryFile fs)) = 200"
    "hdr_at d' 0 = hdr (freeMapFile fs)" "hdr_at d' 1 = hdr (directoryFile fs)" and d': "disk_ok d'"
    and c: "contents (hdr (directoryFile fs)) d' = dir_bytes (table dir)" "contents (hdr (freeMapFile fs)) d' = map_bytes bm"
    and dir: "dir_ok dir" "tableSize dir = 10" and bm: "bitmap_inv bm" "numBits bm = 1024"
    and own: "owned d' ({0, 1} \<union> ran (dir_map dir))" "inj_on (dir_map dir) (dom (dir_map dir))" "ran (dir_map dir) \<inter> {0, 1} = {}"
    and u: "used bm = (\<Union>s \<in> {0, 1} \<union> ran (dir_map dir). file_sectors d' s)"
  shows "fs_ok fs d'" and "disk_dir fs d' = dir" and "disk_map fs d' = bm"
proof -
  have "length (table dir) = 10" "\<forall>e \<in> set (table dir). entry_ok e" using dir by (simp_all add: dir_ok_def)
  then show dd: "disk_dir fs d' = dir"
    using dir_round_trip [of "table dir"] dir(2) by (simp add: disk_dir_def c)
  have "numWords bm = 32" using bm by (simp add: bitmap_inv_def wf_bitmap_def BitsInWord_def divRoundUp_nonneg)
  then show dm: "disk_map fs d' = bm"
    unfolding disk_map_def c map_bytes_def words_of_concat using bm(2) by simp
  show "fs_ok fs d'"
    using fs d' own u dir(1) c(1) by (simp add: fs_ok_def dd dm headers_def)
qed

section \<open>Creating a file\<close>

lemma dir_map_sub_used:
  assumes "fs_ok fs d" "s \<in> headers fs d"
  shows "file_sectors d s \<subseteq> used (disk_map fs d)"
  using fs_okD(11) [OF assms(1)] assms(2) by auto

text \<open>
  The disk after a successful \<^verbatim>\<open>Create\<close>: \<open>d1\<close> has the header, \<open>d2\<close> the directory and \<open>d3\<close> the
  free map.
\<close>

text \<open>A new header, with blocks that nobody uses, joins the headers \<open>H\<close>.\<close>

lemma owned_insert:
  assumes ow: "owned d H" and keep: "\<And>s. s \<in> H \<Longrightarrow> d' ! nat s = d ! nat s" "\<And>s. s \<in> H \<Longrightarrow> file_sectors d s \<subseteq> U"
    and sec: "0 \<le> sec" "sec < NumSectors" "sec \<notin> U"
    and h: "hdr_ok h" "sec \<notin> set (blocks h)" "set (blocks h) \<inter> U = {}" "hdr_at d' sec = h"
  shows "owned d' (insert sec H)"
proof -
  have new: "file_sectors d' sec = insert sec (set (blocks h))" using h(4) by (simp add: file_sectors_def)
  have old: "file_sectors d' s = file_sectors d s" if "s \<in> H" for s using keep(1) [OF that] file_sectors_cong by blast
  have "file_sectors d' sec \<inter> file_sectors d x = {}" if "x \<in> H" for x
    using keep(2) [OF that] h(3) sec(3) by (auto simp: new)
  moreover have "file_sectors d x \<inter> file_sectors d y = {}" if "x \<in> H" "y \<in> H" "x \<noteq> y" for x y
    using ow that by (auto simp: owned_def)
  ultimately have "file_sectors d' s \<inter> file_sectors d' t = {}" if "s \<in> insert sec H" "t \<in> insert sec H" "s \<noteq> t" for s t
    using that old by (metis Int_commute insert_iff)
  moreover have "0 \<le> s \<and> s < NumSectors \<and> hdr_ok (hdr_at d' s) \<and> s \<notin> set (blocks (hdr_at d' s))" if "s \<in> insert sec H" for s
    using that sec h ow keep(1) by (auto simp: owned_def)
  ultimately show ?thesis by (simp add: owned_def)
qed

lemma create_flush:
  assumes fs: "fs_ok fs d" and h: "hdr_ok h" and sec: "0 \<le> sec" "sec < NumSectors" "sec \<notin> used (disk_map fs d)"
    and new: "sec \<notin> set (blocks h)" "set (blocks h) \<inter> used (disk_map fs d) = {}"
    and dir: "dir_ok dir" "tableSize dir = 10" and dm: "dir_map dir = (dir_map (disk_dir fs d))(k \<mapsto> sec)"
      "k \<notin> dom (dir_map (disk_dir fs d))"
    and bm: "bitmap_inv bm" "numBits bm = 1024" "used bm = used (disk_map fs d) \<union> file_sectors (d[nat sec := hdr_bytes h]) sec"
  shows "\<exists>d2 d3. Directory_WriteBack j (directoryFile fs) dir (d[nat sec := hdr_bytes h]) = Inr d2 \<and>
    BitMap_WriteBack j (freeMapFile fs) bm d2 = Inr d3 \<and> fs_ok fs d3 \<and> disk_dir fs d3 = dir \<and> disk_map fs d3 = bm \<and>
    hdr_at d3 sec = h \<and>
    (\<forall>x. 0 \<le> x \<and> x \<noteq> sec \<and> x \<notin> set (blocks (hdr (freeMapFile fs))) \<and> x \<notin> set (blocks (hdr (directoryFile fs))) \<longrightarrow>
      d3 ! nat x = d ! nat x)"
proof -
  note F = fs_okD [OF fs]
  let ?d1 = "d[nat sec := hdr_bytes h]" and ?H = "headers fs d"
  let ?B = "set (blocks (hdr (freeMapFile fs)))" and ?D = "set (blocks (hdr (directoryFile fs)))"
  have rt: "hdr_of (hdr_bytes h) = h" "length (hdr_bytes h) = 128" using hdr_round_trip [of h] hdr_ok_fits [OF h] by auto
  have ld: "nat sec < length d" using F(1) sec by (simp add: disk_ok_def)
  have d1: "disk_ok ?d1" using F(1) rt(2) by (auto simp: disk_ok_def dest!: set_update_subset_insert [THEN subsetD])
  obtain d2 where d2: "Directory_WriteBack j (directoryFile fs) dir ?d1 = Inr d2" "disk_ok d2"
      "contents (hdr (directoryFile fs)) d2 = dir_bytes (table dir)" "\<And>s. s \<notin> nat ` ?D \<Longrightarrow> d2 ! s = ?d1 ! s"
    using Directory_WriteBack_ok [OF F(3) d1, of dir j] F(5) dir by auto
  have nw: "numWords bm = 32" "length (words bm) = 32"
    using bm by (simp_all add: bitmap_inv_def wf_bitmap_def BitsInWord_def divRoundUp_nonneg)
  obtain d3 where d3: "BitMap_WriteBack j (freeMapFile fs) bm d2 = Inr d3" "disk_ok d3"
      "contents (hdr (freeMapFile fs)) d3 = map_bytes bm" "\<And>s. s \<notin> nat ` ?B \<Longrightarrow> d3 ! s = d2 ! s"
    using BitMap_WriteBack_ok [OF F(2) d2(2), of bm j] F(4) nw by auto
  note nn = hdr_ok_blocks_nonneg [OF F(2)] hdr_ok_blocks_nonneg [OF F(3)]
  have keep: "d3 ! nat x = ?d1 ! nat x" if "0 \<le> x" "x \<notin> ?B" "x \<notin> ?D" for x
    using that d2(4) [OF nat_image_notin [OF _ _ nn(2)]] d3(4) [OF nat_image_notin [OF _ _ nn(1)]] by simp
  have keep': "d3 ! nat x = d ! nat x" if "0 \<le> x" "x \<noteq> sec" "x \<notin> ?B" "x \<notin> ?D" for x
    using keep [OF that(1,3,4)] that sec(1) by (simp add: eq_nat_nat_iff)
  have "?B \<subseteq> file_sectors d 0" "?D \<subseteq> file_sectors d 1" using F(8,9) by (auto simp: file_sectors_def)
  moreover have "0 \<in> ?H" "1 \<in> ?H" by (simp_all add: headers_def)
  ultimately have BD: "?B \<subseteq> used (disk_map fs d)" "?D \<subseteq> used (disk_map fs d)" using dir_map_sub_used [OF fs] by blast+
  have "sec \<notin> ?B" "sec \<notin> ?D" using sec(3) BD by auto
  then have hs: "d3 ! nat sec = hdr_bytes h" using keep [OF sec(1)] ld by simp
  have H: "d3 ! nat s = d ! nat s \<and> s \<noteq> sec \<and> file_sectors d s \<subseteq> used (disk_map fs d)" if "s \<in> ?H" for s
  proof -
    have "0 \<le> s" "s \<in> file_sectors d s" using F(7) that by (auto simp: owned_def file_sectors_def)
    then show ?thesis
      using dir_map_sub_used [OF fs that] sec(3) system_blocks(2) [OF fs that] keep' by blast
  qed
  have ran: "{0, 1} \<union> ran (dir_map dir) = insert sec ?H"
    using dm by (auto simp: headers_def)
  have fsec: "file_sectors d3 sec = insert sec (set (blocks h))" "file_sectors ?d1 sec = insert sec (set (blocks h))"
    using hs rt ld by (simp_all add: file_sectors_def)
  have fH: "file_sectors d3 s = file_sectors d s" if "s \<in> ?H" for s using H [OF that] file_sectors_cong by blast
  have ow: "owned d3 (insert sec ?H)"
    using F(7) H sec h new hs rt by (intro owned_insert [where d = d and U = "used (disk_map fs d)" and h = h]) auto
  have secn: "sec \<notin> ?H" using H by blast
  have "dir_map (disk_dir fs d) k' \<noteq> Some sec" for k' using secn by (auto simp: headers_def ran_def)
  then have inj: "inj_on (dir_map dir) (dom (dir_map dir))" using F(12) dm by (auto simp: inj_on_def)
  have nsys: "ran (dir_map dir) \<inter> {0, 1} = {}" using F(13) secn dm by (auto simp: headers_def)
  have u: "used bm = (\<Union>s \<in> insert sec ?H. file_sectors d3 s)"
    using bm(3) F(11) fH by (auto simp: fsec)
  have cd: "contents (hdr (directoryFile fs)) d3 = dir_bytes (table dir)"
    using d2(3) contents_cong [of "hdr (directoryFile fs)" d3 d2] system_blocks(1) [OF fs]
      d3(4) [OF nat_image_notin [OF _ _ nn(1)]] nn(2) by auto
  have "hdr_at d3 0 = hdr (freeMapFile fs)" "hdr_at d3 1 = hdr (directoryFile fs)"
    using F(8,9) H [of 0] H [of 1] by (simp_all add: headers_def)
  note ok = flushed_ok [OF F(2-5) this d3(2) cd d3(3) dir bm(1,2), unfolded ran, OF ow inj nsys u]
  show ?thesis using d2(1) d3(1) ok hs rt keep' by auto
qed

text \<open>A file none of whose sectors changed still has its header and its contents.\<close>

lemma untouched_file:
  assumes fs: "fs_ok fs d" and k: "dir_map (disk_dir fs d) k = Some s"
    and same: "\<And>x. 0 \<le> x \<Longrightarrow> x \<in> used (disk_map fs d) \<Longrightarrow> x \<notin> set (blocks (hdr (freeMapFile fs))) \<Longrightarrow>
      x \<notin> set (blocks (hdr (directoryFile fs))) \<Longrightarrow> d' ! nat x = d ! nat x"
  shows "hdr_at d' s = hdr_at d s \<and> contents (hdr_at d' s) d' = contents (hdr_at d s) d"
proof -
  note F = fs_okD [OF fs]
  have s: "s \<in> headers fs d" "s \<notin> {0, 1}" using k F(13) by (auto simp: headers_def ran_def)
  have H: "0 \<in> headers fs d" "1 \<in> headers fs d" by (simp_all add: headers_def)
  have "file_sectors d s \<inter> file_sectors d 0 = {}" "file_sectors d s \<inter> file_sectors d 1 = {}"
    using F(7) s H unfolding owned_def by blast+
  then have x: "d' ! nat x = d ! nat x" if "x \<in> file_sectors d s" for x
    using that same [of x] F(8,9) owned_bound [OF F(7) s(1) that] dir_map_sub_used [OF fs s(1)]
    by (auto simp: file_sectors_def)
  then have h: "hdr_at d' s = hdr_at d s" by (simp add: file_sectors_def)
  with contents_cong [of "hdr_at d s" d' d] x show ?thesis by (simp add: file_sectors_def)
qed

definition can_create :: "FileSystem \<Rightarrow> sectors \<Rightarrow> 8 word list \<Rightarrow> int \<Rightarrow> bool" where
  "can_create fs d name n \<longleftrightarrow> files fs d (fname name) = None \<and> card (dom (files fs d)) < 10 \<and>
     1 + divRoundUp n (int SectorSize) \<le> free_sectors fs d"

lemma dom_files: "dom (files fs d) = dom (dir_map (disk_dir fs d))"
  by (auto simp: files_def dom_def)

text \<open>\<^verbatim>\<open>Create\<close> once directory and map have been read.\<close>

lemma Create_fetched:
  assumes "fs_ok fs d" "fresh_ok m"
  shows "Create m name n fs d =
    (if Directory_Find name (disk_dir fs d) \<noteq> - 1 then Inr (False, d)
     else bindE (BitMap_Find (disk_map fs d)) (\<lambda>(sec, fm2).
       if sec = - 1 then Inr (False, d)
       else let (added, directory') = Directory_Add name sec (disk_dir fs d) in
         if \<not> added then Inr (False, d)
         else bindE (FileHeader_Allocate n (fr_hdr m) fm2) (\<lambda>(room, h, fm3).
           if \<not> room then Inr (False, d)
           else bindE (FileHeader_WriteBack sec h d) (\<lambda>d1.
                bindE (Directory_WriteBack (fr_buf m) (directoryFile fs) directory' d1) (\<lambda>d2.
                bindE (BitMap_WriteBack (fr_buf m) (freeMapFile fs) fm3 d2) (\<lambda>d3. Inr (True, d3)))))))"
proof -
  obtain bm0 where bm0: "BitMap_BitMap NumSectors (fr_words m) = Inr bm0" "numBits bm0 = 1024" "numWords bm0 = 32"
      "length (words bm0) = 32" using new_map [OF assms(2)] by metis
  show ?thesis unfolding Create_def fetch_dir [OF assms] bm0(1) bindE_simps fetch_map [OF assms(1) bm0(2,3,4)] ..
qed

text \<open>What a directory entry, a header and a map that fit together make of the file system.\<close>

lemma create_done:
  assumes fs: "fs_ok fs d" and n: "0 \<le> n" "n \<le> MaxFileSize"
    and k: "dir_map (disk_dir fs d) (fname name) = None"
    and sec: "0 \<le> sec" "sec < NumSectors" "sec \<notin> used (disk_map fs d)"
    and dir: "dir_ok dir" "tableSize dir = 10" "dir_map dir = (dir_map (disk_dir fs d))(fname name \<mapsto> sec)"
    and h: "hdr_ok h" "numBytes h = n" "set (blocks h) \<inter> insert sec (used (disk_map fs d)) = {}"
    and bm: "bitmap_inv bm" "numBits bm = 1024" "used bm = insert sec (used (disk_map fs d)) \<union> set (blocks h)"
  shows "\<exists>d2 d3. Directory_WriteBack j (directoryFile fs) dir (d[nat sec := hdr_bytes h]) = Inr d2 \<and>
    BitMap_WriteBack j (freeMapFile fs) bm d2 = Inr d3 \<and> fs_ok fs d3 \<and>
    (\<exists>bs. length bs = nat n \<and> files fs d3 = (files fs d)(fname name \<mapsto> bs)) \<and>
    free_sectors fs d3 = free_sectors fs d - 1 - divRoundUp n (int SectorSize)"
proof -
  let ?dir = "disk_dir fs d" and ?bm = "disk_map fs d" and ?k = "fname name" and ?d1 = "d[nat sec := hdr_bytes h]"
  have kd: "?k \<notin> dom (dir_map ?dir)" using k by auto
  have "nat sec < length d" using fs_okD(1) [OF fs] sec by (simp add: disk_ok_def)
  then have fsec: "file_sectors ?d1 sec = insert sec (set (blocks h))"
    using hdr_round_trip(1) [of h] hdr_ok_fits [OF h(1)] by (simp add: file_sectors_def)
  obtain d2 d3 where fl: "Directory_WriteBack j (directoryFile fs) dir ?d1 = Inr d2"
      "BitMap_WriteBack j (freeMapFile fs) bm d2 = Inr d3" "fs_ok fs d3" "disk_dir fs d3 = dir"
      "disk_map fs d3 = bm" "hdr_at d3 sec = h"
      "\<And>x. 0 \<le> x \<Longrightarrow> x \<noteq> sec \<Longrightarrow> x \<notin> set (blocks (hdr (freeMapFile fs))) \<Longrightarrow>
         x \<notin> set (blocks (hdr (directoryFile fs))) \<Longrightarrow> d3 ! nat x = d ! nat x"
    using create_flush [OF fs h(1) sec _ _ dir kd bm(1,2), of j] h(3) bm(3) fsec by auto
  have old: "contents (hdr_at d3 s) d3 = contents (hdr_at d s) d" if "dir_map ?dir k' = Some s" for k' s
    using untouched_file [OF fs that, of d3] fl(7) sec(3) by metis
  have "files fs d3 k' = ((files fs d)(?k \<mapsto> contents h d3)) k'" for k'
    using old [of k'] by (cases "dir_map ?dir k'") (auto simp: files_def fl(4,6) dir(3))
  then have "files fs d3 = (files fs d)(?k \<mapsto> contents h d3)" ..
  moreover have "length (contents h d3) = nat n" using length_contents [OF h(1) fs_okD(1) [OF fl(3)]] h(2) by simp
  moreover have "card (used bm) = Suc (card (used ?bm)) + nat (divRoundUp n (int SectorSize))"
    using h sec(3) hdr_okD(3) [OF h(1)] by (subst bm(3)) (simp add: card_Un_disjoint Int_commute distinct_card hdr_ok_def)
  then have "free_sectors fs d3 = free_sectors fs d - 1 - divRoundUp n (int SectorSize)"
    using num_blocks_bound(1) [OF n] by (simp add: free_sectors_def fl(5))
  ultimately show ?thesis using fl(1,2,3) by blast
qed

lemma Create_room:
  assumes fs: "fs_ok fs d" and m: "fresh_ok m" and n: "0 \<le> n" "n \<le> MaxFileSize"
    and k: "dir_map (disk_dir fs d) (fname name) = None" and room: "\<not> {0..<numBits (disk_map fs d)} \<subseteq> used (disk_map fs d)"
  shows "\<exists>d'. Create m name n fs d = Inr (can_create fs d name n, d') \<and> fs_ok fs d' \<and>
    (if can_create fs d name n
     then (\<exists>bs. length bs = nat n \<and> files fs d' = (files fs d)(fname name \<mapsto> bs)) \<and>
       free_sectors fs d' = free_sectors fs d - 1 - divRoundUp n (int SectorSize)
     else d' = d)"
proof -
  note F = fs_okD [OF fs] and B = disk_map_ok [OF fs]
  let ?dir = "disk_dir fs d" and ?bm = "disk_map fs d" and ?k = "fname name"
  have fr: "free_sectors fs d = 1024 - int (card (used ?bm))" by (simp add: free_sectors_def)
  obtain sec bm2 where f: "BitMap_Find ?bm = Inr (sec, bm2)" "bitmap_inv bm2" "numBits bm2 = 1024" "0 \<le> sec"
      "sec < 1024" "sec \<notin> used ?bm" "used bm2 = insert sec (used ?bm)"
    using bmap.find_free [OF B(1) room] B(2) by metis
  have c2: "card (used bm2) = Suc (card (used ?bm))" using f by simp
  obtain b dir' where a: "Directory_Add name sec ?dir = (b, dir')" by (cases "Directory_Add name sec ?dir")
  have ad: "dir_ok dir'" "nat (tableSize dir') = 10"
      "(b, dir_map dir') = spec_request 10 fname (Inl (name, sec)) (dir_map ?dir)"
    using fsdir.add_request [OF F(6) f(4) _ a] f(5) f(4) by (simp_all add: fits_int_def disk_dir_def)
  have kd: "?k \<notin> dom (dir_map ?dir)" using k by auto
  note run = Create_fetched [OF fs m, of name n] f(1) a k Find_map [OF F(6)]
  show ?thesis
  proof (cases "can_create fs d name n")
    case False
    have "Create m name n fs d = Inr (False, d)"
    proof (cases b)
      case True
      then have "\<not> 10 \<le> card (dom (dir_map ?dir))" using ad(3) kd by auto
      then have "numBits bm2 - int (card (used bm2)) < divRoundUp n (int SectorSize)"
        using False k c2 f(3) by (auto simp: can_create_def dom_files files_def fr)
      from Allocate_no_room [OF f(2) this, of "fr_hdr m"] show ?thesis using f(4) True by (auto simp: run)
    qed (use f(4) in \<open>simp add: run\<close>)
    with False fs show ?thesis by simp
  next
    case True
    have b: b "dir_map dir' = (dir_map ?dir)(?k \<mapsto> sec)" using True ad(3) kd by (auto simp: can_create_def dom_files)
    have "divRoundUp n (int SectorSize) \<le> numBits bm2 - int (card (used bm2))"
      using True c2 f(3) by (simp add: can_create_def fr)
    from Allocate_ok [OF f(2) _ _ n this, of "fr_hdr m"] f(3) m
    obtain h bm3 where al: "FileHeader_Allocate n (fr_hdr m) bm2 = Inr (True, h, bm3)" "hdr_ok h" "numBytes h = n"
        "bitmap_inv bm3" "numBits bm3 = 1024" "set (blocks h) \<inter> used bm2 = {}" "used bm3 = used bm2 \<union> set (blocks h)"
      by (auto simp: fresh_ok_def)
    have "sec < NumSectors" "tableSize dir' = 10" "set (blocks h) \<inter> insert sec (used ?bm) = {}"
        "used bm3 = insert sec (used ?bm) \<union> set (blocks h)"
      using f(5,7) ad(2) al(6,7) by auto
    from create_done [OF fs n k f(4) this(1) f(6) ad(1) this(2) b(2) al(2,3) this(3) al(4,5) this(4)]
    obtain d2 d3 where dd: "Directory_WriteBack (fr_buf m) (directoryFile fs) dir' (d[nat sec := hdr_bytes h]) = Inr d2"
        "BitMap_WriteBack (fr_buf m) (freeMapFile fs) bm3 d2 = Inr d3" "fs_ok fs d3"
        "\<exists>bs. length bs = nat n \<and> files fs d3 = (files fs d)(?k \<mapsto> bs)"
        "free_sectors fs d3 = free_sectors fs d - 1 - divRoundUp n (int SectorSize)" by blast
    have "Create m name n fs d = Inr (True, d3)"
      using f(4,5) b(1) al(1) dd(1,2) by (simp add: run FileHeader_WriteBack_def WriteSector_def)
    then show ?thesis using True dd(3,4,5) by (intro exI [of _ d3]) simp
  qed
qed

lemma Create_ok:
  assumes fs: "fs_ok fs d" and m: "fresh_ok m" and n: "0 \<le> n" "n \<le> MaxFileSize"
  shows "\<exists>d'. Create m name n fs d = Inr (can_create fs d name n, d') \<and> fs_ok fs d' \<and>
    (if can_create fs d name n
     then (\<exists>bs. length bs = nat n \<and> files fs d' = (files fs d)(fname name \<mapsto> bs)) \<and>
       free_sectors fs d' = free_sectors fs d - 1 - divRoundUp n (int SectorSize)
     else d' = d)"
proof -
  note F = fs_okD [OF fs] and B = disk_map_ok [OF fs]
  let ?dir = "disk_dir fs d" and ?bm = "disk_map fs d" and ?k = "fname name"
  note run = Create_fetched [OF fs m, of name n] Find_map [OF F(6)]
  consider (dup) s where "dir_map ?dir ?k = Some s"
    | (full) "dir_map ?dir ?k = None" "{0..<numBits ?bm} \<subseteq> used ?bm"
    | (room) "dir_map ?dir ?k = None" "\<not> {0..<numBits ?bm} \<subseteq> used ?bm" by (cases "dir_map ?dir ?k") auto
  then show ?thesis
  proof cases
    case dup
    then have "\<not> can_create fs d name n" by (simp add: can_create_def files_def)
    moreover have "s \<noteq> - 1" using F(7) dup by (auto simp: owned_def headers_def ran_def)
    then have "Create m name n fs d = Inr (False, d)" using dup by (simp add: run)
    ultimately show ?thesis using fs by simp
  next
    case full
    have "card {0..<numBits ?bm} \<le> card (used ?bm)" using full(2) by (intro card_mono) simp_all
    then have "\<not> can_create fs d name n"
      using num_blocks_bound(1) [OF n] B(2) by (simp add: can_create_def free_sectors_def)
    moreover have "Create m name n fs d = Inr (False, d)" using full bmap.find_full [OF B(1) full(2)] by (simp add: run)
    ultimately show ?thesis using fs by simp
  qed (rule Create_room [OF fs m n])
qed

section \<open>Removing and opening\<close>

lemma ran_remove:
  assumes "m k = Some s" and "\<And>k'. m k' = Some s \<Longrightarrow> k' = k"
  shows "ran (m(k := None)) = ran m - {s}"
proof
  show "ran (m(k := None)) \<subseteq> ran m - {s}"
  proof
    fix x assume "x \<in> ran (m(k := None))"
    then obtain k' where k': "k' \<noteq> k" "m k' = Some x" by (auto simp: ran_def split: if_splits)
    then have "x \<noteq> s" using assms(2) by blast
    with k' show "x \<in> ran m - {s}" by (auto simp: ran_def)
  qed
  show "ran m - {s} \<subseteq> ran (m(k := None))"
  proof
    fix x assume x: "x \<in> ran m - {s}"
    then obtain k' where k': "m k' = Some x" by (auto simp: ran_def)
    then have "k' \<noteq> k" using x assms(1) by auto
    with k' have "(m(k := None)) k' = Some x" by simp
    then show "x \<in> ran (m(k := None))" by (rule ranI)
  qed
qed

lemma remove_flush:
  assumes fs: "fs_ok fs d" and k: "dir_map (disk_dir fs d) k = Some s"
    and dir: "dir_ok dir" "tableSize dir = 10" "dir_map dir = (dir_map (disk_dir fs d))(k := None)"
    and bm: "bitmap_inv bm" "numBits bm = 1024" "used bm = used (disk_map fs d) - file_sectors d s"
  shows "\<exists>d1 d2. BitMap_WriteBack j (freeMapFile fs) bm d = Inr d1 \<and>
    Directory_WriteBack j (directoryFile fs) dir d1 = Inr d2 \<and> fs_ok fs d2 \<and> disk_dir fs d2 = dir \<and> disk_map fs d2 = bm \<and>
    (\<forall>x. 0 \<le> x \<and> x \<notin> set (blocks (hdr (freeMapFile fs))) \<and> x \<notin> set (blocks (hdr (directoryFile fs))) \<longrightarrow>
      d2 ! nat x = d ! nat x)"
proof -
  note F = fs_okD [OF fs]
  let ?H = "headers fs d"
  let ?B = "set (blocks (hdr (freeMapFile fs)))" and ?D = "set (blocks (hdr (directoryFile fs)))"
  have nw: "numWords bm = 32" "length (words bm) = 32"
    using bm by (simp_all add: bitmap_inv_def wf_bitmap_def BitsInWord_def divRoundUp_nonneg)
  obtain d1 where d1: "BitMap_WriteBack j (freeMapFile fs) bm d = Inr d1" "disk_ok d1"
      "contents (hdr (freeMapFile fs)) d1 = map_bytes bm" "\<And>s. s \<notin> nat ` ?B \<Longrightarrow> d1 ! s = d ! s"
    using BitMap_WriteBack_ok [OF F(2) F(1), of bm j] F(4) nw by auto
  obtain d2 where d2: "Directory_WriteBack j (directoryFile fs) dir d1 = Inr d2" "disk_ok d2"
      "contents (hdr (directoryFile fs)) d2 = dir_bytes (table dir)" "\<And>s. s \<notin> nat ` ?D \<Longrightarrow> d2 ! s = d1 ! s"
    using Directory_WriteBack_ok [OF F(3) d1(2), of dir j] F(5) dir by auto
  note nn = hdr_ok_blocks_nonneg [OF F(2)] hdr_ok_blocks_nonneg [OF F(3)]
  have keep: "d2 ! nat x = d ! nat x" if "0 \<le> x" "x \<notin> ?B" "x \<notin> ?D" for x
    using that d2(4) [OF nat_image_notin [OF _ _ nn(2)]] d1(4) [OF nat_image_notin [OF _ _ nn(1)]] by simp
  have s: "s \<in> ?H" "s \<notin> {0, 1}" using k F(13) by (auto simp: headers_def ran_def)
  have only: "k' = k" if "dir_map (disk_dir fs d) k' = Some s" for k'
    using inj_onD [OF F(12), of k' k] that k by auto
  have ran: "{0, 1} \<union> ran (dir_map dir) = ?H - {s}"
    using ran_remove [where m = "dir_map (disk_dir fs d)", OF k only] s(2) unfolding dir(3) headers_def by auto
  have H: "d2 ! nat t = d ! nat t" if "t \<in> ?H" for t
  proof -
    have "0 \<le> t" using F(7) that by (simp add: owned_def)
    then show ?thesis using keep system_blocks(2) [OF fs that] by blast
  qed
  have ow: "owned d2 (?H - {s})"
  proof -
    have "owned d (?H - {s})" using F(7) by (auto simp: owned_def)
    then show ?thesis using owned_cong [of "?H - {s}" d2 d] H by blast
  qed
  have u: "used bm = (\<Union>t \<in> ?H - {s}. file_sectors d2 t)"
  proof -
    have "file_sectors d2 t = file_sectors d t" if "t \<in> ?H" for t using H [OF that] file_sectors_cong by blast
    moreover have "file_sectors d t \<inter> file_sectors d s = {}" if "t \<in> ?H - {s}" for t
      using F(7) that s(1) unfolding owned_def by blast
    ultimately show ?thesis unfolding bm(3) F(11) using s(1) by auto
  qed
  have "inj_on (dir_map dir) (dom (dir_map dir))" using F(12) dir(3) by (auto simp: inj_on_def)
  moreover have "ran (dir_map dir) \<inter> {0, 1} = {}" using F(13) dir(3) by (auto simp: ran_def)
  moreover have "hdr_at d2 0 = hdr (freeMapFile fs)" "hdr_at d2 1 = hdr (directoryFile fs)"
    using F(8,9) H [of 0] H [of 1] by (simp_all add: headers_def)
  moreover have "contents (hdr (freeMapFile fs)) d2 = map_bytes bm"
    using d1(3) contents_cong [of "hdr (freeMapFile fs)" d2 d1] system_blocks(1) [OF fs]
      d2(4) [OF nat_image_notin [OF _ _ nn(2)]] nn(1) by auto
  ultimately show ?thesis
    using flushed_ok [OF F(2-5) _ _ d2(2,3) _ dir(1,2) bm(1,2), unfolded ran, OF _ _ _ ow _ _ u] d1(1) d2(1) keep by blast
qed

lemma Remove_ok:
  assumes fs: "fs_ok fs d" and m: "fresh_ok m"
  shows "\<exists>d'. Remove m name fs d = Inr (files fs d (fname name) \<noteq> None, d') \<and> fs_ok fs d' \<and>
    files fs d' = (files fs d)(fname name := None) \<and>
    free_sectors fs d' = free_sectors fs d +
      (case files fs d (fname name) of None \<Rightarrow> 0 | Some bs \<Rightarrow> 1 + divRoundUp (int (length bs)) (int SectorSize))"
proof -
  note F = fs_okD [OF fs] and B = disk_map_ok [OF fs]
  let ?dir = "disk_dir fs d" and ?bm = "disk_map fs d" and ?k = "fname name"
  obtain bm0 where bm0: "BitMap_BitMap NumSectors (fr_words m) = Inr bm0" "numBits bm0 = 1024" "numWords bm0 = 32"
      "length (words bm0) = 32" using new_map [OF m] by metis
  note fetch = fetch_dir [OF fs m, simplified] bm0(1) [simplified] fetch_map [OF fs bm0(2,3,4)]
  show ?thesis
  proof (cases "dir_map ?dir ?k")
    case None
    then have "Remove m name fs d = Inr (False, d)" using Find_map [OF F(6)] by (simp add: Remove_def fetch)
    with None fs show ?thesis by (auto simp: files_def fun_upd_idem)
  next
    case (Some s)
    let ?h = "hdr_at d s"
    have s: "s \<in> headers fs d" using Some by (auto simp: headers_def ran_def)
    have s': "0 \<le> s" "s < 1024" "hdr_ok ?h" "s \<notin> set (blocks ?h)" using F(7) s by (auto simp: owned_def)
    have sub: "file_sectors d s \<subseteq> used ?bm" using dir_map_sub_used [OF fs s] .
    obtain bm2 where b2: "FileHeader_Deallocate ?h ?bm = Inr bm2" "bitmap_inv bm2" "numBits bm2 = 1024"
        "used bm2 = used ?bm - set (blocks ?h)"
      using Deallocate_ok [OF B(1) s'(3)] sub B(2) by (auto simp: file_sectors_def)
    obtain bm3 where b3: "BitMap_Clear s bm2 = Inr bm3" "bitmap_inv bm3" "numBits bm3 = 1024" "used bm3 = used bm2 - {s}"
      using bmap.clear_taken [OF b2(2) s'(1)] s'(2) b2(3) by auto
    have u3: "used bm3 = used ?bm - file_sectors d s" using b2(4) b3(4) by (auto simp: file_sectors_def)
    obtain b dir' where r: "Directory_Remove name ?dir = (b, dir')" by (cases "Directory_Remove name ?dir")
    have rd: "dir_ok dir'" "nat (tableSize dir') = nat 10" "dir_map dir' = (dir_map ?dir)(?k := None)"
      using fsdir.remove_request [OF F(6) r] by (simp_all add: disk_dir_def)
    have t10: "tableSize dir' = 10" using rd(2) by simp
    obtain d1 d2 where fl: "BitMap_WriteBack (fr_buf m) (freeMapFile fs) bm3 d = Inr d1"
        "Directory_WriteBack (fr_buf m) (directoryFile fs) dir' d1 = Inr d2" "fs_ok fs d2" "disk_dir fs d2 = dir'"
        "disk_map fs d2 = bm3"
        "\<And>x. 0 \<le> x \<Longrightarrow> x \<notin> set (blocks (hdr (freeMapFile fs))) \<Longrightarrow> x \<notin> set (blocks (hdr (directoryFile fs))) \<Longrightarrow>
          d2 ! nat x = d ! nat x"
      using remove_flush [OF fs Some rd(1) t10 rd(3) b3(2,3) u3, of "fr_buf m"] by auto
    have rm: "Remove m name fs d = Inr (True, d2)"
      using Find_map [OF F(6), of name] Some s' fl(1,2) b2(1) b3(1) r
      by (simp add: Remove_def fetch FileHeader_FetchFrom_def ReadSector_def)
    have "files fs d2 k' = ((files fs d)(?k := None)) k'" for k'
      using untouched_file [OF fs, of k' _ d2] fl(6) by (cases "dir_map ?dir k'") (auto simp: files_def fl(4) rd(3))
    moreover have "free_sectors fs d2 = free_sectors fs d + 1 + divRoundUp (numBytes ?h) 128"
    proof -
      have "card (file_sectors d s) = Suc (nat (numSectors ?h))"
        using s'(3,4) hdr_okD(3) [OF s'(3)] by (simp add: file_sectors_def distinct_card hdr_ok_def)
      moreover have "card (used bm3) = card (used ?bm) - card (file_sectors d s)"
        unfolding u3 using sub by (intro card_Diff_subset) (auto simp: file_sectors_def)
      moreover have "card (file_sectors d s) \<le> card (used ?bm)" using sub by (intro card_mono) simp_all
      ultimately show ?thesis using s'(3) hdr_okD(1) [OF s'(3)] by (simp add: free_sectors_def fl(5) hdr_ok_def)
    qed
    moreover have "int (length (contents ?h d)) = numBytes ?h"
      using length_contents [OF s'(3) F(1)] s'(3) by (simp add: hdr_ok_def)
    ultimately show ?thesis using rm fl(3) Some by (intro exI [of _ d2]) (auto simp: files_def)
  qed
qed

lemma Open_ok:
  assumes fs: "fs_ok fs d" and m: "fresh_ok m"
  shows "\<exists>r. Open m name fs d = Inr r \<and>
    (case files fs d (fname name) of None \<Rightarrow> r = None
     | Some bs \<Rightarrow> \<exists>f. r = Some f \<and> seekPosition f = 0 \<and> hdr_ok (hdr f) \<and> contents (hdr f) d = bs)"
proof (cases "dir_map (disk_dir fs d) (fname name)")
  case None
  then show ?thesis
    using Find_map [OF fs_okD(6) [OF fs], of name] by (simp add: Open_def fetch_dir [OF fs m, simplified] files_def)
next
  case (Some s)
  have "0 \<le> s" "s < 1024" "hdr_ok (hdr_at d s)"
    using fs_okD(7) [OF fs] Some by (auto simp: owned_def headers_def ran_def)
  then show ?thesis
    using Find_map [OF fs_okD(6) [OF fs], of name] Some
    by (simp add: Open_def fetch_dir [OF fs m, simplified] files_def OpenFile_OpenFile_def FileHeader_FetchFrom_def ReadSector_def)
qed

section \<open>Formatting\<close>

lemma WriteBack_reads:
  assumes "disk_ok d" "hdr_ok h" "0 \<le> s" "s < NumSectors"
  shows "FileHeader_WriteBack s h d = Inr (d[nat s := hdr_bytes h])" "disk_ok (d[nat s := hdr_bytes h])"
    "hdr_at (d[nat s := hdr_bytes h]) s = h"
proof -
  have rt: "hdr_of (hdr_bytes h) = h" "length (hdr_bytes h) = 128"
    using hdr_round_trip [of h] hdr_ok_fits [OF assms(2)] by auto
  show "FileHeader_WriteBack s h d = Inr (d[nat s := hdr_bytes h])"
    using assms by (simp add: FileHeader_WriteBack_def WriteSector_def)
  show "disk_ok (d[nat s := hdr_bytes h])"
    using assms(1) rt(2) by (auto simp: disk_ok_def dest!: set_update_subset_insert [THEN subsetD])
  show "hdr_at (d[nat s := hdr_bytes h]) s = h" using assms rt by (simp add: disk_ok_def)
qed

text \<open>The allocations that formatting makes on an empty map.\<close>

lemma format_alloc:
  assumes "fresh_ok m"
  obtains bm0 bm1 bm2 h1 bm3 h2 bm where "BitMap_BitMap NumSectors (fr_words m) = Inr bm0" "BitMap_Mark 0 bm0 = Inr bm1"
    "BitMap_Mark 1 bm1 = Inr bm2" "FileHeader_Allocate 128 (fr_hdr m) bm2 = Inr (True, h1, bm3)"
    "FileHeader_Allocate 200 (fr_hdr m) bm3 = Inr (True, h2, bm)" "hdr_ok h1" "hdr_ok h2" "numBytes h1 = 128" "numBytes h2 = 200"
    "bitmap_inv bm" "numBits bm = 1024" "used bm = {0, 1} \<union> set (blocks h1) \<union> set (blocks h2)"
    "set (blocks h1) \<inter> {0, 1} = {}" "set (blocks h2) \<inter> ({0, 1} \<union> set (blocks h1)) = {}" "card (used bm) = 5"
proof -
  obtain bm0 where b0: "BitMap_BitMap NumSectors (fr_words m) = Inr bm0" "numBits bm0 = 1024" "used bm0 = {}" "bitmap_inv bm0"
    using new_map [OF assms] by metis
  obtain bm1 where b1: "BitMap_Mark 0 bm0 = Inr bm1" "bitmap_inv bm1" "numBits bm1 = 1024" "used bm1 = {0}"
    using BitMap_Mark_used [of bm0 0] b0 by (auto simp: bitmap_inv_def)
  obtain bm2 where b2: "BitMap_Mark 1 bm1 = Inr bm2" "bitmap_inv bm2" "numBits bm2 = 1024" "used bm2 = {0, 1}"
    using BitMap_Mark_used [of bm1 1] b1 by (auto simp: bitmap_inv_def)
  have k: "divRoundUp 128 (int SectorSize) = 1" "divRoundUp 200 (int SectorSize) = 2" by (simp_all add: divRoundUp_nonneg)
  have fh: "hdr_shape (fr_hdr m)" using assms by (simp add: fresh_ok_def)
  obtain h1 bm3 where a1: "FileHeader_Allocate 128 (fr_hdr m) bm2 = Inr (True, h1, bm3)" "hdr_ok h1" "numBytes h1 = 128"
      "bitmap_inv bm3" "numBits bm3 = 1024" "set (blocks h1) \<inter> {0, 1} = {}" "used bm3 = {0, 1} \<union> set (blocks h1)"
    using Allocate_ok [OF b2(2) _ fh, of 128] b2(3,4) k(1) by auto
  have c1: "card (set (blocks h1)) = 1" using hdr_okD(3) [OF a1(2)] a1(2,3) k(1) by (simp add: hdr_ok_def distinct_card)
  have c3: "card (used bm3) = 3" unfolding a1(7) using a1(6) c1 by (subst card_Un_disjoint) auto
  obtain h2 bm where a2: "FileHeader_Allocate 200 (fr_hdr m) bm3 = Inr (True, h2, bm)" "hdr_ok h2" "numBytes h2 = 200"
      "bitmap_inv bm" "numBits bm = 1024" "set (blocks h2) \<inter> used bm3 = {}" "used bm = used bm3 \<union> set (blocks h2)"
    using Allocate_ok [OF a1(4) _ fh, of 200] a1(5) c3 k(2) by auto
  have c2: "card (set (blocks h2)) = 2" using hdr_okD(3) [OF a2(2)] a2(2,3) k(2) by (simp add: hdr_ok_def distinct_card)
  have "card (used bm) = 5" unfolding a2(7) using a2(6) c2 c3 by (subst card_Un_disjoint) auto
  with that [OF b0(1) b1(1) b2(1) a1(1) a2(1) a1(2) a2(2) a1(3) a2(3) a2(4,5)] a1(6,7) a2(6,7) show ?thesis by simp
qed

lemma Format_ok:
  assumes m: "fresh_ok m" and d: "disk_ok d"
  shows "\<exists>fs d'. FileSystem_FileSystem m True d = Inr (fs, d') \<and> fs_ok fs d' \<and> files fs d' = Map.empty \<and>
    free_sectors fs d' = 1019 \<and> FileSystem_FileSystem m' False d' = Inr (fs, d')"
proof -
  obtain bm0 bm1 bm2 h1 bm3 h2 bm where A: "BitMap_BitMap NumSectors (fr_words m) = Inr bm0" "BitMap_Mark 0 bm0 = Inr bm1"
    "BitMap_Mark 1 bm1 = Inr bm2" "FileHeader_Allocate 128 (fr_hdr m) bm2 = Inr (True, h1, bm3)"
    "FileHeader_Allocate 200 (fr_hdr m) bm3 = Inr (True, h2, bm)"
    and h: "hdr_ok h1" "hdr_ok h2" "numBytes h1 = 128" "numBytes h2 = 200"
    and bm: "bitmap_inv bm" "numBits bm = 1024" "used bm = {0, 1} \<union> set (blocks h1) \<union> set (blocks h2)"
    and dis: "set (blocks h1) \<inter> {0, 1} = {}" "set (blocks h2) \<inter> ({0, 1} \<union> set (blocks h1)) = {}" and c: "card (used bm) = 5"
    using format_alloc [OF m] by metis
  let ?dir = "Directory_Directory 10 (fr_entries m)"
  note dir = new_dir [OF m, simplified]
  define d1 where "d1 = d[nat 0 := hdr_bytes h1]"
  note w1 = WriteBack_reads [OF d h(1), of 0, folded d1_def]
  have w1': "FileHeader_WriteBack 0 h1 d = Inr d1" "disk_ok d1" "hdr_at d1 0 = h1" using w1 by simp_all
  define d2 where "d2 = d1[nat 1 := hdr_bytes h2]"
  note w2 = WriteBack_reads [OF w1'(2) h(2), of 1, folded d2_def]
  have w2': "FileHeader_WriteBack 1 h2 d1 = Inr d2" "disk_ok d2" "hdr_at d2 1 = h2" "hdr_at d2 0 = h1"
    using w2 w1'(3) by (simp_all add: d2_def)
  define fs where "fs = \<lparr>freeMapFile = \<lparr>hdr = h1, seekPosition = 0\<rparr>, directoryFile = \<lparr>hdr = h2, seekPosition = 0\<rparr>\<rparr>"
  have nw: "numWords bm = 32" "length (words bm) = 32"
    using bm by (simp_all add: bitmap_inv_def wf_bitmap_def BitsInWord_def divRoundUp_nonneg)
  obtain d3 where d3: "BitMap_WriteBack (fr_buf m) (freeMapFile fs) bm d2 = Inr d3" "disk_ok d3"
      "contents h1 d3 = map_bytes bm" "\<And>s. s \<notin> nat ` set (blocks h1) \<Longrightarrow> d3 ! s = d2 ! s"
    using BitMap_WriteBack_ok [of "freeMapFile fs" d2 bm "fr_buf m"] h w2'(2) nw by (auto simp: fs_def)
  obtain d4 where d4: "Directory_WriteBack (fr_buf m) (directoryFile fs) ?dir d3 = Inr d4" "disk_ok d4"
      "contents h2 d4 = dir_bytes (table ?dir)" "\<And>s. s \<notin> nat ` set (blocks h2) \<Longrightarrow> d4 ! s = d3 ! s"
    using Directory_WriteBack_ok [of "directoryFile fs" d3 ?dir "fr_buf m"] h d3(2) dir(1,2) by (auto simp: fs_def)
  note nn = hdr_ok_blocks_nonneg [OF h(1)] hdr_ok_blocks_nonneg [OF h(2)]
  have keep: "d4 ! nat x = d2 ! nat x" if "x \<in> {0, 1}" for x
    using that dis d4(4) [OF nat_image_notin [OF _ _ nn(2)], of x] d3(4) [OF nat_image_notin [OF _ _ nn(1)], of x] by auto
  have H: "hdr_at d4 0 = h1" "hdr_at d4 1 = h2" using keep [of 0] keep [of 1] w2'(3,4) by simp_all
  have own: "owned d4 {0, 1}" using H h dis by (auto simp: owned_def file_sectors_def)
  have cm: "contents h1 d4 = map_bytes bm"
    using d3(3) contents_cong [of h1 d4 d3] dis(2) d4(4) [OF nat_image_notin [OF _ _ nn(2)]] nn(1) by auto
  have u: "used bm = (\<Union>s \<in> {0, 1}. file_sectors d4 s)" using bm(3) H by (auto simp: file_sectors_def)
  have ok: "fs_ok fs d4 \<and> disk_dir fs d4 = ?dir \<and> disk_map fs d4 = bm"
    using flushed_ok [of fs d4 ?dir bm] h H d4(2,3) cm dir(1,2,4) bm(1,2) own u by (simp add: fs_def)
  have "FileSystem_FileSystem m True d = Inr (fs, d4)"
    using A [simplified] w1' w2' d3(1) d4(1)
    by (simp add: FileSystem_FileSystem_def Let_def OpenFile_OpenFile_def FileHeader_FetchFrom_def ReadSector_def fs_def)
  moreover have "FileSystem_FileSystem m' False d4 = Inr (fs, d4)"
    using H by (simp add: FileSystem_FileSystem_def OpenFile_OpenFile_def FileHeader_FetchFrom_def ReadSector_def fs_def)
  moreover have "files fs d4 = Map.empty" using ok dir(4) by (auto simp: files_def)
  moreover have "free_sectors fs d4 = 1019" using ok c by (simp add: free_sectors_def)
  ultimately show ?thesis using ok by blast
qed

section \<open>Properties\<close>

definition demo_fresh :: Fresh where
  "demo_fresh = \<lparr>fr_words = replicate 32 0, fr_entries = replicate 10 \<lparr>inUse = True, sector = 0, dname = replicate 10 0,
     padding = replicate 5 0\<rparr>, fr_hdr = demo_header, fr_buf = (\<lambda>_. 0)\<rparr>"

definition blank_disk :: sectors where
  "blank_disk = replicate 1024 (replicate 128 0)"

lemma demo_ok: "fresh_ok demo_fresh" "disk_ok blank_disk"
  by (auto simp: fresh_ok_def demo_fresh_def demo_header_def hdr_shape_def fits_int_def entry_ok_def disk_ok_def blank_disk_def)

text \<open>
  C19. Formatting makes a well-formed, empty file system. Whatever the disk and the fresh memory
  held, the constructor with \<^verbatim>\<open>format\<close> succeeds (its assertions hold) and leaves a disk on
  which every sector in use belongs to the free map or the directory, with 1019 sectors free
  and no file; starting again without formatting finds the same file system.
\<close>

theorem fs_format:
  assumes "fresh_ok m" and "disk_ok d"
  shows "\<exists>fs d'. FileSystem_FileSystem m True d = Inr (fs, d') \<and> fs_ok fs d' \<and> files fs d' = Map.empty \<and>
    free_sectors fs d' = 1019 \<and> FileSystem_FileSystem m' False d' = Inr (fs, d')"
  using Format_ok [OF assms] .

theorem fs_format_witness:
  "\<exists>fs d'. FileSystem_FileSystem demo_fresh True blank_disk = Inr (fs, d') \<and> fs_ok fs d' \<and> files fs d' [65] = None"
  using fs_format [OF demo_ok] by fastforce

lemma formatted: "\<exists>fs d. fs_ok fs d \<and> files fs d = Map.empty \<and> free_sectors fs d = 1019"
  using Format_ok [OF demo_ok] by blast

text \<open>
  C3. Creating a file. \<^verbatim>\<open>Create\<close> with a size from 0 to \<^verbatim>\<open>MaxFileSize\<close> never fails an assertion. It
  returns \<^verbatim>\<open>TRUE\<close> exactly when no file of that name exists, the directory has a free entry and
  the disk has room for the header and the blocks; then the name stands for a file of that
  size, all other files keep their contents, and the free space shrinks by what the file
  takes. Otherwise the disk is not touched. The invariant is kept.
\<close>

theorem fs_create:
  assumes "fs_ok fs d" and "fresh_ok m" and "0 \<le> n" and "n \<le> MaxFileSize"
  shows "\<exists>d'. Create m name n fs d = Inr (can_create fs d name n, d') \<and> fs_ok fs d' \<and>
    (if can_create fs d name n
     then (\<exists>bs. length bs = nat n \<and> files fs d' = (files fs d)(fname name \<mapsto> bs)) \<and>
       free_sectors fs d' = free_sectors fs d - 1 - divRoundUp n (int SectorSize)
     else d' = d)"
  using Create_ok [OF assms] .

theorem fs_create_witness:
  "\<exists>fs d d' bs. Create demo_fresh [65, 66] 300 fs d = Inr (True, d') \<and> files fs d' [65, 66] = Some bs \<and> length bs = 300"
proof -
  obtain fs d where f: "fs_ok fs d" "files fs d = Map.empty" "free_sectors fs d = 1019" using formatted by blast
  have "can_create fs d [65, 66] 300" using f by (simp add: can_create_def divRoundUp_nonneg)
  moreover have "fname [65, 66] = [65, 66]" by (simp add: fname_def FileNameMaxLen_def)
  ultimately obtain d' bs where "Create demo_fresh [65, 66] 300 fs d = Inr (True, d')" "length bs = 300"
      "files fs d' = [[65, 66] \<mapsto> bs]"
    using fs_create [OF f(1) demo_ok(1), of 300 "[65, 66]"] by (auto simp: f(2))
  then show ?thesis by (intro exI [of _ fs] exI [of _ d] exI [of _ d'] exI [of _ bs]) simp
qed

text \<open>
  C12. Removing a file. \<^verbatim>\<open>Remove\<close> never fails an assertion (every block of the file is marked, as
  \<^verbatim>\<open>Deallocate\<close> checks), returns whether the file existed, and afterwards exactly that name is
  gone, all other files have their contents, and precisely the header and the blocks of the
  file are free again. The invariant is kept.
\<close>

theorem fs_remove:
  assumes "fs_ok fs d" and "fresh_ok m"
  shows "\<exists>d'. Remove m name fs d = Inr (files fs d (fname name) \<noteq> None, d') \<and> fs_ok fs d' \<and>
    files fs d' = (files fs d)(fname name := None) \<and>
    free_sectors fs d' = free_sectors fs d +
      (case files fs d (fname name) of None \<Rightarrow> 0 | Some bs \<Rightarrow> 1 + divRoundUp (int (length bs)) (int SectorSize))"
  using Remove_ok [OF assms] .

theorem fs_remove_witness:
  "\<exists>fs d d'. files fs d [65] \<noteq> None \<and> Remove demo_fresh [65] fs d = Inr (True, d') \<and> files fs d' [65] = None"
proof -
  obtain fs d0 where f: "fs_ok fs d0" "files fs d0 = Map.empty" "free_sectors fs d0 = 1019" using formatted by blast
  have k: "fname [65] = [65]" by (simp add: fname_def FileNameMaxLen_def)
  have "can_create fs d0 [65] 0" using f by (simp add: can_create_def divRoundUp_nonneg)
  then obtain d where "fs_ok fs d" "files fs d [65] \<noteq> None"
    using Create_ok [OF f(1) demo_ok(1), of 0 "[65]"] by (auto simp: f(2) k)
  moreover from fs_remove [OF this(1) demo_ok(1), of "[65]"] this(2)
  obtain d' where "Remove demo_fresh [65] fs d = Inr (True, d')" "files fs d' = (files fs d)([65] := None)" by (auto simp: k)
  ultimately show ?thesis by (intro exI [of _ fs] exI [of _ d] exI [of _ d']) simp
qed

lemma write_keeps_fs:
  assumes fs: "fs_ok fs d" and k: "dir_map (disk_dir fs d) k = Some s"
    and d': "disk_ok d'" "\<And>x. x \<notin> nat ` set (blocks (hdr_at d s)) \<Longrightarrow> d' ! x = d ! x"
  shows "fs_ok fs d' \<and> files fs d' = (files fs d)(k \<mapsto> contents (hdr_at d s) d')"
proof -
  note F = fs_okD [OF fs]
  have s: "s \<in> headers fs d" "s \<notin> {0, 1}" using k F(13) by (auto simp: headers_def ran_def)
  have h: "hdr_ok (hdr_at d s)" using F(7) s(1) by (simp add: owned_def)
  have keep: "d' ! nat x = d ! nat x" if "0 \<le> x" "x \<notin> set (blocks (hdr_at d s))" for x
    using d'(2) [OF nat_image_notin [OF that hdr_ok_blocks_nonneg [OF h]]] .
  have disj: "file_sectors d t \<inter> file_sectors d s = {}" if "t \<in> headers fs d" "t \<noteq> s" for t
    using F(7) s(1) that unfolding owned_def by blast
  have same: "d' ! nat x = d ! nat x" if "t \<in> headers fs d" "t \<noteq> s" "x \<in> file_sectors d t" for t x
    using keep disj [OF that(1,2)] that(3) owned_bound [OF F(7) that(1,3)] by (auto simp: file_sectors_def)
  have hd: "d' ! nat t = d ! nat t" if "t \<in> headers fs d" for t
  proof (cases "t = s")
    case True
    then show ?thesis using keep F(7) s(1) by (auto simp: owned_def)
  qed (use same [OF that, of t] in \<open>simp add: file_sectors_def\<close>)
  have H: "0 \<in> headers fs d" "1 \<in> headers fs d" by (simp_all add: headers_def)
  have sys: "contents (hdr (freeMapFile fs)) d' = contents (hdr (freeMapFile fs)) d"
    "contents (hdr (directoryFile fs)) d' = contents (hdr (directoryFile fs)) d"
    using same [OF H(1)] same [OF H(2)] s(2) F(8,9) by (auto intro!: contents_cong simp: file_sectors_def)
  have dd: "disk_dir fs d' = disk_dir fs d" "disk_map fs d' = disk_map fs d" by (simp_all add: disk_dir_def disk_map_def sys)
  have hs: "headers fs d' = headers fs d" by (simp add: headers_def dd)
  have "\<forall>t \<in> headers fs d. file_sectors d' t = file_sectors d t" using hd file_sectors_cong by blast
  then have "fs_ok fs d'"
    using fs d'(1) hd H hd [OF H(1)] hd [OF H(2)] owned_cong [of "headers fs d" d' d] by (simp add: fs_ok_def dd hs sys)
  moreover have "files fs d' k' = ((files fs d)(k \<mapsto> contents (hdr_at d s) d')) k'" for k'
  proof (cases "dir_map (disk_dir fs d) k'")
    case None
    then show ?thesis using k by (auto simp: files_def dd)
  next
    case (Some t)
    have t: "t \<in> headers fs d" using Some by (auto simp: headers_def ran_def)
    have "k' = k \<longleftrightarrow> t = s" using inj_onD [OF F(12), of k' k] Some k by auto
    moreover have "contents (hdr_at d t) d' = contents (hdr_at d t) d" if "t \<noteq> s"
      using same [OF t that] by (intro contents_cong) (auto simp: file_sectors_def)
    ultimately show ?thesis using Some hd [OF t] by (auto simp: files_def dd)
  qed
  ultimately show ?thesis by auto
qed

text \<open>
  C13. Files do not interfere. \<^verbatim>\<open>Open\<close> returns the file of that name, or NULL when there is none;
  a write to the opened file, at any position that is not negative, changes the contents
  of that name only, exactly in the bytes written, and keeps the invariant of the file
  system: the free map, the directory and every other file stay as they are.
\<close>

theorem fs_write_isolated:
  assumes "fs_ok fs d" and "fresh_ok m" and "files fs d (fname name) = Some bs" and "0 \<le> p"
  shows "\<exists>f n d'. Open m name fs d = Inr (Some f) \<and> Length f = int (length bs) \<and>
    WriteAt junk from p f d = Inr (n, d') \<and> n = max 0 (min (int (length from)) (int (length bs) - p)) \<and>
    fs_ok fs d' \<and> files fs d' = (files fs d)(fname name \<mapsto> poke (nat p) (take (nat n) from) bs)"
proof -
  note F = fs_okD [OF assms(1)]
  obtain s where s: "dir_map (disk_dir fs d) (fname name) = Some s" "bs = contents (hdr_at d s) d"
    using assms(3) by (auto simp: files_def)
  have sb: "0 \<le> s" "s < 1024" "hdr_ok (hdr_at d s)"
    using F(7) s(1) by (auto simp: owned_def headers_def ran_def)
  define f where "f = \<lparr>hdr = hdr_at d s, seekPosition = 0\<rparr>"
  have op: "Open m name fs d = Inr (Some f)"
    using Find_map [OF F(6), of name] s(1) sb
    by (simp add: Open_def fetch_dir [OF assms(1,2), simplified] OpenFile_OpenFile_def FileHeader_FetchFrom_def ReadSector_def f_def)
  have hf: "hdr_ok (hdr f)" using sb by (simp add: f_def)
  have len: "Length f = int (length bs)"
    using length_contents [OF hf F(1)] hf by (simp add: Length_def FileLength_def s(2) f_def hdr_ok_def)
  define n where "n = max 0 (min (int (length from)) (int (length bs) - p))"
  have "\<exists>d'. WriteAt junk from p f d = Inr (n, d') \<and> disk_ok d' \<and>
      contents (hdr f) d' = poke (nat p) (take (nat n) from) bs \<and> (\<forall>x. x \<notin> nat ` set (blocks (hdr f)) \<longrightarrow> d' ! x = d ! x)"
  proof (cases "from = [] \<or> numBytes (hdr f) \<le> p")
    case True
    then have "n = 0" using len by (auto simp: n_def Length_def FileLength_def)
    with WriteAt_outside [OF True] F(1) s(2) show ?thesis by (simp add: poke_def f_def)
  next
    case False
    then have "n = (if p + int (length from) > numBytes (hdr f) then numBytes (hdr f) - p else int (length from))"
      using len by (auto simp: n_def Length_def FileLength_def)
    with WriteAt_ok [OF hf F(1) assms(4), of "from" junk] False s(2) show ?thesis by (simp add: f_def)
  qed
  then obtain d' where d': "WriteAt junk from p f d = Inr (n, d')" "disk_ok d'"
      "contents (hdr_at d s) d' = poke (nat p) (take (nat n) from) bs"
      "\<And>x. x \<notin> nat ` set (blocks (hdr_at d s)) \<Longrightarrow> d' ! x = d ! x" by (auto simp: f_def)
  show ?thesis
    using write_keeps_fs [OF assms(1) s(1) d'(2,4)] op len d'(1,3) unfolding n_def by auto
qed

theorem fs_write_isolated_witness:
  "\<exists>fs d f d'. Open demo_fresh [65] fs d = Inr (Some f) \<and> WriteAt (\<lambda>_. 0) [1, 2, 3] 127 f d = Inr (3, d') \<and>
     (\<exists>bs. files fs d' [65] = Some (poke 127 [1, 2, 3] bs))"
proof -
  obtain fs d0 where f: "fs_ok fs d0" "files fs d0 = Map.empty" "free_sectors fs d0 = 1019" using formatted by blast
  have k: "fname [65] = [65]" by (simp add: fname_def FileNameMaxLen_def)
  have "can_create fs d0 [65] 300" using f by (simp add: can_create_def divRoundUp_nonneg)
  then obtain d bs where d: "fs_ok fs d" "files fs d (fname [65]) = Some bs" "length bs = 300"
    using Create_ok [OF f(1) demo_ok(1), of 300 "[65]"] by (auto simp: f(2))
  from fs_write_isolated [OF d(1) demo_ok(1) d(2), of 127 "\<lambda>_. 0" "[1, 2, 3]"] d(3)
  obtain g d' where "Open demo_fresh [65] fs d = Inr (Some g)" "WriteAt (\<lambda>_. 0) [1, 2, 3] 127 g d = Inr (3, d')"
      "files fs d' = (files fs d)([65] \<mapsto> poke 127 [1, 2, 3] bs)" by (auto simp: k)
  then show ?thesis by (intro exI [of _ fs] exI [of _ d] exI [of _ g] exI [of _ d']) auto
qed

end
