(* ===== verification/Threads.thy ===== *)
theory Threads
  imports Interrupt
begin

text \<open>
  Kernel threads, the scheduler and the synchronisation primitives:
  \<^verbatim>\<open>threads/{thread,scheduler,synch}.{h,cc}\<close>. On the uniprocessor a routine runs with interrupts
  disabled, so it is atomic up to the point where it gives up the processor. A thread is the
  list of the instructions it still has to execute; a routine that sleeps leaves a resume
  point in front of that list. The ready list and the queues of waiting threads are sorted
  lists (\<^theory_text>\<open>LinkedList\<close>), here as the sequences they stand for.
\<close>

section \<open>State\<close>

datatype ThreadStatus = JUST_CREATED | RUNNING | READY | BLOCKED

record Thread =
  tname :: string
  tkey :: int
  joining :: bool
  joinSignal :: nat
  mayDie :: nat
  tstatus :: ThreadStatus
  exitStatus :: int

type_synonym thread_queue = "(int \<times> nat) list"

record Semaphore =
  svalue :: int
  squeue :: thread_queue

record Lock =
  isLocked :: bool
  lqueue :: thread_queue
  currThread :: "nat option"

record Condition =
  cqueue :: thread_queue

text \<open>
  What a thread can execute: calls of the primitives, actions on the shared variables
  \<open>'g\<close> (with the identity of the thread), loops on them, and the resume points of routines
  that gave up the processor. \<open>PLoop\<close> is the \<^verbatim>\<open>while\<close> of \<^verbatim>\<open>Semaphore::P\<close>, \<open>AcquireLoop\<close> that of
  \<^verbatim>\<open>Lock::Acquire\<close>, \<open>WaitResume\<close> the call of \<^verbatim>\<open>Acquire\<close> in \<^verbatim>\<open>Condition::Wait\<close>, \<open>YieldResume\<close> the
  end of \<^verbatim>\<open>Thread::Yield\<close>, \<open>Startup\<close> the call of \<^verbatim>\<open>InterruptEnable\<close> in \<^verbatim>\<open>ThreadRoot\<close>, \<open>CopyExit\<close> and \<open>Die\<close> the middle of \<^verbatim>\<open>Join\<close> and the end of \<^verbatim>\<open>Finish\<close>;
  each carries the interrupt level to restore.
\<close>

datatype (plugins only: code size) 'g instr =
    SemP nat | SemV nat
  | LockAcquire nat | LockRelease nat
  | CondWait nat nat | CondSignal nat nat | CondBroadcast nat nat
  | ThreadYield | ThreadFinish | ThreadFork nat | ThreadJoin nat
  | Act "nat \<Rightarrow> 'g \<Rightarrow> 'g res"
  | While "'g \<Rightarrow> bool" "'g instr list"
  | PLoop nat IntStatus | AcquireLoop nat IntStatus | WaitResume nat nat IntStatus
  | YieldResume IntStatus | CopyExit nat | Die | Startup

record 'g Kernel = Interrupt +
  threads :: "nat \<Rightarrow> Thread option"
  currentThread :: nat
  idle :: bool
  readyList :: thread_queue
  threadToBeDestroyed :: "nat option"
  sems :: "nat \<Rightarrow> Semaphore"
  locks :: "nat \<Rightarrow> Lock"
  conds :: "nat \<Rightarrow> Condition"
  code :: "nat \<Rightarrow> 'g instr list"
  shared :: 'g

text \<open>
  How a routine ends: it returns and the thread goes on, after the instructions given; the
  thread sleeps and goes on there when it is woken; it hands the processor to a thread; or
  it fails.
\<close>

datatype (plugins only: code size) ('k, 'g) outcome =
    Cont 'k "'g instr list"
  | Sleeps 'k "'g instr list"
  | Runs nat 'k "'g instr list"
  | Err error

section \<open>thread.cc and scheduler.cc\<close>

text \<open>
  A thread that others may join has two semaphores of its own, \<^verbatim>\<open>joinSignal\<close> and \<^verbatim>\<open>mayDie\<close>, named here by
  their numbers. \<^verbatim>\<open>exitStatus\<close> has no initial value in the source; 0 stands for it. A thread is
  forked once: to fork it again is outside the model (\<open>BadPointer\<close>).
\<close>

definition Thread_Thread :: "string \<Rightarrow> bool \<Rightarrow> nat \<Rightarrow> nat \<Rightarrow> Thread" where
  "Thread_Thread threadName join js md = \<lparr>tname = threadName, tkey = 0, joining = join, joinSignal = js,
     mayDie = md, tstatus = JUST_CREATED, exitStatus = 0\<rparr>"

definition setStatus :: "nat \<Rightarrow> ThreadStatus \<Rightarrow> ('g, 'x) Kernel_scheme \<Rightarrow> ('g, 'x) Kernel_scheme" where
  "setStatus t st k = k\<lparr>threads := (threads k)(t := map_option (\<lambda>th. th\<lparr>tstatus := st\<rparr>) (threads k t))\<rparr>"

definition getPriority :: "nat \<Rightarrow> ('g, 'x) Kernel_scheme \<Rightarrow> int" where
  "getPriority t k = (case threads k t of Some th \<Rightarrow> tkey th | None \<Rightarrow> 0)"

definition setPriority :: "int \<Rightarrow> nat \<Rightarrow> ('g, 'x) Kernel_scheme \<Rightarrow> ('g, 'x) Kernel_scheme" where
  "setPriority p t k = k\<lparr>threads := (threads k)(t := map_option (\<lambda>th. th\<lparr>tkey := p\<rparr>) (threads k t))\<rparr>"

definition ReadyToRun :: "nat \<Rightarrow> ('g, 'x) Kernel_scheme \<Rightarrow> ('g, 'x) Kernel_scheme" where
  "ReadyToRun t k = (setStatus t READY k)\<lparr>readyList := keyed_insert (getPriority t k, t) (readyList k)\<rparr>"

definition FindNextToRun :: "('g, 'x) Kernel_scheme \<Rightarrow> nat option \<times> ('g, 'x) Kernel_scheme" where
  "FindNextToRun k = (case readyList k of [] \<Rightarrow> (None, k) | (_, t) # r \<Rightarrow> (Some t, k\<lparr>readyList := r\<rparr>))"

text \<open>\<^verbatim>\<open>Scheduler::Run\<close> up to \<^verbatim>\<open>SWITCH\<close>, and what the thread switched to does when \<^verbatim>\<open>SWITCH\<close> returns in it.\<close>

definition Run :: "nat \<Rightarrow> ('g, 'x) Kernel_scheme \<Rightarrow> ('g, 'x) Kernel_scheme" where
  "Run t k = setStatus t RUNNING (k\<lparr>currentThread := t, idle := False\<rparr>)"

definition after_switch :: "('g, 'x) Kernel_scheme \<Rightarrow> ('g, 'x) Kernel_scheme res" where
  "after_switch k = (case threadToBeDestroyed k of
       None \<Rightarrow> Inr k
     | Some z \<Rightarrow> ASSERT (z \<noteq> currentThread k)
         (Inr (k\<lparr>threads := (threads k)(z := None), threadToBeDestroyed := None\<rparr>)))"

text \<open>
  \<^verbatim>\<open>Thread::Sleep\<close>: the loop over \<^verbatim>\<open>FindNextToRun\<close> either finds a thread or idles; \<open>idle\<close> marks
  the state in which it waits for an interrupt.
\<close>

definition dispatch :: "('g, 'x) Kernel_scheme \<Rightarrow> ('g, 'x) Kernel_scheme" where
  "dispatch k = (case FindNextToRun k of (None, k1) \<Rightarrow> k1\<lparr>idle := True\<rparr> | (Some t, k1) \<Rightarrow> Run t k1)"

definition Sleep :: "('g, 'x) Kernel_scheme \<Rightarrow> ('g, 'x) Kernel_scheme" where
  "Sleep k = dispatch (setStatus (currentThread k) BLOCKED k)"

definition Thread_Fork :: "nat \<Rightarrow> ('g, 'x) Kernel_scheme \<Rightarrow> (('g, 'x) Kernel_scheme, 'g) outcome" where
  "Thread_Fork t k = (case threads k t of
       Some th \<Rightarrow> if tstatus th = JUST_CREATED then Cont (ReadyToRun t (k\<lparr>code := (code k)(t := Startup # code k t)\<rparr>)) [] else Err BadPointer
     | None \<Rightarrow> Err BadPointer)"

definition Thread_Yield :: "('g, 'x) Kernel_scheme \<Rightarrow> (('g, 'x) Kernel_scheme, 'g) outcome" where
  "Thread_Yield k = (let oldLevel = level k in
     case FindNextToRun (k\<lparr>level := IntOff\<rparr>) of
       (None, k1) \<Rightarrow> Cont (k1\<lparr>level := oldLevel\<rparr>) []
     | (Some t, k1) \<Rightarrow> Runs t (ReadyToRun (currentThread k) k1) [YieldResume oldLevel])"

definition Thread_Finish :: "('g, 'x) Kernel_scheme \<Rightarrow> (('g, 'x) Kernel_scheme, 'g) outcome" where
  "Thread_Finish k = (case threads k (currentThread k) of
       None \<Rightarrow> Err BadPointer
     | Some th \<Rightarrow> Cont (k\<lparr>level := IntOff\<rparr>)
         ((if joining th then [SemV (joinSignal th), SemP (mayDie th)] else []) @ [Die]))"

definition Thread_Join :: "nat \<Rightarrow> ('g, 'x) Kernel_scheme \<Rightarrow> (('g, 'x) Kernel_scheme, 'g) outcome" where
  "Thread_Join t k = (if t = currentThread k then Err AssertFailed
     else case threads k t of
       Some th \<Rightarrow> if joining th then Cont k [SemP (joinSignal th), CopyExit t, SemV (mayDie th)] else Err BadPointer
     | None \<Rightarrow> Err BadPointer)"

definition copy_exit :: "nat \<Rightarrow> ('g, 'x) Kernel_scheme \<Rightarrow> (('g, 'x) Kernel_scheme, 'g) outcome" where
  "copy_exit t k = (case threads k t of
       None \<Rightarrow> Err BadPointer
     | Some th \<Rightarrow> Cont (k\<lparr>threads := (threads k)(currentThread k :=
         map_option (\<lambda>me. me\<lparr>exitStatus := exitStatus th\<rparr>) (threads k (currentThread k)))\<rparr>) [])"

section \<open>synch.cc\<close>

text \<open>The first waiting thread is made ready.\<close>

definition wake :: "thread_queue \<Rightarrow> ('g, 'x) Kernel_scheme \<Rightarrow> ('g, 'x) Kernel_scheme" where
  "wake q k = (case q of [] \<Rightarrow> k | (_, t) # _ \<Rightarrow> ReadyToRun t k)"

definition Semaphore_Semaphore :: "int \<Rightarrow> Semaphore" where
  "Semaphore_Semaphore initialValue = \<lparr>svalue = initialValue, squeue = []\<rparr>"

definition set_sem :: "nat \<Rightarrow> Semaphore \<Rightarrow> ('g, 'x) Kernel_scheme \<Rightarrow> ('g, 'x) Kernel_scheme" where
  "set_sem s sem k = k\<lparr>sems := (sems k)(s := sem)\<rparr>"

definition set_lock :: "nat \<Rightarrow> Lock \<Rightarrow> ('g, 'x) Kernel_scheme \<Rightarrow> ('g, 'x) Kernel_scheme" where
  "set_lock l lk k = k\<lparr>locks := (locks k)(l := lk)\<rparr>"

definition set_cond :: "nat \<Rightarrow> Condition \<Rightarrow> ('g, 'x) Kernel_scheme \<Rightarrow> ('g, 'x) Kernel_scheme" where
  "set_cond c cv k = k\<lparr>conds := (conds k)(c := cv)\<rparr>"

definition me :: "('g, 'x) Kernel_scheme \<Rightarrow> int \<times> nat" where
  "me k = (getPriority (currentThread k) k, currentThread k)"

text \<open>The body of \<^verbatim>\<open>P\<close> from the test of its loop on, with interrupts off.\<close>

definition P_body :: "nat \<Rightarrow> IntStatus \<Rightarrow> ('g, 'x) Kernel_scheme \<Rightarrow> (('g, 'x) Kernel_scheme, 'g) outcome" where
  "P_body s oldLevel k = (let sem = sems k s in
     if svalue sem = 0
     then Sleeps (set_sem s (sem\<lparr>squeue := keyed_insert (me k) (squeue sem)\<rparr>) k) [PLoop s oldLevel]
     else Cont ((set_sem s (sem\<lparr>svalue := svalue sem - 1\<rparr>) k)\<lparr>level := oldLevel\<rparr>) [])"

definition Semaphore_P :: "nat \<Rightarrow> ('g, 'x) Kernel_scheme \<Rightarrow> (('g, 'x) Kernel_scheme, 'g) outcome" where
  "Semaphore_P s k = P_body s (level k) (k\<lparr>level := IntOff\<rparr>)"

definition Semaphore_V :: "nat \<Rightarrow> ('g, 'x) Kernel_scheme \<Rightarrow> ('g, 'x) Kernel_scheme" where
  "Semaphore_V s k = (let sem = sems k s in
     wake (squeue sem) (set_sem s \<lparr>svalue = svalue sem + 1, squeue = tl (squeue sem)\<rparr> k))"

definition Lock_Lock :: Lock where
  "Lock_Lock = \<lparr>isLocked = False, lqueue = [], currThread = None\<rparr>"

definition isHeldByCurrentThread :: "nat \<Rightarrow> ('g, 'x) Kernel_scheme \<Rightarrow> bool" where
  "isHeldByCurrentThread l k \<longleftrightarrow> currThread (locks k l) = Some (currentThread k)"

definition Acquire_body :: "nat \<Rightarrow> IntStatus \<Rightarrow> ('g, 'x) Kernel_scheme \<Rightarrow> (('g, 'x) Kernel_scheme, 'g) outcome" where
  "Acquire_body l oldLevel k = (let lk = locks k l in
     if isLocked lk
     then Sleeps (set_lock l (lk\<lparr>lqueue := keyed_insert (me k) (lqueue lk)\<rparr>) k) [AcquireLoop l oldLevel]
     else Cont ((set_lock l (lk\<lparr>isLocked := True, currThread := Some (currentThread k)\<rparr>) k)\<lparr>level := oldLevel\<rparr>) [])"

definition Lock_Acquire :: "nat \<Rightarrow> ('g, 'x) Kernel_scheme \<Rightarrow> (('g, 'x) Kernel_scheme, 'g) outcome" where
  "Lock_Acquire l k = (if isHeldByCurrentThread l k then Err AssertFailed
     else Acquire_body l (level k) (k\<lparr>level := IntOff\<rparr>))"

definition release :: "nat \<Rightarrow> ('g, 'x) Kernel_scheme \<Rightarrow> ('g, 'x) Kernel_scheme" where
  "release l k = (let lk = locks k l in
     wake (lqueue lk) (set_lock l \<lparr>isLocked = False, lqueue = tl (lqueue lk), currThread = None\<rparr> k))"

definition Lock_Release :: "nat \<Rightarrow> ('g, 'x) Kernel_scheme \<Rightarrow> (('g, 'x) Kernel_scheme, 'g) outcome" where
  "Lock_Release l k = (if isHeldByCurrentThread l k then Cont (release l k) [] else Err AssertFailed)"

definition Condition_Condition :: Condition where
  "Condition_Condition = \<lparr>cqueue = []\<rparr>"

definition Condition_Wait :: "nat \<Rightarrow> nat \<Rightarrow> ('g, 'x) Kernel_scheme \<Rightarrow> (('g, 'x) Kernel_scheme, 'g) outcome" where
  "Condition_Wait c l k = (let oldLevel = level k; k1 = k\<lparr>level := IntOff\<rparr> in
     if isHeldByCurrentThread l k1
     then let k2 = release l k1 in
       Sleeps (set_cond c \<lparr>cqueue = keyed_insert (me k2) (cqueue (conds k2 c))\<rparr> k2) [WaitResume c l oldLevel]
     else Err AssertFailed)"

text \<open>\<^verbatim>\<open>Wait\<close> after \<^verbatim>\<open>Sleep\<close>: \<^verbatim>\<open>Acquire\<close>, called with interrupts off.\<close>

definition wait_resume :: "nat \<Rightarrow> IntStatus \<Rightarrow> ('g, 'x) Kernel_scheme \<Rightarrow> (('g, 'x) Kernel_scheme, 'g) outcome" where
  "wait_resume l oldLevel k = (if isHeldByCurrentThread l k then Err AssertFailed else Acquire_body l oldLevel k)"

definition Condition_Signal :: "nat \<Rightarrow> nat \<Rightarrow> ('g, 'x) Kernel_scheme \<Rightarrow> (('g, 'x) Kernel_scheme, 'g) outcome" where
  "Condition_Signal c l k = (if isHeldByCurrentThread l k
     then let q = cqueue (conds k c) in Cont (wake q (set_cond c \<lparr>cqueue = tl q\<rparr> k)) []
     else Err AssertFailed)"

definition Condition_Broadcast :: "nat \<Rightarrow> nat \<Rightarrow> ('g, 'x) Kernel_scheme \<Rightarrow> (('g, 'x) Kernel_scheme, 'g) outcome" where
  "Condition_Broadcast c l k = (if isHeldByCurrentThread l k
     then let q = cqueue (conds k c) in Cont (fold (\<lambda>(_, t). ReadyToRun t) q (set_cond c \<lparr>cqueue = []\<rparr> k)) []
     else Err AssertFailed)"

section \<open>Executing threads\<close>

definition resumed :: "(('g, 'x) Kernel_scheme \<Rightarrow> (('g, 'x) Kernel_scheme, 'g) outcome) \<Rightarrow>
    ('g, 'x) Kernel_scheme \<Rightarrow> (('g, 'x) Kernel_scheme, 'g) outcome" where
  "resumed f k = (case after_switch k of Inl e \<Rightarrow> Err e | Inr k' \<Rightarrow> f k')"

fun exec :: "'g instr \<Rightarrow> ('g, 'x) Kernel_scheme \<Rightarrow> (('g, 'x) Kernel_scheme, 'g) outcome" where
  "exec (SemP s) k = Semaphore_P s k"
| "exec (SemV s) k = Cont (Semaphore_V s k) []"
| "exec (LockAcquire l) k = Lock_Acquire l k"
| "exec (LockRelease l) k = Lock_Release l k"
| "exec (CondWait c l) k = Condition_Wait c l k"
| "exec (CondSignal c l) k = Condition_Signal c l k"
| "exec (CondBroadcast c l) k = Condition_Broadcast c l k"
| "exec ThreadYield k = Thread_Yield k"
| "exec ThreadFinish k = Thread_Finish k"
| "exec (ThreadFork t) k = Thread_Fork t k"
| "exec (ThreadJoin t) k = Thread_Join t k"
| "exec (Act f) k = (case f (currentThread k) (shared k) of Inl e \<Rightarrow> Err e | Inr g \<Rightarrow> Cont (k\<lparr>shared := g\<rparr>) [])"
| "exec (While b body) k = Cont k (if b (shared k) then body @ [While b body] else [])"
| "exec (PLoop s old) k = resumed (P_body s old) k"
| "exec (AcquireLoop l old) k = resumed (Acquire_body l old) k"
| "exec (WaitResume c l old) k = resumed (wait_resume l old) k"
| "exec (YieldResume old) k = resumed (\<lambda>k. Cont (k\<lparr>level := old\<rparr>) []) k"
| "exec (CopyExit t) k = copy_exit t k"
| "exec Startup k = Cont (k\<lparr>level := IntOn\<rparr>) []"
| "exec Die k = Sleeps (k\<lparr>threadToBeDestroyed := Some (currentThread k)\<rparr>) [Die]"

text \<open>
  The outcome of an instruction of the current thread, with the rest of its code; \<^verbatim>\<open>Sleep\<close>
  asserts that interrupts are off.
\<close>

definition set_code :: "nat \<Rightarrow> 'g instr list \<Rightarrow> ('g, 'x) Kernel_scheme \<Rightarrow> ('g, 'x) Kernel_scheme" where
  "set_code t c k = k\<lparr>code := (code k)(t := c)\<rparr>"

definition settle :: "nat \<Rightarrow> 'g instr list \<Rightarrow> (('g, 'x) Kernel_scheme, 'g) outcome \<Rightarrow> ('g, 'x) Kernel_scheme res" where
  "settle t rest r = (case r of
       Cont k pre \<Rightarrow> Inr (set_code t (pre @ rest) k)
     | Sleeps k pre \<Rightarrow> ASSERT (level k = IntOff) (Inr (Sleep (set_code t (pre @ rest) k)))
     | Runs n k pre \<Rightarrow> Inr (Run n (set_code t (pre @ rest) k))
     | Err e \<Rightarrow> Inl e)"

definition step_thread :: "('g, 'x) Kernel_scheme \<Rightarrow> ('g, 'x) Kernel_scheme res" where
  "step_thread k = (case code k (currentThread k) of
       [] \<Rightarrow> settle (currentThread k) [] (Thread_Finish k)
     | i # rest \<Rightarrow> settle (currentThread k) rest (exec i k))"

text \<open>
  The system: the current thread executes; a device interrupt, when the processor idles or
  has interrupts enabled, runs a handler that calls \<^verbatim>\<open>V\<close> on a semaphore of the device; the timer
  makes the current thread yield, when it has interrupts enabled.
\<close>

inductive kstep :: "nat set \<Rightarrow> ('g, 'x) Kernel_scheme \<Rightarrow> ('g, 'x) Kernel_scheme \<Rightarrow> bool" for devs :: "nat set" where
  execute: "\<not> idle k \<Longrightarrow> step_thread k = Inr k' \<Longrightarrow> kstep devs k k'"
| interrupt: "\<not> idle k \<Longrightarrow> level k = IntOn \<Longrightarrow> s \<in> devs \<Longrightarrow> kstep devs k (Semaphore_V s k)"
| idle_interrupt: "idle k \<Longrightarrow> s \<in> devs \<Longrightarrow> kstep devs k (dispatch (Semaphore_V s k))"
| preempt: "\<not> idle k \<Longrightarrow> level k = IntOn \<Longrightarrow> settle (currentThread k) (code k (currentThread k)) (Thread_Yield k) = Inr k' \<Longrightarrow>
    kstep devs k k'"

inductive reachable :: "nat set \<Rightarrow> ('g, 'x) Kernel_scheme \<Rightarrow> ('g, 'x) Kernel_scheme \<Rightarrow> bool" for devs k0 where
  start: "reachable devs k0 k0"
| step: "reachable devs k0 k \<Longrightarrow> kstep devs k k' \<Longrightarrow> reachable devs k0 k'"

text \<open>
  \<^verbatim>\<open>Initialize\<close> (\<^verbatim>\<open>threads/system.cc\<close>), as far as threads are concerned: the code that runs becomes the
  thread \<^verbatim>\<open>main\<close>, here number 0, with interrupts enabled. The threads it will fork, their code and
  the initial values of the semaphores they use are parameters.
\<close>

definition Initialize_kernel :: "(nat \<Rightarrow> Thread option) \<Rightarrow> (nat \<Rightarrow> 'g instr list) \<Rightarrow> (nat \<Rightarrow> int) \<Rightarrow> 'g \<Rightarrow> 'g Kernel" where
  "Initialize_kernel created prog values g = Interrupt.extend ((Interrupt_Interrupt Statistics_Statistics)\<lparr>level := IntOn\<rparr>)
     \<lparr>threads = created(0 \<mapsto> (Thread_Thread ''main'' False 0 0)\<lparr>tstatus := RUNNING\<rparr>),
      currentThread = 0, idle = False, readyList = [], threadToBeDestroyed = None,
      sems = (\<lambda>s. Semaphore_Semaphore (values s)), locks = (\<lambda>_. Lock_Lock), conds = (\<lambda>_. Condition_Condition),
      code = prog, shared = g\<rparr>"

end
