(* ===== verification/ThreadInv.thy ===== *)
theory ThreadInv
  imports Threads
begin

text \<open>
  The invariant of the kernel: every thread is in one place (running, ready, or in the queue
  its resume point names), counters and locks are consistent, and no wake-up is lost. The
  invariant is stated on a view of the kernel (which threads are ready, their states, the
  queues, what each waits for), the effects of the routines on the view are computed once,
  and every step of the system keeps it.
\<close>

section \<open>The view\<close>

datatype qid = QSem nat | QLock nat | QCond nat

fun waits :: "'g instr list \<Rightarrow> qid option" where
  "waits (PLoop s _ # _) = Some (QSem s)"
| "waits (AcquireLoop l _ # _) = Some (QLock l)"
| "waits (WaitResume c _ _ # _) = Some (QCond c)"
| "waits _ = None"

definition stat :: "('g, 'x) Kernel_scheme \<Rightarrow> nat \<Rightarrow> ThreadStatus option" where
  "stat k t = map_option tstatus (threads k t)"

fun queue_of :: "('g, 'x) Kernel_scheme \<Rightarrow> qid \<Rightarrow> nat list" where
  "queue_of k (QSem s) = map snd (squeue (sems k s))"
| "queue_of k (QLock l) = map snd (lqueue (locks k l))"
| "queue_of k (QCond c) = map snd (cqueue (conds k c))"

definition ready :: "('g, 'x) Kernel_scheme \<Rightarrow> nat list" where
  "ready k = map snd (readyList k)"

definition running :: "('g, 'x) Kernel_scheme \<Rightarrow> nat option" where
  "running k = (if idle k then None else Some (currentThread k))"

definition places :: "nat list \<Rightarrow> (nat \<Rightarrow> ThreadStatus option) \<Rightarrow> (qid \<Rightarrow> nat list) \<Rightarrow> (nat \<Rightarrow> qid option) \<Rightarrow>
    nat option \<Rightarrow> nat option \<Rightarrow> bool" where
  "places rd st qs wt cur dead \<longleftrightarrow> distinct rd \<and> (\<forall>t \<in> set rd. st t = Some READY) \<and>
     (\<forall>q. distinct (qs q) \<and> (\<forall>t \<in> set (qs q). st t = Some BLOCKED \<and> wt t = Some q)) \<and>
     (\<forall>t. st t = Some RUNNING \<longleftrightarrow> cur = Some t) \<and>
     (\<forall>z. dead = Some z \<longrightarrow> st z = Some BLOCKED \<and> wt z = None) \<and>
     (\<forall>t. st t = Some READY \<longrightarrow> t \<in> set rd) \<and> (\<forall>t q. st t = Some BLOCKED \<and> wt t = Some q \<longrightarrow> t \<in> set (qs q))"

text \<open>
  No lost wake-up: while threads wait for a semaphore, at least as many woken threads are on
  their way to retry as its value says; while threads wait for a free lock, one is on its
  way. \<open>R\<close> is the set of the threads that can run.
\<close>

definition no_lost :: "nat set \<Rightarrow> (qid \<Rightarrow> nat list) \<Rightarrow> (nat \<Rightarrow> qid option) \<Rightarrow> (nat \<Rightarrow> int) \<Rightarrow> (nat \<Rightarrow> bool) \<Rightarrow> bool" where
  "no_lost R qs wt val lk \<longleftrightarrow> finite R \<and>
     (\<forall>s. qs (QSem s) \<noteq> [] \<longrightarrow> val s \<le> int (card {t \<in> R. wt t = Some (QSem s)})) \<and>
     (\<forall>l. qs (QLock l) \<noteq> [] \<and> \<not> lk l \<longrightarrow> (\<exists>t \<in> R. wt t = Some (QLock l)))"

definition can_run :: "nat list \<Rightarrow> nat option \<Rightarrow> nat set" where
  "can_run rd cur = set rd \<union> set_option cur"

subsection \<open>Moves of one thread\<close>

lemma placesI:
  assumes "distinct rd" "\<And>t. t \<in> set rd \<Longrightarrow> st t = Some READY" "\<And>q. distinct (qs q)"
    "\<And>q t. t \<in> set (qs q) \<Longrightarrow> st t = Some BLOCKED \<and> wt t = Some q"
    "\<And>t. st t = Some RUNNING \<longleftrightarrow> cur = Some t" "\<And>z. dead = Some z \<Longrightarrow> st z = Some BLOCKED \<and> wt z = None"
    "\<And>t. st t = Some READY \<Longrightarrow> t \<in> set rd" "\<And>t q. st t = Some BLOCKED \<Longrightarrow> wt t = Some q \<Longrightarrow> t \<in> set (qs q)"
  shows "places rd st qs wt cur dead"
  unfolding places_def using assms by blast

lemma placesD:
  assumes "places rd st qs wt cur dead"
  shows "distinct rd" "t \<in> set rd \<Longrightarrow> st t = Some READY" "distinct (qs q)"
    "t \<in> set (qs q) \<Longrightarrow> st t = Some BLOCKED" "t \<in> set (qs q) \<Longrightarrow> wt t = Some q"
    "st t = Some RUNNING \<longleftrightarrow> cur = Some t" "dead = Some t \<Longrightarrow> st t = Some BLOCKED" "dead = Some t \<Longrightarrow> wt t = None"
    "st t = Some READY \<Longrightarrow> t \<in> set rd" "st t = Some BLOCKED \<Longrightarrow> wt t = Some q \<Longrightarrow> t \<in> set (qs q)"
  using assms unfolding places_def by blast+

lemma places_wake:
  assumes p: "places rd st qs wt cur dead" and q: "qs q = t # r"
    and rd': "set rd' = insert t (set rd)" "t \<notin> set rd \<Longrightarrow> distinct rd'"
  shows "places rd' (st(t \<mapsto> READY)) (qs(q := r)) wt cur dead"
proof -
  note D = placesD [OF p]
  have t: "st t = Some BLOCKED" "wt t = Some q" using D(4,5) [of t q] q by simp_all
  show ?thesis
  proof (rule placesI)
    show "distinct rd'" using rd'(2) D(2) [of t] t by auto
    show "(st(t \<mapsto> READY)) u = Some READY" if "u \<in> set rd'" for u using that D(2) [of u] rd'(1) by auto
    show "distinct ((qs(q := r)) q')" for q' using D(3) [of q'] q by (cases "q' = q") simp_all
    show "(st(t \<mapsto> READY)) u = Some BLOCKED \<and> wt u = Some q'" if "u \<in> set ((qs(q := r)) q')" for q' u
    proof -
      have u: "u \<in> set (qs q')" using that q by (cases "q' = q") simp_all
      then have "u \<noteq> t" using that D(3) [of q] D(5) [OF u] t q by (cases "q' = q") auto
      then show ?thesis using D(4,5) [OF u] by simp
    qed
    show "(st(t \<mapsto> READY)) u = Some RUNNING \<longleftrightarrow> cur = Some u" for u using D(6) [of u] t by auto
    show "(st(t \<mapsto> READY)) z = Some BLOCKED \<and> wt z = None" if "dead = Some z" for z using D(7,8) [OF that] t by auto
    show "u \<in> set rd'" if "(st(t \<mapsto> READY)) u = Some READY" for u using that D(9) [of u] rd'(1) by (auto split: if_splits)
    show "u \<in> set ((qs(q := r)) q')" if "(st(t \<mapsto> READY)) u = Some BLOCKED" "wt u = Some q'" for u q'
      using that D(10) [of u q'] q by (auto split: if_splits)
  qed
qed

lemma places_block:
  assumes p: "places rd st qs wt (Some t) dead" and q: "set q' = insert t (set (qs q))" "t \<notin> set (qs q) \<Longrightarrow> distinct q'"
  shows "places rd (st(t \<mapsto> BLOCKED)) (qs(q := q')) (wt(t \<mapsto> q)) None dead"
proof -
  note D = placesD [OF p]
  have t: "st t = Some RUNNING" using D(6) by simp
  have nq: "t \<notin> set (qs q'')" for q'' using D(4) [of t q''] t by auto
  show ?thesis
  proof (rule placesI)
    show "distinct rd" using D(1) .
    show "(st(t \<mapsto> BLOCKED)) u = Some READY" if "u \<in> set rd" for u using that D(2) [of u] t by auto
    show "distinct ((qs(q := q')) q'')" for q'' using D(3) [of q''] q(2) nq by simp
    show "(st(t \<mapsto> BLOCKED)) u = Some BLOCKED \<and> (wt(t \<mapsto> q)) u = Some q''" if "u \<in> set ((qs(q := q')) q'')" for q'' u
    proof (cases "u = t")
      case True
      then show ?thesis using that nq [of q''] by (cases "q'' = q") simp_all
    next
      case False
      then have "u \<in> set (qs q'')" using that q(1) by (cases "q'' = q") simp_all
      with D(4,5) [OF this] False show ?thesis by simp
    qed
    show "(st(t \<mapsto> BLOCKED)) u = Some RUNNING \<longleftrightarrow> None = Some u" for u using D(6) [of u] by auto
    show "(st(t \<mapsto> BLOCKED)) z = Some BLOCKED \<and> (wt(t \<mapsto> q)) z = None" if "dead = Some z" for z
      using D(7,8) [OF that] t by auto
    show "u \<in> set rd" if "(st(t \<mapsto> BLOCKED)) u = Some READY" for u using that D(9) [of u] by (auto split: if_splits)
    show "u \<in> set ((qs(q := q')) q'')" if "(st(t \<mapsto> BLOCKED)) u = Some BLOCKED" "(wt(t \<mapsto> q)) u = Some q''" for u q''
      using that D(10) [of u q''] q by (auto split: if_splits)
  qed
qed

lemma places_die:
  assumes p: "places rd st qs wt (Some t) dead"
  shows "places rd (st(t \<mapsto> BLOCKED)) qs (wt(t := None)) None (Some t)"
proof -
  note D = placesD [OF p]
  have t: "st t = Some RUNNING" using D(6) by simp
  have nq: "t \<notin> set (qs q)" for q using D(4) [of t q] t by auto
  show ?thesis
  proof (rule placesI)
    show "distinct rd" "distinct (qs q)" for q using D(1,3) .
    show "(st(t \<mapsto> BLOCKED)) u = Some READY" if "u \<in> set rd" for u using that D(2) [of u] t by auto
    show "(st(t \<mapsto> BLOCKED)) u = Some BLOCKED \<and> (wt(t := None)) u = Some q" if "u \<in> set (qs q)" for q u
      using D(4,5) [OF that] nq that by auto
    show "(st(t \<mapsto> BLOCKED)) u = Some RUNNING \<longleftrightarrow> None = Some u" for u using D(6) [of u] by auto
    show "u \<in> set rd" if "(st(t \<mapsto> BLOCKED)) u = Some READY" for u using that D(9) [of u] by (auto split: if_splits)
    show "u \<in> set (qs q)" if "(st(t \<mapsto> BLOCKED)) u = Some BLOCKED" "(wt(t := None)) u = Some q" for u q
      using that D(10) [of u q] by (auto split: if_splits)
  qed simp
qed

lemma places_run:
  assumes p: "places rd st qs wt None dead" and rd: "set rd = insert t (set rd')" "distinct rd'" "t \<notin> set rd'"
  shows "places rd' (st(t \<mapsto> RUNNING)) qs wt (Some t) dead"
proof -
  note D = placesD [OF p]
  have t: "st t = Some READY" using D(2) rd by simp
  show ?thesis
  proof (rule placesI)
    show "(st(t \<mapsto> RUNNING)) u = Some READY" if "u \<in> set rd'" for u using that D(2) [of u] rd by auto
    show "(st(t \<mapsto> RUNNING)) u = Some BLOCKED \<and> wt u = Some q" if "u \<in> set (qs q)" for q u
      using D(4,5) [OF that] t by auto
    show "(st(t \<mapsto> RUNNING)) u = Some RUNNING \<longleftrightarrow> Some t = Some u" for u using D(6) [of u] by auto
    show "(st(t \<mapsto> RUNNING)) z = Some BLOCKED \<and> wt z = None" if "dead = Some z" for z using D(7,8) [OF that] t by auto
    show "u \<in> set rd'" if "(st(t \<mapsto> RUNNING)) u = Some READY" for u using that D(9) [of u] rd by (auto split: if_splits)
    show "u \<in> set (qs q)" if "(st(t \<mapsto> RUNNING)) u = Some BLOCKED" "wt u = Some q" for u q
      using that D(10) [of u q] by (auto split: if_splits)
  qed (use rd D(3) in simp_all)
qed

lemma places_yield:
  assumes p: "places rd st qs wt (Some t) dead" and rd: "set rd' = insert t (set rd)" "t \<notin> set rd \<Longrightarrow> distinct rd'"
  shows "places rd' (st(t \<mapsto> READY)) qs wt None dead"
proof -
  note D = placesD [OF p]
  have t: "st t = Some RUNNING" using D(6) by simp
  show ?thesis
  proof (rule placesI)
    show "distinct rd'" using rd(2) D(2) [of t] t by auto
    show "(st(t \<mapsto> READY)) u = Some READY" if "u \<in> set rd'" for u using that D(2) [of u] rd by auto
    show "(st(t \<mapsto> READY)) u = Some BLOCKED \<and> wt u = Some q" if "u \<in> set (qs q)" for q u using D(4,5) [OF that] t by auto
    show "(st(t \<mapsto> READY)) u = Some RUNNING \<longleftrightarrow> None = Some u" for u using D(6) [of u] by auto
    show "(st(t \<mapsto> READY)) z = Some BLOCKED \<and> wt z = None" if "dead = Some z" for z using D(7,8) [OF that] t by auto
    show "u \<in> set rd'" if "(st(t \<mapsto> READY)) u = Some READY" for u using that D(9) [of u] rd by (auto split: if_splits)
    show "u \<in> set (qs q)" if "(st(t \<mapsto> READY)) u = Some BLOCKED" "wt u = Some q" for u q
      using that D(10) [of u q] by (auto split: if_splits)
  qed (use D(3) in simp)
qed

lemma places_code:
  assumes p: "places rd st qs wt cur dead" and t: "st t = Some RUNNING \<or> st t = Some JUST_CREATED"
  shows "places rd st qs (wt(t := w)) cur dead"
proof (rule placesI)
  note D = placesD [OF p]
  show "st u = Some BLOCKED \<and> (wt(t := w)) u = Some q" if "u \<in> set (qs q)" for q u using D(4,5) [OF that] t by auto
  show "st z = Some BLOCKED \<and> (wt(t := w)) z = None" if "dead = Some z" for z using D(7,8) [OF that] t by auto
  show "u \<in> set (qs q)" if "st u = Some BLOCKED" "(wt(t := w)) u = Some q" for u q using that D(10) [of u q] t by (auto split: if_splits)
qed (use placesD [OF p] in blast)+

lemma places_fork:
  assumes p: "places rd st qs wt cur dead" and t: "st t = Some JUST_CREATED"
    and rd: "set rd' = insert t (set rd)" "t \<notin> set rd \<Longrightarrow> distinct rd'"
  shows "places rd' (st(t \<mapsto> READY)) qs wt cur dead"
proof -
  note D = placesD [OF p]
  show ?thesis
  proof (rule placesI)
    show "distinct rd'" using rd(2) D(2) [of t] t by auto
    show "(st(t \<mapsto> READY)) u = Some READY" if "u \<in> set rd'" for u using that D(2) [of u] rd by auto
    show "(st(t \<mapsto> READY)) u = Some BLOCKED \<and> wt u = Some q" if "u \<in> set (qs q)" for q u using D(4,5) [OF that] t by auto
    show "(st(t \<mapsto> READY)) u = Some RUNNING \<longleftrightarrow> cur = Some u" for u using D(6) [of u] t by auto
    show "(st(t \<mapsto> READY)) z = Some BLOCKED \<and> wt z = None" if "dead = Some z" for z using D(7,8) [OF that] t by auto
    show "u \<in> set rd'" if "(st(t \<mapsto> READY)) u = Some READY" for u using that D(9) [of u] rd by (auto split: if_splits)
    show "u \<in> set (qs q)" if "(st(t \<mapsto> READY)) u = Some BLOCKED" "wt u = Some q" for u q
      using that D(10) [of u q] by (auto split: if_splits)
  qed (use D(3) in simp)
qed

lemma places_destroy:
  assumes p: "places rd st qs wt cur (Some z)"
  shows "places rd (st(z := None)) qs wt cur None" and "cur \<noteq> Some z"
proof -
  note D = placesD [OF p]
  have z: "st z = Some BLOCKED" "wt z = None" using D(7,8) by simp_all
  show "cur \<noteq> Some z" using D(6) [of z] z by auto
  show "places rd (st(z := None)) qs wt cur None"
  proof (rule placesI)
    show "(st(z := None)) u = Some READY" if "u \<in> set rd" for u using D(2) [OF that] z by auto
    show "(st(z := None)) u = Some BLOCKED \<and> wt u = Some q" if "u \<in> set (qs q)" for q u using D(4,5) [OF that] z by auto
    show "(st(z := None)) u = Some RUNNING \<longleftrightarrow> cur = Some u" for u using D(6) [of u] z by auto
    show "u \<in> set rd" if "(st(z := None)) u = Some READY" for u using that D(9) [of u] by (auto split: if_splits)
    show "u \<in> set (qs q)" if "(st(z := None)) u = Some BLOCKED" "wt u = Some q" for u q
      using that D(10) [of u q] by (auto split: if_splits)
  qed (use D(1,3) in simp_all)
qed

subsection \<open>Wake-ups under these moves\<close>

text \<open>A thread whose resume point is none, or not one of the places in \<open>qs\<close>.\<close>

definition idle_point :: "qid option \<Rightarrow> bool" where
  "idle_point w \<longleftrightarrow> (w = None \<or> (\<exists>c. w = Some (QCond c)))"

lemma idle_point_simps [simp]: "idle_point None" "idle_point (Some (QCond c))" "\<not> idle_point (Some (QSem s))"
    "\<not> idle_point (Some (QLock l))"
  by (simp_all add: idle_point_def)

lemma no_lostI:
  assumes "finite R" "\<And>s. qs (QSem s) \<noteq> [] \<Longrightarrow> val s \<le> int (card {t \<in> R. wt t = Some (QSem s)})"
    "\<And>l. qs (QLock l) \<noteq> [] \<Longrightarrow> \<not> lk l \<Longrightarrow> \<exists>t \<in> R. wt t = Some (QLock l)"
  shows "no_lost R qs wt val lk"
  using assms by (simp add: no_lost_def)

lemma no_lostD:
  assumes "no_lost R qs wt val lk"
  shows "finite R" "qs (QSem s) \<noteq> [] \<Longrightarrow> val s \<le> int (card {t \<in> R. wt t = Some (QSem s)})"
    "qs (QLock l) \<noteq> [] \<Longrightarrow> \<not> lk l \<Longrightarrow> \<exists>t \<in> R. wt t = Some (QLock l)"
  using assms by (simp_all add: no_lost_def)

text \<open>Threads that are not counted may come, go and change their resume points.\<close>

lemma no_lost_change:
  assumes n: "no_lost R qs wt val lk" and R': "finite R'" "\<And>u q. u \<in> R \<Longrightarrow> wt u = Some q \<Longrightarrow> \<not> idle_point (Some q) \<Longrightarrow> u \<in> R' \<and> wt' u = Some q"
    and qs: "\<And>q. \<not> idle_point (Some q) \<Longrightarrow> qs' q \<noteq> [] \<Longrightarrow> qs q \<noteq> []"
  shows "no_lost R' qs' wt' val lk"
proof (rule no_lostI)
  fix s assume s: "qs' (QSem s) \<noteq> []"
  have "card {t \<in> R. wt t = Some (QSem s)} \<le> card {t \<in> R'. wt' t = Some (QSem s)}"
    using R' by (intro card_mono) auto
  then show "val s \<le> int (card {t \<in> R'. wt' t = Some (QSem s)})" using no_lostD(2) [OF n, of s] qs [OF _ s] by simp
next
  fix l assume "qs' (QLock l) \<noteq> []" "\<not> lk l"
  then obtain t where "t \<in> R" "wt t = Some (QLock l)" using no_lostD(3) [OF n, of l] qs [of "QLock l"] by auto
  with R'(2) show "\<exists>t \<in> R'. wt' t = Some (QLock l)" by (metis idle_point_simps(4))
qed (rule R'(1))

lemma no_lost_sem_wake:
  assumes n: "no_lost R qs wt val lk" and q: "qs (QSem s) = t # r" "wt t = Some (QSem s)" "t \<notin> R"
  shows "no_lost (insert t R) (qs(QSem s := r)) wt (val(s := val s + 1)) lk"
proof (rule no_lostI)
  show "finite (insert t R)" using no_lostD(1) [OF n] by simp
  fix s' assume s': "(qs(QSem s := r)) (QSem s') \<noteq> []"
  show "(val(s := val s + 1)) s' \<le> int (card {u \<in> insert t R. wt u = Some (QSem s')})"
  proof (cases "s' = s")
    case True
    have "{u \<in> insert t R. wt u = Some (QSem s)} = insert t {u \<in> R. wt u = Some (QSem s)}" using q(2) by auto
    then show ?thesis using no_lostD(1) [OF n] no_lostD(2) [OF n, of s] q True by simp
  next
    case False
    have "{u \<in> insert t R. wt u = Some (QSem s')} = {u \<in> R. wt u = Some (QSem s')}" using q(2) False by auto
    then show ?thesis using no_lostD(2) [OF n, of s'] s' False by simp
  qed
next
  fix l assume "(qs(QSem s := r)) (QLock l) \<noteq> []" "\<not> lk l"
  then show "\<exists>u \<in> insert t R. wt u = Some (QLock l)" using no_lostD(3) [OF n, of l] by auto
qed

lemma no_lost_sem_inc:
  assumes n: "no_lost R qs wt val lk" and "qs (QSem s) = []"
  shows "no_lost R qs wt (val(s := x)) lk"
  using assms by (auto simp: no_lost_def)

lemma no_lost_lock_wake:
  assumes n: "no_lost R qs wt val lk" and q: "qs (QLock l) = t # r" "wt t = Some (QLock l)"
  shows "no_lost (insert t R) (qs(QLock l := r)) wt val (lk(l := False))"
proof (rule no_lostI)
  show "finite (insert t R)" using no_lostD(1) [OF n] by simp
  fix s assume "(qs(QLock l := r)) (QSem s) \<noteq> []"
  moreover have "{u \<in> insert t R. wt u = Some (QSem s)} = {u \<in> R. wt u = Some (QSem s)}" using q(2) by auto
  ultimately show "val s \<le> int (card {u \<in> insert t R. wt u = Some (QSem s)})" using no_lostD(2) [OF n, of s] by simp
next
  fix l' assume "(qs(QLock l := r)) (QLock l') \<noteq> []" "\<not> (lk(l := False)) l'"
  then show "\<exists>u \<in> insert t R. wt u = Some (QLock l')"
    using no_lostD(3) [OF n, of l'] q(2) by (cases "l' = l") auto
qed

lemma no_lost_lock_free:
  assumes n: "no_lost R qs wt val lk" and "qs (QLock l) = []"
  shows "no_lost R qs wt val (lk(l := x))"
  using assms by (auto simp: no_lost_def)

lemma no_lost_sem_take:
  assumes n: "no_lost R qs wt val lk" and w: "idle_point (wt t) \<or> wt t = Some (QSem s)"
  shows "no_lost R qs (wt(t := w')) (val(s := val s - 1)) lk"
proof (rule no_lostI)
  note fin = no_lostD(1) [OF n]
  show "finite R" by (rule fin)
  fix s' assume s': "qs (QSem s') \<noteq> []"
  show "(val(s := val s - 1)) s' \<le> int (card {u \<in> R. (wt(t := w')) u = Some (QSem s')})"
  proof (cases "s' = s")
    case True
    have "{u \<in> R. wt u = Some (QSem s)} \<subseteq> insert t {u \<in> R. (wt(t := w')) u = Some (QSem s)}" by auto
    then have "card {u \<in> R. wt u = Some (QSem s)} \<le> card (insert t {u \<in> R. (wt(t := w')) u = Some (QSem s)})"
      using fin by (intro card_mono) auto
    also have "\<dots> \<le> Suc (card {u \<in> R. (wt(t := w')) u = Some (QSem s)})" by (rule card_insert_le_m1) simp_all
    finally show ?thesis using no_lostD(2) [OF n s'] True by simp
  next
    case False
    have "{u \<in> R. wt u = Some (QSem s')} \<subseteq> {u \<in> R. (wt(t := w')) u = Some (QSem s')}" using w False by auto
    then have "card {u \<in> R. wt u = Some (QSem s')} \<le> card {u \<in> R. (wt(t := w')) u = Some (QSem s')}"
      using fin by (intro card_mono) auto
    then show ?thesis using no_lostD(2) [OF n s'] False by simp
  qed
next
  fix l assume "qs (QLock l) \<noteq> []" "\<not> lk l"
  then obtain u where "u \<in> R" "wt u = Some (QLock l)" using no_lostD(3) [OF n] by blast
  then show "\<exists>u \<in> R. (wt(t := w')) u = Some (QLock l)" using w by (intro bexI [of _ u]) auto
qed

lemma no_lost_lock_take:
  assumes n: "no_lost R qs wt val lk" and w: "idle_point (wt t) \<or> wt t = Some (QLock l)"
  shows "no_lost R qs (wt(t := w')) val (lk(l := True))"
proof (rule no_lostI)
  note fin = no_lostD(1) [OF n]
  show "finite R" by (rule fin)
  fix s assume s: "qs (QSem s) \<noteq> []"
  have "{u \<in> R. wt u = Some (QSem s)} \<subseteq> {u \<in> R. (wt(t := w')) u = Some (QSem s)}" using w by auto
  then have "card {u \<in> R. wt u = Some (QSem s)} \<le> card {u \<in> R. (wt(t := w')) u = Some (QSem s)}"
    using fin by (intro card_mono) auto
  then show "val s \<le> int (card {u \<in> R. (wt(t := w')) u = Some (QSem s)})" using no_lostD(2) [OF n s] by simp
next
  fix l' assume "qs (QLock l') \<noteq> []" and l': "\<not> (lk(l := True)) l'"
  then obtain u where "u \<in> R" "wt u = Some (QLock l')" using no_lostD(3) [OF n, of l'] by (auto split: if_splits)
  then show "\<exists>u \<in> R. (wt(t := w')) u = Some (QLock l')" using w l' by (intro bexI [of _ u]) (auto split: if_splits)
qed

text \<open>Blocking on a semaphore whose value is zero, or on a lock that is held.\<close>

lemma no_lost_block:
  assumes n: "no_lost R qs wt val lk" and w: "idle_point (wt t) \<or> wt t = Some q"
    and q: "\<And>s. q = QSem s \<Longrightarrow> val s \<le> 0" "\<And>l. q = QLock l \<Longrightarrow> lk l" "\<And>c. q = QCond c \<Longrightarrow> idle_point (wt t)"
  shows "no_lost (R - {t}) (qs(q := q')) (wt(t \<mapsto> q)) val lk"
proof (rule no_lostI)
  note fin = no_lostD(1) [OF n]
  show "finite (R - {t})" using fin by simp
  fix s assume s: "(qs(q := q')) (QSem s) \<noteq> []"
  show "val s \<le> int (card {u \<in> R - {t}. (wt(t \<mapsto> q)) u = Some (QSem s)})"
  proof (cases "q = QSem s")
    case False
    have "{u \<in> R. wt u = Some (QSem s)} \<subseteq> {u \<in> R - {t}. (wt(t \<mapsto> q)) u = Some (QSem s)}" using w False by auto
    then have "card {u \<in> R. wt u = Some (QSem s)} \<le> card {u \<in> R - {t}. (wt(t \<mapsto> q)) u = Some (QSem s)}"
      using fin by (intro card_mono) auto
    then show ?thesis using no_lostD(2) [OF n, of s] s False by (auto split: if_splits)
  qed (use q(1) [of s] in linarith)
next
  fix l assume l: "(qs(q := q')) (QLock l) \<noteq> []" "\<not> lk l"
  then have ne: "q \<noteq> QLock l" using q(2) by blast
  then obtain u where "u \<in> R" "wt u = Some (QLock l)" using no_lostD(3) [OF n, of l] l by (auto split: if_splits)
  then show "\<exists>u \<in> R - {t}. (wt(t \<mapsto> q)) u = Some (QLock l)" using w ne by (intro bexI [of _ u]) auto
qed

section \<open>The invariant\<close>

definition wait_point :: "('g, 'x) Kernel_scheme \<Rightarrow> nat \<Rightarrow> qid option" where
  "wait_point k t = waits (code k t)"

definition sem_values :: "('g, 'x) Kernel_scheme \<Rightarrow> nat \<Rightarrow> int" where
  "sem_values k s = svalue (sems k s)"

definition locked :: "('g, 'x) Kernel_scheme \<Rightarrow> nat \<Rightarrow> bool" where
  "locked k l = isLocked (locks k l)"

definition holder :: "('g, 'x) Kernel_scheme \<Rightarrow> nat \<Rightarrow> nat option" where
  "holder k l = currThread (locks k l)"

definition kinv :: "('g, 'x) Kernel_scheme \<Rightarrow> bool" where
  "kinv k \<longleftrightarrow>
     places (ready k) (stat k) (queue_of k) (wait_point k) (running k) (threadToBeDestroyed k) \<and>
     no_lost (can_run (ready k) (running k)) (queue_of k) (wait_point k) (sem_values k) (locked k) \<and>
     (\<forall>s. 0 \<le> sem_values k s) \<and> (\<forall>l. locked k l \<longleftrightarrow> holder k l \<noteq> None)"

lemma kinvD:
  assumes "kinv k"
  shows "places (ready k) (stat k) (queue_of k) (wait_point k) (running k) (threadToBeDestroyed k)"
    "no_lost (can_run (ready k) (running k)) (queue_of k) (wait_point k) (sem_values k) (locked k)"
    "0 \<le> sem_values k s" "locked k l \<longleftrightarrow> holder k l \<noteq> None"
  using assms by (simp_all add: kinv_def)

lemma kinvI:
  assumes "places (ready k) (stat k) (queue_of k) (wait_point k) (running k) (threadToBeDestroyed k)"
    "no_lost (can_run (ready k) (running k)) (queue_of k) (wait_point k) (sem_values k) (locked k)"
    "\<And>s. 0 \<le> sem_values k s" "\<And>l. locked k l \<longleftrightarrow> holder k l \<noteq> None"
  shows "kinv k"
  using assms by (simp add: kinv_def)

lemma object_views [simp]:
  "sem_values (set_sem s x k) = (sem_values k)(s := svalue x)" "locked (set_sem s x k) = locked k" "holder (set_sem s x k) = holder k"
  "sem_values (set_lock l y k) = sem_values k" "locked (set_lock l y k) = (locked k)(l := isLocked y)"
  "holder (set_lock l y k) = (holder k)(l := currThread y)"
  "sem_values (set_cond c z k) = sem_values k" "locked (set_cond c z k) = locked k" "holder (set_cond c z k) = holder k"
  "sem_values (ReadyToRun t k) = sem_values k" "locked (ReadyToRun t k) = locked k" "holder (ReadyToRun t k) = holder k"
  "sem_values (set_code t cs k) = sem_values k" "locked (set_code t cs k) = locked k" "holder (set_code t cs k) = holder k"
  "sem_values (setStatus t st k) = sem_values k" "locked (setStatus t st k) = locked k" "holder (setStatus t st k) = holder k"
  by (auto simp: fun_eq_iff sem_values_def locked_def holder_def set_sem_def set_lock_def set_cond_def ReadyToRun_def set_code_def setStatus_def)

subsection \<open>Effects on the view\<close>

lemma queue_of_cong: "sems k' = sems k \<Longrightarrow> locks k' = locks k \<Longrightarrow> conds k' = conds k \<Longrightarrow> queue_of k' = queue_of k"
proof
  fix q assume "sems k' = sems k" "locks k' = locks k" "conds k' = conds k"
  then show "queue_of k' q = queue_of k q" by (cases q) simp_all
qed

lemma setStatus_simps [simp]:
  "readyList (setStatus t st k) = readyList k" "code (setStatus t st k) = code k" "sems (setStatus t st k) = sems k"
  "locks (setStatus t st k) = locks k" "conds (setStatus t st k) = conds k" "idle (setStatus t st k) = idle k"
  "currentThread (setStatus t st k) = currentThread k" "threadToBeDestroyed (setStatus t st k) = threadToBeDestroyed k"
  "level (setStatus t st k) = level k" "shared (setStatus t st k) = shared k"
  by (simp_all add: setStatus_def)

lemma stat_setStatus: "stat k t \<noteq> None \<Longrightarrow> stat (setStatus t st k) = (stat k)(t \<mapsto> st)"
  by (auto simp: stat_def setStatus_def)

lemma ReadyToRun_simps [simp]:
  "code (ReadyToRun t k) = code k" "sems (ReadyToRun t k) = sems k"
  "locks (ReadyToRun t k) = locks k" "conds (ReadyToRun t k) = conds k" "idle (ReadyToRun t k) = idle k"
  "currentThread (ReadyToRun t k) = currentThread k" "threadToBeDestroyed (ReadyToRun t k) = threadToBeDestroyed k"
  "level (ReadyToRun t k) = level k" "shared (ReadyToRun t k) = shared k"
  "set (ready (ReadyToRun t k)) = insert t (set (ready k))"
  "running (ReadyToRun t k) = running k" "wait_point (ReadyToRun t k) = wait_point k"
  "queue_of (ReadyToRun t k) = queue_of k"
  by (auto simp: ReadyToRun_def ready_def running_def wait_point_def intro!: queue_of_cong)

lemma distinct_ReadyToRun: "distinct (ready k) \<Longrightarrow> t \<notin> set (ready k) \<Longrightarrow> distinct (ready (ReadyToRun t k))"
  by (auto simp: ReadyToRun_def ready_def)

lemma stat_ReadyToRun: "stat k t \<noteq> None \<Longrightarrow> stat (ReadyToRun t k) = (stat k)(t \<mapsto> READY)"
  by (auto simp: ReadyToRun_def stat_def setStatus_def)

lemma set_sem_simps [simp]:
  "readyList (set_sem s x k) = readyList k" "code (set_sem s x k) = code k" "sems (set_sem s x k) = (sems k)(s := x)"
  "locks (set_sem s x k) = locks k" "conds (set_sem s x k) = conds k" "idle (set_sem s x k) = idle k"
  "currentThread (set_sem s x k) = currentThread k" "threadToBeDestroyed (set_sem s x k) = threadToBeDestroyed k"
  "level (set_sem s x k) = level k" "shared (set_sem s x k) = shared k" "threads (set_sem s x k) = threads k"
  "ready (set_sem s x k) = ready k" "running (set_sem s x k) = running k" "stat (set_sem s x k) = stat k"
  "wait_point (set_sem s x k) = wait_point k"
  by (auto simp: set_sem_def ready_def running_def stat_def wait_point_def)

lemma queue_of_set_sem [simp]: "queue_of (set_sem s x k) = (queue_of k)(QSem s := map snd (squeue x))"
proof
  show "queue_of (set_sem s x k) q = ((queue_of k)(QSem s := map snd (squeue x))) q" for q
    by (cases q) (simp_all add: set_sem_def)
qed

lemma set_lock_simps [simp]:
  "readyList (set_lock s x k) = readyList k" "code (set_lock s x k) = code k" "locks (set_lock s x k) = (locks k)(s := x)"
  "sems (set_lock s x k) = sems k" "conds (set_lock s x k) = conds k" "idle (set_lock s x k) = idle k"
  "currentThread (set_lock s x k) = currentThread k" "threadToBeDestroyed (set_lock s x k) = threadToBeDestroyed k"
  "level (set_lock s x k) = level k" "shared (set_lock s x k) = shared k" "threads (set_lock s x k) = threads k"
  "ready (set_lock s x k) = ready k" "running (set_lock s x k) = running k" "stat (set_lock s x k) = stat k"
  "wait_point (set_lock s x k) = wait_point k"
  by (auto simp: set_lock_def ready_def running_def stat_def wait_point_def)

lemma queue_of_set_lock [simp]: "queue_of (set_lock s x k) = (queue_of k)(QLock s := map snd (lqueue x))"
proof
  show "queue_of (set_lock s x k) q = ((queue_of k)(QLock s := map snd (lqueue x))) q" for q
    by (cases q) (simp_all add: set_lock_def)
qed

lemma set_cond_simps [simp]:
  "readyList (set_cond s x k) = readyList k" "code (set_cond s x k) = code k" "conds (set_cond s x k) = (conds k)(s := x)"
  "locks (set_cond s x k) = locks k" "sems (set_cond s x k) = sems k" "idle (set_cond s x k) = idle k"
  "currentThread (set_cond s x k) = currentThread k" "threadToBeDestroyed (set_cond s x k) = threadToBeDestroyed k"
  "level (set_cond s x k) = level k" "shared (set_cond s x k) = shared k" "threads (set_cond s x k) = threads k"
  "ready (set_cond s x k) = ready k" "running (set_cond s x k) = running k" "stat (set_cond s x k) = stat k"
  "wait_point (set_cond s x k) = wait_point k"
  by (auto simp: set_cond_def ready_def running_def stat_def wait_point_def)

lemma queue_of_set_cond [simp]: "queue_of (set_cond s x k) = (queue_of k)(QCond s := map snd (cqueue x))"
proof
  show "queue_of (set_cond s x k) q = ((queue_of k)(QCond s := map snd (cqueue x))) q" for q
    by (cases q) (simp_all add: set_cond_def)
qed

lemma set_code_simps [simp]:
  "readyList (set_code t c k) = readyList k" "code (set_code t c k) = (code k)(t := c)" "conds (set_code t c k) = conds k"
  "locks (set_code t c k) = locks k" "sems (set_code t c k) = sems k" "idle (set_code t c k) = idle k"
  "currentThread (set_code t c k) = currentThread k" "threadToBeDestroyed (set_code t c k) = threadToBeDestroyed k"
  "level (set_code t c k) = level k" "shared (set_code t c k) = shared k" "threads (set_code t c k) = threads k"
  "ready (set_code t c k) = ready k" "running (set_code t c k) = running k" "stat (set_code t c k) = stat k"
  "wait_point (set_code t c k) = (wait_point k)(t := waits c)" "queue_of (set_code t c k) = queue_of k"
  by (auto simp: set_code_def ready_def running_def stat_def wait_point_def intro!: queue_of_cong)

lemma set_code_level: "set_code t c (k\<lparr>level := x\<rparr>) = (set_code t c k)\<lparr>level := x\<rparr>"
  by (cases k) (simp add: set_code_def)

lemma kinv_cong:
  assumes "readyList k' = readyList k" "threads k' = threads k" "sems k' = sems k" "locks k' = locks k" "conds k' = conds k"
    "code k' = code k" "idle k' = idle k" "currentThread k' = currentThread k" "threadToBeDestroyed k' = threadToBeDestroyed k"
  shows "kinv k' = kinv k"
proof -
  have "ready k' = ready k" "stat k' = stat k" "queue_of k' = queue_of k" "wait_point k' = wait_point k" "running k' = running k"
      "sem_values k' = sem_values k" "locked k' = locked k" "holder k' = holder k"
    using assms by (auto simp: ready_def stat_def wait_point_def running_def sem_values_def locked_def holder_def intro!: queue_of_cong)
  then show ?thesis using assms(9) by (simp add: kinv_def)
qed

lemma kinv_level [simp]: "kinv (k\<lparr>level := x\<rparr>) = kinv k" "kinv (k\<lparr>shared := g\<rparr>) = kinv k"
  by (rule kinv_cong; simp)+

lemma running_level [simp]: "running (k\<lparr>level := x\<rparr>) = running k" "running (k\<lparr>shared := g\<rparr>) = running k"
    "wait_point (k\<lparr>level := x\<rparr>) = wait_point k" "wait_point (k\<lparr>shared := g\<rparr>) = wait_point k"
  by (simp_all add: running_def wait_point_def [abs_def])

text \<open>The current thread is in no queue and can run.\<close>

lemma running_facts:
  assumes "kinv k" "running k = Some t"
  shows "stat k t = Some RUNNING" "currentThread k = t" "\<not> idle k" "t \<notin> set (queue_of k q)" "t \<notin> set (ready k)"
proof -
  note D = placesD [OF kinvD(1) [OF assms(1)]]
  show st: "stat k t = Some RUNNING" using D(6) assms(2) by simp
  show "currentThread k = t" "\<not> idle k" using assms(2) by (simp_all add: running_def split: if_splits)
  show "t \<notin> set (queue_of k q)" "t \<notin> set (ready k)" using D(2,4) [of t] st by auto
qed

subsection \<open>Waking\<close>

lemma queued_facts:
  assumes "kinv k" "queue_of k q = t # r"
  shows "stat k t = Some BLOCKED" "wait_point k t = Some q" "t \<notin> can_run (ready k) (running k)"
proof -
  note D = placesD [OF kinvD(1) [OF assms(1)]]
  show st: "stat k t = Some BLOCKED" "wait_point k t = Some q" using D(4,5) [of t q] assms(2) by simp_all
  show "t \<notin> can_run (ready k) (running k)" using D(2) [of t] D(6) [of t] st by (auto simp: can_run_def)
qed

text \<open>
  A woken thread joins the ready list: the view after the queue \<open>q\<close> lost its first thread \<open>t\<close> in
  \<open>k1\<close>.
\<close>

lemma wake_places:
  assumes k: "kinv k" and q: "queue_of k q = t # r"
    and k1: "ready k1 = ready k" "stat k1 = stat k" "wait_point k1 = wait_point k" "running k1 = running k"
      "threadToBeDestroyed k1 = threadToBeDestroyed k" "queue_of k1 = (queue_of k)(q := r)"
  shows "places (ready (ReadyToRun t k1)) (stat (ReadyToRun t k1)) (queue_of (ReadyToRun t k1)) (wait_point (ReadyToRun t k1))
      (running (ReadyToRun t k1)) (threadToBeDestroyed (ReadyToRun t k1))"
    and "can_run (ready (ReadyToRun t k1)) (running (ReadyToRun t k1)) = insert t (can_run (ready k) (running k))"
proof -
  note p = kinvD(1) [OF k] and t = queued_facts [OF k q]
  show "can_run (ready (ReadyToRun t k1)) (running (ReadyToRun t k1)) = insert t (can_run (ready k) (running k))"
    by (auto simp: can_run_def k1)
  have "distinct (ready (ReadyToRun t k1))"
    using distinct_ReadyToRun [of k1 t] placesD(1) [OF p] t(3) by (simp add: can_run_def k1)
  with places_wake [OF p q, of "ready (ReadyToRun t k1)"] t(1)
  show "places (ready (ReadyToRun t k1)) (stat (ReadyToRun t k1)) (queue_of (ReadyToRun t k1)) (wait_point (ReadyToRun t k1))
      (running (ReadyToRun t k1)) (threadToBeDestroyed (ReadyToRun t k1))"
    by (simp add: k1 stat_ReadyToRun)
qed

lemma V_kinv:
  assumes k: "kinv k"
  shows "kinv (Semaphore_V s k)"
proof -
  note n = kinvD(2) [OF k]
  have v: "0 \<le> sem_values k s + 1" using kinvD(3) [OF k, of s] by simp
  show ?thesis
  proof (cases "squeue (sems k s)")
    case Nil
    then have q: "queue_of k (QSem s) = []" "(queue_of k)(QSem s := []) = queue_of k" by auto
    show ?thesis
      using Nil kinvD(1) [OF k] no_lost_sem_inc [OF n q(1), of "sem_values k s + 1"] v kinvD(3,4) [OF k] q(2)
      by (intro kinvI) (auto simp: Semaphore_V_def Let_def wake_def sem_values_def [symmetric])
  next
    case (Cons x r)
    obtain pr t where x: "x = (pr, t)" by (cases x)
    have q: "queue_of k (QSem s) = t # map snd r" using Cons x by simp
    note t = queued_facts [OF k q]
    let ?k1 = "set_sem s \<lparr>svalue = sem_values k s + 1, squeue = r\<rparr> k"
    have e: "Semaphore_V s k = ReadyToRun t ?k1" using Cons x by (simp add: Semaphore_V_def Let_def wake_def sem_values_def)
    note w = wake_places [OF k q, of ?k1, simplified]
    show ?thesis
      unfolding e using w no_lost_sem_wake [OF n q t(2,3)] v kinvD(3,4) [OF k] by (intro kinvI) auto
  qed
qed

lemma release_kinv:
  assumes k: "kinv k"
  shows "kinv (release l k)"
proof -
  note n = kinvD(2) [OF k]
  show ?thesis
  proof (cases "lqueue (locks k l)")
    case Nil
    then have q: "queue_of k (QLock l) = []" "(queue_of k)(QLock l := []) = queue_of k" by auto
    show ?thesis
      using Nil kinvD(1) [OF k] no_lost_lock_free [OF n q(1), of False] kinvD(3,4) [OF k] q(2)
      by (intro kinvI) (auto simp: release_def Let_def wake_def)
  next
    case (Cons x r)
    obtain pr t where x: "x = (pr, t)" by (cases x)
    have q: "queue_of k (QLock l) = t # map snd r" using Cons x by simp
    let ?k1 = "set_lock l \<lparr>isLocked = False, lqueue = r, currThread = None\<rparr> k"
    have e: "release l k = ReadyToRun t ?k1" using Cons x by (simp add: release_def Let_def wake_def)
    note w = wake_places [OF k q, of ?k1, simplified]
    show ?thesis
      unfolding e using w no_lost_lock_wake [OF n q queued_facts(2) [OF k q]] kinvD(3,4) [OF k] by (intro kinvI) auto
  qed
qed

lemma signal_kinv:
  assumes k: "kinv k" and c: "cqueue (conds k c) = (pr, t) # r"
  shows "kinv (ReadyToRun t (set_cond c \<lparr>cqueue = r\<rparr> k))"
proof -
  have q: "queue_of k (QCond c) = t # map snd r" using c by simp
  let ?k1 = "set_cond c \<lparr>cqueue = r\<rparr> k"
  note w = wake_places [OF k q, of ?k1, simplified]
  have "no_lost (insert t (can_run (ready k) (running k))) ((queue_of k)(QCond c := map snd r)) (wait_point k) (sem_values k) (locked k)"
    by (rule no_lost_change [OF kinvD(2) [OF k]]) (use no_lostD(1) [OF kinvD(2) [OF k]] in \<open>auto split: if_splits\<close>)
  with w kinvD(3,4) [OF k] show ?thesis by (intro kinvI) auto
qed

lemma broadcast_kinv: "kinv k \<Longrightarrow> kinv (fold (\<lambda>(_, t). ReadyToRun t) (cqueue (conds k c)) (set_cond c \<lparr>cqueue = []\<rparr> k))"
proof (induction "cqueue (conds k c)" arbitrary: k)
  case Nil
  then have "(conds k)(c := \<lparr>cqueue = []\<rparr>) = conds k" by (auto simp: fun_upd_idem_iff)
  then have "set_cond c \<lparr>cqueue = []\<rparr> k = k" by (simp add: set_cond_def)
  then show ?case using Nil by simp
next
  case (Cons x r)
  obtain pr t where x: "x = (pr, t)" by (cases x)
  let ?k1 = "ReadyToRun t (set_cond c \<lparr>cqueue = r\<rparr> k)"
  have "kinv ?k1" using signal_kinv [OF Cons.prems, of c pr t r] Cons.hyps(2) x by simp
  from Cons.hyps(1) [OF _ this] have "kinv (fold (\<lambda>(_, t). ReadyToRun t) r (set_cond c \<lparr>cqueue = []\<rparr> ?k1))" by simp
  moreover have "set_cond c \<lparr>cqueue = []\<rparr> ?k1 = ReadyToRun t (set_cond c \<lparr>cqueue = []\<rparr> k)"
    by (simp add: set_cond_def ReadyToRun_def setStatus_def getPriority_def)
  ultimately show ?case using x Cons.hyps(2) [symmetric] by simp
qed

subsection \<open>Changing the code of the current thread\<close>

lemma code_kinv:
  assumes k: "kinv k" and t: "running k = Some t" and w: "idle_point (wait_point k t)"
  shows "kinv (set_code t c k)"
proof -
  have "places (ready k) (stat k) (queue_of k) ((wait_point k)(t := waits c)) (running k) (threadToBeDestroyed k)"
    using places_code [OF kinvD(1) [OF k]] running_facts(1) [OF k t] by blast
  moreover have "no_lost (can_run (ready k) (running k)) (queue_of k) ((wait_point k)(t := waits c)) (sem_values k) (locked k)"
    by (rule no_lost_change [OF kinvD(2) [OF k]]) (use no_lostD(1) [OF kinvD(2) [OF k]] w in \<open>auto split: if_splits\<close>)
  ultimately show ?thesis using kinvD(3,4) [OF k] by (intro kinvI) simp_all
qed

subsection \<open>Giving up the processor\<close>

lemma idle_view [simp]:
  "ready (k\<lparr>idle := b\<rparr>) = ready k" "stat (k\<lparr>idle := b\<rparr>) = stat k" "queue_of (k\<lparr>idle := b\<rparr>) = queue_of k"
  "wait_point (k\<lparr>idle := b\<rparr>) = wait_point k" "sem_values (k\<lparr>idle := b\<rparr>) = sem_values k" "locked (k\<lparr>idle := b\<rparr>) = locked k"
  "holder (k\<lparr>idle := b\<rparr>) = holder k" "running (k\<lparr>idle := True\<rparr>) = None"
  by (auto simp: fun_eq_iff ready_def stat_def wait_point_def sem_values_def locked_def holder_def running_def intro!: queue_of_cong [THEN fun_cong])

lemma stat_cong: "threads k' = threads k \<Longrightarrow> stat k' = stat k"
  by (simp add: fun_eq_iff stat_def)

lemma Run_view [simp]:
  "ready (Run t k) = ready k" "queue_of (Run t k) = queue_of k" "wait_point (Run t k) = wait_point k"
  "sem_values (Run t k) = sem_values k" "locked (Run t k) = locked k" "holder (Run t k) = holder k" "running (Run t k) = Some t"
  "threadToBeDestroyed (Run t k) = threadToBeDestroyed k" "code (Run t k) = code k" "shared (Run t k) = shared k"
  by (auto simp: fun_eq_iff Run_def ready_def wait_point_def sem_values_def locked_def holder_def running_def intro!: queue_of_cong [THEN fun_cong])

lemma stat_Run: "stat k t \<noteq> None \<Longrightarrow> stat (Run t k) = (stat k)(t \<mapsto> RUNNING)"
  unfolding Run_def by (subst stat_setStatus) (auto simp: stat_def fun_eq_iff)

lemma ready_view [simp]:
  "stat (k\<lparr>readyList := r\<rparr>) = stat k" "queue_of (k\<lparr>readyList := r\<rparr>) = queue_of k" "wait_point (k\<lparr>readyList := r\<rparr>) = wait_point k"
  "sem_values (k\<lparr>readyList := r\<rparr>) = sem_values k" "locked (k\<lparr>readyList := r\<rparr>) = locked k" "holder (k\<lparr>readyList := r\<rparr>) = holder k"
  "running (k\<lparr>readyList := r\<rparr>) = running k" "ready (k\<lparr>readyList := r\<rparr>) = map snd r"
  by (auto simp: fun_eq_iff ready_def stat_def wait_point_def sem_values_def locked_def holder_def running_def intro!: queue_of_cong [THEN fun_cong])

lemma dispatch_kinv:
  assumes k: "kinv (k\<lparr>idle := True\<rparr>)"
  shows "kinv (dispatch k)"
proof (cases "readyList k")
  case Nil
  then show ?thesis using k by (simp add: dispatch_def FindNextToRun_def)
next
  case (Cons x r)
  obtain pr t where x: "x = (pr, t)" by (cases x)
  let ?k1 = "k\<lparr>readyList := r\<rparr>"
  have d: "dispatch k = Run t ?k1" using Cons x by (simp add: dispatch_def FindNextToRun_def)
  have rd: "ready k = t # map snd r" using Cons x by (simp add: ready_def)
  note p = kinvD(1) [OF k, simplified] and n = kinvD(2) [OF k, simplified]
  have st: "stat k t = Some READY" using placesD(2) [OF p, of t] rd by simp
  have "places (map snd r) ((stat k)(t \<mapsto> RUNNING)) (queue_of k) (wait_point k) (Some t) (threadToBeDestroyed k)"
    using places_run [OF p, of t "map snd r"] placesD(1) [OF p] by (simp add: rd)
  moreover have "can_run (map snd r) (Some t) = can_run (ready k) None" by (simp add: can_run_def rd)
  ultimately show ?thesis
    unfolding d using n kinvD(3,4) [OF k] st by (intro kinvI) (simp_all add: stat_Run)
qed

text \<open>The current thread blocks with its code set to a resume point of the queue it joined.\<close>

lemma Sleep_kinv:
  assumes "kinv ((setStatus (currentThread k) BLOCKED k)\<lparr>idle := True\<rparr>)"
  shows "kinv (Sleep k)"
  unfolding Sleep_def using dispatch_kinv [OF assms] .

lemma block_kinv:
  assumes k: "kinv k" and t: "running k = Some t" and c: "waits c = Some q"
    and w: "idle_point (wait_point k t) \<or> wait_point k t = Some q"
    and q: "\<And>s. q = QSem s \<Longrightarrow> sem_values k s \<le> 0" "\<And>l. q = QLock l \<Longrightarrow> locked k l" "\<And>c. q = QCond c \<Longrightarrow> idle_point (wait_point k t)"
    and k1: "ready k1 = ready k" "stat k1 = stat k" "wait_point k1 = wait_point k" "currentThread k1 = t"
      "threadToBeDestroyed k1 = threadToBeDestroyed k" "queue_of k1 = (queue_of k)(q := q')"
      "sem_values k1 = sem_values k" "locked k1 = locked k" "holder k1 = holder k"
    and q': "set q' = insert t (set (queue_of k q))" "t \<notin> set (queue_of k q) \<Longrightarrow> distinct q'"
  shows "kinv (Sleep (set_code t c k1))"
proof (rule Sleep_kinv)
  note f = running_facts [OF k t]
  have p: "places (ready k) ((stat k)(t \<mapsto> BLOCKED)) ((queue_of k)(q := q')) ((wait_point k)(t \<mapsto> q)) None (threadToBeDestroyed k)"
    using places_block [of "ready k" "stat k" "queue_of k" "wait_point k" t] q' kinvD(1) [OF k] t by simp
  have n: "no_lost (can_run (ready k) (running k) - {t}) ((queue_of k)(q := q')) ((wait_point k)(t \<mapsto> q)) (sem_values k) (locked k)"
    by (rule no_lost_block [OF kinvD(2) [OF k] w]) (use q in auto)
  have cr: "can_run (ready k) (running k) - {t} = can_run (ready k) None" using f(5) t by (auto simp: can_run_def)
  let ?k2 = "set_code t c k1"
  have "stat (setStatus t BLOCKED ?k2) = (stat k)(t \<mapsto> BLOCKED)"
    using stat_setStatus [of ?k2 t BLOCKED] f(1) by (simp add: k1)
  moreover have "ready (setStatus t BLOCKED ?k2) = ready k" using k1(1) by (simp add: ready_def)
  moreover have "queue_of (setStatus t BLOCKED ?k2) = (queue_of k)(q := q')"
    using k1(6) queue_of_cong [of "setStatus t BLOCKED ?k2" ?k2] by simp
  moreover have "wait_point (setStatus t BLOCKED ?k2) = (wait_point k)(t \<mapsto> q)"
    using k1(3) c by (auto simp: wait_point_def fun_eq_iff)
  ultimately show "kinv ((setStatus (currentThread ?k2) BLOCKED ?k2)\<lparr>idle := True\<rparr>)"
    using p n cr kinvD(3,4) [OF k] by (intro kinvI) (simp_all add: k1)
qed

subsection \<open>Every routine keeps the invariant\<close>

lemma me_snd [simp]: "snd (me k) = currentThread k"
  by (simp add: me_def)

lemma set_map_snd_insert [simp]: "set (map snd (keyed_insert kx xs)) = insert (snd kx) (set (map snd xs))"
  by auto

lemma P_body_kinv:
  assumes k: "kinv k" and t: "running k = Some t" and w: "idle_point (wait_point k t) \<or> wait_point k t = Some (QSem s)"
    and st: "settle t rest (P_body s old k) = Inr k'"
  shows "kinv k'"
proof (cases "svalue (sems k s) = 0")
  case True
  let ?q = "keyed_insert (me k) (squeue (sems k s))"
  let ?k1 = "set_sem s (sems k s\<lparr>squeue := ?q\<rparr>) k"
  have e: "k' = Sleep (set_code t (PLoop s old # rest) ?k1)"
    using st True by (simp add: P_body_def Let_def settle_def)
  have sv: "(sem_values k)(s := svalue (sems k s)) = sem_values k" by (simp add: sem_values_def fun_eq_iff)
  show ?thesis
    unfolding e
  proof (rule block_kinv [OF k t _ w])
    show "waits (PLoop s old # rest) = Some (QSem s)" by simp
    show "queue_of ?k1 = (queue_of k)(QSem s := map snd ?q)" by simp
    show "set (map snd ?q) = insert t (set (queue_of k (QSem s)))" using running_facts(2) [OF k t] by simp
    show "distinct (map snd ?q)" if "t \<notin> set (queue_of k (QSem s))"
      using that placesD(3) [OF kinvD(1) [OF k], of "QSem s"] running_facts(2) [OF k t] by (simp add: me_def)
  qed (use True sv running_facts(2) [OF k t] in \<open>auto simp: sem_values_def\<close>)
next
  case False
  let ?k1 = "set_code t rest (set_sem s (sems k s\<lparr>svalue := svalue (sems k s) - 1\<rparr>) k)"
  have e: "k' = ?k1\<lparr>level := old\<rparr>"
    using st False by (simp add: P_body_def Let_def settle_def set_code_level)
  have qs: "(queue_of k)(QSem s := map snd (squeue (sems k s))) = queue_of k" by auto
  have "places (ready k) (stat k) (queue_of k) ((wait_point k)(t := waits rest)) (running k) (threadToBeDestroyed k)"
    using places_code [OF kinvD(1) [OF k]] running_facts(1) [OF k t] by blast
  moreover note no_lost_sem_take [OF kinvD(2) [OF k] w, of "waits rest"]
  moreover have "0 \<le> sem_values k s - 1" using kinvD(3) [OF k, of s] False by (simp add: sem_values_def)
  ultimately have "kinv ?k1" using kinvD(3,4) [OF k] qs by (intro kinvI) (auto simp: sem_values_def [symmetric])
  then show ?thesis by (simp add: e)
qed

lemma Acquire_body_kinv:
  assumes k: "kinv k" and t: "running k = Some t" and w: "idle_point (wait_point k t) \<or> wait_point k t = Some (QLock l)"
    and st: "settle t rest (Acquire_body l old k) = Inr k'"
  shows "kinv k'"
proof (cases "isLocked (locks k l)")
  case True
  let ?q = "keyed_insert (me k) (lqueue (locks k l))"
  let ?k1 = "set_lock l (locks k l\<lparr>lqueue := ?q\<rparr>) k"
  have e: "k' = Sleep (set_code t (AcquireLoop l old # rest) ?k1)"
    using st True by (simp add: Acquire_body_def Let_def settle_def)
  have lv: "(locked k)(l := isLocked (locks k l)) = locked k" "(holder k)(l := currThread (locks k l)) = holder k"
    by (simp_all add: locked_def holder_def fun_eq_iff)
  show ?thesis
    unfolding e
  proof (rule block_kinv [OF k t _ w])
    show "waits (AcquireLoop l old # rest) = Some (QLock l)" by simp
    show "queue_of ?k1 = (queue_of k)(QLock l := map snd ?q)" by simp
    show "set (map snd ?q) = insert t (set (queue_of k (QLock l)))" using running_facts(2) [OF k t] by simp
    show "distinct (map snd ?q)" if "t \<notin> set (queue_of k (QLock l))"
      using that placesD(3) [OF kinvD(1) [OF k], of "QLock l"] running_facts(2) [OF k t] by (simp add: me_def)
    show "locked ?k1 = locked k" "holder ?k1 = holder k" using lv by simp_all
  qed (use True running_facts(2) [OF k t] in \<open>auto simp: locked_def\<close>)
next
  case False
  let ?k1 = "set_code t rest (set_lock l (locks k l\<lparr>isLocked := True, currThread := Some (currentThread k)\<rparr>) k)"
  have e: "k' = ?k1\<lparr>level := old\<rparr>"
    using st False by (simp add: Acquire_body_def Let_def settle_def set_code_level)
  have qs: "(queue_of k)(QLock l := map snd (lqueue (locks k l))) = queue_of k" by auto
  have "places (ready k) (stat k) (queue_of k) ((wait_point k)(t := waits rest)) (running k) (threadToBeDestroyed k)"
    using places_code [OF kinvD(1) [OF k]] running_facts(1) [OF k t] by blast
  moreover note no_lost_lock_take [OF kinvD(2) [OF k] w, of "waits rest"]
  ultimately have "kinv ?k1" using kinvD(3,4) [OF k] qs by (intro kinvI) auto
  then show ?thesis by (simp add: e)
qed

lemma after_switch_ok:
  assumes k: "kinv k" and t: "running k = Some t"
  shows "\<exists>k'. after_switch k = Inr k' \<and> kinv k' \<and> running k' = Some t \<and> wait_point k' = wait_point k \<and>
    locks k' = locks k \<and> code k' = code k \<and> shared k' = shared k \<and> currentThread k' = currentThread k \<and> conds k' = conds k"
proof (cases "threadToBeDestroyed k")
  case None
  then show ?thesis using k t by (simp add: after_switch_def)
next
  case (Some z)
  let ?k1 = "k\<lparr>threads := (threads k)(z := None), threadToBeDestroyed := None\<rparr>"
  note d = places_destroy [OF kinvD(1) [OF k, unfolded Some]]
  have "z \<noteq> currentThread k" using d(2) t running_facts(2) [OF k t] by auto
  then have "after_switch k = Inr ?k1" by (simp add: after_switch_def Some)
  moreover have v: "stat ?k1 = (stat k)(z := None)" "ready ?k1 = ready k" "queue_of ?k1 = queue_of k" "wait_point ?k1 = wait_point k"
      "running ?k1 = running k" "sem_values ?k1 = sem_values k" "locked ?k1 = locked k" "holder ?k1 = holder k"
    by (auto simp: fun_eq_iff stat_def ready_def wait_point_def running_def sem_values_def locked_def holder_def
        intro!: queue_of_cong [THEN fun_cong])
  moreover have "kinv ?k1" by (rule kinvI) (use d(1) v kinvD(2,3,4) [OF k] in simp_all)
  ultimately show ?thesis using t by simp
qed

lemma Yield_kinv:
  assumes k: "kinv k" and t: "running k = Some t" and w: "idle_point (wait_point k t)"
    and st: "settle t rest (Thread_Yield k) = Inr k'"
  shows "kinv k'"
proof (cases "readyList k")
  case Nil
  then have "k' = set_code t rest k" using st by (simp add: Thread_Yield_def Let_def FindNextToRun_def settle_def)
  then show ?thesis using code_kinv [OF k t w] by simp
next
  case (Cons x r)
  obtain pr n where x: "x = (pr, n)" by (cases x)
  note f = running_facts [OF k t]
  let ?k1 = "k\<lparr>level := IntOff, readyList := r\<rparr>"
  let ?k2 = "set_code t (YieldResume (level k) # rest) (ReadyToRun t ?k1)"
  have e: "k' = Run n ?k2"
    using st Cons x f(2) by (simp add: Thread_Yield_def Let_def FindNextToRun_def settle_def)
  have rd: "ready k = n # map snd r" using Cons x by (simp add: ready_def)
  have wt: "waits (YieldResume (level k) # rest) = None" by simp
  have p: "places (n # map snd r) (stat k) (queue_of k) ((wait_point k)(t := None)) (Some t) (threadToBeDestroyed k)"
    using places_code [OF kinvD(1) [OF k, unfolded rd t]] f(1) by blast
  have nt: "n \<noteq> t" "n \<notin> snd ` set r" "t \<notin> snd ` set r" using f(5) placesD(1) [OF p] rd by auto
  have v1: "ready ?k1 = map snd r" "stat ?k1 = stat k" "queue_of ?k1 = queue_of k" "wait_point ?k1 = wait_point k"
      "sem_values ?k1 = sem_values k" "locked ?k1 = locked k" "holder ?k1 = holder k"
    by (auto simp: fun_eq_iff ready_def stat_def wait_point_def sem_values_def locked_def holder_def intro!: queue_of_cong [THEN fun_cong])
  have dr: "distinct (ready (ReadyToRun t ?k1))"
    using distinct_ReadyToRun [of ?k1 t] placesD(1) [OF p] nt v1 by simp
  have "places (n # ready (ReadyToRun t ?k1)) ((stat k)(t \<mapsto> READY)) (queue_of k) ((wait_point k)(t := None)) None (threadToBeDestroyed k)"
    using places_yield [OF p, of "n # ready (ReadyToRun t ?k1)"] dr nt v1 by auto
  moreover have st2: "stat ?k2 = (stat k)(t \<mapsto> READY)" using stat_ReadyToRun [of ?k1 t] f(1) v1 by simp
  moreover have sn: "stat ?k2 n \<noteq> None" using st2 placesD(2) [OF p, of n] nt by simp
  ultimately have pl: "places (ready (Run n ?k2)) (stat (Run n ?k2)) (queue_of (Run n ?k2)) (wait_point (Run n ?k2))
      (running (Run n ?k2)) (threadToBeDestroyed (Run n ?k2))"
    using places_run [where t = n and rd' = "ready (ReadyToRun t ?k1)" and rd = "n # ready (ReadyToRun t ?k1)"] dr nt v1
    by (simp add: stat_Run)
  have cr: "can_run (ready (Run n ?k2)) (running (Run n ?k2)) = can_run (ready k) (running k)"
    using v1(1) rd t by (auto simp: can_run_def)
  have "no_lost (can_run (ready k) (running k)) (queue_of k) ((wait_point k)(t := None)) (sem_values k) (locked k)"
    by (rule no_lost_change [OF kinvD(2) [OF k]]) (use no_lostD(1) [OF kinvD(2) [OF k]] w in \<open>auto split: if_splits\<close>)
  then show ?thesis
    unfolding e using pl cr kinvD(3,4) [OF k] v1 by (intro kinvI) simp_all
qed

lemma Fork_kinv:
  assumes k: "kinv k" and t: "running k = Some t" and w: "idle_point (wait_point k t)"
    and st: "settle t rest (Thread_Fork n k) = Inr k'"
  shows "kinv k'"
proof -
  have n: "stat k n = Some JUST_CREATED" and e: "k' = set_code t rest (ReadyToRun n (set_code n (Startup # code k n) k))"
    using st by (auto simp: Thread_Fork_def settle_def stat_def set_code_def split: option.splits if_splits)
  note p = kinvD(1) [OF k]
  let ?k1 = "set_code n (Startup # code k n) k"
  have p1: "places (ready k) (stat k) (queue_of k) ((wait_point k)(n := None)) (running k) (threadToBeDestroyed k)"
    using places_code [OF p] n by blast
  have nr: "n \<notin> set (ready k)" using placesD(2) [OF p, of n] n by auto
  have dr: "distinct (ready (ReadyToRun n ?k1))" using distinct_ReadyToRun [of ?k1 n] placesD(1) [OF p] nr by simp
  have "kinv (ReadyToRun n ?k1)"
  proof (rule kinvI)
    show "places (ready (ReadyToRun n ?k1)) (stat (ReadyToRun n ?k1)) (queue_of (ReadyToRun n ?k1)) (wait_point (ReadyToRun n ?k1))
        (running (ReadyToRun n ?k1)) (threadToBeDestroyed (ReadyToRun n ?k1))"
      using places_fork [OF p1 n, of "ready (ReadyToRun n ?k1)"] dr n by (simp add: stat_ReadyToRun)
    have nn: "n \<notin> can_run (ready k) (running k)" using nr placesD(6) [OF p, of n] n by (auto simp: can_run_def)
    show "no_lost (can_run (ready (ReadyToRun n ?k1)) (running (ReadyToRun n ?k1))) (queue_of (ReadyToRun n ?k1))
        (wait_point (ReadyToRun n ?k1)) (sem_values (ReadyToRun n ?k1)) (locked (ReadyToRun n ?k1))"
      unfolding object_views ReadyToRun_simps set_code_simps
      by (rule no_lost_change [OF kinvD(2) [OF k]]) (use nn in \<open>auto simp: can_run_def split: if_splits\<close>)
  qed (use kinvD(3,4) [OF k] in simp_all)
  moreover have "n \<noteq> t" using n running_facts(1) [OF k t] by auto
  ultimately show ?thesis unfolding e using t w by (intro code_kinv) simp_all
qed

lemma Wait_kinv:
  assumes k: "kinv k" and t: "running k = Some t" and w: "wait_point k t = None"
    and st: "settle t rest (Condition_Wait c l k) = Inr k'"
  shows "kinv k'"
proof -
  let ?k1 = "release l (k\<lparr>level := IntOff\<rparr>)"
  have k1: "kinv ?k1" using k by (intro release_kinv) simp
  have r: "running ?k1 = Some t" "wait_point ?k1 = wait_point k"
    using t by (auto simp: release_def Let_def wake_def split: list.splits)
  let ?q = "keyed_insert (me ?k1) (cqueue (conds ?k1 c))"
  have e: "k' = Sleep (set_code t (WaitResume c l (level k) # rest) (set_cond c \<lparr>cqueue = ?q\<rparr> ?k1))"
    using st by (simp add: Condition_Wait_def Let_def settle_def split: if_splits)
  show ?thesis
    unfolding e
  proof (rule block_kinv [OF k1 r(1)])
    show "waits (WaitResume c l (level k) # rest) = Some (QCond c)" by simp
    show "queue_of (set_cond c \<lparr>cqueue = ?q\<rparr> ?k1) = (queue_of ?k1)(QCond c := map snd ?q)" by simp
    show "set (map snd ?q) = insert t (set (queue_of ?k1 (QCond c)))" using running_facts(2) [OF k1 r(1)] by simp
    show "distinct (map snd ?q)" if "t \<notin> set (queue_of ?k1 (QCond c))"
      using that placesD(3) [OF kinvD(1) [OF k1], of "QCond c"] running_facts(2) [OF k1 r(1)] by (simp add: me_def)
  qed (use w r running_facts(2) [OF k1 r(1)] in auto)
qed

lemma Die_kinv:
  assumes k: "kinv k" and t: "running k = Some t" and w: "idle_point (wait_point k t)"
    and k1: "k1 = k\<lparr>threadToBeDestroyed := Some t\<rparr>"
    and c: "waits c = None"
  shows "kinv (Sleep (set_code t c k1))"
proof (rule Sleep_kinv)
  note f = running_facts [OF k t]
  let ?k2 = "setStatus t BLOCKED (set_code t c k1)"
  have p: "places (ready k) ((stat k)(t \<mapsto> BLOCKED)) (queue_of k) ((wait_point k)(t := None)) None (Some t)"
    using places_die [of "ready k" "stat k" "queue_of k" "wait_point k" t] kinvD(1) [OF k] t by simp
  have cr: "can_run (ready k) None = can_run (ready k) (running k) - {t}" using f(5) t by (auto simp: can_run_def)
  have n: "no_lost (can_run (ready k) None) (queue_of k) ((wait_point k)(t := None)) (sem_values k) (locked k)"
    unfolding cr
    by (rule no_lost_change [OF kinvD(2) [OF k]]) (use no_lostD(1) [OF kinvD(2) [OF k]] w in \<open>auto split: if_splits\<close>)
  have v: "stat ?k2 = (stat k)(t \<mapsto> BLOCKED)" "ready ?k2 = ready k" "queue_of ?k2 = queue_of k"
      "wait_point ?k2 = (wait_point k)(t := None)" "sem_values ?k2 = sem_values k" "locked ?k2 = locked k" "holder ?k2 = holder k"
    using f(1) stat_setStatus [of "set_code t c k1" t BLOCKED] stat_cong [of "set_code t c k1" k]
    by (auto simp: fun_eq_iff k1 c ready_def wait_point_def sem_values_def locked_def holder_def intro!: queue_of_cong [THEN fun_cong])
  show "kinv ((setStatus (currentThread (set_code t c k1)) BLOCKED (set_code t c k1))\<lparr>idle := True\<rparr>)"
    using p n v f(2) kinvD(3,4) [OF k] by (intro kinvI) (simp_all add: k1)
qed

subsection \<open>Every step of the system keeps the invariant\<close>

lemma resumed_ok:
  assumes k: "kinv k" and t: "running k = Some t" and st: "settle t rest (resumed f k) = Inr k'"
  obtains k1 where "kinv k1" "running k1 = Some t" "wait_point k1 = wait_point k" "settle t rest (f k1) = Inr k'"
proof -
  obtain k1 where "after_switch k = Inr k1" "kinv k1" "running k1 = Some t" "wait_point k1 = wait_point k"
    using after_switch_ok [OF k t] by blast
  then show ?thesis using that st by (simp add: resumed_def)
qed

lemma settle_Cont [simp]: "settle t rest (Cont k pre) = Inr (set_code t (pre @ rest) k)"
  by (simp add: settle_def)

lemma settle_Err [simp]: "settle t rest (Err e) = Inl e"
  by (simp add: settle_def)

lemma fold_ReadyToRun_view [simp]:
  "running (fold (\<lambda>(_, t). ReadyToRun t) q k) = running k" "wait_point (fold (\<lambda>(_, t). ReadyToRun t) q k) = wait_point k"
  by (induction q arbitrary: k) (auto split: prod.splits)

lemma Signal_kinv:
  assumes k: "kinv k" and t: "running k = Some t" and wt: "wait_point k t = None"
    and st: "settle t rest (Condition_Signal c l k) = Inr k'"
  shows "kinv k'"
proof (cases "cqueue (conds k c)")
  case Nil
  then have "(conds k)(c := \<lparr>cqueue = []\<rparr>) = conds k" by (auto simp: fun_upd_idem_iff)
  then have "set_cond c \<lparr>cqueue = []\<rparr> k = k" by (simp add: set_cond_def)
  then show ?thesis using st Nil code_kinv [OF k t, of rest] wt by (simp add: Condition_Signal_def wake_def split: if_splits)
next
  case (Cons x r)
  obtain pr n where x: "x = (pr, n)" by (cases x)
  note s = signal_kinv [OF k, of c pr n r]
  show ?thesis
    using code_kinv [OF s, of t rest] st Cons x t wt by (simp add: Condition_Signal_def wake_def Let_def split: if_splits)
qed

lemma resumed_kinv:
  assumes k: "kinv k" and t: "running k = Some t"
  shows "wait_point k t = waits (PLoop s old # rest) \<Longrightarrow> settle t rest (resumed (P_body s old) k) = Inr k' \<Longrightarrow> kinv k'"
    and "wait_point k t = waits (AcquireLoop l old # rest) \<Longrightarrow> settle t rest (resumed (Acquire_body l old) k) = Inr k' \<Longrightarrow> kinv k'"
    and "wait_point k t = waits (WaitResume c l old # rest) \<Longrightarrow> settle t rest (resumed (wait_resume l old) k) = Inr k' \<Longrightarrow> kinv k'"
    and "wait_point k t = waits (YieldResume old # rest) \<Longrightarrow>
      settle t rest (resumed (\<lambda>k. Cont (k\<lparr>level := old\<rparr>) []) k) = Inr k' \<Longrightarrow> kinv k'"
proof -
  show "kinv k'" if w: "wait_point k t = waits (PLoop s old # rest)" and st: "settle t rest (resumed (P_body s old) k) = Inr k'"
  proof -
    from resumed_ok [OF k t st] obtain k1 where "kinv k1" "running k1 = Some t" "wait_point k1 = wait_point k"
      "settle t rest (P_body s old k1) = Inr k'" by blast
    with P_body_kinv [of k1 t s rest old k'] show ?thesis using w by simp
  qed
  show "kinv k'" if w: "wait_point k t = waits (AcquireLoop l old # rest)" and st: "settle t rest (resumed (Acquire_body l old) k) = Inr k'"
  proof -
    from resumed_ok [OF k t st] obtain k1 where "kinv k1" "running k1 = Some t" "wait_point k1 = wait_point k"
      "settle t rest (Acquire_body l old k1) = Inr k'" by blast
    with Acquire_body_kinv [of k1 t l rest old k'] show ?thesis using w by simp
  qed
  show "kinv k'" if w: "wait_point k t = waits (WaitResume c l old # rest)" and st: "settle t rest (resumed (wait_resume l old) k) = Inr k'"
  proof -
    from resumed_ok [OF k t st] obtain k1 where "kinv k1" "running k1 = Some t" "wait_point k1 = wait_point k"
      "settle t rest (wait_resume l old k1) = Inr k'" by blast
    with Acquire_body_kinv [of k1 t l rest old k'] show ?thesis using w by (simp add: wait_resume_def split: if_splits)
  qed
  show "kinv k'" if w: "wait_point k t = waits (YieldResume old # rest)"
    and st: "settle t rest (resumed (\<lambda>k. Cont (k\<lparr>level := old\<rparr>) []) k) = Inr k'"
  proof -
    from resumed_ok [OF k t st] obtain k1 where "kinv k1" "running k1 = Some t" "wait_point k1 = wait_point k"
      "settle t rest (Cont (k1\<lparr>level := old\<rparr>) []) = Inr k'" by blast
    then show ?thesis using code_kinv [of "k1\<lparr>level := old\<rparr>" t rest] w by simp
  qed
qed

lemma copy_exit_kinv:
  assumes k: "kinv k" and t: "running k = Some t" and wt: "wait_point k t = None"
    and st: "settle t rest (copy_exit n k) = Inr k'"
  shows "kinv k'"
proof -
  obtain th where th: "threads k n = Some th" using st by (cases "threads k n") (simp_all add: copy_exit_def)
  let ?k1 = "k\<lparr>threads := (threads k)(currentThread k :=
       map_option (\<lambda>me. me\<lparr>exitStatus := exitStatus th\<rparr>) (threads k (currentThread k)))\<rparr>"
  have "k' = set_code t rest ?k1" using st th by (simp add: copy_exit_def)
  moreover have v: "stat ?k1 = stat k" "ready ?k1 = ready k" "queue_of ?k1 = queue_of k" "wait_point ?k1 = wait_point k"
      "running ?k1 = running k" "sem_values ?k1 = sem_values k" "locked ?k1 = locked k" "holder ?k1 = holder k"
    by (auto simp: fun_eq_iff stat_def ready_def wait_point_def running_def sem_values_def locked_def holder_def option.map_comp comp_def
        intro!: queue_of_cong [THEN fun_cong])
  moreover have "kinv ?k1" by (rule kinvI) (use v kinvD [OF k] in simp_all)
  ultimately show ?thesis using code_kinv [of ?k1 t rest] t wt by simp
qed

lemma exec_kinv:
  assumes k: "kinv k" and t: "running k = Some t" and c: "code k t = i # rest"
    and st: "settle t rest (exec i k) = Inr k'"
  shows "kinv k'"
proof -
  have wt: "wait_point k t = waits (i # rest)" by (simp add: wait_point_def c)
  note code = code_kinv [OF k t]
  show ?thesis
  proof (cases i)
    case (SemP s)
    then have st': "settle t rest (P_body s (level k) (k\<lparr>level := IntOff\<rparr>)) = Inr k'" using st by (simp add: Semaphore_P_def)
    show ?thesis by (rule P_body_kinv [OF _ _ _ st']) (use k t wt SemP in simp_all)
  next
    case (SemV s)
    have "running (Semaphore_V s k) = running k" "wait_point (Semaphore_V s k) = wait_point k"
      by (auto simp: Semaphore_V_def Let_def wake_def split: list.splits)
    then show ?thesis using code_kinv [OF V_kinv [OF k], of s t rest] st SemV t wt by simp
  next
    case (LockAcquire l)
    then have st': "settle t rest (Acquire_body l (level k) (k\<lparr>level := IntOff\<rparr>)) = Inr k'"
      using st by (simp add: Lock_Acquire_def split: if_splits)
    show ?thesis by (rule Acquire_body_kinv [OF _ _ _ st']) (use k t wt LockAcquire in simp_all)
  next
    case (LockRelease l)
    have "running (release l k) = running k" "wait_point (release l k) = wait_point k"
      by (auto simp: release_def Let_def wake_def split: list.splits)
    then show ?thesis
      using code_kinv [OF release_kinv [OF k], of l t rest] st LockRelease t wt by (simp add: Lock_Release_def split: if_splits)
  next
    case (CondWait c l)
    then show ?thesis using Wait_kinv [OF k t _ , of rest c l k'] st wt by simp
  next
    case (CondSignal c l)
    then show ?thesis using Signal_kinv [OF k t, of rest c l] st wt by simp
  next
    case (CondBroadcast c l)
    let ?k1 = "fold (\<lambda>(_, t). ReadyToRun t) (cqueue (conds k c)) (set_cond c \<lparr>cqueue = []\<rparr> k)"
    have "running ?k1 = running k" "wait_point ?k1 = wait_point k" by simp_all
    then show ?thesis
      using code_kinv [OF broadcast_kinv [OF k, of c], of t rest] st CondBroadcast t wt
      by (simp add: Condition_Broadcast_def Let_def split: if_splits)
  next
    case ThreadYield
    then show ?thesis using Yield_kinv [OF k t _ ] st wt by simp
  next
    case ThreadFinish
    then show ?thesis using st code_kinv [of "k\<lparr>level := IntOff\<rparr>" t] k t wt
      by (auto simp: Thread_Finish_def split: option.splits)
  next
    case (ThreadFork n)
    then show ?thesis using Fork_kinv [OF k t _, of rest n k'] st wt by simp
  next
    case (ThreadJoin n)
    then show ?thesis using st code wt by (auto simp: Thread_Join_def split: option.splits if_splits)
  next
    case (Act f)
    then show ?thesis using st code_kinv [of "k\<lparr>shared := _\<rparr>" t rest] k t wt by (auto split: sum.splits)
  next
    case (While b body)
    then show ?thesis using st code wt by auto
  next
    case (PLoop s old)
    then show ?thesis using resumed_kinv(1) [OF k t, of s old rest] st wt by simp
  next
    case (AcquireLoop l old)
    then show ?thesis using resumed_kinv(2) [OF k t, of l old rest] st wt by simp
  next
    case (WaitResume c l old)
    then show ?thesis using resumed_kinv(3) [OF k t, of c l old rest] st wt by simp
  next
    case (YieldResume old)
    then show ?thesis using resumed_kinv(4) [OF k t, of old rest] st wt by simp
  next
    case (CopyExit n)
    then show ?thesis using copy_exit_kinv [OF k t, of rest n] st wt by simp
  next
    case Die
    then have "k' = Sleep (set_code t (Die # rest) (k\<lparr>threadToBeDestroyed := Some t\<rparr>))"
      using st running_facts(2) [OF k t] by (simp add: settle_def)
    then show ?thesis using Die_kinv [OF k t _ refl, of "Die # rest"] wt Die by simp
  next
    case Startup
    then show ?thesis using st code_kinv [of "k\<lparr>level := IntOn\<rparr>" t rest] k t wt by simp
  qed
qed

section \<open>Interrupt level and resume points\<close>

text \<open>
  Resume points stand only at the front of a thread's code, and a thread stands at one only
  with interrupts off.
\<close>

fun plain :: "'g instr \<Rightarrow> bool" where
  "plain (PLoop _ _) = False"
| "plain (AcquireLoop _ _) = False"
| "plain (WaitResume _ _ _) = False"
| "plain (While _ body) = list_all plain body"
| "plain _ = True"

definition resume_front :: "'g instr list \<Rightarrow> bool" where
  "resume_front c \<longleftrightarrow> (case c of [] \<Rightarrow> True | i # r \<Rightarrow> (plain i \<or> waits [i] \<noteq> None) \<and> list_all plain r)"

definition level_ok :: "('g, 'x) Kernel_scheme \<Rightarrow> bool" where
  "level_ok k \<longleftrightarrow> (\<forall>t. resume_front (code k t)) \<and> (\<forall>t. stat k t = Some JUST_CREATED \<longrightarrow> list_all plain (code k t)) \<and>
     (idle k \<longrightarrow> level k = IntOff) \<and> (level k = IntOn \<longrightarrow> list_all plain (code k (currentThread k)))"

lemma plain_waits: "list_all plain c \<Longrightarrow> waits c = None"
  by (cases c rule: waits.cases) auto

lemma plain_resume_front: "list_all plain c \<Longrightarrow> resume_front c"
  by (cases c) (auto simp: resume_front_def)

lemma level_okD:
  assumes "level_ok k"
  shows "resume_front (code k t)" "stat k t = Some JUST_CREATED \<Longrightarrow> list_all plain (code k t)"
    "idle k \<Longrightarrow> level k = IntOff" "level k = IntOn \<Longrightarrow> list_all plain (code k (currentThread k))"
  using assms by (auto simp: level_ok_def)

text \<open>What the routines leave alone: a thread gets new code only by \<^verbatim>\<open>Fork\<close>, which makes it ready.\<close>

definition frame :: "('g, 'x) Kernel_scheme \<Rightarrow> ('g, 'x) Kernel_scheme \<Rightarrow> bool" where
  "frame k k' \<longleftrightarrow> currentThread k' = currentThread k \<and> idle k' = idle k \<and>
     (\<forall>t. stat k' t = Some JUST_CREATED \<longrightarrow> stat k t = Some JUST_CREATED) \<and>
     (\<forall>t. code k' t = code k t \<or> (stat k t = Some JUST_CREATED \<and> stat k' t \<noteq> Some JUST_CREATED \<and> code k' t = Startup # code k t))"

lemma frameI:
  "currentThread k' = currentThread k \<Longrightarrow> idle k' = idle k \<Longrightarrow> threads k' = threads k \<Longrightarrow> code k' = code k \<Longrightarrow> frame k k'"
  by (simp add: frame_def stat_def)

lemma frame_trans: "frame k k1 \<Longrightarrow> frame k1 k2 \<Longrightarrow> frame k k2"
  unfolding frame_def by metis

lemma frame_upd [simp]:
  "frame k (set_sem s x k)" "frame k (set_lock l y k)" "frame k (set_cond c z k)" "frame k (k\<lparr>level := v\<rparr>)" "frame k (k\<lparr>shared := g\<rparr>)"
  by (auto intro!: frameI)

lemma frame_ReadyToRun [simp]: "frame k (ReadyToRun t k)"
  by (auto simp: frame_def ReadyToRun_def setStatus_def stat_def)

lemma frame_wake [simp]: "frame k (wake q k)"
  by (auto simp: wake_def frameI split: list.splits)

lemma frame_fold [simp]: "frame k (fold (\<lambda>(_, t). ReadyToRun t) q k)"
proof (induction q arbitrary: k)
  case (Cons x q)
  obtain p t where "x = (p, t)" by (cases x)
  then show ?case using frame_trans [OF frame_ReadyToRun Cons.IH] by simp
qed (simp add: frameI)

lemma frame_V [simp]: "frame k (Semaphore_V s k)" and frame_release [simp]: "frame k (release l k)"
  unfolding Semaphore_V_def release_def Let_def by (rule frame_trans [OF _ frame_wake]; simp)+

lemma frame_code:
  assumes ok: "level_ok k" and f: "frame k k'"
  shows "resume_front (code k' t)" "stat k' t = Some JUST_CREATED \<Longrightarrow> list_all plain (code k' t)"
proof -
  have u: "code k' t = code k t \<or> (stat k t = Some JUST_CREATED \<and> stat k' t \<noteq> Some JUST_CREATED \<and> code k' t = Startup # code k t)"
      "stat k' t = Some JUST_CREATED \<Longrightarrow> stat k t = Some JUST_CREATED"
    using f by (auto simp: frame_def)
  show "resume_front (code k' t)" using u(1) level_okD(1,2) [OF ok, of t] by (auto simp: resume_front_def)
  show "list_all plain (code k' t)" if "stat k' t = Some JUST_CREATED" using u that level_okD(2) [OF ok, of t] by auto
qed

lemma frame_level_ok:
  assumes ok: "level_ok k" and f: "frame k k'" and c: "resume_front c" and t: "stat k t \<noteq> Some JUST_CREATED"
  shows "resume_front (code (set_code t c k') u)"
    and "stat (set_code t c k') u = Some JUST_CREATED \<Longrightarrow> list_all plain (code (set_code t c k') u)"
  using frame_code [OF ok f, of u] c t f by (auto simp: frame_def)

text \<open>What an instruction hands back: plain code to go on with, or one resume point.\<close>

lemma resumed_frame:
  assumes "resumed g k = r" "\<And>e. r \<noteq> Err e"
  obtains k1 where "frame k k1" "g k1 = r" "level k1 = level k"
proof (cases "threadToBeDestroyed k")
  case None
  then show ?thesis using that [of k] assms by (auto simp: resumed_def after_switch_def frameI)
next
  case (Some z)
  let ?k1 = "k\<lparr>threads := (threads k)(z := None), threadToBeDestroyed := None\<rparr>"
  have "frame k ?k1" by (auto simp: frame_def stat_def)
  then show ?thesis using that [of ?k1] assms Some by (auto simp: resumed_def after_switch_def ASSERT_def split: if_splits sum.splits)
qed

lemma resumed_body:
  assumes "resumed g k = r" "\<And>e. r \<noteq> Err e" "\<And>k1. g k1 = r \<Longrightarrow> frame k1 k' \<and> P"
  shows "frame k k' \<and> P"
  using resumed_frame [OF assms(1,2)] assms(3) frame_trans by metis

lemma P_body_code:
  "P_body s old k = Cont k' pre \<Longrightarrow> frame k k' \<and> pre = []"
  "P_body s old k = Sleeps k' pre \<Longrightarrow> frame k k' \<and> pre = [PLoop s old]"
  by (auto simp: P_body_def Let_def frame_trans [OF frame_upd(1) frame_upd(4)] split: if_splits)

lemma Acquire_body_code:
  "Acquire_body l old k = Cont k' pre \<Longrightarrow> frame k k' \<and> pre = []"
  "Acquire_body l old k = Sleeps k' pre \<Longrightarrow> frame k k' \<and> pre = [AcquireLoop l old]"
  by (auto simp: Acquire_body_def Let_def frame_trans [OF frame_upd(2) frame_upd(4)] split: if_splits)

lemma body_not_Runs [simp]: "P_body s old k \<noteq> Runs n k' pre" "Acquire_body l old k \<noteq> Runs n k' pre"
  by (auto simp: P_body_def Acquire_body_def Let_def)

lemma exec_Cont:
  assumes e: "exec i k = Cont k' pre" and i: "plain i \<or> waits [i] \<noteq> None"
  shows "frame k k' \<and> list_all plain pre"
proof (cases "waits [i]")
  case None
  with i have p: "plain i" by simp
  show ?thesis
  proof (cases i)
    case (SemP s)
    then show ?thesis using e P_body_code(1) frame_trans [OF frame_upd(4)] by (fastforce simp: Semaphore_P_def)
  next
    case (LockAcquire l)
    then show ?thesis using e Acquire_body_code(1) frame_trans [OF frame_upd(4)] by (fastforce simp: Lock_Acquire_def split: if_splits)
  next
    case (LockRelease l)
    then show ?thesis using e by (auto simp: Lock_Release_def split: if_splits)
  next
    case (CondWait c l)
    then show ?thesis using e by (auto simp: Condition_Wait_def Let_def split: if_splits)
  next
    case (CondSignal c l)
    then show ?thesis using e frame_trans [OF frame_upd(3) frame_wake] by (auto simp: Condition_Signal_def Let_def split: if_splits)
  next
    case (CondBroadcast c l)
    then show ?thesis using e frame_trans [OF frame_upd(3) frame_fold] by (auto simp: Condition_Broadcast_def Let_def split: if_splits)
  next
    case ThreadYield
    then show ?thesis using e by (auto simp: Thread_Yield_def FindNextToRun_def Let_def frameI split: list.splits)
  next
    case ThreadFinish
    then show ?thesis using e by (auto simp: Thread_Finish_def split: option.splits if_splits)
  next
    case (ThreadFork n)
    then show ?thesis
      using e by (auto simp: Thread_Fork_def frame_def ReadyToRun_def setStatus_def stat_def split: option.splits if_splits)
  next
    case (ThreadJoin n)
    then show ?thesis using e by (auto simp: Thread_Join_def frameI split: option.splits if_splits)
  next
    case (CopyExit n)
    then show ?thesis using e by (auto simp: copy_exit_def frame_def stat_def option.map_comp comp_def split: option.splits if_splits)
  next
    case (YieldResume old)
    then have "resumed (\<lambda>k. Cont (k\<lparr>level := old\<rparr>) []) k = Cont k' pre" using e by simp
    from resumed_frame [OF this] obtain k1 where "frame k k1" "k' = k1\<lparr>level := old\<rparr>" "pre = []" by auto
    then show ?thesis using frame_trans [OF _ frame_upd(4)] by simp
  qed (use e p in \<open>auto simp: frameI split: sum.splits if_splits\<close>)
next
  case (Some q)
  show ?thesis
  proof (cases i)
    case (PLoop s old)
    then show ?thesis by (intro resumed_body [of "P_body s old" k]) (use e in \<open>auto dest: P_body_code(1)\<close>)
  next
    case (AcquireLoop l old)
    then show ?thesis by (intro resumed_body [of "Acquire_body l old" k]) (use e in \<open>auto dest: Acquire_body_code(1)\<close>)
  next
    case (WaitResume c l old)
    then show ?thesis
      by (intro resumed_body [of "wait_resume l old" k]) (use e in \<open>auto simp: wait_resume_def dest: Acquire_body_code(1) split: if_splits\<close>)
  qed (use Some in simp_all)
qed

lemma exec_Sleeps:
  assumes e: "exec i k = Sleeps k' pre"
  shows "frame k k' \<and> (\<exists>j. pre = [j] \<and> (plain j \<or> waits [j] \<noteq> None))"
proof (cases i)
  case (SemP s)
  then show ?thesis using e P_body_code(2) frame_trans [OF frame_upd(4)] by (fastforce simp: Semaphore_P_def)
next
  case (LockAcquire l)
  then show ?thesis using e Acquire_body_code(2) frame_trans [OF frame_upd(4)] by (fastforce simp: Lock_Acquire_def split: if_splits)
next
  case (CondWait c l)
  have "frame k (set_cond c z (release l (k\<lparr>level := IntOff\<rparr>)))" for z
    by (rule frame_trans [OF frame_trans [OF frame_upd(4) frame_release] frame_upd(3)])
  then show ?thesis using e CondWait by (auto simp: Condition_Wait_def Let_def split: if_splits)
next
  case (PLoop s old)
  then show ?thesis by (intro resumed_body [of "P_body s old" k]) (use e in \<open>auto dest: P_body_code(2)\<close>)
next
  case (AcquireLoop l old)
  then show ?thesis by (intro resumed_body [of "Acquire_body l old" k]) (use e in \<open>auto dest: Acquire_body_code(2)\<close>)
next
  case (WaitResume c l old)
  then show ?thesis
    by (intro resumed_body [of "wait_resume l old" k]) (use e in \<open>auto simp: wait_resume_def dest: Acquire_body_code(2) split: if_splits\<close>)
next
  case Die
  then show ?thesis using e by (auto simp: frameI)
qed (use e in \<open>auto simp: Lock_Release_def Condition_Signal_def Condition_Broadcast_def Let_def Thread_Yield_def FindNextToRun_def
    Thread_Finish_def Thread_Fork_def Thread_Join_def copy_exit_def resumed_def after_switch_def split: sum.splits if_splits list.splits option.splits\<close>)

lemma Yield_Runs:
  assumes "Thread_Yield k = Runs n k' pre"
  shows "frame k k' \<and> pre = [YieldResume (level k)] \<and> level k' = IntOff"
proof -
  have "frame k (ReadyToRun u (k\<lparr>level := IntOff, readyList := r\<rparr>))" for u r
    by (rule frame_trans [OF _ frame_ReadyToRun]) (simp add: frameI)
  then show ?thesis
    using assms by (auto simp: Thread_Yield_def FindNextToRun_def Let_def split: list.splits)
qed

lemma exec_Runs:
  assumes e: "exec i k = Runs n k' pre"
  shows "frame k k' \<and> pre = [YieldResume (level k)] \<and> level k' = IntOff"
proof (cases i)
  case ThreadYield
  then show ?thesis using e Yield_Runs by simp
next
  case (PLoop s old)
  then show ?thesis using e by (auto simp: resumed_def split: sum.splits)
next
  case (AcquireLoop l old)
  then show ?thesis using e by (auto simp: resumed_def split: sum.splits)
next
  case (WaitResume c l old)
  then show ?thesis using e by (auto simp: resumed_def wait_resume_def split: sum.splits if_splits)
qed (use e in \<open>auto simp: Lock_Release_def Condition_Signal_def Condition_Broadcast_def Condition_Wait_def Let_def Semaphore_P_def Lock_Acquire_def
    Thread_Finish_def Thread_Fork_def Thread_Join_def copy_exit_def resumed_def split: sum.splits if_splits option.splits\<close>)

section \<open>The system\<close>

lemma dispatch_level_ok:
  assumes "level k = IntOff" "\<And>t. resume_front (code k t)" "\<And>t. stat k t = Some JUST_CREATED \<Longrightarrow> list_all plain (code k t)"
  shows "level_ok (dispatch k)"
  using assms
  by (auto simp: level_ok_def dispatch_def FindNextToRun_def Run_def stat_def setStatus_def split: list.splits)

lemma settle_level_ok:
  assumes ok: "level_ok k" and k: "kinv k" and t: "running k = Some t"
    and C: "\<And>k1 pre. r = Cont k1 pre \<Longrightarrow> frame k k1 \<and> list_all plain (pre @ rest)"
    and S: "\<And>k1 pre. r = Sleeps k1 pre \<Longrightarrow> frame k k1 \<and> resume_front (pre @ rest)"
    and R: "\<And>n k1 pre. r = Runs n k1 pre \<Longrightarrow> frame k k1 \<and> resume_front (pre @ rest) \<and> level k1 = IntOff"
    and st: "settle t rest r = Inr k'"
  shows "level_ok k'"
proof -
  have nj: "stat k t \<noteq> Some JUST_CREATED" using running_facts(1) [OF k t] by simp
  note f = running_facts(2,3) [OF k t]
  show ?thesis
  proof (cases r)
    case (Cont k1 pre)
    note fr = C [OF Cont]
    with frame_level_ok [OF ok, of k1 "pre @ rest" t] nj
    have "resume_front (code (set_code t (pre @ rest) k1) u)"
        "stat (set_code t (pre @ rest) k1) u = Some JUST_CREATED \<Longrightarrow> list_all plain (code (set_code t (pre @ rest) k1) u)" for u
      by (blast intro: plain_resume_front)+
    moreover have "currentThread k1 = t" "\<not> idle k1" using fr f by (auto simp: frame_def)
    ultimately show ?thesis using st Cont fr by (auto simp: level_ok_def)
  next
    case (Sleeps k1 pre)
    let ?k2 = "set_code t (pre @ rest) k1"
    have e: "k' = dispatch (setStatus (currentThread k1) BLOCKED ?k2)" "level k1 = IntOff"
      using st Sleeps by (simp_all add: settle_def Sleep_def)
    note l = frame_level_ok [OF ok, of k1 "pre @ rest" t] S [OF Sleeps]
    show ?thesis
      unfolding e(1)
    proof (rule dispatch_level_ok)
      fix u assume "stat (setStatus (currentThread k1) BLOCKED ?k2) u = Some JUST_CREATED"
      then have "stat ?k2 u = Some JUST_CREATED" by (auto simp: stat_def setStatus_def split: if_splits)
      then show "list_all plain (code (setStatus (currentThread k1) BLOCKED ?k2) u)" using l nj by auto
    qed (use l nj e(2) in auto)
  next
    case (Runs n k1 pre)
    let ?k2 = "set_code t (pre @ rest) k1"
    note l = frame_level_ok [OF ok, of k1 "pre @ rest" t] R [OF Runs]
    have e: "k' = Run n ?k2" using st Runs by (simp add: settle_def)
    have j: "stat (Run n ?k2) u = Some JUST_CREATED \<Longrightarrow> stat ?k2 u = Some JUST_CREATED" for u
      by (auto simp: Run_def stat_def setStatus_def split: if_splits)
    have "level (Run n ?k2) = IntOff" "\<not> idle (Run n ?k2)" using l by (simp_all add: Run_def)
    then show ?thesis using e j l nj by (auto simp: level_ok_def)
  qed (use st in simp)
qed

definition sysinv :: "('g, 'x) Kernel_scheme \<Rightarrow> bool" where
  "sysinv k \<longleftrightarrow> kinv k \<and> level_ok k"

lemma resume_frontI: "list_all plain rest \<Longrightarrow> plain j \<or> waits [j] \<noteq> None \<Longrightarrow> resume_front (j # rest)"
  by (simp add: resume_front_def)

lemma running_current: "\<not> idle k \<Longrightarrow> running k = Some (currentThread k)"
  by (simp add: running_def)

lemma step_thread_sysinv:
  assumes k: "kinv k" and ok: "level_ok k" and ni: "\<not> idle k" and st: "step_thread k = Inr k'"
  shows "sysinv k'"
proof -
  let ?t = "currentThread k"
  note t = running_current [OF ni]
  show ?thesis
  proof (cases "code k ?t")
    case Nil
    then have s: "settle ?t [] (Thread_Finish k) = Inr k'" using st by (simp add: step_thread_def)
    have "wait_point k ?t = None" by (simp add: wait_point_def Nil)
    then have "kinv k'" using s code_kinv [of "k\<lparr>level := IntOff\<rparr>" ?t] k t by (auto simp: Thread_Finish_def split: option.splits)
    moreover have "level_ok k'"
      by (rule settle_level_ok [OF ok k t _ _ _ s]) (auto simp: Thread_Finish_def split: option.splits if_splits)
    ultimately show ?thesis by (simp add: sysinv_def)
  next
    case (Cons i rest)
    then have s: "settle ?t rest (exec i k) = Inr k'" using st by (simp add: step_thread_def)
    have i: "plain i \<or> waits [i] \<noteq> None" "list_all plain rest"
      using level_okD(1) [OF ok, of ?t] Cons by (simp_all add: resume_front_def)
    have "level_ok k'"
    proof (rule settle_level_ok [OF ok k t _ _ _ s])
      show "frame k k1 \<and> list_all plain (pre @ rest)" if "exec i k = Cont k1 pre" for k1 pre
        using exec_Cont [OF that i(1)] i(2) by simp
      show "frame k k1 \<and> resume_front (pre @ rest)" if "exec i k = Sleeps k1 pre" for k1 pre
        using exec_Sleeps [OF that] i(2) by (auto simp: resume_front_def)
      show "frame k k1 \<and> resume_front (pre @ rest) \<and> level k1 = IntOff" if "exec i k = Runs n k1 pre" for n k1 pre
        using exec_Runs [OF that] i(2) by (auto intro: resume_frontI)
    qed
    then show ?thesis using exec_kinv [OF k t Cons s] by (simp add: sysinv_def)
  qed
qed

lemma frame_step_level_ok:
  assumes ok: "level_ok k" and f: "frame k k'" "level k' = level k"
    and ni: "\<not> idle k" and nj: "stat k (currentThread k) \<noteq> Some JUST_CREATED"
  shows "level_ok k'"
  using frame_code [OF ok f(1)] level_okD(3,4) [OF ok] f ni nj unfolding level_ok_def frame_def by metis

lemma V_level [simp]: "level (Semaphore_V s k) = level k"
  by (auto simp: Semaphore_V_def Let_def wake_def split: list.splits)

lemma kstep_sysinv:
  assumes "kstep devs k k'" "sysinv k"
  shows "sysinv k'"
  using assms
proof (induction rule: kstep.induct)
  case (execute k k')
  then show ?case using step_thread_sysinv unfolding sysinv_def by blast
next
  case (interrupt k s)
  then have k: "kinv k" "level_ok k" by (simp_all add: sysinv_def)
  have "stat k (currentThread k) \<noteq> Some JUST_CREATED" using running_facts(1) [OF k(1) running_current [OF interrupt(1)]] by simp
  then show ?case using frame_step_level_ok [OF k(2) frame_V V_level interrupt(1)] V_kinv [OF k(1)] by (simp add: sysinv_def)
next
  case (idle_interrupt k s)
  then have k: "kinv k" "level_ok k" by (simp_all add: sysinv_def)
  let ?k1 = "Semaphore_V s k"
  have "(?k1)\<lparr>idle := True\<rparr> = ?k1" using idle_interrupt(1) frame_V [of k s] by (cases ?k1) (simp add: frame_def)
  then have "kinv (dispatch ?k1)" using dispatch_kinv [of ?k1] V_kinv [OF k(1)] by simp
  moreover have "level_ok (dispatch ?k1)"
  proof (rule dispatch_level_ok)
    show "resume_front (code ?k1 t)" "stat ?k1 t = Some JUST_CREATED \<Longrightarrow> list_all plain (code ?k1 t)" for t
      by (rule frame_code [OF k(2) frame_V])+
  qed (use level_okD(3) [OF k(2)] idle_interrupt(1) in simp)
  ultimately show ?case by (simp add: sysinv_def)
next
  case (preempt k k')
  then have k: "kinv k" "level_ok k" by (simp_all add: sysinv_def)
  let ?t = "currentThread k"
  note t = running_current [OF preempt(1)] and p = level_okD(4) [OF k(2) preempt(2)]
  have "wait_point k ?t = None" using plain_waits [OF p] by (simp add: wait_point_def)
  then have "kinv k'" using Yield_kinv [OF k(1) t _ preempt(3)] by simp
  moreover have "level_ok k'"
  proof (rule settle_level_ok [OF k(2,1) t _ _ _ preempt(3)])
    show "frame k k1 \<and> list_all plain (pre @ code k ?t)" if "Thread_Yield k = Cont k1 pre" for k1 pre
      using exec_Cont [of ThreadYield k k1 pre] that p by simp
    show "frame k k1 \<and> resume_front (pre @ code k ?t)" if "Thread_Yield k = Sleeps k1 pre" for k1 pre
      using that by (auto simp: Thread_Yield_def Let_def split: prod.splits option.splits)
    show "frame k k1 \<and> resume_front (pre @ code k ?t) \<and> level k1 = IntOff" if "Thread_Yield k = Runs n k1 pre" for n k1 pre
      using Yield_Runs [OF that] p by (auto intro: resume_frontI)
  qed
  ultimately show ?case by (simp add: sysinv_def)
qed

lemma reachable_sysinv: "reachable devs k0 k \<Longrightarrow> sysinv k0 \<Longrightarrow> sysinv k"
  by (induction rule: reachable.induct) (auto intro: kstep_sysinv)

text \<open>A kernel in which only the current thread has started satisfies the invariant.\<close>

lemma kinv_start:
  assumes "\<not> idle k" "readyList k = []" "threadToBeDestroyed k = None" "\<And>q. queue_of k q = []" "\<And>t. waits (code k t) = None"
    "\<And>t. stat k t = Some RUNNING \<longleftrightarrow> t = currentThread k" "\<And>t. stat k t \<noteq> Some READY" "\<And>s. 0 \<le> svalue (sems k s)" "\<And>l. locks k l = Lock_Lock"
  shows "kinv k"
proof (rule kinvI)
  have r: "ready k = []" "running k = Some (currentThread k)" using assms(1,2) by (simp_all add: ready_def running_def)
  show "places (ready k) (stat k) (queue_of k) (wait_point k) (running k) (threadToBeDestroyed k)"
    by (rule placesI) (use assms r in \<open>auto simp: wait_point_def simp del: queue_of.simps\<close>)
  show "no_lost (can_run (ready k) (running k)) (queue_of k) (wait_point k) (sem_values k) (locked k)"
    by (rule no_lostI) (use assms(4) r in \<open>simp_all add: can_run_def del: queue_of.simps\<close>)
qed (use assms in \<open>simp_all add: sem_values_def locked_def holder_def Lock_Lock_def\<close>)

text \<open>Threads to be forked are new, programs have no resume points, semaphores start at no less than zero.\<close>

definition startable :: "(nat \<Rightarrow> Thread option) \<Rightarrow> (nat \<Rightarrow> 'g instr list) \<Rightarrow> (nat \<Rightarrow> int) \<Rightarrow> bool" where
  "startable created prog values \<longleftrightarrow> (\<forall>t th. created t = Some th \<longrightarrow> tstatus th = JUST_CREATED) \<and>
     (\<forall>t. list_all plain (prog t)) \<and> (\<forall>s. 0 \<le> values s)"

lemma Initialize_kernel_sysinv:
  assumes "startable created prog values"
  shows "sysinv (Initialize_kernel created prog values g)" (is "sysinv ?k")
proof -
  have created: "\<And>t th. created t = Some th \<Longrightarrow> tstatus th = JUST_CREATED" and prog: "\<And>t. list_all plain (prog t)" and v: "\<And>s. 0 \<le> values s"
    using assms by (auto simp: startable_def)
  have q: "queue_of ?k q = []" for q
    by (cases q) (simp_all add: Initialize_kernel_def Interrupt.defs Semaphore_Semaphore_def Lock_Lock_def Condition_Condition_def)
  have st: "stat ?k t = Some RUNNING \<longleftrightarrow> t = currentThread ?k" for t
    using created by (auto simp: stat_def Initialize_kernel_def Interrupt.defs Thread_Thread_def)
  have sr: "stat ?k t \<noteq> Some READY" for t
    using created by (auto simp: stat_def Initialize_kernel_def Interrupt.defs Thread_Thread_def)
  have "kinv ?k"
    by (rule kinv_start) (use q st sr v plain_waits [OF prog] in
      \<open>auto simp: Initialize_kernel_def Interrupt.defs Semaphore_Semaphore_def simp del: queue_of.simps\<close>)
  moreover have "level_ok ?k"
    using plain_resume_front [OF prog] prog by (simp add: level_ok_def Initialize_kernel_def Interrupt.defs)
  ultimately show ?thesis by (simp add: sysinv_def)
qed

text \<open>A run without interrupts, for the examples.\<close>

fun run_steps :: "nat \<Rightarrow> ('g, 'x) Kernel_scheme \<Rightarrow> ('g, 'x) Kernel_scheme res" where
  "run_steps 0 k = Inr k"
| "run_steps (Suc n) k = (if idle k then Inr k else bindE (step_thread k) (run_steps n))"

lemma run_steps_reachable: "reachable devs k0 k \<Longrightarrow> run_steps n k = Inr k' \<Longrightarrow> reachable devs k0 k'"
proof (induction n arbitrary: k)
  case (Suc n)
  then show ?case by (cases "step_thread k") (auto split: if_splits intro: reachable.step kstep.execute)
qed simp

definition three_threads :: "unit Kernel" where
  "three_threads = Initialize_kernel [1 \<mapsto> Thread_Thread ''t1'' False 0 0, 2 \<mapsto> Thread_Thread ''t2'' False 0 0] ((\<lambda>_. [])
     (0 := [LockAcquire 5, ThreadFork 1, ThreadFork 2, ThreadYield, LockRelease 5],
       1 := [LockAcquire 5, LockRelease 5], 2 := [LockAcquire 5, LockRelease 5])) (\<lambda>_. 0) ()"

lemmas run_defs = step_thread_def settle_def Thread_Yield_def Thread_Fork_def FindNextToRun_def Lock_Acquire_def Lock_Release_def
  isHeldByCurrentThread_def Acquire_body_def release_def wake_def ReadyToRun_def setStatus_def getPriority_def me_def Run_def Sleep_def dispatch_def
  set_lock_def set_sem_def set_cond_def set_code_def resumed_def after_switch_def Thread_Finish_def
  Initialize_kernel_def Interrupt.defs Interrupt_Interrupt_def Semaphore_Semaphore_def Lock_Lock_def Condition_Condition_def Thread_Thread_def

lemma three_threads_ok:
  "startable [1 \<mapsto> Thread_Thread ''t1'' False 0 0, 2 \<mapsto> Thread_Thread ''t2'' False 0 0]
     ((\<lambda>_. [] :: unit instr list) (0 := [LockAcquire 5, ThreadFork 1, ThreadFork 2, ThreadYield, LockRelease 5],
       1 := [LockAcquire 5, LockRelease 5], 2 := [LockAcquire 5, LockRelease 5])) (\<lambda>_. 0)"
  by (auto simp: startable_def Thread_Thread_def split: if_splits)

lemma three_threads_run:
  obtains k k' where "run_steps 9 three_threads = Inr k" "queue_of k (QLock 5) = [1, 2]" "kstep {} k k'" "currThread (locks k' 5) \<noteq> currThread (locks k 5)"
    "lqueue (locks k' 5) \<noteq> []" "\<not> isLocked (locks k' 5)"
proof -
  have "\<exists>k. run_steps 9 three_threads = Inr k \<and> queue_of k (QLock 5) = [1, 2] \<and> \<not> idle k \<and>
      (\<exists>k'. step_thread k = Inr k' \<and> currThread (locks k' 5) \<noteq> currThread (locks k 5) \<and> lqueue (locks k' 5) \<noteq> [] \<and> \<not> isLocked (locks k' 5))"
    unfolding three_threads_def by (simp add: run_defs Let_def eval_nat_numeral)
  then show ?thesis using that kstep.execute by metis
qed

subsection \<open>Who holds a lock\<close>

lemma holder_upd [simp]: "holder (k\<lparr>level := x\<rparr>) = holder k" "holder (k\<lparr>shared := g\<rparr>) = holder k" "holder (k\<lparr>readyList := r\<rparr>) = holder k"
    "holder (k\<lparr>threads := th\<rparr>) = holder k" "holder (k\<lparr>threadToBeDestroyed := z\<rparr>) = holder k" "holder (k\<lparr>code := c\<rparr>) = holder k"
  by (simp_all add: fun_eq_iff holder_def)

lemma holder_wake [simp]: "holder (wake q k) = holder k"
  by (auto simp: wake_def split: list.splits)

lemma holder_fold [simp]: "holder (fold (\<lambda>(_, t). ReadyToRun t) q k) = holder k"
  by (induction q arbitrary: k) (auto split: prod.splits)

lemma holder_release [simp]: "holder (release l k) = (holder k)(l := None)"
  by (simp add: release_def Let_def)

lemma holder_V [simp]: "holder (Semaphore_V s k) = holder k"
  by (simp add: Semaphore_V_def Let_def)

lemma holder_dispatch [simp]: "holder (dispatch k) = holder k"
  by (auto simp: dispatch_def FindNextToRun_def split: list.splits)

fun end_state :: "(('g, 'x) Kernel_scheme, 'g) outcome \<Rightarrow> ('g, 'x) Kernel_scheme option" where
  "end_state (Cont k _) = Some k"
| "end_state (Sleeps k _) = Some k"
| "end_state (Runs _ k _) = Some k"
| "end_state (Err _) = None"

lemma settle_end_state:
  assumes "settle t rest r = Inr k'"
  obtains k1 where "end_state r = Some k1" "holder k' = holder k1"
  using assms that by (cases r) (auto simp: settle_def Sleep_def)

lemma after_switch_holder:
  assumes "end_state (resumed f k) = Some k1"
  obtains k0 where "end_state (f k0) = Some k1" "holder k0 = holder k" "locked k0 = locked k" "currentThread k0 = currentThread k"
proof (cases "after_switch k")
  case (Inr k0)
  then have "holder k0 = holder k" "locked k0 = locked k" "currentThread k0 = currentThread k"
    by (auto simp: fun_eq_iff after_switch_def holder_def locked_def split: option.splits)
  then show ?thesis using that assms Inr by (auto simp: resumed_def)
qed (use assms in \<open>simp add: resumed_def\<close>)

lemma Acquire_body_holder:
  assumes "end_state (Acquire_body l old k) = Some k1" "locked k l \<longleftrightarrow> holder k l \<noteq> None" "holder k1 l' \<noteq> holder k l'"
  shows "l' = l \<and> holder k l = None \<and> holder k1 l = Some (currentThread k)"
  using assms by (auto simp: Acquire_body_def Let_def locked_def holder_def split: if_splits)

lemma P_body_holder: "end_state (P_body s old k) = Some k1 \<Longrightarrow> holder k1 = holder k"
  by (auto simp: P_body_def Let_def split: if_splits)

lemma exec_holder:
  assumes e: "end_state (exec i k) = Some k1" and lk: "\<And>l. locked k l \<longleftrightarrow> holder k l \<noteq> None" and ch: "holder k1 l \<noteq> holder k l"
  shows "(holder k l = Some (currentThread k) \<and> holder k1 l = None \<and> (i = LockRelease l \<or> (\<exists>c. i = CondWait c l))) \<or>
    (holder k l = None \<and> holder k1 l = Some (currentThread k) \<and>
       (i = LockAcquire l \<or> (\<exists>old. i = AcquireLoop l old) \<or> (\<exists>c old. i = WaitResume c l old)))"
proof (cases i)
  case (SemP s)
  then show ?thesis using e ch P_body_holder by (fastforce simp: Semaphore_P_def)
next
  case (LockAcquire l')
  then show ?thesis
    using e ch lk Acquire_body_holder [of l' "level k" "k\<lparr>level := IntOff\<rparr>" k1 l]
    by (auto simp: Lock_Acquire_def locked_def split: if_splits)
next
  case (LockRelease l')
  then show ?thesis using e ch by (auto simp: Lock_Release_def isHeldByCurrentThread_def holder_def [symmetric] split: if_splits)
next
  case (CondWait c l')
  then show ?thesis
    using e ch by (auto simp: Condition_Wait_def Let_def isHeldByCurrentThread_def holder_def [symmetric] split: if_splits)
next
  case (PLoop s old)
  then have "end_state (resumed (P_body s old) k) = Some k1" using e by simp
  then show ?thesis using ch P_body_holder by (metis after_switch_holder)
next
  case (AcquireLoop l' old)
  then have "end_state (resumed (Acquire_body l' old) k) = Some k1" using e by simp
  from after_switch_holder [OF this] obtain k0 where "end_state (Acquire_body l' old k0) = Some k1" "holder k0 = holder k"
    "locked k0 = locked k" "currentThread k0 = currentThread k" by blast
  then show ?thesis using Acquire_body_holder [of l' old k0 k1 l] ch lk AcquireLoop by auto
next
  case (WaitResume c l' old)
  then have "end_state (resumed (wait_resume l' old) k) = Some k1" using e by simp
  from after_switch_holder [OF this] obtain k0 where "end_state (wait_resume l' old k0) = Some k1" "holder k0 = holder k"
    "locked k0 = locked k" "currentThread k0 = currentThread k" by blast
  then show ?thesis using Acquire_body_holder [of l' old k0 k1 l] ch lk WaitResume by (auto simp: wait_resume_def split: if_splits)
next
  case (YieldResume old)
  then have "end_state (resumed (\<lambda>k. Cont (k\<lparr>level := old\<rparr>) []) k) = Some k1" using e by simp
  from after_switch_holder [OF this] obtain k0 where "end_state (Cont (k0\<lparr>level := old\<rparr>) []) = Some k1" "holder k0 = holder k" by blast
  then show ?thesis using ch by auto
next
  case ThreadYield
  then show ?thesis using e ch by (auto simp: Thread_Yield_def FindNextToRun_def Let_def split: list.splits)
qed (use e ch in \<open>auto simp: Condition_Signal_def Condition_Broadcast_def Let_def Thread_Finish_def Thread_Fork_def Thread_Join_def copy_exit_def
    split: sum.splits if_splits option.splits\<close>)

section \<open>Properties\<close>

text \<open>
  C4. In every state the system can reach from \<^verbatim>\<open>Initialize\<close>, through any interleaving of its
  threads, device interrupts and timer preemptions, each thread is in one place: exactly the
  current thread of a processor that is not idle is \<^verbatim>\<open>RUNNING\<close>; the ready list holds exactly the
  threads that are \<^verbatim>\<open>READY\<close>, each once; a queue of a semaphore, lock or condition holds exactly
  the threads that are \<^verbatim>\<open>BLOCKED\<close> at the resume point of that very queue, each once; the thread to
  be destroyed is in none of them. The value of a semaphore is never negative and a lock is
  locked exactly when it records a holder.
\<close>

theorem thread_places:
  assumes "reachable devs (Initialize_kernel created prog values g) k"
    and "startable created prog values"
  shows "(stat k t = Some RUNNING \<longleftrightarrow> \<not> idle k \<and> t = currentThread k) \<and>
    distinct (ready k) \<and> (t \<in> set (ready k) \<longleftrightarrow> stat k t = Some READY) \<and>
    distinct (queue_of k q) \<and> (t \<in> set (queue_of k q) \<longleftrightarrow> stat k t = Some BLOCKED \<and> waits (code k t) = Some q) \<and>
    (threadToBeDestroyed k = Some t \<longrightarrow> stat k t = Some BLOCKED \<and> waits (code k t) = None) \<and>
    0 \<le> svalue (sems k s) \<and> (isLocked (locks k l) \<longleftrightarrow> currThread (locks k l) \<noteq> None)"
proof -
  have k: "kinv k" using reachable_sysinv [OF assms(1) Initialize_kernel_sysinv [OF assms(2)]] by (simp add: sysinv_def)
  note D = placesD [OF kinvD(1) [OF k]]
  have "t \<in> set (ready k) \<longleftrightarrow> stat k t = Some READY" using D(2,9) [of t] by blast
  moreover have "t \<in> set (queue_of k q) \<longleftrightarrow> stat k t = Some BLOCKED \<and> waits (code k t) = Some q"
    using D(4,5,10) [of t q] unfolding wait_point_def by blast
  moreover have "stat k t = Some RUNNING \<longleftrightarrow> \<not> idle k \<and> t = currentThread k" using D(6) [of t] by (auto simp: running_def)
  ultimately show ?thesis
    using D(1,3) D(7,8) [of t] kinvD(3) [OF k, of s] kinvD(4) [OF k, of l]
    by (simp add: wait_point_def sem_values_def locked_def holder_def del: queue_of.simps)
qed

theorem thread_places_witness:
  "\<exists>k. reachable {} three_threads k \<and> queue_of k (QLock 5) = [1, 2] \<and> stat k 2 = Some BLOCKED \<and> waits (code k 2) = Some (QLock 5)"
proof -
  obtain k where k: "run_steps 9 three_threads = Inr k" "queue_of k (QLock 5) = [1, 2]" by (rule three_threads_run)
  have r: "reachable {} three_threads k" by (rule run_steps_reachable [OF reachable.start k(1)])
  have "stat k 2 = Some BLOCKED \<and> waits (code k 2) = Some (QLock 5)"
    using thread_places [OF r [unfolded three_threads_def] three_threads_ok, of 2 "QLock 5"] k(2)
    by (simp del: queue_of.simps)
  with r k(2) show ?thesis by blast
qed

text \<open>
  C7. No wake-up is lost: in every reachable state, while a thread sleeps in the queue of a
  semaphore, as many woken threads as the value of the semaphore says are ready or running
  at the retry of their \<^verbatim>\<open>P\<close>; so a positive value with a waiting thread always comes with one
  that will take it. While a thread sleeps for a lock that is free, some woken thread is ready
  or running at the retry of its \<^verbatim>\<open>Acquire\<close>.
\<close>

theorem no_lost_wakeup:
  assumes "reachable devs (Initialize_kernel created prog values g) k"
    and "startable created prog values"
  shows "(squeue (sems k s) \<noteq> [] \<longrightarrow>
      svalue (sems k s) \<le> int (card {t. (t \<in> set (ready k) \<or> running k = Some t) \<and> waits (code k t) = Some (QSem s)})) \<and>
    (lqueue (locks k l) \<noteq> [] \<and> \<not> isLocked (locks k l) \<longrightarrow>
      (\<exists>t. (t \<in> set (ready k) \<or> running k = Some t) \<and> waits (code k t) = Some (QLock l)))"
proof -
  have k: "kinv k" using reachable_sysinv [OF assms(1) Initialize_kernel_sysinv [OF assms(2)]] by (simp add: sysinv_def)
  have "{t \<in> can_run (ready k) (running k). wait_point k t = Some (QSem s)} =
      {t. (t \<in> set (ready k) \<or> running k = Some t) \<and> waits (code k t) = Some (QSem s)}"
    by (auto simp: can_run_def wait_point_def)
  then show ?thesis
    using no_lostD(2) [OF kinvD(2) [OF k], of s] no_lostD(3) [OF kinvD(2) [OF k], of l]
    by (auto simp: can_run_def wait_point_def sem_values_def locked_def)
qed

theorem no_lost_wakeup_witness:
  "\<exists>k. reachable {} three_threads k \<and> lqueue (locks k 5) \<noteq> [] \<and> \<not> isLocked (locks k 5) \<and>
     (\<exists>t. (t \<in> set (ready k) \<or> running k = Some t) \<and> waits (code k t) = Some (QLock 5))"
proof -
  obtain k k' where k: "run_steps 9 three_threads = Inr k" "kstep {} k k'" "lqueue (locks k' 5) \<noteq> []" "\<not> isLocked (locks k' 5)"
    by (rule three_threads_run)
  have r: "reachable {} three_threads k'" by (rule reachable.step [OF run_steps_reachable [OF reachable.start k(1)] k(2)])
  have "\<exists>t. (t \<in> set (ready k') \<or> running k' = Some t) \<and> waits (code k' t) = Some (QLock 5)"
    using no_lost_wakeup [OF r [unfolded three_threads_def] three_threads_ok, of 0 5] k(3,4) by blast
  with r k(3,4) show ?thesis by blast
qed

text \<open>
  C6. A lock is exclusive. Whenever a step of the system changes the holder of a lock, the step
  is one of the current thread: it was the holder and executes \<^verbatim>\<open>Release\<close> or a \<^verbatim>\<open>Wait\<close> on that lock,
  after which the lock is free; or the lock was free and the current thread is the holder
  after its \<^verbatim>\<open>Acquire\<close>. No interrupt, preemption or other thread takes a lock away.
\<close>

theorem lock_exclusive:
  assumes "reachable devs (Initialize_kernel created prog values g) k"
    and "startable created prog values"
    and "kstep devs k k'" and "currThread (locks k' l) \<noteq> currThread (locks k l)"
  shows "\<exists>i rest. \<not> idle k \<and> code k (currentThread k) = i # rest \<and>
    ((currThread (locks k l) = Some (currentThread k) \<and> currThread (locks k' l) = None \<and> (i = LockRelease l \<or> (\<exists>c. i = CondWait c l))) \<or>
     (currThread (locks k l) = None \<and> currThread (locks k' l) = Some (currentThread k) \<and>
       (i = LockAcquire l \<or> (\<exists>old. i = AcquireLoop l old) \<or> (\<exists>c old. i = WaitResume c l old))))"
proof -
  have k: "kinv k" using reachable_sysinv [OF assms(1) Initialize_kernel_sysinv [OF assms(2)]] by (simp add: sysinv_def)
  have ch: "holder k' l \<noteq> holder k l" using assms(4) by (simp add: holder_def)
  from assms(3) ch show ?thesis
  proof (cases rule: kstep.cases)
    case execute
    show ?thesis
    proof (cases "code k (currentThread k)")
      case Nil
      with execute(2) have "settle (currentThread k) [] (Thread_Finish k) = Inr k'" by (simp add: step_thread_def)
      from settle_end_state [OF this] obtain k1 where "end_state (Thread_Finish k) = Some k1" "holder k' = holder k1" by blast
      then have "holder k' = holder k" by (auto simp: Thread_Finish_def split: option.splits)
      with ch show ?thesis by simp
    next
      case (Cons i rest)
      with execute(2) have "settle (currentThread k) rest (exec i k) = Inr k'" by (simp add: step_thread_def)
      from settle_end_state [OF this] obtain k1 where k1: "end_state (exec i k) = Some k1" "holder k' = holder k1" by blast
      have "holder k1 l \<noteq> holder k l" using ch k1(2) by simp
      from exec_holder [OF k1(1) kinvD(4) [OF k] this, folded k1(2), unfolded holder_def]
      show ?thesis using execute(1) Cons by (intro exI [of _ i] exI [of _ rest] conjI)
    qed
  next
    case preempt
    from settle_end_state [OF preempt(3)] obtain k1 where "end_state (Thread_Yield k) = Some k1" "holder k' = holder k1" by blast
    with ch show ?thesis by (auto simp: Thread_Yield_def FindNextToRun_def Let_def split: list.splits)
  qed simp_all
qed

theorem lock_exclusive_witness:
  "\<exists>k i rest. reachable {} three_threads k \<and> code k (currentThread k) = i # rest"
proof -
  obtain k k' where k: "run_steps 9 three_threads = Inr k" "kstep {} k k'" "currThread (locks k' 5) \<noteq> currThread (locks k 5)"
    by (rule three_threads_run)
  have r: "reachable {} three_threads k" by (rule run_steps_reachable [OF reachable.start k(1)])
  show ?thesis
    using lock_exclusive [OF r [unfolded three_threads_def] three_threads_ok k(2,3)] r by blast
qed

end
