(* ===== verification/Monitors.thy ===== *)
theory Monitors
  imports ThreadInv
begin

text \<open>
  The monitors built on locks and conditions: \<^verbatim>\<open>SynchList\<close> (\<^verbatim>\<open>threads/synchlist.cc\<close>), \<^verbatim>\<open>Mailbox\<close> and
  \<^verbatim>\<open>Whale\<close> (\<^verbatim>\<open>threads/synch.cc\<close>), and the rule by which they are verified. The rule is stated
  once, on the kernel of \<^theory_text>\<open>Threads\<close>: a predicate \<open>wp\<close> on the code of a thread says that the code
  touches the shared variables only under the lock and restores the monitor invariant
  whenever it gives the lock up; if every thread starts with such code, the invariant holds
  whenever the lock is free, in every interleaving, and no assertion of the routines fails.
\<close>

section \<open>Proof obligations of a thread\<close>

text \<open>
  \<open>wp I l t h c\<close>: the code \<open>c\<close> of thread \<open>t\<close> respects the monitor with lock \<open>l\<close> and invariant \<open>I\<close>; \<open>h\<close> is the
  state of the shared variables if \<open>t\<close> holds the lock.
\<close>

fun wp :: "('g \<Rightarrow> bool) \<Rightarrow> nat \<Rightarrow> nat \<Rightarrow> 'g option \<Rightarrow> 'g instr list \<Rightarrow> bool" where
  "wp I l t h [] = (h = None)"
| "wp I l t h (i # c) = (case i of
       LockAcquire l' \<Rightarrow> l' = l \<and> h = None \<and> (\<forall>g. I g \<longrightarrow> wp I l t (Some g) c)
     | AcquireLoop l' _ \<Rightarrow> l' = l \<and> h = None \<and> (\<forall>g. I g \<longrightarrow> wp I l t (Some g) c)
     | WaitResume _ l' _ \<Rightarrow> l' = l \<and> h = None \<and> (\<forall>g. I g \<longrightarrow> wp I l t (Some g) c)
     | LockRelease l' \<Rightarrow> l' = l \<and> (\<exists>g. h = Some g \<and> I g) \<and> wp I l t None c
     | CondWait _ l' \<Rightarrow> l' = l \<and> (\<exists>g. h = Some g \<and> I g) \<and> (\<forall>g. I g \<longrightarrow> wp I l t (Some g) c)
     | CondSignal _ l' \<Rightarrow> l' = l \<and> h \<noteq> None \<and> wp I l t h c
     | CondBroadcast _ l' \<Rightarrow> l' = l \<and> h \<noteq> None \<and> wp I l t h c
     | Act f \<Rightarrow> \<exists>g g'. h = Some g \<and> f t g = Inr g' \<and> wp I l t (Some g') c
     | While b body \<Rightarrow> \<exists>g. h = Some g \<and> (\<exists>cv. body = [CondWait cv l]) \<and> (b g \<longrightarrow> I g) \<and>
         (\<forall>g'. (g' = g \<or> I g') \<and> \<not> b g' \<longrightarrow> wp I l t (Some g') c)
     | ThreadFinish \<Rightarrow> h = None \<and> wp I l t h c
     | ThreadJoin _ \<Rightarrow> h = None \<and> wp I l t h c
     | CopyExit _ \<Rightarrow> h = None \<and> wp I l t h c
     | Die \<Rightarrow> h = None \<and> wp I l t h c
     | _ \<Rightarrow> wp I l t h c)"

definition held :: "nat \<Rightarrow> ('g, 'x) Kernel_scheme \<Rightarrow> nat \<Rightarrow> 'g option" where
  "held l k t = (if holder k l = Some t then Some (shared k) else None)"

definition minv :: "('g \<Rightarrow> bool) \<Rightarrow> nat \<Rightarrow> ('g, 'x) Kernel_scheme \<Rightarrow> bool" where
  "minv I l k \<longleftrightarrow> sysinv k \<and> (holder k l = None \<longrightarrow> I (shared k)) \<and> (\<forall>t. wp I l t (held l k t) (code k t))"

section \<open>Steps keep the obligations\<close>

lemma held_cong: "holder k' l = holder k l \<Longrightarrow> shared k' = shared k \<Longrightarrow> held l k' = held l k"
  by (simp add: fun_eq_iff held_def)

lemma shared_simps [simp]:
  "shared (wake q k) = shared k" "shared (release l k) = shared k" "shared (Semaphore_V s k) = shared k" "shared (dispatch k) = shared k"
  "shared (Sleep k) = shared k" "shared (fold (\<lambda>(_, t). ReadyToRun t) q k) = shared k"
proof -
  show w: "shared (wake q k) = shared k" for q and k :: "('a, 'b) Kernel_scheme" by (auto simp: wake_def split: list.splits)
  show "shared (release l k) = shared k" "shared (Semaphore_V s k) = shared k" by (simp_all add: release_def Semaphore_V_def Let_def w)
  show d: "shared (dispatch k) = shared k" for k :: "('a, 'b) Kernel_scheme"
    by (auto simp: dispatch_def FindNextToRun_def split: list.splits)
  show "shared (Sleep k) = shared k" by (simp add: Sleep_def d)
  show "shared (fold (\<lambda>(_, t). ReadyToRun t) q k) = shared k" by (induction q arbitrary: k) (auto split: prod.splits)
qed

text \<open>The obligations after a routine: those of the thread that ran it, and what others hold.\<close>

definition passed :: "('g \<Rightarrow> bool) \<Rightarrow> nat \<Rightarrow> ('g, 'x) Kernel_scheme \<Rightarrow> 'g instr list \<Rightarrow> (('g, 'x) Kernel_scheme, 'g) outcome \<Rightarrow> bool" where
  "passed I l k rest r \<longleftrightarrow> (let t = currentThread k; ok = (\<lambda>k1 pre. wp I l t (held l k1 t) (pre @ rest) \<and>
       (\<forall>u. u \<noteq> t \<longrightarrow> held l k1 u = held l k u) \<and> (holder k1 l = None \<longrightarrow> I (shared k1))) in
     case r of Cont k1 pre \<Rightarrow> ok k1 pre | Sleeps k1 pre \<Rightarrow> ok k1 pre | Runs n k1 pre \<Rightarrow> ok k1 pre | Err e \<Rightarrow> True)"

lemma passed_same:
  assumes "holder k1 l = holder k l" "shared k1 = shared k" "holder k l = None \<longrightarrow> I (shared k)"
    "wp I l (currentThread k) (held l k (currentThread k)) (pre @ rest)"
  shows "passed I l k rest (Cont k1 pre)" "passed I l k rest (Sleeps k1 pre)" "passed I l k rest (Runs n k1 pre)"
  using assms held_cong [of k1 l k] by (auto simp: passed_def)

lemma passed_cong:
  assumes "holder k0 l = holder k l" "shared k0 = shared k" "currentThread k0 = currentThread k"
  shows "passed I l k0 rest r = passed I l k rest r"
  using assms held_cong [of k0 l k] by (simp add: passed_def)

lemma P_body_passed:
  assumes "holder k l = None \<longrightarrow> I (shared k)" "wp I l (currentThread k) (held l k (currentThread k)) rest"
  shows "passed I l k rest (P_body s old k)"
  using assms by (auto simp: P_body_def Let_def intro!: passed_same)

lemma Acquire_body_passed:
  assumes i: "holder k l = None \<longrightarrow> I (shared k)" and nh: "holder k l \<noteq> Some (currentThread k)"
    and lk: "locked k l \<longleftrightarrow> holder k l \<noteq> None" and w: "\<And>g. I g \<Longrightarrow> wp I l (currentThread k) (Some g) rest"
  shows "passed I l k rest (Acquire_body l old k)"
proof (cases "isLocked (locks k l)")
  case True
  then show ?thesis using i w nh by (auto simp: Acquire_body_def Let_def held_def holder_def [symmetric] intro!: passed_same)
next
  case False
  then have "holder k l = None" using lk by (simp add: locked_def)
  then show ?thesis using False i w by (auto simp: Acquire_body_def Let_def passed_def held_def)
qed

lemma after_switch_same:
  assumes k: "kinv k" and t: "\<not> idle k"
  obtains k0 where "after_switch k = Inr k0" "holder k0 = holder k" "locked k0 = locked k" "shared k0 = shared k"
    "currentThread k0 = currentThread k" "kinv k0"
proof -
  obtain k0 where k0: "after_switch k = Inr k0" "kinv k0" using after_switch_ok [OF k running_current [OF t]] by blast
  moreover have "holder k0 = holder k" "locked k0 = locked k" "shared k0 = shared k" "currentThread k0 = currentThread k"
    using k0(1) by (auto simp: fun_eq_iff after_switch_def holder_def locked_def split: option.splits)
  ultimately show ?thesis using that by blast
qed

lemma resumed_passed:
  assumes k: "kinv k" and t: "\<not> idle k"
    and f: "\<And>k0. holder k0 = holder k \<Longrightarrow> locked k0 = locked k \<Longrightarrow> shared k0 = shared k \<Longrightarrow> currentThread k0 = currentThread k \<Longrightarrow>
      passed I l k0 rest (f k0)"
  shows "passed I l k rest (resumed f k)"
proof -
  obtain k0 where k0: "after_switch k = Inr k0" "holder k0 = holder k" "locked k0 = locked k" "shared k0 = shared k"
    "currentThread k0 = currentThread k" using after_switch_same [OF k t] by blast
  then show ?thesis using f [of k0] passed_cong [of k0 l k I rest] by (simp add: resumed_def)
qed

lemma exec_passed:
  assumes k: "kinv k" and t: "\<not> idle k" and i: "holder k l = None \<longrightarrow> I (shared k)"
    and w: "wp I l (currentThread k) (held l k (currentThread k)) (i # rest)"
  shows "passed I l k rest (exec i k)"
proof (cases i)
  case (SemP s)
  have "passed I l (k\<lparr>level := IntOff\<rparr>) rest (P_body s (level k) (k\<lparr>level := IntOff\<rparr>))"
    by (rule P_body_passed) (use i w SemP held_cong [of "k\<lparr>level := IntOff\<rparr>" l k] in simp_all)
  then show ?thesis using SemP passed_cong [of "k\<lparr>level := IntOff\<rparr>" l k I rest] by (simp add: Semaphore_P_def)
next
  case (LockAcquire l')
  have "passed I l (k\<lparr>level := IntOff\<rparr>) rest (Acquire_body l (level k) (k\<lparr>level := IntOff\<rparr>))"
    by (rule Acquire_body_passed)
      (use i w LockAcquire kinvD(4) [OF k, of l] in \<open>auto simp: held_def locked_def split: if_splits\<close>)
  then show ?thesis using LockAcquire w passed_cong [of "k\<lparr>level := IntOff\<rparr>" l k I rest] by (simp add: Lock_Acquire_def passed_def [of _ _ _ _ "Err _"])
next
  case (LockRelease l')
  then show ?thesis using w by (auto simp: Lock_Release_def passed_def held_def isHeldByCurrentThread_def Let_def holder_def [symmetric] split: if_splits)
next
  case (CondWait c l')
  then show ?thesis using w by (auto simp: Condition_Wait_def Let_def passed_def held_def split: if_splits)
next
  case (CondSignal c l')
  then show ?thesis using w i by (auto simp: Condition_Signal_def Let_def passed_def [of _ _ _ _ "Err _"] intro!: passed_same)
next
  case (CondBroadcast c l')
  then show ?thesis using w i by (auto simp: Condition_Broadcast_def Let_def passed_def [of _ _ _ _ "Err _"] intro!: passed_same)
next
  case ThreadYield
  then show ?thesis using w i by (auto simp: Thread_Yield_def FindNextToRun_def Let_def intro!: passed_same split: list.splits)
next
  case ThreadFinish
  then show ?thesis using w i by (auto simp: Thread_Finish_def passed_def [of _ _ _ _ "Err _"] intro!: passed_same split: option.splits)
next
  case (ThreadFork n)
  then show ?thesis using w i by (auto simp: Thread_Fork_def passed_def [of _ _ _ _ "Err _"] intro!: passed_same split: option.splits)
next
  case (ThreadJoin n)
  then show ?thesis using w i by (auto simp: Thread_Join_def passed_def [of _ _ _ _ "Err _"] intro!: passed_same split: option.splits)
next
  case (Act f)
  then show ?thesis using w by (auto simp: passed_def held_def split: if_splits)
next
  case (While b body)
  then have "held l k (currentThread k) = Some (shared k)" using w by (auto simp: held_def split: if_splits)
  with While show ?thesis using w i by (auto intro!: passed_same)
next
  case (PLoop s old)
  have "passed I l k rest (resumed (P_body s old) k)"
    by (rule resumed_passed [OF k t], rule P_body_passed) (use i w PLoop in \<open>simp_all add: held_def split: if_splits\<close>)
  then show ?thesis using PLoop by simp
next
  case (AcquireLoop l' old)
  have "passed I l k rest (resumed (Acquire_body l old) k)"
    by (rule resumed_passed [OF k t], rule Acquire_body_passed)
      (use i w AcquireLoop kinvD(4) [OF k, of l] in \<open>auto simp: held_def split: if_splits\<close>)
  then show ?thesis using AcquireLoop w by simp
next
  case (WaitResume c l' old)
  have "passed I l k rest (resumed (wait_resume l old) k)"
  proof (rule resumed_passed [OF k t])
    fix k0 assume "holder k0 = holder k" "locked k0 = locked k" "shared k0 = shared k" "currentThread k0 = currentThread k"
    then have "passed I l k0 rest (Acquire_body l old k0)"
      by (intro Acquire_body_passed) (use i w WaitResume kinvD(4) [OF k, of l] in \<open>auto simp: held_def split: if_splits\<close>)
    then show "passed I l k0 rest (wait_resume l old k0)" by (simp add: wait_resume_def passed_def [of _ _ _ _ "Err _"])
  qed
  then show ?thesis using WaitResume w by simp
next
  case (YieldResume old)
  have "passed I l k rest (resumed (\<lambda>k. Cont (k\<lparr>level := old\<rparr>) []) k)"
    by (rule resumed_passed [OF k t], rule passed_same) (use i w YieldResume in \<open>simp_all add: held_def split: if_splits\<close>)
  then show ?thesis using YieldResume by simp
next
  case (CopyExit n)
  then show ?thesis using w i by (auto simp: copy_exit_def passed_def [of _ _ _ _ "Err _"] intro!: passed_same split: option.splits)
qed (use w i in \<open>auto intro!: passed_same\<close>)

lemma settle_parts:
  assumes "settle t rest r = Inr k'"
  obtains k1 pre where "end_state r = Some k1" "r = Cont k1 pre \<or> r = Sleeps k1 pre \<or> (\<exists>n. r = Runs n k1 pre)"
    "holder k' = holder k1" "shared k' = shared k1" "code k' = (code k1)(t := pre @ rest)"
proof (cases r)
  case (Cont k1 pre)
  then show ?thesis using that [of k1 pre] assms by auto
next
  case (Sleeps k1 pre)
  have "code (dispatch k) = code k" for k :: "('a, 'b) Kernel_scheme"
    by (auto simp: dispatch_def FindNextToRun_def split: list.splits)
  then show ?thesis using that [of k1 pre] assms Sleeps by (auto simp: settle_def Sleep_def)
next
  case (Runs n k1 pre)
  then show ?thesis using that [of k1 pre] assms by (auto simp: settle_def)
qed (use assms in simp)

lemma settle_minv:
  assumes m: "minv I l k" and p: "passed I l k rest r" and f: "\<And>k1. end_state r = Some k1 \<Longrightarrow> frame k k1"
    and st: "settle (currentThread k) rest r = Inr k'" and s': "sysinv k'"
  shows "minv I l k'"
proof -
  let ?t = "currentThread k"
  obtain k1 pre where k1: "end_state r = Some k1" "r = Cont k1 pre \<or> r = Sleeps k1 pre \<or> (\<exists>n. r = Runs n k1 pre)"
    "holder k' = holder k1" "shared k' = shared k1" "code k' = (code k1)(?t := pre @ rest)" using settle_parts [OF st] .
  have ok: "wp I l ?t (held l k1 ?t) (pre @ rest)" "\<And>u. u \<noteq> ?t \<Longrightarrow> held l k1 u = held l k u" "holder k1 l = None \<longrightarrow> I (shared k1)"
    using p k1(2) by (auto simp: passed_def Let_def)
  have "held l k' = held l k1" by (rule held_cong) (simp_all add: k1)
  moreover have "wp I l u (held l k1 u) (code k' u)" for u
  proof (cases "u = ?t")
    case False
    have "code k1 u = code k u \<or> code k1 u = Startup # code k u" using f [OF k1(1)] by (auto simp: frame_def)
    moreover have "wp I l u (held l k u) (code k u)" using m by (simp add: minv_def)
    ultimately show ?thesis using ok(2) [OF False] False k1(5) by auto
  qed (use ok(1) k1(5) in simp)
  ultimately show ?thesis using ok(3) s' k1(3,4) by (simp add: minv_def)
qed

lemma frame_end_state:
  assumes "end_state (exec i k) = Some k1" "plain i \<or> waits [i] \<noteq> None"
  shows "frame k k1"
  using assms by (cases "exec i k") (auto dest: exec_Cont exec_Sleeps exec_Runs)

lemma step_thread_minv:
  assumes m: "minv I l k" and t: "\<not> idle k" and st: "step_thread k = Inr k'"
  shows "minv I l k'"
proof -
  have k: "kinv k" "level_ok k" using m by (simp_all add: minv_def sysinv_def)
  have i: "holder k l = None \<longrightarrow> I (shared k)" "wp I l (currentThread k) (held l k (currentThread k)) (code k (currentThread k))"
    using m by (simp_all add: minv_def)
  have s': "sysinv k'" using step_thread_sysinv [OF k t st] .
  show ?thesis
  proof (cases "code k (currentThread k)")
    case Nil
    then have s: "settle (currentThread k) [] (Thread_Finish k) = Inr k'" using st by (simp add: step_thread_def)
    have "passed I l k [] (exec ThreadFinish k)" by (rule exec_passed [where I = I, OF k(1) t i(1)]) (use i(2) Nil in simp)
    with settle_minv [OF m _ _ s s'] frame_end_state [of ThreadFinish k] show ?thesis by simp
  next
    case (Cons j rest)
    then have s: "settle (currentThread k) rest (exec j k) = Inr k'" using st by (simp add: step_thread_def)
    have "plain j \<or> waits [j] \<noteq> None" using level_okD(1) [OF k(2), of "currentThread k"] Cons by (simp add: resume_front_def)
    with settle_minv [OF m exec_passed [where I = I, OF k(1) t i(1)] frame_end_state s s'] i(2) Cons show ?thesis by simp
  qed
qed

lemma kstep_minv:
  assumes "kstep devs k k'" "minv I l k"
  shows "minv I l k'"
  using assms
proof (induction rule: kstep.induct)
  case (execute k k')
  then show ?case using step_thread_minv by blast
next
  case (interrupt k s)
  have f: "held l (Semaphore_V s k) = held l k" by (rule held_cong) simp_all
  have c: "code (Semaphore_V s k) u = code k u \<or> code (Semaphore_V s k) u = Startup # code k u" for u
    using frame_V [of k s] by (auto simp: frame_def)
  have "wp I l u (held l k u) (code (Semaphore_V s k) u)" for u using c [of u] interrupt(4) by (auto simp: minv_def)
  then show ?case using interrupt kstep_sysinv [OF kstep.interrupt [OF interrupt(1,2,3)]] f by (simp add: minv_def)
next
  case (idle_interrupt k s)
  let ?k' = "dispatch (Semaphore_V s k)"
  have f: "held l ?k' = held l k" by (rule held_cong) simp_all
  have "code ?k' = code (Semaphore_V s k)" by (auto simp: dispatch_def FindNextToRun_def split: list.splits)
  then have c: "code ?k' u = code k u \<or> code ?k' u = Startup # code k u" for u
    using frame_V [of k s] by (auto simp: frame_def)
  have "wp I l u (held l k u) (code ?k' u)" for u using c [of u] idle_interrupt(3) by (auto simp: minv_def)
  then show ?case using idle_interrupt kstep_sysinv [OF kstep.idle_interrupt [OF idle_interrupt(1,2)]] f by (simp add: minv_def)
next
  case (preempt k k')
  have i: "holder k l = None \<longrightarrow> I (shared k)" "wp I l (currentThread k) (held l k (currentThread k)) (code k (currentThread k))" "kinv k"
    using preempt(4) by (simp_all add: minv_def sysinv_def)
  have "passed I l k (code k (currentThread k)) (exec ThreadYield k)"
    by (rule exec_passed [where I = I, OF i(3) preempt(1) i(1)]) (use i(2) in simp)
  moreover have "sysinv k'" using kstep_sysinv [OF kstep.preempt [OF preempt(1,2,3)]] preempt(4) by (simp add: minv_def)
  ultimately show ?case using settle_minv [OF preempt(4) _ _ preempt(3)] frame_end_state [of ThreadYield k] by simp
qed

lemma reachable_minv: "reachable devs k0 k \<Longrightarrow> minv I l k0 \<Longrightarrow> minv I l k"
  by (induction rule: reachable.induct) (auto intro: kstep_minv)

section \<open>Assertions\<close>

text \<open>
  A thread with these obligations fails no assertion, except that \<^verbatim>\<open>Fork\<close>, \<^verbatim>\<open>Join\<close> and the end of a
  thread's life have demands of their own.
\<close>

fun lifecycle :: "'g instr \<Rightarrow> bool" where
  "lifecycle (ThreadFork _) = True"
| "lifecycle (ThreadJoin _) = True"
| "lifecycle (CopyExit _) = True"
| "lifecycle Die = True"
| "lifecycle _ = False"

lemma P_body_ok: "level k = IntOff \<Longrightarrow> \<exists>k'. settle t rest (P_body s old k) = Inr k'"
  by (simp add: P_body_def Let_def settle_def)

lemma Acquire_body_ok: "level k = IntOff \<Longrightarrow> \<exists>k'. settle t rest (Acquire_body l old k) = Inr k'"
  by (simp add: Acquire_body_def Let_def settle_def)

lemma release_level [simp]: "level (release l k) = level k"
  by (auto simp: release_def Let_def wake_def split: list.splits)

lemma step_ok:
  assumes m: "minv I l k" and t: "\<not> idle k" and c: "code k (currentThread k) = i # rest" "\<not> lifecycle i"
  shows "\<exists>k'. step_thread k = Inr k'"
proof -
  let ?t = "currentThread k"
  have k: "kinv k" "level_ok k" and w0: "wp I l ?t (held l k ?t) (code k ?t)" using m by (simp_all add: minv_def sysinv_def)
  note w = w0 [unfolded c(1)]
  have th: "threads k ?t \<noteq> None" using running_facts(1) [OF k(1) running_current [OF t]] by (auto simp: stat_def)
  have off: "level k = IntOff" if "\<not> plain i" using level_okD(4) [OF k(2)] c that by (cases "level k") auto
  obtain k0 where k0: "after_switch k = Inr k0" "level k0 = level k" "currentThread k0 = ?t" "holder k0 = holder k"
  proof -
    obtain k0 where k0: "after_switch k = Inr k0" "holder k0 = holder k" "currentThread k0 = currentThread k"
      using after_switch_same [OF k(1) t] by blast
    moreover have "level k0 = level k" using k0(1) by (auto simp: after_switch_def split: option.splits)
    ultimately show ?thesis using that by blast
  qed
  have "\<exists>k'. settle ?t rest (exec i k) = Inr k'"
  proof (cases i)
    case (SemP s)
    then show ?thesis by (simp add: Semaphore_P_def P_body_ok)
  next
    case (LockAcquire l')
    then have "\<not> isHeldByCurrentThread l' k" using w by (auto simp: isHeldByCurrentThread_def held_def holder_def split: if_splits)
    then show ?thesis using LockAcquire by (simp add: Lock_Acquire_def Acquire_body_ok)
  next
    case (CondWait cv l')
    then show ?thesis
      using w by (auto simp: Condition_Wait_def settle_def Let_def isHeldByCurrentThread_def held_def holder_def split: if_splits)
  next
    case (WaitResume cv l' old)
    then have "\<not> isHeldByCurrentThread l' k0"
      using w k0 by (auto simp: isHeldByCurrentThread_def held_def holder_def [symmetric] split: if_splits)
    then show ?thesis using WaitResume k0 off by (simp add: resumed_def wait_resume_def Acquire_body_ok)
  next
    case ThreadYield
    then show ?thesis by (auto simp: Thread_Yield_def FindNextToRun_def Let_def settle_def split: list.splits)
  next
    case ThreadFinish
    then show ?thesis using th by (auto simp: Thread_Finish_def)
  next
    case (Act f)
    then show ?thesis using w by (auto simp: held_def split: if_splits)
  qed (use c w k0 off in \<open>auto simp: Lock_Release_def Condition_Signal_def Condition_Broadcast_def Let_def resumed_def P_body_ok
      Acquire_body_ok isHeldByCurrentThread_def held_def holder_def split: if_splits\<close>)
  then show ?thesis using c by (simp add: step_thread_def)
qed

section \<open>The interface of a monitor\<close>

text \<open>
  A monitor gives its clients operations; each has to meet its obligations in front of any
  code that does. Clients are threads that call the operations, fork others and yield.
\<close>

datatype 'o call = Op 'o | Fork nat | Yield

fun call_code :: "('o \<Rightarrow> 'g instr list) \<Rightarrow> 'o call \<Rightarrow> 'g instr list" where
  "call_code ops (Op p) = ops p"
| "call_code ops (Fork n) = [ThreadFork n]"
| "call_code ops Yield = [ThreadYield]"

definition client :: "('o \<Rightarrow> 'g instr list) \<Rightarrow> 'o call list \<Rightarrow> 'g instr list" where
  "client ops cs = concat (map (call_code ops) cs)"

locale monitor =
  fixes I :: "'g \<Rightarrow> bool" and l :: nat and ops :: "'o \<Rightarrow> 'g instr list" and g0 :: 'g
  assumes op_wp: "wp I l t None c \<Longrightarrow> wp I l t None (ops p @ c)"
    and op_plain: "list_all plain (ops p)"
    and init: "I g0"
begin

lemma client_wp: "wp I l t None (client ops cs)"
proof (induction cs)
  case (Cons x cs)
  then show ?case by (cases x) (simp_all add: client_def op_wp)
qed (simp add: client_def)

lemma client_plain: "list_all plain (client ops cs)"
proof (induction cs)
  case (Cons x cs)
  then show ?case by (cases x) (simp_all add: client_def op_plain)
qed (simp add: client_def)

lemma client_minv:
  assumes "reachable devs (Initialize_kernel created (\<lambda>t. client ops (calls t)) values g0) k"
    and "startable created (\<lambda>t. client ops (calls t)) values"
  shows "minv I l k"
proof (rule reachable_minv [OF assms(1)])
  have "holder (Initialize_kernel created (\<lambda>t. client ops (calls t)) values g0) l = None"
    by (simp add: holder_def Initialize_kernel_def Interrupt.defs Lock_Lock_def)
  then show "minv I l (Initialize_kernel created (\<lambda>t. client ops (calls t)) values g0)"
    using Initialize_kernel_sysinv [OF assms(2)] init client_wp by (simp add: minv_def held_def Initialize_kernel_def Interrupt.defs)
qed

lemma client_inv:
  assumes "reachable devs (Initialize_kernel created (\<lambda>t. client ops (calls t)) values g0) k"
    and "startable created (\<lambda>t. client ops (calls t)) values"
  shows "currThread (locks k l) = None \<Longrightarrow> I (shared k)"
    and "\<not> idle k \<Longrightarrow> code k (currentThread k) = i # rest \<Longrightarrow> \<not> lifecycle i \<Longrightarrow> \<exists>k'. step_thread k = Inr k'"
  using client_minv [OF assms] step_ok [of I l k i rest] by (auto simp: minv_def holder_def)

end

end
