(* ===== verification/SynchObjects.thy ===== *)
theory SynchObjects
  imports Monitors
begin

text \<open>
  The monitors of the kernel as programs of its threads: \<^verbatim>\<open>SynchList\<close> (\<^verbatim>\<open>threads/synchlist.cc\<close>),
  \<^verbatim>\<open>Mailbox\<close> and \<^verbatim>\<open>Whale\<close> (\<^verbatim>\<open>threads/synch.cc\<close>). A record holds the variables of the object, the results
  the calls hand to each thread and, where the property is about the order of calls, the
  history of what went in and out. The list or buffer is the sequence that a
  \<^theory_text>\<open>LinkedList\<close> list stands for.
\<close>

section \<open>SynchList\<close>

text \<open>A pointer is \<open>None\<close> when it is null. Lock 0 is \<^verbatim>\<open>lock\<close>, condition 0 is \<^verbatim>\<open>listEmpty\<close>.\<close>

record 'a SynchList =
  sl_list :: "'a option list"
  sl_item :: "nat \<Rightarrow> 'a option"
  sl_in :: "'a option list"
  sl_out :: "'a option list"

definition SynchList_SynchList :: "'a SynchList" where
  "SynchList_SynchList = \<lparr>sl_list = [], sl_item = (\<lambda>_. None), sl_in = [], sl_out = []\<rparr>"

definition list_append :: "'a option \<Rightarrow> nat \<Rightarrow> 'a SynchList \<Rightarrow> 'a SynchList res" where
  "list_append item t sl = Inr (sl\<lparr>sl_list := sl_list sl @ [item], sl_in := sl_in sl @ [item]\<rparr>)"

definition list_remove :: "nat \<Rightarrow> 'a SynchList \<Rightarrow> 'a SynchList res" where
  "list_remove t sl = (case sl_list sl of
       [] \<Rightarrow> Inl AssertFailed
     | item # r \<Rightarrow> ASSERT (item \<noteq> None)
         (Inr (sl\<lparr>sl_list := r, sl_item := (sl_item sl)(t := item), sl_out := sl_out sl @ [item]\<rparr>)))"

definition SynchList_Append :: "'a option \<Rightarrow> 'a SynchList instr list" where
  "SynchList_Append item = [LockAcquire 0, Act (list_append item), CondSignal 0 0, LockRelease 0]"

definition SynchList_Remove :: "'a SynchList instr list" where
  "SynchList_Remove = [LockAcquire 0, While (\<lambda>sl. sl_list sl = []) [CondWait 0 0], Act list_remove, LockRelease 0]"

text \<open>\<^verbatim>\<open>Mapcar\<close> applies a function to the items, which it cannot change; what the function does is not part of the list.\<close>

definition SynchList_Mapcar :: "'a SynchList instr list" where
  "SynchList_Mapcar = [LockAcquire 0, Act (\<lambda>t sl. Inr sl), LockRelease 0]"

datatype 'a synchlist_op = Append 'a | Remove | Mapcar

fun synchlist_ops :: "'a synchlist_op \<Rightarrow> 'a SynchList instr list" where
  "synchlist_ops (Append a) = SynchList_Append (Some a)"
| "synchlist_ops Remove = SynchList_Remove"
| "synchlist_ops Mapcar = SynchList_Mapcar"

text \<open>What was removed is a prefix of what was appended, the list holds the rest, no item is null.\<close>

definition synchlist_inv :: "'a SynchList \<Rightarrow> bool" where
  "synchlist_inv sl \<longleftrightarrow> sl_in sl = sl_out sl @ sl_list sl \<and> None \<notin> set (sl_list sl)"

interpretation slist: monitor synchlist_inv 0 synchlist_ops SynchList_SynchList
proof
  fix t :: nat and c :: "'a SynchList instr list" and p
  assume c: "wp synchlist_inv 0 t None c"
  show "wp synchlist_inv 0 t None (synchlist_ops p @ c)"
  proof (cases p)
    case (Append a)
    then show ?thesis using c by (simp add: SynchList_Append_def list_append_def synchlist_inv_def)
  next
    case Remove
    then show ?thesis using c by (auto simp: SynchList_Remove_def list_remove_def synchlist_inv_def ASSERT_def split: list.splits)
  next
    case Mapcar
    then show ?thesis using c by (simp add: SynchList_Mapcar_def)
  qed
next
  show "list_all plain (synchlist_ops p)" for p :: "'a synchlist_op"
    by (cases p) (simp_all add: SynchList_Append_def SynchList_Remove_def SynchList_Mapcar_def)
qed (simp add: synchlist_inv_def SynchList_SynchList_def)

section \<open>Mailbox\<close>

text \<open>Lock 0 is \<^verbatim>\<open>lock\<close>; condition 0 is \<^verbatim>\<open>mailSnd\<close>, condition 1 is \<^verbatim>\<open>mailRcv\<close>.\<close>

record Mailbox =
  mb_buffer :: "int list"
  numPendingSends :: int
  numPendingRecs :: int
  mb_message :: "nat \<Rightarrow> int"
  mb_sent :: "int list"
  mb_received :: "int list"

definition Mailbox_Mailbox :: Mailbox where
  "Mailbox_Mailbox = \<lparr>mb_buffer = [], numPendingSends = 0, numPendingRecs = 0, mb_message = (\<lambda>_. 0), mb_sent = [], mb_received = []\<rparr>"

definition send_enqueue :: "int \<Rightarrow> nat \<Rightarrow> Mailbox \<Rightarrow> Mailbox res" where
  "send_enqueue m t mb = Inr (mb\<lparr>numPendingSends := numPendingSends mb + 1, mb_buffer := mb_buffer mb @ [m], mb_sent := mb_sent mb @ [m]\<rparr>)"

definition receive_dequeue :: "nat \<Rightarrow> Mailbox \<Rightarrow> Mailbox res" where
  "receive_dequeue t mb = (case mb_buffer mb of
       [] \<Rightarrow> Inl BadPointer
     | m # r \<Rightarrow> Inr (mb\<lparr>mb_buffer := r, mb_message := (mb_message mb)(t := m), mb_received := mb_received mb @ [m]\<rparr>))"

definition Mailbox_Send :: "int \<Rightarrow> Mailbox instr list" where
  "Mailbox_Send message = [LockAcquire 0, Act (send_enqueue message),
     While (\<lambda>mb. numPendingRecs mb = 0) [CondWait 0 0], CondSignal 1 0,
     Act (\<lambda>t mb. Inr (mb\<lparr>numPendingRecs := numPendingRecs mb - 1\<rparr>)), LockRelease 0]"

definition Mailbox_Receive :: "Mailbox instr list" where
  "Mailbox_Receive = [LockAcquire 0, Act (\<lambda>t mb. Inr (mb\<lparr>numPendingRecs := numPendingRecs mb + 1\<rparr>)),
     While (\<lambda>mb. numPendingSends mb = 0) [CondWait 1 0], Act receive_dequeue, CondSignal 0 0,
     Act (\<lambda>t mb. Inr (mb\<lparr>numPendingSends := numPendingSends mb - 1\<rparr>)), LockRelease 0]"

datatype mailbox_op = Send int | Receive

fun mailbox_ops :: "mailbox_op \<Rightarrow> Mailbox instr list" where
  "mailbox_ops (Send m) = Mailbox_Send m"
| "mailbox_ops Receive = Mailbox_Receive"

definition mailbox_inv :: "Mailbox \<Rightarrow> bool" where
  "mailbox_inv mb \<longleftrightarrow> numPendingSends mb = int (length (mb_buffer mb)) \<and> 0 \<le> numPendingRecs mb \<and>
     mb_sent mb = mb_received mb @ mb_buffer mb"

interpretation mbox: monitor mailbox_inv 0 mailbox_ops Mailbox_Mailbox
proof
  fix t :: nat and c :: "Mailbox instr list" and p
  assume c: "wp mailbox_inv 0 t None c"
  show "wp mailbox_inv 0 t None (mailbox_ops p @ c)"
  proof (cases p)
    case (Send m)
    then show ?thesis using c by (auto simp: Mailbox_Send_def send_enqueue_def mailbox_inv_def)
  next
    case Receive
    then show ?thesis using c by (auto simp: Mailbox_Receive_def receive_dequeue_def mailbox_inv_def neq_Nil_conv split: list.splits)
  qed
next
  show "list_all plain (mailbox_ops p)" for p
    by (cases p) (simp_all add: Mailbox_Send_def Mailbox_Receive_def)
qed (simp add: mailbox_inv_def Mailbox_Mailbox_def)

section \<open>Whale\<close>

text \<open>Lock 0 is \<^verbatim>\<open>lock\<close>; conditions 0 to 3 are \<^verbatim>\<open>maleSnd\<close>, \<^verbatim>\<open>femaleSnd\<close>, \<^verbatim>\<open>matchSnd\<close> and \<^verbatim>\<open>matchWait\<close>.\<close>

record Whale =
  numPendingMale :: int
  numPendingFemale :: int
  numPendingMatch :: int
  numCompleteMale :: int
  numCompleteFemale :: int

definition Whale_Whale :: Whale where
  "Whale_Whale = \<lparr>numPendingMale = 0, numPendingFemale = 0, numPendingMatch = 0, numCompleteMale = 0, numCompleteFemale = 0\<rparr>"

definition Whale_Male :: "Whale instr list" where
  "Whale_Male = [LockAcquire 0, Act (\<lambda>t w. Inr (w\<lparr>numPendingMale := numPendingMale w + 1\<rparr>)),
     While (\<lambda>w. (numPendingFemale w = 0 \<or> numPendingMatch w = 0) \<or> numCompleteMale w \<noteq> 0) [CondWait 0 0],
     Act (\<lambda>t w. Inr (w\<lparr>numCompleteMale := numCompleteMale w + 1\<rparr>)),
     CondSignal 2 0, CondSignal 1 0, CondSignal 3 0, LockRelease 0]"

definition Whale_Female :: "Whale instr list" where
  "Whale_Female = [LockAcquire 0, Act (\<lambda>t w. Inr (w\<lparr>numPendingFemale := numPendingFemale w + 1\<rparr>)),
     While (\<lambda>w. (numPendingMale w = 0 \<or> numPendingMatch w = 0) \<or> numCompleteFemale w \<noteq> 0) [CondWait 1 0],
     Act (\<lambda>t w. Inr (w\<lparr>numCompleteFemale := numCompleteFemale w + 1\<rparr>)),
     CondSignal 2 0, CondSignal 0 0, CondSignal 3 0, LockRelease 0]"

definition match_done :: "nat \<Rightarrow> Whale \<Rightarrow> Whale res" where
  "match_done t w = Inr \<lparr>numPendingMale = numPendingMale w - 1, numPendingFemale = numPendingFemale w - 1,
     numPendingMatch = numPendingMatch w - 1, numCompleteMale = numCompleteMale w - 1, numCompleteFemale = numCompleteFemale w - 1\<rparr>"

definition Whale_Matchmaker :: "Whale instr list" where
  "Whale_Matchmaker = [LockAcquire 0, Act (\<lambda>t w. Inr (w\<lparr>numPendingMatch := numPendingMatch w + 1\<rparr>)),
     While (\<lambda>w. numPendingFemale w = 0 \<or> numPendingMale w = 0) [CondWait 2 0],
     CondSignal 1 0, CondSignal 0 0,
     While (\<lambda>w. numCompleteMale w = 0 \<and> numCompleteFemale w = 0) [CondWait 3 0],
     Act match_done, LockRelease 0]"

text \<open>
  One male (thread 1, of the lowest priority), one female (thread 2) and one matchmaker
  (thread 3).
\<close>

definition whale_threads :: "nat \<Rightarrow> Thread option" where
  "whale_threads = [1 \<mapsto> (Thread_Thread ''male'' False 0 0)\<lparr>tkey := 1\<rparr>, 2 \<mapsto> Thread_Thread ''female'' False 0 0,
     3 \<mapsto> Thread_Thread ''match'' False 0 0]"

definition whale_code :: "nat \<Rightarrow> Whale instr list" where
  "whale_code = ((\<lambda>_. []) (0 := [ThreadFork 1, ThreadYield, ThreadFork 2, ThreadFork 3], 1 := Whale_Male, 2 := Whale_Female, 3 := Whale_Matchmaker))"

definition whale_kernel :: "Whale Kernel" where
  "whale_kernel = Initialize_kernel whale_threads whale_code (\<lambda>_. 0) Whale_Whale"

lemmas whale_defs = whale_kernel_def whale_threads_def whale_code_def Whale_Male_def Whale_Female_def Whale_Matchmaker_def match_done_def
  Whale_Whale_def Condition_Wait_def Condition_Signal_def wait_resume_def

lemma whale_run: "\<exists>k. run_steps 70 whale_kernel = Inr k \<and> idle k \<and> numCompleteMale (shared k) = -1 \<and> stat k 1 = Some BLOCKED \<and>
    queue_of k (QCond 0) = [1] \<and> code k 2 = [Die] \<and> code k 3 = [Die]"
  unfolding whale_defs by (simp add: run_defs whale_defs Let_def eval_nat_numeral stat_def)

section \<open>Properties\<close>

text \<open>The same example for lists and mailboxes: thread 1 takes what \<^verbatim>\<open>main\<close> puts in.\<close>

definition taker :: "nat \<Rightarrow> Thread option" where
  "taker = [1 \<mapsto> Thread_Thread ''taker'' False 0 0]"

lemma taker_startable: "(\<And>t. list_all plain (prog t)) \<Longrightarrow> startable taker prog (\<lambda>_. 0)"
  by (auto simp: startable_def taker_def Thread_Thread_def split: if_splits)

definition list_calls :: "nat \<Rightarrow> nat synchlist_op call list" where
  "list_calls = (\<lambda>_. []) (0 := [Fork 1, Yield, Op (Append 7), Op (Append 8)], 1 := [Op Remove])"

definition mail_calls :: "nat \<Rightarrow> mailbox_op call list" where
  "mail_calls = (\<lambda>_. []) (0 := [Fork 1, Yield, Op (Send 7)], 1 := [Op Receive])"

lemmas client_run_defs = run_defs taker_def client_def Condition_Wait_def Condition_Signal_def wait_resume_def Let_def eval_nat_numeral

lemma list_run: "\<exists>k. run_steps 40 (Initialize_kernel taker (\<lambda>t. client synchlist_ops (list_calls t)) (\<lambda>_. 0) SynchList_SynchList) = Inr k \<and>
    currThread (locks k 0) = None \<and> sl_list (shared k) = [Some 8] \<and> sl_item (shared k) 1 = Some 7"
  by (simp add: client_run_defs list_calls_def SynchList_Append_def SynchList_Remove_def SynchList_SynchList_def
      list_append_def list_remove_def)

lemma mail_run: "\<exists>k. run_steps 40 (Initialize_kernel taker (\<lambda>t. client mailbox_ops (mail_calls t)) (\<lambda>_. 0) Mailbox_Mailbox) = Inr k \<and>
    currThread (locks k 0) = None \<and> mb_message (shared k) 1 = 7 \<and> mb_received (shared k) = [7]"
  by (simp add: client_run_defs mail_calls_def Mailbox_Send_def Mailbox_Receive_def Mailbox_Mailbox_def
      send_enqueue_def receive_dequeue_def)

text \<open>
  C8. \<^verbatim>\<open>SynchList\<close> is a FIFO queue between threads. Whatever threads call \<^verbatim>\<open>Append\<close> (of non-null
  items), \<^verbatim>\<open>Remove\<close> and \<^verbatim>\<open>Mapcar\<close>, and however they are interleaved with each other, with timer
  preemptions and with interrupts: whenever the list's lock is free, the items appended so
  far, in order, are the items removed so far followed by those on the list; and no call
  ever fails, in particular \<^verbatim>\<open>Remove\<close> always finds a non-null item.
\<close>

theorem synchlist_fifo:
  assumes "reachable devs (Initialize_kernel created (\<lambda>t. client synchlist_ops (calls t)) values SynchList_SynchList) k"
    and "startable created (\<lambda>t. client synchlist_ops (calls t)) values"
  shows "(currThread (locks k 0) = None \<longrightarrow> sl_in (shared k) = sl_out (shared k) @ sl_list (shared k)) \<and>
    (\<not> idle k \<and> code k (currentThread k) = i # rest \<and> \<not> lifecycle i \<longrightarrow> (\<exists>k'. step_thread k = Inr k'))"
  using slist.client_inv [OF assms] by (auto simp: synchlist_inv_def)

theorem synchlist_fifo_witness:
  "\<exists>k. reachable {} (Initialize_kernel taker (\<lambda>t. client synchlist_ops (list_calls t)) (\<lambda>_. 0) SynchList_SynchList) k \<and>
     sl_item (shared k) 1 = Some 7 \<and> sl_in (shared k) = sl_out (shared k) @ [Some 8]"
proof -
  let ?k0 = "Initialize_kernel taker (\<lambda>t. client synchlist_ops (list_calls t)) (\<lambda>_. 0) SynchList_SynchList"
  obtain k where k: "run_steps 40 ?k0 = Inr k" "currThread (locks k 0) = None" "sl_list (shared k) = [Some 8]" "sl_item (shared k) 1 = Some 7"
    using list_run by blast
  have r: "reachable {} ?k0 k" by (rule run_steps_reachable [OF reachable.start k(1)])
  show ?thesis using synchlist_fifo [OF r taker_startable [OF slist.client_plain]] k r by auto
qed

text \<open>
  C21. \<^verbatim>\<open>Mailbox\<close> delivers messages in the order of the calls of \<^verbatim>\<open>Send\<close>, each once. In every
  interleaving of threads that call \<^verbatim>\<open>Send\<close> and \<^verbatim>\<open>Receive\<close>, whenever the mailbox's lock is free,
  the messages sent are those received followed by those in the buffer, \<^verbatim>\<open>numPendingSends\<close> is
  the number in the buffer and \<^verbatim>\<open>numPendingRecs\<close> is not negative; and no call ever fails, in
  particular \<^verbatim>\<open>Receive\<close> never dereferences a null pointer from an empty buffer.
\<close>

theorem mailbox_delivery:
  assumes "reachable devs (Initialize_kernel created (\<lambda>t. client mailbox_ops (calls t)) values Mailbox_Mailbox) k"
    and "startable created (\<lambda>t. client mailbox_ops (calls t)) values"
  shows "(currThread (locks k 0) = None \<longrightarrow> mb_sent (shared k) = mb_received (shared k) @ mb_buffer (shared k) \<and>
      numPendingSends (shared k) = int (length (mb_buffer (shared k))) \<and> 0 \<le> numPendingRecs (shared k)) \<and>
    (\<not> idle k \<and> code k (currentThread k) = i # rest \<and> \<not> lifecycle i \<longrightarrow> (\<exists>k'. step_thread k = Inr k'))"
  using mbox.client_inv [OF assms] by (auto simp: mailbox_inv_def)

theorem mailbox_delivery_witness:
  "\<exists>k. reachable {} (Initialize_kernel taker (\<lambda>t. client mailbox_ops (mail_calls t)) (\<lambda>_. 0) Mailbox_Mailbox) k \<and>
     mb_message (shared k) 1 = 7 \<and> mb_sent (shared k) = [7] @ mb_buffer (shared k)"
proof -
  let ?k0 = "Initialize_kernel taker (\<lambda>t. client mailbox_ops (mail_calls t)) (\<lambda>_. 0) Mailbox_Mailbox"
  obtain k where k: "run_steps 40 ?k0 = Inr k" "currThread (locks k 0) = None" "mb_message (shared k) 1 = 7" "mb_received (shared k) = [7]"
    using mail_run by blast
  have r: "reachable {} ?k0 k" by (rule run_steps_reachable [OF reachable.start k(1)])
  show ?thesis using mailbox_delivery [OF r taker_startable [OF mbox.client_plain]] k r by auto
qed

text \<open>
  An example: \<^verbatim>\<open>Whale::Matchmaker\<close> does not wait for both partners, since its second loop ends as
  soon as one of \<^verbatim>\<open>numCompleteMale\<close> and \<^verbatim>\<open>numCompleteFemale\<close> is positive. In this run of one male of
  a lower priority, one female and one matchmaker, female and matchmaker finish and the
  processor becomes idle with the male asleep on \<^verbatim>\<open>maleSnd\<close> and \<^verbatim>\<open>numCompleteMale\<close> at -1.
\<close>

lemma whale_match_incomplete:
  "\<exists>k. reachable {} whale_kernel k \<and> idle k \<and> numCompleteMale (shared k) = -1 \<and>
     queue_of k (QCond 0) = [1] \<and> code k 2 = [Die] \<and> code k 3 = [Die]"
  using whale_run run_steps_reachable [OF reachable.start] by blast

end
