(* ===== verification/Drivers.thy ===== *)
theory Drivers
  imports Monitors
begin

text \<open>
  Synchronous drivers of asynchronous devices. \<^verbatim>\<open>SynchDisk::ReadSector\<close>, \<^verbatim>\<open>SynchDisk::WriteSector\<close>
  (\<^verbatim>\<open>filesys/synchdisk.cc\<close>) and \<^verbatim>\<open>PostOffice::Send\<close> (\<^verbatim>\<open>network/post.cc\<close>) have one shape: acquire a
  lock, start the device, sleep on a semaphore until the handler of the device's interrupt
  calls \<^verbatim>\<open>V\<close>, release the lock. The shape is verified once, on the kernel of \<^theory_text>\<open>Threads\<close> with a
  device whose interrupt changes the shared state and calls \<^verbatim>\<open>V\<close>: the device is never started while it
  is busy, and no thread waits for a device that has nothing to do.
\<close>

section \<open>The system with a device\<close>

text \<open>
  \<open>busy\<close> says that the device has an interrupt pending; \<open>complete\<close> is what the interrupt does to the device
  before \<^verbatim>\<open>V\<close> on semaphore \<open>v\<close>. Other devices keep to semaphores in \<open>devs\<close>.
\<close>

inductive dstep :: "nat set \<Rightarrow> nat \<Rightarrow> ('g \<Rightarrow> bool) \<Rightarrow> ('g \<Rightarrow> 'g) \<Rightarrow> ('g, 'x) Kernel_scheme \<Rightarrow> ('g, 'x) Kernel_scheme \<Rightarrow> bool"
  for devs :: "nat set" and v :: nat and busy :: "'g \<Rightarrow> bool" and complete :: "'g \<Rightarrow> 'g" where
  kernel: "kstep devs k k' \<Longrightarrow> dstep devs v busy complete k k'"
| served: "\<not> idle k \<Longrightarrow> level k = IntOn \<Longrightarrow> busy (shared k) \<Longrightarrow>
    dstep devs v busy complete k (Semaphore_V v (k\<lparr>shared := complete (shared k)\<rparr>))"
| idle_served: "idle k \<Longrightarrow> busy (shared k) \<Longrightarrow>
    dstep devs v busy complete k (dispatch (Semaphore_V v (k\<lparr>shared := complete (shared k)\<rparr>)))"

inductive dreachable :: "nat set \<Rightarrow> nat \<Rightarrow> ('g \<Rightarrow> bool) \<Rightarrow> ('g \<Rightarrow> 'g) \<Rightarrow> ('g, 'x) Kernel_scheme \<Rightarrow> ('g, 'x) Kernel_scheme \<Rightarrow> bool"
  for devs v busy complete k0 where
  start: "dreachable devs v busy complete k0 k0"
| step: "dreachable devs v busy complete k0 k \<Longrightarrow> dstep devs v busy complete k k' \<Longrightarrow> dreachable devs v busy complete k0 k'"

text \<open>For the examples: runs up to the point where all threads sleep, with an interrupt of the device there.\<close>

fun drun :: "nat \<Rightarrow> ('g \<Rightarrow> bool) \<Rightarrow> ('g \<Rightarrow> 'g) \<Rightarrow> nat list \<Rightarrow> ('g, 'x) Kernel_scheme \<Rightarrow> ('g, 'x) Kernel_scheme res" where
  "drun v busy complete [] k = Inr k"
| "drun v busy complete (n # ns) k = bindE (run_steps n k) (\<lambda>k1.
     if idle k1 \<and> busy (shared k1) \<and> ns \<noteq> []
     then drun v busy complete ns (dispatch (Semaphore_V v (k1\<lparr>shared := complete (shared k1)\<rparr>)))
     else Inr k1)"

lemma run_steps_dreachable:
  "dreachable devs v busy complete k0 k \<Longrightarrow> run_steps n k = Inr k' \<Longrightarrow> dreachable devs v busy complete k0 k'"
proof (induction n arbitrary: k)
  case (Suc n)
  show ?case
  proof (cases "idle k")
    case False
    then obtain k1 where k1: "step_thread k = Inr k1" "run_steps n k1 = Inr k'" using Suc.prems(2) by auto
    show ?thesis by (rule Suc.IH [OF dreachable.step [OF Suc.prems(1) dstep.kernel [OF kstep.execute]]]) (use k1 False in simp_all)
  qed (use Suc.prems in simp)
qed simp

lemma drun_dreachable:
  "dreachable devs v busy complete k0 k \<Longrightarrow> drun v busy complete ns k = Inr k' \<Longrightarrow> dreachable devs v busy complete k0 k'"
proof (induction ns arbitrary: k)
  case (Cons n ns)
  then obtain k1 where k1: "run_steps n k = Inr k1" by auto
  note r = run_steps_dreachable [OF Cons.prems(1) k1]
  show ?case
  proof (cases "idle k1 \<and> busy (shared k1) \<and> ns \<noteq> []")
    case True
    then show ?thesis using Cons.IH [OF dreachable.step [OF r dstep.idle_served]] Cons.prems(2) k1 by simp
  next
    case False
    then have "k' = k1" using Cons.prems(2) k1 by (auto split: if_splits)
    then show ?thesis using r by simp
  qed
qed simp

section \<open>The semaphores of joins are not those of devices\<close>

definition joins_kept :: "('g, 'x) Kernel_scheme \<Rightarrow> ('g, 'x) Kernel_scheme \<Rightarrow> bool" where
  "joins_kept k k' \<longleftrightarrow> (\<forall>t th. threads k' t = Some th \<longrightarrow>
     (\<exists>th0. threads k t = Some th0 \<and> joining th0 = joining th \<and> joinSignal th0 = joinSignal th \<and> mayDie th0 = mayDie th))"

lemma joins_kept_same: "threads k' = threads k \<Longrightarrow> joins_kept k k'"
  by (simp add: joins_kept_def)

lemma joins_kept_trans: "joins_kept k k1 \<Longrightarrow> joins_kept k1 k2 \<Longrightarrow> joins_kept k k2"
  unfolding joins_kept_def by metis

lemma joins_kept_setStatus: "joins_kept k (setStatus t st k)"
  by (auto simp: joins_kept_def setStatus_def)

lemma joins_kept_ReadyToRun: "joins_kept k (ReadyToRun t k)"
  by (auto simp: joins_kept_def ReadyToRun_def setStatus_def)

lemma joins_kept_ReadyToRun_upd: "threads k1 = threads k \<Longrightarrow> joins_kept k (ReadyToRun t k1)"
  by (rule joins_kept_trans [OF joins_kept_same joins_kept_ReadyToRun])

lemma joins_kept_wake: "joins_kept k (wake q k)"
  by (auto simp: wake_def joins_kept_ReadyToRun joins_kept_same split: list.splits)

lemma joins_kept_fold: "joins_kept k (fold (\<lambda>(_, t). ReadyToRun t) q k)"
proof (induction q arbitrary: k)
  case (Cons a q)
  then show ?case using joins_kept_trans [OF joins_kept_ReadyToRun Cons] by (auto split: prod.splits)
qed (simp add: joins_kept_same)

lemma joins_kept_V: "joins_kept k (Semaphore_V s k)"
  unfolding Semaphore_V_def Let_def by (rule joins_kept_trans [OF joins_kept_same joins_kept_wake]) simp

lemma joins_kept_release: "joins_kept k (release l k)"
  unfolding release_def Let_def by (rule joins_kept_trans [OF joins_kept_same joins_kept_wake]) simp

lemma joins_kept_after_switch: "after_switch k = Inr k' \<Longrightarrow> joins_kept k k'"
  by (auto simp: after_switch_def joins_kept_def split: option.splits if_splits)

lemma joins_kept_dispatch: "joins_kept k (dispatch k)"
proof -
  have "joins_kept k (Run t (k\<lparr>readyList := r\<rparr>))" for t r
    unfolding Run_def by (rule joins_kept_trans [OF joins_kept_same joins_kept_setStatus]) simp
  then show ?thesis by (auto simp: dispatch_def FindNextToRun_def joins_kept_same split: list.splits)
qed

lemma joins_kept_resumed:
  assumes "end_state (resumed f k) = Some k1" and "\<And>k0. end_state (f k0) = Some k1 \<Longrightarrow> joins_kept k0 k1"
  shows "joins_kept k k1"
proof -
  obtain k0 where k0: "after_switch k = Inr k0" "end_state (f k0) = Some k1"
    using assms(1) by (auto simp: resumed_def split: sum.splits)
  show ?thesis by (rule joins_kept_trans [OF joins_kept_after_switch [OF k0(1)] assms(2) [OF k0(2)]])
qed

lemma joins_kept_bodies:
  "end_state (P_body s old k) = Some k1 \<Longrightarrow> joins_kept k k1" "end_state (Acquire_body l old k) = Some k1 \<Longrightarrow> joins_kept k k1"
  "end_state (wait_resume l old k) = Some k1 \<Longrightarrow> joins_kept k k1"
  by (auto simp: P_body_def Acquire_body_def wait_resume_def Let_def intro!: joins_kept_same split: if_splits)

lemma exec_joins_kept:
  assumes e: "end_state (exec i k) = Some k1"
  shows "joins_kept k k1"
proof (cases i)
  case (SemP s)
  with e have "joins_kept (k\<lparr>level := IntOff\<rparr>) k1" by (simp add: Semaphore_P_def joins_kept_bodies)
  then show ?thesis by (rule joins_kept_trans [OF joins_kept_same, rotated]) simp
next
  case (LockAcquire l)
  with e have "joins_kept (k\<lparr>level := IntOff\<rparr>) k1" by (auto simp: Lock_Acquire_def joins_kept_bodies split: if_splits)
  then show ?thesis by (rule joins_kept_trans [OF joins_kept_same, rotated]) simp
next
  case (CondWait c l)
  have "joins_kept k (release l (k\<lparr>level := IntOff\<rparr>))" by (rule joins_kept_trans [OF joins_kept_same joins_kept_release]) simp
  with e CondWait show ?thesis
    by (auto simp: Condition_Wait_def Let_def split: if_splits intro: joins_kept_trans [OF _ joins_kept_same])
next
  case (CondSignal c l)
  with e show ?thesis by (auto simp: Condition_Signal_def Let_def split: if_splits intro: joins_kept_trans [OF joins_kept_same joins_kept_wake])
next
  case (CondBroadcast c l)
  with e show ?thesis by (auto simp: Condition_Broadcast_def Let_def split: if_splits intro: joins_kept_trans [OF joins_kept_same joins_kept_fold])
next
  case ThreadYield
  with e show ?thesis
    by (auto simp: Thread_Yield_def FindNextToRun_def Let_def joins_kept_same split: list.splits intro!: joins_kept_ReadyToRun_upd)
next
  case (ThreadFork t)
  with e show ?thesis
    by (auto simp: Thread_Fork_def split: option.splits if_splits intro!: joins_kept_ReadyToRun_upd)
next
  case (PLoop s old)
  with e have "end_state (resumed (P_body s old) k) = Some k1" by simp
  then show ?thesis by (rule joins_kept_resumed) (rule joins_kept_bodies)
next
  case (AcquireLoop l old)
  with e have "end_state (resumed (Acquire_body l old) k) = Some k1" by simp
  then show ?thesis by (rule joins_kept_resumed) (rule joins_kept_bodies)
next
  case (WaitResume c l old)
  with e have "end_state (resumed (wait_resume l old) k) = Some k1" by simp
  then show ?thesis by (rule joins_kept_resumed) (rule joins_kept_bodies)
next
  case (YieldResume old)
  with e have "end_state (resumed (\<lambda>k. Cont (k\<lparr>level := old\<rparr>) []) k) = Some k1" by simp
  then show ?thesis by (rule joins_kept_resumed) (auto intro: joins_kept_same)
next
  case (CopyExit t)
  with e show ?thesis by (auto simp: copy_exit_def joins_kept_def split: option.splits if_splits)
qed (use e in \<open>auto simp: Lock_Release_def Thread_Finish_def Thread_Join_def intro!: joins_kept_V joins_kept_release intro: joins_kept_same
    split: option.splits if_splits sum.splits\<close>)

lemma settle_joins_kept:
  assumes "settle t rest r = Inr k'" and "\<And>k1. end_state r = Some k1 \<Longrightarrow> joins_kept k k1"
  shows "joins_kept k k'"
proof (cases r)
  case (Cont k1 pre)
  have "joins_kept k1 (set_code t (pre @ rest) k1)" by (rule joins_kept_same) simp
  with assms Cont show ?thesis by (auto intro: joins_kept_trans)
next
  case (Sleeps k1 pre)
  have "joins_kept k1 (set_code t (pre @ rest) k1)" by (rule joins_kept_same) simp
  then have "joins_kept k1 (Sleep (set_code t (pre @ rest) k1))" unfolding Sleep_def
    by (rule joins_kept_trans [OF _ joins_kept_trans [OF joins_kept_setStatus joins_kept_dispatch]])
  with assms Sleeps show ?thesis by (auto simp: settle_def intro: joins_kept_trans)
next
  case (Runs n k1 pre)
  have "joins_kept k1 (Run n (set_code t (pre @ rest) k1))"
    unfolding Run_def by (rule joins_kept_trans [OF joins_kept_same joins_kept_setStatus]) simp
  with assms Runs show ?thesis by (auto simp: settle_def intro: joins_kept_trans)
qed (use assms in simp)

section \<open>What a routine does to the states of threads\<close>

text \<open>It makes threads ready, or destroys the one that is waiting for it.\<close>

definition only_readied :: "('g, 'x) Kernel_scheme \<Rightarrow> ('g, 'x) Kernel_scheme \<Rightarrow> bool" where
  "only_readied k k' \<longleftrightarrow> (\<forall>u. stat k' u = stat k u \<or> stat k' u = Some READY)"

lemma only_readied_same: "threads k' = threads k \<Longrightarrow> only_readied k k'"
  by (simp add: only_readied_def stat_def)

lemma only_readied_trans: "only_readied k k1 \<Longrightarrow> only_readied k1 k2 \<Longrightarrow> only_readied k k2"
  unfolding only_readied_def by metis

lemma only_readied_ReadyToRun: "threads k1 = threads k \<Longrightarrow> only_readied k (ReadyToRun t k1)"
  by (cases "threads k t") (auto simp: only_readied_def stat_def ReadyToRun_def setStatus_def)

lemma only_readied_wake: "threads k1 = threads k \<Longrightarrow> only_readied k (wake q k1)"
  by (auto simp: wake_def only_readied_ReadyToRun only_readied_same split: list.splits)

lemma only_readied_fold: "threads k1 = threads k \<Longrightarrow> only_readied k (fold (\<lambda>(_, t). ReadyToRun t) q k1)"
proof (induction q arbitrary: k k1)
  case (Cons a q)
  show ?case using only_readied_trans [OF only_readied_ReadyToRun [OF Cons(2)] Cons(1) [OF refl]] by (auto split: prod.splits)
qed (simp add: only_readied_same)

lemma only_readied_V: "only_readied k (Semaphore_V s k)" and only_readied_release: "threads k1 = threads k \<Longrightarrow> only_readied k (release l k1)"
  by (simp_all add: Semaphore_V_def release_def Let_def only_readied_wake)

lemma only_readied_bodies:
  "end_state (P_body s old k) = Some k1 \<Longrightarrow> only_readied k k1" "end_state (Acquire_body l old k) = Some k1 \<Longrightarrow> only_readied k k1"
  "end_state (wait_resume l old k) = Some k1 \<Longrightarrow> only_readied k k1"
  by (auto simp: P_body_def Acquire_body_def wait_resume_def Let_def intro!: only_readied_same split: if_splits)

lemma resumed_stat:
  assumes "end_state (resumed f k) = Some k1" and "\<And>k0. end_state (f k0) = Some k1 \<Longrightarrow> only_readied k0 k1"
  shows "stat k1 u = stat k u \<or> stat k1 u = Some READY \<or> threadToBeDestroyed k = Some u"
proof -
  obtain k0 where k0: "after_switch k = Inr k0" "end_state (f k0) = Some k1"
    using assms(1) by (auto simp: resumed_def split: sum.splits)
  have "stat k0 u = stat k u \<or> threadToBeDestroyed k = Some u"
    using k0(1) by (auto simp: after_switch_def stat_def split: option.splits if_splits)
  then show ?thesis using assms(2) [OF k0(2)] unfolding only_readied_def by metis
qed

lemma exec_stat:
  assumes e: "end_state (exec i k) = Some k1"
  shows "stat k1 u = stat k u \<or> stat k1 u = Some READY \<or> threadToBeDestroyed k = Some u"
proof -
  have "only_readied k k1" if "\<not> waits [i] \<noteq> None" "\<And>old. i \<noteq> YieldResume old"
  proof (cases i)
    case (SemP s)
    with e have "only_readied (k\<lparr>level := IntOff\<rparr>) k1" by (simp add: Semaphore_P_def only_readied_bodies)
    then show ?thesis by (rule only_readied_trans [OF only_readied_same, rotated]) simp
  next
    case (LockAcquire l)
    with e have "only_readied (k\<lparr>level := IntOff\<rparr>) k1" by (auto simp: Lock_Acquire_def only_readied_bodies split: if_splits)
    then show ?thesis by (rule only_readied_trans [OF only_readied_same, rotated]) simp
  next
    case (CondWait c l)
    have "only_readied k (release l (k\<lparr>level := IntOff\<rparr>))" by (rule only_readied_release) simp
    with e CondWait show ?thesis
      by (auto simp: Condition_Wait_def Let_def split: if_splits intro: only_readied_trans [OF _ only_readied_same])
  next
    case (CopyExit t)
    with e show ?thesis by (auto simp: copy_exit_def only_readied_def stat_def option.map_comp comp_def split: option.splits)
  qed (use e that in \<open>auto simp: Lock_Release_def Condition_Signal_def Condition_Broadcast_def Thread_Yield_def FindNextToRun_def Thread_Fork_def
      Thread_Finish_def Thread_Join_def Let_def intro!: only_readied_V only_readied_release only_readied_wake only_readied_fold
      only_readied_ReadyToRun intro: only_readied_same split: option.splits if_splits sum.splits list.splits\<close>)
  moreover have ?thesis if "waits [i] \<noteq> None \<or> (\<exists>old. i = YieldResume old)"
  proof (cases i)
    case (PLoop s old)
    with e have "end_state (resumed (P_body s old) k) = Some k1" by simp
    then show ?thesis by (rule resumed_stat) (rule only_readied_bodies)
  next
    case (AcquireLoop l old)
    with e have "end_state (resumed (Acquire_body l old) k) = Some k1" by simp
    then show ?thesis by (rule resumed_stat) (rule only_readied_bodies)
  next
    case (WaitResume c l old)
    with e have "end_state (resumed (wait_resume l old) k) = Some k1" by simp
    then show ?thesis by (rule resumed_stat) (rule only_readied_bodies)
  next
    case (YieldResume old)
    with e have "end_state (resumed (\<lambda>k. Cont (k\<lparr>level := old\<rparr>) []) k) = Some k1" by simp
    then show ?thesis by (rule resumed_stat) (auto intro: only_readied_same)
  qed (use that in auto)
  ultimately show ?thesis unfolding only_readied_def by blast
qed

text \<open>Where a thread is when it gives up the processor.\<close>

lemma exec_Sleeps_at:
  assumes "exec i k = Sleeps k1 pre"
  shows "\<exists>j. pre = [j] \<and> (waits [j] \<noteq> None \<or> j = Die)"
  using assms by (cases i) (auto simp: Semaphore_P_def Lock_Acquire_def Lock_Release_def Condition_Wait_def Condition_Signal_def Condition_Broadcast_def
      Thread_Yield_def Thread_Fork_def Thread_Finish_def Thread_Join_def copy_exit_def resumed_def wait_resume_def P_body_def Acquire_body_def
      Let_def split: if_splits option.splits sum.splits prod.splits)

lemma exec_Runs_ready:
  assumes "exec i k = Runs n k1 pre" and "stat k (currentThread k) \<noteq> None"
  shows "stat k1 (currentThread k) = Some READY"
proof -
  have "Thread_Yield k = Runs n k1 pre"
    using assms(1) by (cases i) (auto simp: Semaphore_P_def Lock_Acquire_def Lock_Release_def Condition_Wait_def Condition_Signal_def
      Condition_Broadcast_def Thread_Fork_def Thread_Finish_def Thread_Join_def copy_exit_def resumed_def wait_resume_def
      Let_def split: if_splits option.splits sum.splits)
  then obtain r where "k1 = ReadyToRun (currentThread k) (k\<lparr>level := IntOff, readyList := r\<rparr>)"
    by (auto simp: Thread_Yield_def FindNextToRun_def Let_def split: list.splits)
  then show ?thesis using assms(2) by (auto simp: stat_def ReadyToRun_def setStatus_def)
qed

lemma stat_Run_cases: "stat (Run n k) u = stat k u \<or> stat (Run n k) u = Some RUNNING"
  by (cases "threads k n") (auto simp: Run_def stat_def setStatus_def)

lemma stat_dispatch: "stat (dispatch k) u = stat k u \<or> stat (dispatch k) u = Some RUNNING"
proof (cases "readyList k")
  case (Cons a r)
  then show ?thesis using stat_Run_cases [of "snd a" "k\<lparr>readyList := r\<rparr>" u]
    by (auto simp: dispatch_def FindNextToRun_def stat_def split: prod.splits)
qed (simp add: dispatch_def FindNextToRun_def stat_def)

text \<open>States after a routine and the switch that may follow it.\<close>

lemma settle_stat:
  assumes st: "settle t rest r = Inr k'" and e: "end_state r = Some k1" and t: "stat k1 t \<noteq> None" "currentThread k1 = t"
  shows "stat k' u = stat k1 u \<or> stat k' u = Some RUNNING \<or> (u = t \<and> (\<exists>pre. r = Sleeps k1 pre) \<and> stat k' u = Some BLOCKED)"
proof (cases r)
  case (Sleeps k2 pre)
  let ?k = "set_code t (pre @ rest) k1"
  have c: "stat ?k = stat k1" by (rule stat_cong) simp
  have k': "k' = dispatch (setStatus t BLOCKED ?k)" using st e Sleeps t(2) by (auto simp: settle_def Sleep_def split: if_splits)
  have "stat (setStatus t BLOCKED ?k) = (stat k1)(t \<mapsto> BLOCKED)" using stat_setStatus [of ?k t BLOCKED] c t(1) by simp
  with stat_dispatch [of "setStatus t BLOCKED ?k" u] show ?thesis using k' e Sleeps by (auto split: if_splits)
next
  case (Runs n k2 pre)
  have "stat (set_code t (pre @ rest) k1) = stat k1" by (rule stat_cong) simp
  with stat_Run_cases [of n "set_code t (pre @ rest) k1" u] show ?thesis using st e Runs by (auto simp: settle_def)
qed (use st e stat_cong [of "set_code t _ k1" k1] in auto)

section \<open>Obligations of a thread\<close>

text \<open>
  Where a thread is in a call: outside, with the lock, with its request issued, with the
  request served. \<open>dwp l v R ph c\<close>: from there the code \<open>c\<close> uses the device only in the shape above, with
  requests from \<open>R\<close>, and does not wait for or signal the semaphore of the device otherwise.
\<close>

datatype phase = Outside | Entered | Issued | Served

fun dwp :: "nat \<Rightarrow> nat \<Rightarrow> (nat \<Rightarrow> 'g \<Rightarrow> 'g res) set \<Rightarrow> phase \<Rightarrow> 'g instr list \<Rightarrow> bool" where
  "dwp l v R ph [] = (ph = Outside)"
| "dwp l v R ph (i # c) = (case i of
       LockAcquire l' \<Rightarrow> l' = l \<and> ph = Outside \<and> dwp l v R Entered c
     | AcquireLoop l' _ \<Rightarrow> l' = l \<and> ph = Outside \<and> dwp l v R Entered c
     | Act f \<Rightarrow> f \<in> R \<and> ph = Entered \<and> dwp l v R Issued c
     | SemP s \<Rightarrow> if s = v then ph = Issued \<and> dwp l v R Served c else ph = Outside \<and> dwp l v R Outside c
     | PLoop s _ \<Rightarrow> if s = v then ph = Issued \<and> dwp l v R Served c else ph = Outside \<and> dwp l v R Outside c
     | LockRelease l' \<Rightarrow> l' = l \<and> ph = Served \<and> dwp l v R Outside c
     | SemV s \<Rightarrow> s \<noteq> v \<and> dwp l v R ph c
     | ThreadYield \<Rightarrow> dwp l v R ph c
     | YieldResume _ \<Rightarrow> dwp l v R ph c
     | Startup \<Rightarrow> dwp l v R ph c
     | ThreadFork _ \<Rightarrow> dwp l v R ph c
     | ThreadFinish \<Rightarrow> ph = Outside \<and> dwp l v R ph c
     | Die \<Rightarrow> ph = Outside \<and> dwp l v R ph c
     | _ \<Rightarrow> False)"

text \<open>How the phase of a thread fits the holder of the lock, the device and the value of the semaphore.\<close>

definition fits :: "('g \<Rightarrow> bool) \<Rightarrow> nat \<Rightarrow> phase \<Rightarrow> nat option \<Rightarrow> 'g \<Rightarrow> int \<Rightarrow> bool" where
  "fits busy t ph h g n \<longleftrightarrow> (h = Some t \<longleftrightarrow> ph \<noteq> Outside) \<and> (ph = Entered \<or> ph = Served \<longrightarrow> \<not> busy g \<and> n = 0) \<and>
     (ph = Issued \<longrightarrow> n = (if busy g then 0 else 1))"

lemma fits_other: "h \<noteq> Some t \<Longrightarrow> fits busy t ph h g n \<longleftrightarrow> ph = Outside"
  by (auto simp: fits_def)

section \<open>Semaphore values\<close>

lemma sem_values_simps [simp]:
  "sem_values (wake q k) = sem_values k" "sem_values (release l k) = sem_values k" "sem_values (dispatch k) = sem_values k"
  "sem_values (Sleep k) = sem_values k" "sem_values (Semaphore_V s k) = (sem_values k)(s := sem_values k s + 1)"
  "sem_values (fold (\<lambda>(_, t). ReadyToRun t) q k) = sem_values k"
proof -
  show w: "sem_values (wake q k) = sem_values k" for q and k :: "('a, 'b) Kernel_scheme" by (auto simp: wake_def split: list.splits)
  show "sem_values (release l k) = sem_values k" by (simp add: release_def Let_def w)
  show "sem_values (Semaphore_V s k) = (sem_values k)(s := sem_values k s + 1)"
    by (simp add: Semaphore_V_def Let_def w sem_values_def [of k s] sem_values_def [of "set_sem _ _ _"])
  show d: "sem_values (dispatch k) = sem_values k" for k :: "('a, 'b) Kernel_scheme"
    by (auto simp: dispatch_def FindNextToRun_def sem_values_def split: list.splits)
  show "sem_values (Sleep k) = sem_values k" by (simp add: Sleep_def d)
  show "sem_values (fold (\<lambda>(_, t). ReadyToRun t) q k) = sem_values k" by (induction q arbitrary: k) (auto split: prod.splits)
qed

lemma sem_values_cong: "sems k' = sems k \<Longrightarrow> sem_values k' = sem_values k"
  by (simp add: sem_values_def fun_eq_iff)

lemma sem_values_upd [simp]: "sem_values (k\<lparr>level := x\<rparr>) = sem_values k" "sem_values (k\<lparr>shared := g\<rparr>) = sem_values k"
    "sem_values (k\<lparr>readyList := r\<rparr>) = sem_values k" "sem_values (k\<lparr>threadToBeDestroyed := d\<rparr>) = sem_values k"
    "sem_values (k\<lparr>code := c\<rparr>) = sem_values k"
  by (simp_all add: sem_values_def fun_eq_iff)

lemma settle_sem_values:
  assumes "settle t rest r = Inr k'"
  obtains k1 where "end_state r = Some k1" "sem_values k' = sem_values k1"
  using assms that by (cases r) (auto simp: settle_def)

text \<open>The processor is idle only when no thread is ready.\<close>

lemma dispatch_idle: "idle (dispatch k) \<Longrightarrow> readyList (dispatch k) = []"
  by (auto simp: dispatch_def FindNextToRun_def Run_def setStatus_def split: list.splits)

lemma code_dispatch [simp]: "code (dispatch k) = code k"
  by (auto simp: dispatch_def FindNextToRun_def split: list.splits)

lemma sysinv_shared [simp]: "sysinv (k\<lparr>shared := g\<rparr>) = sysinv k"
  by (simp add: sysinv_def level_ok_def stat_def)

lemma settle_idle:
  assumes "settle t rest r = Inr k'" "\<And>k1. end_state r = Some k1 \<Longrightarrow> \<not> idle k1" "idle k'"
  shows "readyList k' = []"
  using assms dispatch_idle by (cases r) (auto simp: settle_def Sleep_def Run_def setStatus_def)

section \<open>The interface of a driver\<close>

text \<open>
  What the driver relies on: a request of a device that is not busy succeeds and makes it
  busy, its interrupt makes it idle, and both keep an invariant of the device.
\<close>

locale driver =
  fixes l v :: nat and R :: "(nat \<Rightarrow> 'g \<Rightarrow> 'g res) set" and busy :: "'g \<Rightarrow> bool" and complete :: "'g \<Rightarrow> 'g" and J :: "'g \<Rightarrow> bool" and g0 :: 'g
  assumes request: "f \<in> R \<Longrightarrow> J g \<Longrightarrow> \<not> busy g \<Longrightarrow> \<exists>g'. f t g = Inr g' \<and> busy g' \<and> J g'"
    and completes: "J g \<Longrightarrow> busy g \<Longrightarrow> J (complete g) \<and> \<not> busy (complete g)"
    and init: "J g0" "\<not> busy g0"
begin

definition obliged :: "nat \<Rightarrow> ('g, 'x) Kernel_scheme \<Rightarrow> 'g instr list \<Rightarrow> bool" where
  "obliged t k c \<longleftrightarrow> (\<exists>ph. dwp l v R ph c \<and> fits busy t ph (holder k l) (shared k) (sem_values k v))"

definition quiet :: "('g, 'x) Kernel_scheme \<Rightarrow> bool" where
  "quiet k \<longleftrightarrow> J (shared k) \<and> (holder k l = None \<longrightarrow> \<not> busy (shared k) \<and> sem_values k v = 0)"

text \<open>A thread that runs, will run, or waits for the device.\<close>

definition on_its_way :: "('g, 'x) Kernel_scheme \<Rightarrow> nat \<Rightarrow> bool" where
  "on_its_way k u \<longleftrightarrow> stat k u = Some RUNNING \<or> stat k u = Some READY \<or> stat k u = Some BLOCKED \<and> waits (code k u) = Some (QSem v)"

definition dinv :: "('g, 'x) Kernel_scheme \<Rightarrow> bool" where
  "dinv k \<longleftrightarrow> sysinv k \<and> quiet k \<and> (\<forall>t. obliged t k (code k t)) \<and>
     (\<forall>t th. threads k t = Some th \<and> joining th \<longrightarrow> joinSignal th \<noteq> v \<and> mayDie th \<noteq> v) \<and> (idle k \<longrightarrow> readyList k = []) \<and>
     (\<forall>u. holder k l = Some u \<longrightarrow> on_its_way k u)"

text \<open>A routine executed by the current thread, and what it leaves of the device.\<close>

definition dpassed :: "('g, 'x) Kernel_scheme \<Rightarrow> 'g instr list \<Rightarrow> (('g, 'x) Kernel_scheme, 'g) outcome \<Rightarrow> bool" where
  "dpassed k rest r \<longleftrightarrow> (\<forall>k1 pre. r = Cont k1 pre \<or> r = Sleeps k1 pre \<or> (\<exists>n. r = Runs n k1 pre) \<longrightarrow>
     obliged (currentThread k) k1 (pre @ rest) \<and> quiet k1 \<and>
     (holder k1 l = holder k l \<and> shared k1 = shared k \<and> sem_values k1 v = sem_values k v \<or>
      holder k l \<in> {None, Some (currentThread k)} \<and> holder k1 l \<in> {None, Some (currentThread k)}))"

lemma dpassed_same:
  assumes "holder k1 l = holder k l" "shared k1 = shared k" "sem_values k1 v = sem_values k v" "quiet k"
    "obliged (currentThread k) k (pre @ rest)"
  shows "dpassed k rest (Cont k1 pre)" "dpassed k rest (Sleeps k1 pre)" "dpassed k rest (Runs n k1 pre)"
  using assms by (auto simp: dpassed_def obliged_def quiet_def)

lemma dpassed_cong:
  assumes "holder k0 l = holder k l" "shared k0 = shared k" "sem_values k0 v = sem_values k v" "currentThread k0 = currentThread k"
  shows "dpassed k0 rest r = dpassed k rest r"
  using assms by (simp add: dpassed_def)

lemma dpassed_Err [simp]: "dpassed k rest (Err e)"
  by (simp add: dpassed_def)

lemma obliged_same:
  assumes "obliged t k c" and "\<And>ph. dwp l v R ph c \<Longrightarrow> dwp l v R ph c'"
  shows "obliged t k c'"
  using assms by (auto simp: obliged_def)

lemma P_body_dpassed:
  assumes q: "quiet k" and o: "obliged (currentThread k) k (SemP s # rest)"
  shows "dpassed k rest (P_body s old k)"
proof (cases "svalue (sems k s) = 0")
  case True
  have "obliged (currentThread k) k (PLoop s old # rest)" by (rule obliged_same [OF o]) simp
  then show ?thesis using True q by (auto simp: P_body_def Let_def sem_values_def [symmetric] intro!: dpassed_same)
next
  case False
  then have P: "P_body s old k = Cont ((set_sem s (sems k s\<lparr>svalue := svalue (sems k s) - 1\<rparr>) k)\<lparr>level := old\<rparr>) []"
    by (simp add: P_body_def Let_def)
  obtain ph where ph: "dwp l v R ph (SemP s # rest)" "fits busy (currentThread k) ph (holder k l) (shared k) (sem_values k v)"
    using o by (auto simp: obliged_def)
  show ?thesis
  proof (cases "s = v")
    case True
    then have "ph = Issued" "dwp l v R Served rest" using ph(1) by auto
    moreover have "svalue (sems k v) = sem_values k v" "sem_values k v \<noteq> 0" using False True by (simp_all add: sem_values_def)
    ultimately show ?thesis using ph(2) q True unfolding P
      by (auto simp: dpassed_def obliged_def fits_def quiet_def split: if_splits intro!: exI [of _ Served])
  next
    case False
    then have "obliged (currentThread k) k rest" using ph by (auto simp: obliged_def)
    then show ?thesis unfolding P using q False by (intro dpassed_same) simp_all
  qed
qed

lemma Acquire_body_dpassed:
  assumes q: "quiet k" and o: "obliged (currentThread k) k (LockAcquire m # rest)" and lk: "locked k l \<longleftrightarrow> holder k l \<noteq> None"
  shows "dpassed k rest (Acquire_body m old k)"
proof -
  obtain ph where ph: "m = l" "ph = Outside" "dwp l v R Entered rest"
      "fits busy (currentThread k) Outside (holder k l) (shared k) (sem_values k v)" using o by (auto simp: obliged_def)
  show ?thesis
  proof (cases "isLocked (locks k l)")
    case True
    have "obliged (currentThread k) k (AcquireLoop m old # rest)" by (rule obliged_same [OF o]) simp
    then show ?thesis using True q ph(1) by (auto simp: Acquire_body_def Let_def holder_def [symmetric] intro!: dpassed_same)
  next
    case False
    then have "holder k l = None" using lk by (simp add: locked_def)
    then show ?thesis using False q ph(1,3)
      by (auto simp: Acquire_body_def Let_def dpassed_def obliged_def fits_def quiet_def intro!: exI [of _ Entered])
  qed
qed

lemma resumed_dpassed:
  assumes k: "kinv k" and t: "\<not> idle k"
    and f: "\<And>k0. holder k0 = holder k \<Longrightarrow> locked k0 = locked k \<Longrightarrow> shared k0 = shared k \<Longrightarrow> currentThread k0 = currentThread k \<Longrightarrow>
      sem_values k0 = sem_values k \<Longrightarrow> dpassed k0 rest (f k0)"
  shows "dpassed k rest (resumed f k)"
proof -
  obtain k0 where k0: "after_switch k = Inr k0" "holder k0 = holder k" "locked k0 = locked k" "shared k0 = shared k"
    "currentThread k0 = currentThread k" using after_switch_same [OF k t] by blast
  have "sem_values k0 = sem_values k" using k0(1) by (auto simp: after_switch_def split: option.splits intro!: sem_values_cong)
  then show ?thesis using f [of k0] dpassed_cong [of k0 k rest] k0 by (simp add: resumed_def)
qed

lemma exec_dpassed:
  assumes k: "kinv k" and t: "\<not> idle k" and q: "quiet k" and o: "obliged (currentThread k) k (i # rest)"
    and j: "\<And>th. threads k (currentThread k) = Some th \<Longrightarrow> joining th \<Longrightarrow> joinSignal th \<noteq> v \<and> mayDie th \<noteq> v"
  shows "dpassed k rest (exec i k)"
proof (cases i)
  case (SemP s)
  let ?k = "k\<lparr>level := IntOff\<rparr>"
  have "dpassed ?k rest (P_body s (level k) ?k)"
    by (rule P_body_dpassed) (use q o SemP in \<open>simp_all add: quiet_def obliged_def\<close>)
  then show ?thesis using SemP dpassed_cong [of ?k k rest] by (simp add: Semaphore_P_def)
next
  case (LockAcquire m)
  let ?k = "k\<lparr>level := IntOff\<rparr>"
  have "dpassed ?k rest (Acquire_body m (level k) ?k)"
    by (rule Acquire_body_dpassed) (use q o LockAcquire kinvD(4) [OF k, of l] in \<open>simp_all add: quiet_def obliged_def locked_def\<close>)
  then show ?thesis using LockAcquire dpassed_cong [of ?k k rest] by (simp add: Lock_Acquire_def)
next
  case (LockRelease m)
  then have "m = l" "fits busy (currentThread k) Served (holder k l) (shared k) (sem_values k v)" "dwp l v R Outside rest"
    using o by (auto simp: obliged_def)
  then show ?thesis using LockRelease q
    by (auto simp: Lock_Release_def dpassed_def obliged_def fits_def quiet_def intro!: exI [of _ Outside] split: if_splits)
next
  case (Act f)
  then have f: "f \<in> R" "fits busy (currentThread k) Entered (holder k l) (shared k) (sem_values k v)" "dwp l v R Issued rest"
    using o by (auto simp: obliged_def)
  then obtain g' where "f (currentThread k) (shared k) = Inr g'" "busy g'" "J g'"
    using request [of f "shared k"] q by (auto simp: fits_def quiet_def)
  then show ?thesis using Act f by (auto simp: dpassed_def obliged_def fits_def quiet_def intro!: exI [of _ Issued])
next
  case (SemV s)
  then have "s \<noteq> v" "obliged (currentThread k) k rest" using o by (auto simp: obliged_def)
  then show ?thesis using SemV q by (simp add: dpassed_same)
next
  case ThreadYield
  have "obliged (currentThread k) k rest" "obliged (currentThread k) k (YieldResume (level k) # rest)"
    by (rule obliged_same [OF o]; use ThreadYield in simp)+
  then show ?thesis using ThreadYield q
    by (auto simp: Thread_Yield_def FindNextToRun_def Let_def intro!: dpassed_same split: list.splits)
next
  case ThreadFinish
  have "obliged (currentThread k) k (SemV x # SemP y # Die # rest)" if "x \<noteq> v" "y \<noteq> v" for x y
    by (rule obliged_same [OF o]) (use ThreadFinish that in simp)
  moreover have "obliged (currentThread k) k (Die # rest)" by (rule obliged_same [OF o]) (use ThreadFinish in simp)
  ultimately show ?thesis using ThreadFinish q j by (auto simp: Thread_Finish_def intro!: dpassed_same split: option.splits)
next
  case (ThreadFork n)
  have "obliged (currentThread k) k rest" by (rule obliged_same [OF o]) (use ThreadFork in simp)
  then show ?thesis using ThreadFork q by (auto simp: Thread_Fork_def intro!: dpassed_same split: option.splits)
next
  case (PLoop s old)
  have "obliged (currentThread k) k (SemP s # rest)" by (rule obliged_same [OF o]) (use PLoop in simp)
  then have "dpassed k rest (resumed (P_body s old) k)"
    by (intro resumed_dpassed [OF k t] P_body_dpassed) (use q in \<open>simp_all add: quiet_def obliged_def\<close>)
  then show ?thesis using PLoop by simp
next
  case (AcquireLoop m old)
  have "obliged (currentThread k) k (LockAcquire m # rest)" by (rule obliged_same [OF o]) (use AcquireLoop in simp)
  then have "dpassed k rest (resumed (Acquire_body m old) k)"
    by (intro resumed_dpassed [OF k t] Acquire_body_dpassed) (use q kinvD(4) [OF k, of l] in \<open>simp_all add: quiet_def obliged_def\<close>)
  then show ?thesis using AcquireLoop by simp
next
  case (YieldResume old)
  have "obliged (currentThread k) k rest" by (rule obliged_same [OF o]) (use YieldResume in simp)
  then have "dpassed k rest (resumed (\<lambda>k. Cont (k\<lparr>level := old\<rparr>) []) k)"
    by (intro resumed_dpassed [OF k t] dpassed_same) (use q in \<open>simp_all add: quiet_def obliged_def\<close>)
  then show ?thesis using YieldResume by simp
next
  case Startup
  have "obliged (currentThread k) k rest" by (rule obliged_same [OF o]) (use Startup in simp)
  then show ?thesis using Startup q by (simp add: dpassed_same)
next
  case Die
  then show ?thesis using o q by (auto intro!: dpassed_same)
qed (use o in \<open>simp_all add: obliged_def\<close>)

lemma settle_obliged:
  assumes d: "dinv k" and p: "dpassed k rest r" and f: "\<And>k1. end_state r = Some k1 \<Longrightarrow> frame k k1"
    and st: "settle (currentThread k) rest r = Inr k'"
  shows "quiet k'" "obliged u k' (code k' u)"
proof -
  let ?t = "currentThread k"
  obtain k1 pre where k1: "end_state r = Some k1" "r = Cont k1 pre \<or> r = Sleeps k1 pre \<or> (\<exists>n. r = Runs n k1 pre)"
    "holder k' = holder k1" "shared k' = shared k1" "code k' = (code k1)(?t := pre @ rest)" using settle_parts [OF st] .
  have s: "sem_values k' = sem_values k1" using settle_sem_values [OF st] k1(1) by fastforce
  have ok: "obliged ?t k1 (pre @ rest)" "quiet k1"
    "holder k1 l = holder k l \<and> shared k1 = shared k \<and> sem_values k1 v = sem_values k v \<or>
      holder k l \<in> {None, Some ?t} \<and> holder k1 l \<in> {None, Some ?t}"
    using p k1(2) unfolding dpassed_def by blast+
  show "quiet k'" using ok(2) k1(3,4) s by (simp add: quiet_def)
  show "obliged u k' (code k' u)"
  proof (cases "u = ?t")
    case True
    then show ?thesis using ok(1) k1 s by (simp add: obliged_def)
  next
    case False
    have "code k1 u = code k u \<or> code k1 u = Startup # code k u" using f [OF k1(1)] by (auto simp: frame_def)
    moreover have "obliged u k (code k u)" using d by (simp add: dinv_def)
    moreover have "obliged u k1 c" if "obliged u k c" for c
      using that ok(3) False by (auto simp: obliged_def fits_other)
    moreover have "obliged u k (Startup # c) = obliged u k c" for c by (simp add: obliged_def)
    ultimately have "obliged u k1 (code k1 u)" by metis
    then show ?thesis using k1 s False by (simp add: obliged_def)
  qed
qed

lemma waits_device:
  assumes "obliged t k ([j] @ rest)" "waits [j] \<noteq> None \<or> j = Die" "holder k l = Some t"
  shows "waits ([j] @ rest) = Some (QSem v)"
  using assms by (cases j) (auto simp: obliged_def fits_def split: if_splits)

lemma settle_on_its_way:
  assumes d: "dinv k" and t: "\<not> idle k" and p: "dpassed k rest (exec i k)" and f: "\<And>k1. end_state (exec i k) = Some k1 \<Longrightarrow> frame k k1"
    and st: "settle (currentThread k) rest (exec i k) = Inr k'" and s': "sysinv k'" and h: "holder k' l = Some u"
  shows "on_its_way k' u"
proof -
  let ?t = "currentThread k"
  have k: "kinv k" using d by (simp add: dinv_def sysinv_def)
  note D = placesD [OF kinvD(1) [OF k]]
  obtain k1 pre where k1: "end_state (exec i k) = Some k1" "exec i k = Cont k1 pre \<or> exec i k = Sleeps k1 pre \<or> (\<exists>n. exec i k = Runs n k1 pre)"
    "holder k' = holder k1" "code k' = (code k1)(?t := pre @ rest)" using settle_parts [OF st] by metis
  have ok: "obliged ?t k1 (pre @ rest)" "holder k1 l = holder k l \<or> holder k1 l \<in> {None, Some ?t}" using p k1(2) unfolding dpassed_def by blast+
  have fr: "currentThread k1 = ?t" "idle k1 = idle k" "code k1 u = code k u \<or> stat k u = Some JUST_CREATED" using f [OF k1(1)] by (auto simp: frame_def)
  have tr: "stat k ?t = Some RUNNING" "threadToBeDestroyed k \<noteq> Some ?t"
    using running_facts(1) [OF k running_current [OF t]] D(7) [of ?t] by auto
  have t1: "stat k1 ?t \<noteq> None" using exec_stat [OF k1(1), of ?t] tr by auto
  note ss = settle_stat [OF st k1(1) t1 fr(1), of u]
  show ?thesis
  proof (cases "u = ?t")
    case True
    show ?thesis
    proof (cases "exec i k")
      case (Cont k2 pre')
      then have "currentThread k' = ?t" "\<not> idle k'" using st k1(1) fr t by auto
      then show ?thesis using running_facts(1) [of k' ?t] s' True by (auto simp: on_its_way_def sysinv_def running_def)
    next
      case (Sleeps k2 pre')
      then have "pre' = pre" "k2 = k1" using k1(2) by auto
      with exec_Sleeps_at [OF Sleeps] obtain j where j: "pre = [j]" "waits [j] \<noteq> None \<or> j = Die" by auto
      have "waits (pre @ rest) = Some (QSem v)" using waits_device [of ?t k1 j rest] ok(1) j h True k1(3) by simp
      moreover have "stat k' ?t = Some RUNNING \<or> stat k' ?t = Some READY \<or> stat k' ?t = Some BLOCKED"
        using ss exec_stat [OF k1(1), of ?t] tr True by auto
      ultimately show ?thesis using True k1(4) by (auto simp: on_its_way_def)
    next
      case (Runs n k2 pre')
      then have "stat k1 ?t = Some READY" using exec_Runs_ready [of i k n k1] k1(2) tr by auto
      then show ?thesis using ss True Runs by (auto simp: on_its_way_def)
    qed (use st in simp)
  next
    case False
    then have "on_its_way k u" using d ok(2) h k1(3) by (auto simp: dinv_def)
    moreover have "stat k u \<noteq> Some RUNNING" using D(6) [of u] running_current [OF t] False by simp
    ultimately have "stat k u = Some READY \<or> stat k u = Some BLOCKED \<and> waits (code k u) = Some (QSem v)" by (auto simp: on_its_way_def)
    moreover from this have "threadToBeDestroyed k \<noteq> Some u" using D(7,8) [of u] by (auto simp: wait_point_def)
    ultimately show ?thesis using ss exec_stat [OF k1(1), of u] fr(3) k1(4) False by (auto simp: on_its_way_def)
  qed
qed

lemma settle_dinv:
  assumes d: "dinv k" and t: "\<not> idle k" and p: "dpassed k rest (exec i k)"
    and f: "\<And>k1. end_state (exec i k) = Some k1 \<Longrightarrow> frame k k1 \<and> joins_kept k k1"
    and st: "settle (currentThread k) rest (exec i k) = Inr k'" and s': "sysinv k'"
  shows "dinv k'"
proof -
  have "\<forall>u. holder k' l = Some u \<longrightarrow> on_its_way k' u" using settle_on_its_way [OF d t p _ st s'] f by blast
  moreover have "joins_kept k k'" by (rule settle_joins_kept [OF st]) (use f in blast)
  then have "\<forall>t th. threads k' t = Some th \<and> joining th \<longrightarrow> joinSignal th \<noteq> v \<and> mayDie th \<noteq> v"
    using d unfolding joins_kept_def dinv_def by metis
  moreover have "idle k' \<Longrightarrow> readyList k' = []" by (rule settle_idle [OF st]) (use f t in \<open>auto simp: frame_def\<close>)
  ultimately show ?thesis
    using settle_obliged [OF d p _ st] f s' unfolding dinv_def by blast
qed

lemma dinv_current: "dinv k \<Longrightarrow> threads k (currentThread k) = Some th \<Longrightarrow> joining th \<Longrightarrow> joinSignal th \<noteq> v \<and> mayDie th \<noteq> v"
  unfolding dinv_def by blast

lemma step_thread_dinv:
  assumes d: "dinv k" and t: "\<not> idle k" and st: "step_thread k = Inr k'"
  shows "dinv k'"
proof -
  have k: "kinv k" "level_ok k" "quiet k" "obliged (currentThread k) k (code k (currentThread k))"
    using d by (simp_all add: dinv_def sysinv_def)
  have s': "sysinv k'" using step_thread_sysinv [OF k(1,2) t st] .
  have fr: "frame k k1 \<and> joins_kept k k1" if "end_state (exec i k) = Some k1" "plain i \<or> waits [i] \<noteq> None" for i k1
    using frame_end_state [OF that] exec_joins_kept [OF that(1)] by simp
  show ?thesis
  proof (cases "code k (currentThread k)")
    case Nil
    then have s: "settle (currentThread k) [] (exec ThreadFinish k) = Inr k'" using st by (simp add: step_thread_def)
    have "obliged (currentThread k) k [ThreadFinish]" using k(4) Nil by (simp add: obliged_def)
    then show ?thesis by (rule settle_dinv [OF d t exec_dpassed [OF k(1) t k(3)] _ s s']) (use fr [of ThreadFinish] dinv_current [OF d] in auto)
  next
    case (Cons i rest)
    then have s: "settle (currentThread k) rest (exec i k) = Inr k'" using st by (simp add: step_thread_def)
    have i: "plain i \<or> waits [i] \<noteq> None" using level_okD(1) [OF k(2), of "currentThread k"] Cons by (simp add: resume_front_def)
    show ?thesis
      by (rule settle_dinv [OF d t exec_dpassed [OF k(1) t k(3)] _ s s']) (use k(4) Cons fr [OF _ i] dinv_current [OF d] in auto)
  qed
qed

text \<open>An interrupt: the code of threads stays, the obligations have to be carried over.\<close>

lemma interrupt_dinv:
  assumes d: "dinv k" and s: "sysinv k'" and q: "quiet k'" and o: "\<And>u c. obliged u k c \<Longrightarrow> obliged u k' c"
    and f: "frame k k1" "joins_kept k k1" "k' = k1 \<and> \<not> idle k \<or> k' = dispatch k1" "only_readied k k1" "holder k' l = holder k l"
  shows "dinv k'"
proof -
  have c: "code k' u = code k u \<or> code k' u = Startup # code k u" for u using f by (auto simp: frame_def)
  have "obliged u k' (code k' u)" for u
  proof -
    have "obliged u k (code k u)" using d unfolding dinv_def by blast
    from o [OF this] show ?thesis using c [of u] by (auto simp: obliged_def)
  qed
  moreover have "joins_kept k k'" using f joins_kept_trans [OF f(2) joins_kept_dispatch] by auto
  then have "\<forall>t th. threads k' t = Some th \<and> joining th \<longrightarrow> joinSignal th \<noteq> v \<and> mayDie th \<noteq> v"
    using d unfolding joins_kept_def dinv_def by metis
  moreover have "on_its_way k' u" if "on_its_way k u" for u
  proof -
    have "stat k' u = stat k1 u \<or> stat k' u = Some RUNNING" using f(3) stat_dispatch [of k1 u] by auto
    moreover have "stat k1 u = stat k u \<or> stat k1 u = Some READY" using f(4) by (auto simp: only_readied_def)
    moreover have "code k' u = code k u \<or> stat k u = Some JUST_CREATED" using f(1,3) by (auto simp: frame_def)
    ultimately show ?thesis using that by (auto simp: on_its_way_def)
  qed
  then have "\<forall>u. holder k' l = Some u \<longrightarrow> on_its_way k' u" using d f(5) by (simp add: dinv_def)
  moreover have "idle k' \<longrightarrow> readyList k' = []" using f dispatch_idle [of k1] by (auto simp: frame_def)
  ultimately show ?thesis using s q unfolding dinv_def by blast
qed

lemma served_obliged:
  assumes q: "quiet k" and b: "busy (shared k)" and o: "obliged u k c"
    and k': "holder k' l = holder k l" "shared k' = complete (shared k)" "sem_values k' v = sem_values k v + 1"
  shows "obliged u k' c"
proof -
  obtain ph where ph: "dwp l v R ph c" "fits busy u ph (holder k l) (shared k) (sem_values k v)" using o by (auto simp: obliged_def)
  then have "ph = Outside \<or> ph = Issued" using b by (cases ph) (auto simp: fits_def)
  moreover have "\<not> busy (complete (shared k))" using completes q b by (auto simp: quiet_def)
  ultimately have "fits busy u ph (holder k' l) (shared k') (sem_values k' v)" using ph(2) b k' by (auto simp: fits_def)
  with ph(1) show ?thesis by (auto simp: obliged_def)
qed

lemma served_dinv:
  assumes d: "dinv k" and b: "busy (shared k)" and k1: "k1 = Semaphore_V v (k\<lparr>shared := complete (shared k)\<rparr>)"
    and k': "k' = k1 \<and> \<not> idle k \<or> k' = dispatch k1" and s: "sysinv k'"
  shows "dinv k'"
proof (rule interrupt_dinv [OF d s])
  have q: "quiet k" using d by (simp add: dinv_def)
  have v: "holder k' l = holder k l" "shared k' = complete (shared k)" "sem_values k' v = sem_values k v + 1"
    using k' by (auto simp: k1)
  have "holder k l \<noteq> None" using q b by (auto simp: quiet_def)
  then show "quiet k'" using q b v completes by (auto simp: quiet_def)
  show "obliged u k' c" if "obliged u k c" for u c by (rule served_obliged [OF q b that v])
  show "frame k k1" unfolding k1 by (rule frame_trans [OF _ frame_V]) simp
  show "joins_kept k k1" unfolding k1 by (rule joins_kept_trans [OF joins_kept_same joins_kept_V]) simp
  show "only_readied k k1" unfolding k1 by (rule only_readied_trans [OF only_readied_same only_readied_V]) simp
  show "holder k' l = holder k l" by (rule v)
qed (rule k')

lemma kstep_dinv:
  assumes "kstep devs k k'" "v \<notin> devs" "dinv k"
  shows "dinv k'"
  using assms
proof (induction rule: kstep.induct)
  case (execute k k')
  then show ?case using step_thread_dinv by blast
next
  case (interrupt k s)
  have "sysinv (Semaphore_V s k)" using kstep_sysinv [OF kstep.interrupt [OF interrupt(1,2,3)]] interrupt(5) by (simp add: dinv_def)
  then show ?case by (rule interrupt_dinv [OF interrupt(5) _ _ _ frame_V joins_kept_V _ only_readied_V]) (use interrupt in \<open>auto simp: dinv_def quiet_def obliged_def\<close>)
next
  case (idle_interrupt k s)
  have "sysinv (dispatch (Semaphore_V s k))"
    using kstep_sysinv [OF kstep.idle_interrupt [OF idle_interrupt(1,2)]] idle_interrupt(4) by (simp add: dinv_def)
  then show ?case by (rule interrupt_dinv [OF idle_interrupt(4) _ _ _ frame_V joins_kept_V _ only_readied_V])
      (use idle_interrupt in \<open>auto simp: dinv_def quiet_def obliged_def\<close>)
next
  case (preempt k k')
  let ?c = "code k (currentThread k)"
  have k: "kinv k" "quiet k" "obliged (currentThread k) k ?c" "sysinv k" using preempt(5) by (simp_all add: dinv_def sysinv_def)
  have "obliged (currentThread k) k (ThreadYield # ?c)" using k(3) by (simp add: obliged_def)
  then have "dpassed k ?c (exec ThreadYield k)" by (rule exec_dpassed [OF k(1) preempt(1) k(2)]) (use dinv_current [OF preempt(5)] in blast)
  moreover have "sysinv k'" using kstep_sysinv [OF kstep.preempt [OF preempt(1,2,3)] k(4)] .
  moreover have "settle (currentThread k) ?c (exec ThreadYield k) = Inr k'" using preempt(3) by simp
  ultimately show ?case
    using settle_dinv [OF preempt(5,1), of ?c ThreadYield] frame_end_state [of ThreadYield k] exec_joins_kept [of ThreadYield k] by simp
qed

lemma dstep_dinv:
  assumes "dstep devs v busy complete k k'" "v \<notin> devs" "dinv k"
  shows "dinv k'"
  using assms
proof (induction rule: dstep.induct)
  case (kernel k k')
  then show ?case using kstep_dinv by blast
next
  case (served k)
  have "kstep {v} (k\<lparr>shared := complete (shared k)\<rparr>) (Semaphore_V v (k\<lparr>shared := complete (shared k)\<rparr>))"
    by (rule kstep.interrupt) (use served in simp_all)
  then have "sysinv (Semaphore_V v (k\<lparr>shared := complete (shared k)\<rparr>))" by (rule kstep_sysinv) (use served in \<open>simp add: dinv_def\<close>)
  then show ?case using served_dinv [OF served(5,3) refl] served(1) by blast
next
  case (idle_served k)
  have "kstep {v} (k\<lparr>shared := complete (shared k)\<rparr>) (dispatch (Semaphore_V v (k\<lparr>shared := complete (shared k)\<rparr>)))"
    by (rule kstep.idle_interrupt) (use idle_served in simp_all)
  then have "sysinv (dispatch (Semaphore_V v (k\<lparr>shared := complete (shared k)\<rparr>)))"
    by (rule kstep_sysinv) (use idle_served in \<open>simp add: dinv_def\<close>)
  then show ?case using served_dinv [OF idle_served(4,2) refl] by blast
qed

lemma dreachable_dinv: "dreachable devs v busy complete k0 k \<Longrightarrow> v \<notin> devs \<Longrightarrow> dinv k0 \<Longrightarrow> dinv k"
  by (induction rule: dreachable.induct) (auto intro: dstep_dinv)

subsection \<open>No failure, no stall\<close>

lemma driver_step_ok:
  assumes d: "dinv k" and t: "\<not> idle k" and c: "code k (currentThread k) = i # rest" "\<not> lifecycle i"
  shows "\<exists>k'. step_thread k = Inr k'"
proof -
  let ?t = "currentThread k"
  have k: "kinv k" "level_ok k" "quiet k" using d by (simp_all add: dinv_def sysinv_def)
  obtain ph where w: "dwp l v R ph (i # rest)" and ft: "fits busy ?t ph (holder k l) (shared k) (sem_values k v)"
    using d c(1) unfolding dinv_def obliged_def by metis
  have th: "threads k ?t \<noteq> None" using running_facts(1) [OF k(1) running_current [OF t]] by (auto simp: stat_def)
  have off: "level k = IntOff" if "\<not> plain i" using level_okD(4) [OF k(2)] c that by (cases "level k") auto
  obtain k0 where k0: "after_switch k = Inr k0" "level k0 = level k"
  proof -
    obtain k0 where "after_switch k = Inr k0" using after_switch_same [OF k(1) t] by blast
    then show ?thesis using that by (auto simp: after_switch_def split: option.splits)
  qed
  have "\<exists>k'. settle ?t rest (exec i k) = Inr k'"
  proof (cases i)
    case (Act f)
    then obtain g' where "f ?t (shared k) = Inr g'" using w ft k(3) request [of f "shared k" ?t] by (auto simp: fits_def quiet_def)
    then show ?thesis using Act by simp
  next
    case (LockAcquire m)
    then have "\<not> isHeldByCurrentThread m k" using w ft by (auto simp: isHeldByCurrentThread_def fits_def holder_def)
    then show ?thesis using LockAcquire by (simp add: Lock_Acquire_def Acquire_body_ok)
  next
    case (LockRelease m)
    then have "isHeldByCurrentThread m k" using w ft by (auto simp: isHeldByCurrentThread_def fits_def holder_def)
    then show ?thesis using LockRelease by (simp add: Lock_Release_def)
  next
    case ThreadYield
    then show ?thesis by (auto simp: Thread_Yield_def FindNextToRun_def Let_def settle_def split: list.splits)
  next
    case ThreadFinish
    then show ?thesis using th by (auto simp: Thread_Finish_def)
  qed (use c(2) w k0 off in \<open>auto simp: Semaphore_P_def resumed_def P_body_ok Acquire_body_ok\<close>)
  then show ?thesis using c by (simp add: step_thread_def)
qed

lemma driver_no_stall:
  assumes d: "dinv k" and i: "idle k" and b: "\<not> busy (shared k)"
  shows "holder k l = None \<and> queue_of k (QSem v) = [] \<and> queue_of k (QLock l) = []"
proof -
  have k: "kinv k" "quiet k" "readyList k = []" and o: "\<And>u. obliged u k (code k u)" and w: "\<And>u. holder k l = Some u \<Longrightarrow> on_its_way k u"
    using d i by (auto simp: dinv_def sysinv_def)
  note D = placesD [OF kinvD(1) [OF k(1)]] and N = no_lostD [OF kinvD(2) [OF k(1)]]
  have r: "can_run (ready k) (running k) = {}" "running k = None" "ready k = []" using i k(3) by (simp_all add: can_run_def ready_def running_def)
  have "False" if "u \<in> set (queue_of k (QSem v))" for u
  proof -
    have "waits (code k u) = Some (QSem v)" using D(5) [OF that] by (simp add: wait_point_def)
    then obtain old c where "code k u = PLoop v old # c" by (cases "code k u" rule: waits.cases) auto
    then have "sem_values k v = 1" using o [of u] b by (auto simp: obliged_def fits_def)
    moreover have "queue_of k (QSem v) \<noteq> []" using that by auto
    ultimately show False using N(2) [of v] r(1) by simp
  qed
  then have q: "queue_of k (QSem v) = []" by (metis list.set_intros(1) neq_Nil_conv)
  have h: "holder k l = None"
  proof (rule ccontr)
    assume "holder k l \<noteq> None"
    then obtain u where "on_its_way k u" using w by auto
    then have "u \<in> set (queue_of k (QSem v))" using D(6,9) [of u] D(10) [of u "QSem v"] r by (auto simp: on_its_way_def wait_point_def)
    then show False using q by simp
  qed
  then have "\<not> locked k l" using kinvD(4) [OF k(1), of l] by simp
  then have "queue_of k (QLock l) = []" using N(3) [of l] r(1) by blast
  with q h show ?thesis by blast
qed

end

section \<open>Clients\<close>

text \<open>
  Threads that make legal calls of the driver's operations, fork others and yield, started by
  \<open>Initialize_kernel\<close> with the semaphore of the device at zero and used by nothing else.
\<close>

definition sound_clients :: "('o \<Rightarrow> bool) \<Rightarrow> nat set \<Rightarrow> nat \<Rightarrow> (nat \<Rightarrow> Thread option) \<Rightarrow> (nat \<Rightarrow> 'o call list) \<Rightarrow> (nat \<Rightarrow> int) \<Rightarrow> bool" where
  "sound_clients legal devs v created calls values \<longleftrightarrow> (\<forall>t p. Op p \<in> set (calls t) \<longrightarrow> legal p) \<and>
     (\<forall>t th. created t = Some th \<longrightarrow> tstatus th = JUST_CREATED \<and> (joining th \<longrightarrow> joinSignal th \<noteq> v \<and> mayDie th \<noteq> v)) \<and>
     (\<forall>s. 0 \<le> values s) \<and> values v = 0 \<and> v \<notin> devs"

locale driver_clients = driver l v R busy complete J g0
  for l v :: nat and R :: "(nat \<Rightarrow> 'g \<Rightarrow> 'g res) set" and busy :: "'g \<Rightarrow> bool" and complete :: "'g \<Rightarrow> 'g" and J :: "'g \<Rightarrow> bool" and g0 :: 'g +
  fixes ops :: "'o \<Rightarrow> 'g instr list" and legal :: "'o \<Rightarrow> bool"
  assumes shape: "legal p \<Longrightarrow> \<exists>f \<in> R. ops p = [LockAcquire l, Act f, SemP v, LockRelease l]"
begin

lemma client_dwp: "(\<And>p. Op p \<in> set cs \<Longrightarrow> legal p) \<Longrightarrow> dwp l v R Outside (client ops cs) \<and> list_all plain (client ops cs)"
proof (induction cs)
  case (Cons x cs)
  show ?case
  proof (cases x)
    case (Op p)
    then obtain f where "f \<in> R" "ops p = [LockAcquire l, Act f, SemP v, LockRelease l]" using shape [of p] Cons(2) by auto
    then show ?thesis using Cons Op by (simp add: client_def)
  qed (use Cons in \<open>simp_all add: client_def\<close>)
qed (simp add: client_def)

lemma start_dinv:
  assumes "sound_clients legal devs v created calls values"
  shows "dinv (Initialize_kernel created (\<lambda>t. client ops (calls t)) values g0)" (is "dinv ?k")
proof -
  note w = client_dwp [of "calls _"] and a = assms [unfolded sound_clients_def]
  have st: "startable created (\<lambda>t. client ops (calls t)) values" using w a unfolding startable_def by blast
  have v: "holder ?k l = None" "shared ?k = g0" "sem_values ?k v = 0" "code ?k = (\<lambda>t. client ops (calls t))" "\<not> idle ?k"
    using a by (simp_all add: holder_def sem_values_def Initialize_kernel_def Interrupt.defs Lock_Lock_def Semaphore_Semaphore_def)
  have "\<forall>t th. threads ?k t = Some th \<and> joining th \<longrightarrow> joinSignal th \<noteq> v \<and> mayDie th \<noteq> v"
    using a by (auto simp: Initialize_kernel_def Interrupt.defs Thread_Thread_def)
  moreover have "obliged t ?k (code ?k t)" for t using w [of t] a v by (auto simp: obliged_def fits_def)
  ultimately show ?thesis using Initialize_kernel_sysinv [OF st, of g0] v init by (simp add: dinv_def quiet_def)
qed

lemma client_dinv:
  assumes "dreachable devs v busy complete (Initialize_kernel created (\<lambda>t. client ops (calls t)) values g0) k"
    and "sound_clients legal devs v created calls values"
  shows "dinv k"
  using dreachable_dinv [OF assms(1) _ start_dinv [OF assms(2)]] assms(2) by (simp add: sound_clients_def)

text \<open>What a client can rely on.\<close>

lemma client_guarantees:
  assumes r: "dreachable devs v busy complete (Initialize_kernel created (\<lambda>t. client ops (calls t)) values g0) k"
    and c: "sound_clients legal devs v created calls values"
  shows "J (shared k)" "currThread (locks k l) = None \<Longrightarrow> \<not> busy (shared k)"
    "\<not> idle k \<Longrightarrow> code k (currentThread k) = i # rest \<Longrightarrow> \<not> lifecycle i \<Longrightarrow> \<exists>k'. step_thread k = Inr k'"
    "idle k \<Longrightarrow> \<not> busy (shared k) \<Longrightarrow> currThread (locks k l) = None \<and> squeue (sems k v) = [] \<and> lqueue (locks k l) = []"
  using client_dinv [OF r c] driver_step_ok [of k i rest] driver_no_stall [of k] by (auto simp: dinv_def quiet_def holder_def)

end

end
