(* ===== verification/Devices.thy ===== *)
theory Devices
  imports Complex_Main ThreadInv FileHdr HostFile
begin

text \<open>
  The simulated devices of \<^verbatim>\<open>machine/{disk,timer,console,network}.{h,cc}\<close>. A device keeps its
  state in the system's state, asks for an interrupt with \<^verbatim>\<open>Schedule\<close>, and its handler calls
  back into the kernel: \<^verbatim>\<open>V\<close> on a semaphore of the driver (\<^verbatim>\<open>SynchDisk::RequestDone\<close>, the console
  and post office handlers), or \<^verbatim>\<open>TimerInterruptHandler\<close>. What the host delivers (polls of the
  keyboard and the socket, random numbers) is a list in the state, consumed in order.
\<close>

section \<open>State\<close>

record Disk =
  active :: bool
  lastSector :: int
  bufferInit :: int
  requestDone :: nat
  contents :: sectors

record Timer =
  randomize :: bool

record Console =
  putBusy :: bool
  incoming :: int
  readAvail :: nat
  writeDone :: nat
  keyboard :: "int option list"
  display :: "int list"

record PacketHeader =
  pkt_to :: int
  pkt_from :: int
  pkt_length :: int

definition MaxWireSize :: int where "MaxWireSize = 64"
definition MaxPacketSize :: int where "MaxPacketSize = MaxWireSize - 12"

record Network =
  ident :: int
  chanceToWork :: rat
  sendBusy :: bool
  inHdr :: PacketHeader
  inbox :: "8 word list"
  packetArrived :: nat
  packetSent :: nat
  sock :: "(PacketHeader \<times> 8 word list) option list"
  wire :: "(PacketHeader \<times> 8 word list) list"

record 'g System = "'g Kernel" +
  disk :: Disk
  timer :: Timer
  console :: Console
  network :: Network
  randoms :: "int list"

definition EOF :: int where "EOF = -1"

definition count :: "(Statistics \<Rightarrow> Statistics) \<Rightarrow> ('g, 'x) System_scheme \<Rightarrow> ('g, 'x) System_scheme" where
  "count f s = s\<lparr>stats := f (stats s)\<rparr>"

text \<open>\<^verbatim>\<open>Random()\<close> of the host.\<close>

definition Random :: "('g, 'x) System_scheme \<Rightarrow> int \<times> ('g, 'x) System_scheme" where
  "Random s = (case randoms s of [] \<Rightarrow> (0, s) | r # rs \<Rightarrow> (r, s\<lparr>randoms := rs\<rparr>))"

section \<open>disk.cc\<close>

text \<open>
  The UNIX file behind the disk: the magic number, then the sectors. The constructor checks
  the number of a file that exists, or makes a file of \<^verbatim>\<open>DiskSize\<close> bytes by writing its first
  and its last word.
\<close>

definition MagicNumber :: "32 word" where "MagicNumber = 0x456789ab"
definition MagicSize :: nat where "MagicSize = 4"
definition DiskSize :: nat where "DiskSize = MagicSize + nat NumSectors * SectorSize"

definition file_sectors_at :: "8 word list \<Rightarrow> sectors" where
  "file_sectors_at bytes = map (\<lambda>i. pread bytes (SectorSize * i + MagicSize) SectorSize) [0..<nat NumSectors]"

definition Disk_Disk :: "string \<Rightarrow> nat \<Rightarrow> HostFs \<Rightarrow> (Disk \<times> HostFs) res" where
  "Disk_Disk name callWhenDone fs = (let start = (\<lambda>bytes. \<lparr>active = False, lastSector = 0, bufferInit = 0,
       requestDone = callWhenDone, contents = file_sectors_at bytes\<rparr>) in
     case names fs name of
       Some i \<Rightarrow> ASSERT (pread (inodes fs i) 0 MagicSize = word_bytes MagicNumber) (Inr (start (inodes fs i), fs))
     | None \<Rightarrow> (let (i, fs1) = OpenForWrite name fs;
           bytes = pwrite (pwrite (inodes fs1 i) 0 (word_bytes MagicNumber)) (DiskSize - 4) (int_bytes 0)
         in Inr (start bytes, fs1\<lparr>inodes := (inodes fs1)(i := bytes)\<rparr>)))"

definition TimeToSeek :: "int \<Rightarrow> int \<Rightarrow> int \<Rightarrow> int \<times> int" where
  "TimeToSeek ticks lastSec newSector =
     (let newTrack = newSector sdiv SectorsPerTrack; oldTrack = lastSec sdiv SectorsPerTrack;
          seek = \<bar>newTrack - oldTrack\<bar> * SeekTime;
          over = (ticks + seek) smod RotationTime
      in (seek, if over > 0 then RotationTime - over else 0))"

definition ModuloDiff :: "int \<Rightarrow> int \<Rightarrow> int" where
  "ModuloDiff to from = ((to smod SectorsPerTrack - from smod SectorsPerTrack) + SectorsPerTrack) smod SectorsPerTrack"

definition in_track_buffer :: "int \<Rightarrow> Disk \<Rightarrow> int \<Rightarrow> bool \<Rightarrow> bool" where
  "in_track_buffer ticks d newSector writing \<longleftrightarrow>
     (let (seek, rotation) = TimeToSeek ticks (lastSector d) newSector; timeAfter = ticks + seek + rotation
      in writing = False \<and> seek = 0 \<and>
         (timeAfter - bufferInit d) sdiv RotationTime > ModuloDiff newSector (bufferInit d sdiv RotationTime))"

definition ComputeLatency :: "int \<Rightarrow> Disk \<Rightarrow> int \<Rightarrow> bool \<Rightarrow> int" where
  "ComputeLatency ticks d newSector writing =
     (let (seek, rotation) = TimeToSeek ticks (lastSector d) newSector; timeAfter = ticks + seek + rotation
      in if in_track_buffer ticks d newSector writing then RotationTime
         else seek + (rotation + ModuloDiff newSector (timeAfter sdiv RotationTime) * RotationTime) + RotationTime)"

definition UpdateLast :: "int \<Rightarrow> int \<Rightarrow> Disk \<Rightarrow> Disk" where
  "UpdateLast ticks newSector d =
     (let (seek, rotate) = TimeToSeek ticks (lastSector d) newSector
      in d\<lparr>bufferInit := if seek \<noteq> 0 then ticks + seek + rotate else bufferInit d, lastSector := newSector\<rparr>)"

definition ReadRequest :: "int \<Rightarrow> ('g, 'x) System_scheme \<Rightarrow> (8 word list \<times> ('g, 'x) System_scheme) res" where
  "ReadRequest sectorNumber s =
     (let d = disk s; ticks = ComputeLatency (now s) d sectorNumber False in
      ASSERT (\<not> active d) (ASSERT (sectorNumber \<ge> 0 \<and> sectorNumber < NumSectors)
      (bindE (Schedule DiskDone 0 ticks DiskInt
          (count (\<lambda>st. st\<lparr>numDiskReads := numDiskReads st + 1\<rparr>)
            (s\<lparr>disk := UpdateLast (now s) sectorNumber (d\<lparr>active := True\<rparr>)\<rparr>)))
        (\<lambda>s'. Inr (contents d ! nat sectorNumber, s')))))"

definition WriteRequest :: "int \<Rightarrow> 8 word list \<Rightarrow> ('g, 'x) System_scheme \<Rightarrow> ('g, 'x) System_scheme res" where
  "WriteRequest sectorNumber data s =
     (let d = disk s; ticks = ComputeLatency (now s) d sectorNumber True in
      ASSERT (\<not> active d) (ASSERT (sectorNumber \<ge> 0 \<and> sectorNumber < NumSectors)
      (Schedule DiskDone 0 ticks DiskInt
          (count (\<lambda>st. st\<lparr>numDiskWrites := numDiskWrites st + 1\<rparr>)
            (s\<lparr>disk := UpdateLast (now s) sectorNumber
               (d\<lparr>active := True, contents := (contents d)[nat sectorNumber := data]\<rparr>)\<rparr>)))))"

definition Disk_HandleInterrupt :: "('g, 'x) System_scheme \<Rightarrow> ('g, 'x) System_scheme res" where
  "Disk_HandleInterrupt s = Inr (Semaphore_V (requestDone (disk s)) (s\<lparr>disk := (disk s)\<lparr>active := False\<rparr>\<rparr>))"

section \<open>timer.cc and TimerInterruptHandler (system.cc)\<close>

definition TimeOfNextInterrupt :: "('g, 'x) System_scheme \<Rightarrow> int \<times> ('g, 'x) System_scheme" where
  "TimeOfNextInterrupt s = (if randomize (timer s)
     then let (r, s') = Random s in (1 + r smod (TimerTicks * 2), s')
     else (TimerTicks, s))"

definition TimerInterruptHandler :: "('g, 'x) System_scheme \<Rightarrow> ('g, 'x) System_scheme res" where
  "TimerInterruptHandler s = (if status s \<noteq> IdleMode then YieldOnReturn s else Inr s)"

definition Timer_Timer :: "bool \<Rightarrow> ('g, 'x) System_scheme \<Rightarrow> ('g, 'x) System_scheme res" where
  "Timer_Timer doRandom s = (let (d, s1) = TimeOfNextInterrupt (s\<lparr>timer := \<lparr>randomize = doRandom\<rparr>\<rparr>)
     in Schedule TimerHandler 0 d TimerInt s1)"

definition TimerExpired :: "('g, 'x) System_scheme \<Rightarrow> ('g, 'x) System_scheme res" where
  "TimerExpired s = (let (d, s1) = TimeOfNextInterrupt s
     in bindE (Schedule TimerHandler 0 d TimerInt s1) TimerInterruptHandler)"

section \<open>console.cc\<close>

definition Console_Console :: "nat \<Rightarrow> nat \<Rightarrow> int option list \<Rightarrow> ('g, 'x) System_scheme \<Rightarrow> ('g, 'x) System_scheme res" where
  "Console_Console ra wd kbd s = Schedule ConsoleReadPoll 0 ConsoleTime ConsoleReadInt
     (s\<lparr>console := \<lparr>putBusy = False, incoming = EOF, readAvail = ra, writeDone = wd, keyboard = kbd, display = []\<rparr>\<rparr>)"

text \<open>The head of \<open>keyboard\<close> is the outcome of \<^verbatim>\<open>PollFile\<close> and the \<^verbatim>\<open>Read\<close> that follows it.\<close>

definition CheckCharAvail :: "('g, 'x) System_scheme \<Rightarrow> ('g, 'x) System_scheme res" where
  "CheckCharAvail s = bindE (Schedule ConsoleReadPoll 0 ConsoleTime ConsoleReadInt s) (\<lambda>s1.
     let c = console s1 in
     if incoming c \<noteq> EOF then Inr s1
     else case keyboard c of
       Some ch # r \<Rightarrow> Inr (Semaphore_V (readAvail c)
          (count (\<lambda>st. st\<lparr>numConsoleCharsRead := numConsoleCharsRead st + 1\<rparr>)
            (s1\<lparr>console := c\<lparr>incoming := ch, keyboard := r\<rparr>\<rparr>)))
     | None # r \<Rightarrow> Inr (s1\<lparr>console := c\<lparr>keyboard := r\<rparr>\<rparr>)
     | [] \<Rightarrow> Inr s1)"

definition Console_WriteDone :: "('g, 'x) System_scheme \<Rightarrow> ('g, 'x) System_scheme res" where
  "Console_WriteDone s = Inr (Semaphore_V (writeDone (console s))
     (count (\<lambda>st. st\<lparr>numConsoleCharsWritten := numConsoleCharsWritten st + 1\<rparr>)
       (s\<lparr>console := (console s)\<lparr>putBusy := False\<rparr>\<rparr>)))"

definition GetChar :: "('g, 'x) System_scheme \<Rightarrow> int \<times> ('g, 'x) System_scheme" where
  "GetChar s = (incoming (console s), s\<lparr>console := (console s)\<lparr>incoming := EOF\<rparr>\<rparr>)"

definition PutChar :: "int \<Rightarrow> ('g, 'x) System_scheme \<Rightarrow> ('g, 'x) System_scheme res" where
  "PutChar ch s = ASSERT (\<not> putBusy (console s))
     (Schedule ConsoleWriteDone 0 ConsoleTime ConsoleWriteInt
       (s\<lparr>console := (console s)\<lparr>display := display (console s) @ [ch], putBusy := True\<rparr>\<rparr>))"

section \<open>network.cc\<close>

definition Network_Network :: "int \<Rightarrow> rat \<Rightarrow> nat \<Rightarrow> nat \<Rightarrow> (PacketHeader \<times> 8 word list) option list \<Rightarrow>
    ('g, 'x) System_scheme \<Rightarrow> ('g, 'x) System_scheme res" where
  "Network_Network addr reliability ra wd sk s = Schedule NetworkReadPoll 0 NetworkTime NetworkRecvInt
     (s\<lparr>network := \<lparr>ident = addr, chanceToWork = (if reliability < 0 then 0 else if reliability > 1 then 1 else reliability),
        sendBusy = False, inHdr = (inHdr (network s))\<lparr>pkt_length := 0\<rparr>, inbox = inbox (network s),
        packetArrived = ra, packetSent = wd, sock = sk, wire = []\<rparr>\<rparr>)"

definition CheckPktAvail :: "('g, 'x) System_scheme \<Rightarrow> ('g, 'x) System_scheme res" where
  "CheckPktAvail s = bindE (Schedule NetworkReadPoll 0 NetworkTime NetworkRecvInt s) (\<lambda>s1.
     let n = network s1 in
     if pkt_length (inHdr n) \<noteq> 0 then Inr s1
     else case sock n of
       Some (h, dat) # r \<Rightarrow> ASSERT (pkt_to h = ident n \<and> pkt_length h \<le> MaxPacketSize)
         (Inr (Semaphore_V (packetArrived n) (count (\<lambda>st. st\<lparr>numPacketsRecvd := numPacketsRecvd st + 1\<rparr>)
           (s1\<lparr>network := n\<lparr>inHdr := h, inbox := take (nat (pkt_length h)) dat @ drop (nat (pkt_length h)) (inbox n), sock := r\<rparr>\<rparr>))))
     | None # r \<Rightarrow> Inr (s1\<lparr>network := n\<lparr>sock := r\<rparr>\<rparr>)
     | [] \<Rightarrow> Inr s1)"

definition Network_SendDone :: "('g, 'x) System_scheme \<Rightarrow> ('g, 'x) System_scheme res" where
  "Network_SendDone s = Inr (Semaphore_V (packetSent (network s))
     (count (\<lambda>st. st\<lparr>numPacketsSent := numPacketsSent st + 1\<rparr>) (s\<lparr>network := (network s)\<lparr>sendBusy := False\<rparr>\<rparr>)))"

definition Network_Send :: "PacketHeader \<Rightarrow> 8 word list \<Rightarrow> ('g, 'x) System_scheme \<Rightarrow> ('g, 'x) System_scheme res" where
  "Network_Send h data s = (let n = network s in
     ASSERT (\<not> sendBusy n \<and> pkt_length h > 0 \<and> pkt_length h \<le> MaxPacketSize \<and> pkt_from h = ident n)
     (bindE (Schedule NetworkSendDone 0 NetworkTime NetworkSendInt s) (\<lambda>s1.
        let (r, s2) = Random s1 in
        if of_int (r smod 100) \<ge> chanceToWork n * 100 then Inr s2
        else Inr (s2\<lparr>network := n\<lparr>wire := wire n @ [(h, take (nat (pkt_length h)) data)]\<rparr>\<rparr>))))"

definition Network_Receive :: "('g, 'x) System_scheme \<Rightarrow> (PacketHeader \<times> 8 word list) \<times> ('g, 'x) System_scheme" where
  "Network_Receive s = (let n = network s; h = inHdr n in
     ((h, if pkt_length h \<noteq> 0 then take (nat (pkt_length h)) (inbox n) else []),
      s\<lparr>network := n\<lparr>inHdr := h\<lparr>pkt_length := 0\<rparr>\<rparr>\<rparr>))"

section \<open>The handlers\<close>

definition run_handler :: "HandlerPtr \<Rightarrow> int \<Rightarrow> ('g, 'x) System_scheme \<Rightarrow> ('g, 'x) System_scheme res" where
  "run_handler h a s = (case h of
       TimerHandler \<Rightarrow> TimerExpired s
     | DiskDone \<Rightarrow> Disk_HandleInterrupt s
     | ConsoleReadPoll \<Rightarrow> CheckCharAvail s
     | ConsoleWriteDone \<Rightarrow> Console_WriteDone s
     | NetworkReadPoll \<Rightarrow> CheckPktAvail s
     | NetworkSendDone \<Rightarrow> Network_SendDone s)"

section \<open>A new disk\<close>

lemma pwrite_new_disk: "pwrite (pwrite [] 0 (word_bytes MagicNumber)) (DiskSize - 4) (int_bytes 0) =
    word_bytes MagicNumber @ replicate (1024 * 128) 0"
proof -
  have "int_bytes 0 = replicate 4 0" by (simp add: int_bytes_def word_bytes_def byte_of_def numeral_eq_Suc)
  moreover have "replicate (1024 * 128 - 4) (0 :: 8 word) @ replicate 4 0 = replicate (1024 * 128) 0"
    unfolding replicate_add [symmetric] by simp
  ultimately show ?thesis by (simp add: pwrite_def DiskSize_def MagicSize_def)
qed

text \<open>A disk made anew has every sector, all of them zero; opened again, it has the sectors it was left with.\<close>

lemma new_disk:
  assumes "names fs name = None"
  shows "\<exists>fs'. Disk_Disk name v fs = Inr (\<lparr>active = False, lastSector = 0, bufferInit = 0, requestDone = v,
      contents = replicate 1024 (replicate 128 0)\<rparr>, fs') \<and> Disk_Disk name v fs' =
      Inr (\<lparr>active = False, lastSector = 0, bufferInit = 0, requestDone = v, contents = replicate 1024 (replicate 128 0)\<rparr>, fs')"
proof -
  have "pread (word_bytes MagicNumber @ replicate (1024 * 128) 0) (128 * i + 4) 128 = replicate 128 0" if "i < 1024" for i
  proof -
    have "pread (word_bytes MagicNumber @ replicate (1024 * 128) 0) (128 * i + 4) 128 =
        take 128 (drop (128 * i) (replicate (1024 * 128) 0))" by (simp add: pread_def)
    also have "\<dots> = replicate (min 128 (1024 * 128 - 128 * i)) 0" by (simp only: drop_replicate take_replicate)
    finally show ?thesis using that by simp
  qed
  then have "file_sectors_at (word_bytes MagicNumber @ replicate (1024 * 128) 0) = replicate 1024 (replicate 128 0)"
    by (auto simp: file_sectors_at_def MagicSize_def intro!: nth_equalityI)
  moreover have "pread (word_bytes MagicNumber @ replicate (1024 * 128) 0) 0 MagicSize = word_bytes MagicNumber"
    by (simp add: pread_def MagicSize_def)
  ultimately show ?thesis
    using assms by (simp add: Disk_Disk_def Let_def OpenForWrite_def pwrite_new_disk fun_upd_idem)
qed

section \<open>The handlers keep the contract of the interrupt loop\<close>

definition handler_ok :: "('g, 'x) System_scheme \<Rightarrow> ('g, 'x) System_scheme \<Rightarrow> bool" where
  "handler_ok s s' \<longleftrightarrow> clocks s' = clocks s \<and> adds_future s s' \<and> level s' = level s"

lemma handler_ok_same: "clocks s' = clocks s \<Longrightarrow> pending s' = pending s \<Longrightarrow> level s' = level s \<Longrightarrow> handler_ok s s'"
  by (auto simp: handler_ok_def adds_future_def intro!: exI [of _ "[]"])

lemma handler_ok_trans: "handler_ok s t \<Longrightarrow> handler_ok t u \<Longrightarrow> handler_ok s u"
  unfolding handler_ok_def using adds_future_trans [of s t u] clocks_eqD [of t s] by auto

lemma handler_ok_Schedule: "Schedule hf a d ty s = Inr s' \<Longrightarrow> handler_ok s s'"
  using Schedule_adds_future [of hf a d ty s s'] by (simp add: handler_ok_def)

lemma ReadyToRun_interrupt [simp]: "stats (ReadyToRun t k) = stats k" "pending (ReadyToRun t k) = pending k"
    "inHandler (ReadyToRun t k) = inHandler k" "status (ReadyToRun t k) = status k"
  by (simp_all add: ReadyToRun_def setStatus_def)

lemma V_interrupt [simp]: "stats (Semaphore_V s k) = stats k" "pending (Semaphore_V s k) = pending k"
    "inHandler (Semaphore_V s k) = inHandler k" "status (Semaphore_V s k) = status k"
  by (auto simp: Semaphore_V_def Let_def wake_def set_sem_def split: list.splits)

lemma handler_ok_V: "handler_ok s t \<Longrightarrow> handler_ok s (Semaphore_V v t)"
  by (rule handler_ok_trans) (auto intro!: handler_ok_same simp: clocks_def)

lemma handler_ok_upd:
  "handler_ok s (s\<lparr>disk := d\<rparr>)" "handler_ok s (s\<lparr>console := c\<rparr>)" "handler_ok s (s\<lparr>network := n\<rparr>)" "handler_ok s (s\<lparr>randoms := r\<rparr>)"
  "handler_ok s (s\<lparr>timer := t\<rparr>)" "handler_ok s (s\<lparr>yieldOnReturn := y\<rparr>)" "handler_ok s s"
  by (auto intro!: handler_ok_same simp: clocks_def)

lemma handler_ok_count: "(\<And>st. (totalTicks (f st), idleTicks (f st), systemTicks (f st), userTicks (f st)) =
    (totalTicks st, idleTicks st, systemTicks st, userTicks st)) \<Longrightarrow> handler_ok s (count f s)"
  by (auto intro!: handler_ok_same simp: clocks_def count_def)

lemma handler_ok_count_upd:
  assumes "\<And>st. (totalTicks (f st), idleTicks (f st), systemTicks (f st), userTicks (f st)) = (totalTicks st, idleTicks st, systemTicks st, userTicks st)"
  shows "handler_ok s (count f (s\<lparr>disk := d\<rparr>))" "handler_ok s (count f (s\<lparr>console := c\<rparr>))" "handler_ok s (count f (s\<lparr>network := n\<rparr>))"
  using assms by (auto intro!: handler_ok_trans [OF handler_ok_upd(1) handler_ok_count] handler_ok_trans [OF handler_ok_upd(2) handler_ok_count]
      handler_ok_trans [OF handler_ok_upd(3) handler_ok_count])

lemma handler_ok_next: "handler_ok s (snd (TimeOfNextInterrupt s))"
  by (auto simp: TimeOfNextInterrupt_def Random_def handler_ok_upd split: list.splits)

lemma CheckCharAvail_shape:
  assumes "CheckCharAvail s = Inr s'"
  obtains s1 where "Schedule ConsoleReadPoll 0 ConsoleTime ConsoleReadInt s = Inr s1" "s' = s1 \<or> (\<exists>c. s' = s1\<lparr>console := c\<rparr>) \<or>
    (\<exists>v c. s' = Semaphore_V v (count (\<lambda>st. st\<lparr>numConsoleCharsRead := numConsoleCharsRead st + 1\<rparr>) (s1\<lparr>console := c\<rparr>)))"
  using assms by (auto simp: CheckCharAvail_def Let_def split: if_splits list.splits option.splits)

lemma CheckPktAvail_shape:
  assumes "CheckPktAvail s = Inr s'"
  obtains s1 where "Schedule NetworkReadPoll 0 NetworkTime NetworkRecvInt s = Inr s1" "s' = s1 \<or> (\<exists>c. s' = s1\<lparr>network := c\<rparr>) \<or>
    (\<exists>v c. s' = Semaphore_V v (count (\<lambda>st. st\<lparr>numPacketsRecvd := numPacketsRecvd st + 1\<rparr>) (s1\<lparr>network := c\<rparr>)))"
proof -
  obtain s1 where s1: "Schedule NetworkReadPoll 0 NetworkTime NetworkRecvInt s = Inr s1"
    using assms unfolding CheckPktAvail_def by auto
  show ?thesis
  proof (cases "pkt_length (inHdr (network s1)) \<noteq> 0 \<or> sock (network s1) = []")
    case True
    then have "s' = s1" using assms s1 by (auto simp: CheckPktAvail_def Let_def split: if_splits)
    then show ?thesis using that s1 by blast
  next
    case False
    then obtain p r where sk: "pkt_length (inHdr (network s1)) = 0" "sock (network s1) = p # r" by (cases "sock (network s1)") auto
    show ?thesis
    proof (cases p)
      case None
      then have "\<exists>c. s' = s1\<lparr>network := c\<rparr>" using assms s1 sk by (auto simp: CheckPktAvail_def Let_def)
      then show ?thesis using that [OF s1] by blast
    next
      case (Some x)
      then have "\<exists>v c. s' = Semaphore_V v (count (\<lambda>st. st\<lparr>numPacketsRecvd := numPacketsRecvd st + 1\<rparr>) (s1\<lparr>network := c\<rparr>))"
        using assms s1 sk by (cases x) (auto simp: CheckPktAvail_def Let_def)
      then show ?thesis using that [OF s1] by blast
    qed
  qed
qed

lemma run_handler_ok:
  assumes "run_handler h a s = Inr s'"
  shows "handler_ok s s'"
proof (cases h)
  case TimerHandler
  then obtain s2 where "Schedule TimerHandler 0 (fst (TimeOfNextInterrupt s)) TimerInt (snd (TimeOfNextInterrupt s)) = Inr s2"
      and "TimerInterruptHandler s2 = Inr s'"
    using assms by (auto simp: run_handler_def TimerExpired_def split: prod.splits)
  then show ?thesis
    using handler_ok_trans [OF handler_ok_next handler_ok_trans [OF handler_ok_Schedule handler_ok_upd(6)]] handler_ok_trans [OF handler_ok_next handler_ok_Schedule]
    by (auto simp: TimerInterruptHandler_def YieldOnReturn_def split: if_splits)
next
  case DiskDone
  then show ?thesis using assms handler_ok_V [OF handler_ok_upd(1)] by (auto simp: run_handler_def Disk_HandleInterrupt_def)
next
  case ConsoleReadPoll
  then have "CheckCharAvail s = Inr s'" using assms by (simp add: run_handler_def)
  then obtain s1 where sch: "Schedule ConsoleReadPoll 0 ConsoleTime ConsoleReadInt s = Inr s1" and s1: "s' = s1 \<or> (\<exists>c. s' = s1\<lparr>console := c\<rparr>) \<or>
      (\<exists>v c. s' = Semaphore_V v (count (\<lambda>st. st\<lparr>numConsoleCharsRead := numConsoleCharsRead st + 1\<rparr>) (s1\<lparr>console := c\<rparr>)))"
    by (rule CheckCharAvail_shape)
  note ok = handler_ok_Schedule [OF sch]
  from s1 show ?thesis
  proof (elim disjE exE)
    show "handler_ok s s'" if "s' = s1" using ok that by simp
  qed (use ok in \<open>auto intro!: handler_ok_V handler_ok_trans [OF ok] handler_ok_count_upd handler_ok_upd\<close>)
next
  case ConsoleWriteDone
  then show ?thesis using assms by (auto simp: run_handler_def Console_WriteDone_def intro!: handler_ok_V handler_ok_count_upd)
next
  case NetworkReadPoll
  then have "CheckPktAvail s = Inr s'" using assms by (simp add: run_handler_def)
  then obtain s1 where sch: "Schedule NetworkReadPoll 0 NetworkTime NetworkRecvInt s = Inr s1" and s1: "s' = s1 \<or> (\<exists>c. s' = s1\<lparr>network := c\<rparr>) \<or>
      (\<exists>v c. s' = Semaphore_V v (count (\<lambda>st. st\<lparr>numPacketsRecvd := numPacketsRecvd st + 1\<rparr>) (s1\<lparr>network := c\<rparr>)))"
    by (rule CheckPktAvail_shape)
  note ok = handler_ok_Schedule [OF sch]
  from s1 show ?thesis
  proof (elim disjE exE)
    show "handler_ok s s'" if "s' = s1" using ok that by simp
  qed (use ok in \<open>auto intro!: handler_ok_V handler_ok_trans [OF ok] handler_ok_count_upd handler_ok_upd\<close>)
next
  case NetworkSendDone
  then show ?thesis using assms by (auto simp: run_handler_def Network_SendDone_def intro!: handler_ok_V handler_ok_count_upd)
qed

text \<open>Without a user machine there is no delayed load to perform before a handler runs.\<close>

definition no_delayed_load :: "('g, 'x) System_scheme \<Rightarrow> ('g, 'x) System_scheme res" where
  "no_delayed_load s = Inr s"

interpretation devices: interrupt_handlers no_delayed_load run_handler
proof
  show "no_delayed_load s = Inr s' \<Longrightarrow> clocks s' = clocks s \<and> pending s' = pending s \<and> level s' = level s \<and> status s' = status s"
    for s s' :: "('a, 'b) System_scheme" by (simp add: no_delayed_load_def)
  show "run_handler h a s = Inr s' \<Longrightarrow> inHandler s \<Longrightarrow> level s = IntOff \<Longrightarrow> clocks s' = clocks s \<and> adds_future s s' \<and> level s' = level s"
    for h a and s s' :: "('a, 'b) System_scheme" using run_handler_ok [of h a s s'] by (simp add: handler_ok_def)
qed

section \<open>Disk latency\<close>

lemma SectorsPerTrack_val [simp]: "SectorsPerTrack = 32"
  by (simp add: SectorsPerTrack_def)

lemma ModuloDiff_mod: "0 \<le> a \<Longrightarrow> 0 \<le> b \<Longrightarrow> ModuloDiff a b = (a - b) mod 32"
proof -
  assume "0 \<le> a" "0 \<le> b"
  then have "ModuloDiff a b = ((a mod 32 - b mod 32) + 32) smod 32" by (simp add: ModuloDiff_def smod_nonneg)
  also have "\<dots> = ((a mod 32 - b mod 32) + 32) mod 32"
    using pos_mod_bound [of 32 b] pos_mod_sign [of 32 a] by (intro smod_nonneg) linarith+
  also have "\<dots> = (a - b) mod 32" by (simp add: mod_diff_eq)
  finally show ?thesis .
qed

text \<open>After the seek the head waits for the next sector boundary: \<open>q\<close> sectors from the start of time.\<close>

lemma TimeToSeek_boundary:
  assumes "0 \<le> ticks" "TimeToSeek ticks lastSec newSector = (seek, rotation)"
  obtains q where "ticks + seek + rotation = 500 * q" "0 \<le> rotation" "rotation < 500" "0 \<le> seek" "0 \<le> q"
proof -
  have s: "seek = \<bar>newSector sdiv 32 - lastSec sdiv 32\<bar> * 500" using assms(2) by (auto simp: TimeToSeek_def Let_def tick_defs)
  then have s0: "0 \<le> seek" by simp
  have r: "rotation = (if (ticks + seek) mod 500 > 0 then 500 - (ticks + seek) mod 500 else 0)"
    using assms s s0 by (auto simp: TimeToSeek_def Let_def tick_defs smod_nonneg)
  let ?x = "ticks + seek"
  have b: "0 \<le> ?x mod 500" "?x mod 500 < 500" "?x = 500 * (?x div 500) + ?x mod 500" "0 \<le> ?x div 500"
    using assms(1) s0 by (simp_all add: pos_imp_zdiv_nonneg_iff)
  show ?thesis
  proof (cases "?x mod 500 > 0")
    case True
    then show ?thesis using that [of "?x div 500 + 1"] r b s0 by simp
  next
    case False
    then show ?thesis using that [of "?x div 500"] r b s0 by simp
  qed
qed

lemma next_congruent: "q \<le> q' \<Longrightarrow> q' mod 32 = n mod 32 \<Longrightarrow> q + (n - q) mod 32 \<le> q'" for q q' n :: int
proof -
  assume le: "q \<le> q'" and m: "q' mod 32 = n mod 32"
  have "(q' - q) mod 32 = (n - q) mod 32" using m by (metis mod_diff_left_eq)
  moreover have "(q' - q) mod 32 \<le> q' - q" using le by (simp add: zmod_le_nonneg_dividend)
  ultimately show ?thesis by linarith
qed

text \<open>The handlers are what the kernel model takes an interrupt to be.\<close>

lemma kinv_device_upd [simp]:
  "kinv (s\<lparr>disk := d\<rparr>) = kinv s" "kinv (s\<lparr>console := c\<rparr>) = kinv s" "kinv (s\<lparr>network := n\<rparr>) = kinv s" "kinv (s\<lparr>randoms := r\<rparr>) = kinv s"
  "kinv (s\<lparr>timer := t\<rparr>) = kinv s" "kinv (count f s) = kinv s" "kinv (s\<lparr>pending := p\<rparr>) = kinv s" "kinv (s\<lparr>yieldOnReturn := y\<rparr>) = kinv s"
  by (rule kinv_cong; simp add: count_def)+

lemma kinv_Schedule: "Schedule hf a d ty s = Inr s' \<Longrightarrow> kinv s' = kinv s" for s :: "('g, 'x) System_scheme"
  by (auto simp: Schedule_def Let_def)

lemma kinv_next [simp]: "kinv (snd (TimeOfNextInterrupt s)) = kinv s"
  by (auto simp: TimeOfNextInterrupt_def Random_def split: list.splits)

lemma run_handler_kinv:
  assumes "run_handler h a s = Inr s'" "kinv s"
  shows "kinv s'"
proof (cases h)
  case TimerHandler
  then obtain s2 where "Schedule TimerHandler 0 (fst (TimeOfNextInterrupt s)) TimerInt (snd (TimeOfNextInterrupt s)) = Inr s2"
      and "TimerInterruptHandler s2 = Inr s'"
    using assms(1) by (auto simp: run_handler_def TimerExpired_def split: prod.splits)
  with kinv_Schedule [of TimerHandler 0 _ TimerInt _ s2] assms(2) show ?thesis
    by (auto simp: TimerInterruptHandler_def YieldOnReturn_def split: if_splits)
next
  case ConsoleReadPoll
  then have "CheckCharAvail s = Inr s'" using assms by (simp add: run_handler_def)
  then show ?thesis
    by (rule CheckCharAvail_shape) (use assms(2) in \<open>auto dest: kinv_Schedule intro!: V_kinv\<close>)
next
  case NetworkReadPoll
  then have "CheckPktAvail s = Inr s'" using assms by (simp add: run_handler_def)
  then show ?thesis
    by (rule CheckPktAvail_shape) (use assms(2) in \<open>auto dest: kinv_Schedule intro!: V_kinv\<close>)
qed (use assms in \<open>auto simp: run_handler_def Disk_HandleInterrupt_def Console_WriteDone_def Network_SendDone_def intro!: V_kinv\<close>)

section \<open>Properties\<close>

text \<open>
  C35. The latency of a disk request. A read that the track buffer can serve takes one
  \<^verbatim>\<open>RotationTime\<close>. Any other request for a sector of the disk ends exactly when the head, after
  the seek, has passed over the requested sector: at a sector boundary, with that sector
  the last one that went by; and at no earlier time that leaves the seek and one transfer.
  In particular the latency is positive, as \<^verbatim>\<open>Schedule\<close> asserts, and bounded by the seek plus 33
  sector times.
\<close>

theorem disk_latency:
  assumes "0 \<le> ticks" and "0 \<le> newSector"
    and L_def: "L = ComputeLatency ticks d newSector writing" and seek_def: "seek = fst (TimeToSeek ticks (lastSector d) newSector)"
  shows "if in_track_buffer ticks d newSector writing then L = RotationTime
    else (ticks + L) mod RotationTime = 0 \<and> ((ticks + L) div RotationTime - 1) mod SectorsPerTrack = newSector mod SectorsPerTrack \<and>
      seek + RotationTime \<le> L \<and> L < seek + 33 * RotationTime \<and>
      (\<forall>L'. seek + RotationTime \<le> L' \<and> (ticks + L') mod RotationTime = 0 \<and>
        ((ticks + L') div RotationTime - 1) mod SectorsPerTrack = newSector mod SectorsPerTrack \<longrightarrow> L \<le> L')"
proof -
  obtain sk rotation where ts: "TimeToSeek ticks (lastSector d) newSector = (sk, rotation)" by fastforce
  obtain q where q: "ticks + sk + rotation = 500 * q" "0 \<le> rotation" "rotation < 500" "0 \<le> sk" "0 \<le> q"
    using TimeToSeek_boundary [OF assms(1) ts] .
  let ?m = "(newSector - q) mod 32"
  have m: "0 \<le> ?m" "?m < 32" by simp_all
  show ?thesis
  proof (cases "in_track_buffer ticks d newSector writing")
    case False
    have "ModuloDiff newSector ((ticks + sk + rotation) sdiv 500) = ?m"
      using q ModuloDiff_mod [OF assms(2) q(5)] by (simp add: sdiv_nonneg)
    then have L: "L = sk + rotation + 500 * ?m + 500"
      unfolding L_def ComputeLatency_def by (simp add: ts False tick_defs)
    then have e: "ticks + L = 500 * (q + ?m + 1)" using q(1) by simp
    have A: "(ticks + L) mod 500 = 0" "((ticks + L) div 500 - 1) mod 32 = newSector mod 32"
      unfolding e by (simp_all add: mod_add_right_eq)
    have M: "L \<le> L'" if L': "sk + 500 \<le> L'" "(ticks + L') mod 500 = 0" "((ticks + L') div 500 - 1) mod 32 = newSector mod 32" for L'
    proof -
      obtain j where "ticks + L' = 500 * j" using L'(2) by (auto simp: mod_eq_0_iff_dvd dvd_def)
      then obtain q' where e': "ticks + L' = 500 * (q' + 1)" using that [of "j - 1"] by simp
      then have c: "q' mod 32 = newSector mod 32" using L'(3) by simp
      have "500 * q < 500 * (q' + 1)" unfolding e' [symmetric] q(1) [symmetric] using q(3) L'(1) by linarith
      then have "q \<le> q'" by simp
      from next_congruent [OF this c] have "500 * (q + ?m + 1) \<le> 500 * (q' + 1)" by simp
      then show ?thesis unfolding e [symmetric] e' [symmetric] by simp
    qed
    have B: "sk + 500 \<le> L" "L < sk + 33 * 500" using L q m by simp_all
    have sk: "seek = sk" by (simp add: seek_def ts)
    show ?thesis unfolding if_not_P [OF False] tick_defs SectorsPerTrack_val sk
      by (intro conjI allI impI A B) (elim conjE, rule M)
  qed (use L_def ts in \<open>simp add: ComputeLatency_def tick_defs\<close>)
qed

theorem disk_latency_witness:
  "ComputeLatency 1234 \<lparr>active = False, lastSector = 5, bufferInit = 0, requestDone = 0, contents = []\<rparr> 70 True = 2266 \<and>
   (1234 + 2266) mod RotationTime = 0 \<and> ((1234 + 2266) div RotationTime - 1) mod SectorsPerTrack = 70 mod SectorsPerTrack"
proof -
  let ?d = "\<lparr>active = False, lastSector = 5, bufferInit = 0, requestDone = 0, contents = []\<rparr>"
  have "\<not> in_track_buffer 1234 ?d 70 True" by (simp add: in_track_buffer_def Let_def split: prod.splits)
  moreover have "ComputeLatency 1234 ?d 70 True = 2266"
    by (simp add: ComputeLatency_def in_track_buffer_def TimeToSeek_def ModuloDiff_def Let_def tick_defs sdiv_nonneg smod_nonneg)
  ultimately show ?thesis using disk_latency [of 1234 70 2266 ?d True] by simp
qed

text \<open>
  C36. One tick of the simulated clock, with the handlers of the devices: \<^verbatim>\<open>OneTick\<close> always
  returns, although handlers schedule new interrupts. It advances the clock by the tick of the
  current mode and then calls the handlers of exactly the interrupts that are due by then, each
  once and in the order of their times (\<open>serve\<close>): a failed assertion of a handler is the result of
  the tick, and otherwise the machine is in the state that the last of them left, with interrupts
  enabled. The interrupts that are not yet due are all still pending, with only later ones added,
  in the order of their times; total time is still idle plus system plus user time. Then the
  current thread yields exactly when a handler asked for it.
\<close>

theorem tick_fires_due:
  assumes "sorted_keys (pending s)" and "status s \<noteq> IdleMode" and "clock_balance s"
  shows "let a = ChangeLevel IntOn IntOff (advance_time s);
             served = serve no_delayed_load run_handler (map snd (filter (\<lambda>x. fst x \<le> now a) (pending s))) a
    in now a = now s + (if status s = SystemMode then SystemTick else UserTick) \<and>
       OneTick no_delayed_load run_handler yield s = Some (bindE served (\<lambda>t.
         let s2 = t\<lparr>pending := put_back (pending t), level := IntOn\<rparr> in
         if yieldOnReturn s2
         then bindE (yield (s2\<lparr>yieldOnReturn := False, status := SystemMode\<rparr>)) (\<lambda>s3. Inr (s3\<lparr>status := status s\<rparr>))
         else Inr s2)) \<and>
       (\<forall>t. served = Inr t \<longrightarrow> now t = now a \<and> clock_balance t \<and> sorted_keys (pending t) \<and>
         (\<exists>new. pending t = fold keyed_insert new (filter (\<lambda>x. now a < fst x) (pending s)) \<and> (\<forall>x \<in> set new. now a < fst x)))"
proof -
  let ?a = "ChangeLevel IntOn IntOff (advance_time s)"
  have a: "pending ?a = pending s" "now ?a = now s + (if status s = SystemMode then SystemTick else UserTick)"
    by (simp_all add: ChangeLevel_def advance_time_def Let_def)
  have "due ?a = filter (\<lambda>x. fst x \<le> now ?a) (pending s)" by (simp only: due_def a(1))
  note tick = devices.OneTick_serves [OF assms(1,2), unfolded this]
  have keeps: "now t = now ?a \<and> clock_balance t \<and> sorted_keys (pending t) \<and>
      (\<exists>new. pending t = fold keyed_insert new (filter (\<lambda>x. now ?a < fst x) (pending s)) \<and> (\<forall>x \<in> set new. now ?a < fst x))"
    if "serve no_delayed_load run_handler (map snd (filter (\<lambda>x. fst x \<le> now ?a) (pending s))) ?a = Inr t" for t
  proof -
    note k = tick(2) [OF that]
    then have n: "now t = now ?a" using a(2) by simp
    show ?thesis using k assms(3) unfolding n by (elim conjE) (intro conjI refl, erule (1) mp)
  qed
  show ?thesis
    unfolding Let_def by (intro conjI allI impI a(2) tick(1) [unfolded Let_def] keeps)
qed

text \<open>
  A system that has just been started, with a disk request pending: the example for the
  statements about the devices.
\<close>

definition example_disk :: Disk where
  "example_disk = \<lparr>active = False, lastSector = 0, bufferInit = 0, requestDone = 3, contents = replicate 1024 (replicate 128 0)\<rparr>"

definition example_system :: "unit System" where
  "example_system = Kernel.extend (Initialize_kernel (\<lambda>_. None) (\<lambda>_. []) (\<lambda>_. 0) ())
     (System.fields example_disk \<lparr>randomize = False\<rparr>
       \<lparr>putBusy = False, incoming = EOF, readAvail = 4, writeDone = 5, keyboard = [], display = []\<rparr>
       \<lparr>ident = 0, chanceToWork = 1, sendBusy = False, inHdr = \<lparr>pkt_to = 0, pkt_from = 0, pkt_length = 0\<rparr>, inbox = [],
        packetArrived = 6, packetSent = 7, sock = [], wire = []\<rparr> [])"

lemmas example_defs = example_system_def example_disk_def Initialize_kernel_def Interrupt.defs Kernel.defs System.defs
  Interrupt_Interrupt_def Statistics_Statistics_def

text \<open>The same system while the disk is busy: its interrupt is due within the next tick, the timer's is not.\<close>

definition example_due :: "unit System" where
  "example_due = example_system\<lparr>disk := example_disk\<lparr>active := True\<rparr>,
     pending := [(5, \<lparr>pi_handler = DiskDone, pi_arg = 0, pi_when = 5, pi_type = DiskInt\<rparr>),
                 (200, \<lparr>pi_handler = TimerHandler, pi_arg = 0, pi_when = 200, pi_type = TimerInt\<rparr>)]\<rparr>"

theorem tick_fires_due_witness:
  "\<exists>s1. OneTick no_delayed_load run_handler Inr example_due = Some (Inr s1) \<and> active (disk example_due) \<and> \<not> active (disk s1) \<and>
     map fst (pending s1) = [200] \<and> now s1 = 10 \<and> level s1 = IntOn"
proof -
  have ok: "sorted_keys (pending example_due)" "status example_due \<noteq> IdleMode" "clock_balance example_due"
    by (simp_all add: example_due_def example_defs clock_balance_def)
  show ?thesis
    using tick_fires_due [OF ok, of Inr]
    by (simp add: example_due_def example_defs ChangeLevel_def advance_time_def Let_def tick_defs no_delayed_load_def run_handler_def
      Disk_HandleInterrupt_def Semaphore_V_def Semaphore_Semaphore_def wake_def set_sem_def ReadyToRun_def setStatus_def)
qed

lemma ComputeLatency_pos:
  assumes "0 \<le> ticks" "0 \<le> newSector"
  shows "0 < ComputeLatency ticks d newSector writing"
proof -
  obtain sk rotation where ts: "TimeToSeek ticks (lastSector d) newSector = (sk, rotation)" by fastforce
  obtain q where q: "ticks + sk + rotation = 500 * q" "0 \<le> rotation" "0 \<le> sk" "0 \<le> q" using TimeToSeek_boundary [OF assms(1) ts] .
  have "ModuloDiff newSector ((ticks + sk + rotation) sdiv 500) = (newSector - q) mod 32"
    using q ModuloDiff_mod [OF assms(2) q(4)] by (simp add: sdiv_nonneg)
  then show ?thesis using q by (auto simp: ComputeLatency_def ts tick_defs intro!: add_nonneg_pos)
qed

lemma UpdateLast_simps [simp]: "active (UpdateLast ticks n d) = active d" "contents (UpdateLast ticks n d) = contents d"
    "requestDone (UpdateLast ticks n d) = requestDone d"
  by (simp_all add: UpdateLast_def split: prod.splits)

text \<open>
  C34. The disk implements the array of sectors that the file system is verified against
  (\<open>ReadSector\<close>, \<open>WriteSector\<close>). On an idle disk, a request for a sector within range succeeds,
  transfers exactly that sector, marks the disk busy and schedules exactly one
  interrupt, later than now; the handler of that interrupt frees the disk for the next
  request without touching the sectors. A request while the disk is busy fails an assertion.
\<close>

theorem disk_implements_sectors:
  assumes "0 \<le> now s" "\<not> active (disk s)" "0 \<le> n" "n < NumSectors" and w: "writing = (data \<noteq> None)"
  shows "\<exists>t got. (case data of None \<Rightarrow> ReadRequest n s = Inr (got, t) \<and> ReadSector n (contents (disk s)) = Inr got \<and> contents (disk t) = contents (disk s)
       | Some bs \<Rightarrow> WriteRequest n bs s = Inr t \<and> WriteSector n bs (contents (disk s)) = Inr (contents (disk t))) \<and>
     active (disk t) \<and> ReadRequest n' t = Inl AssertFailed \<and> WriteRequest n' bs' t = Inl AssertFailed \<and>
     pending t = keyed_insert (now s + ComputeLatency (now s) (disk s) n writing,
       \<lparr>pi_handler = DiskDone, pi_arg = 0, pi_when = now s + ComputeLatency (now s) (disk s) n writing, pi_type = DiskInt\<rparr>) (pending s) \<and>
     now s < now s + ComputeLatency (now s) (disk s) n writing \<and>
     (\<exists>u. run_handler DiskDone 0 t = Inr u \<and> \<not> active (disk u) \<and> contents (disk u) = contents (disk t))"
proof -
  note L = ComputeLatency_pos [OF assms(1,3), of "disk s" writing]
  have V: "disk (Semaphore_V v t) = disk t" for v and t :: "('a, 'b) System_scheme"
    by (auto simp: Semaphore_V_def Let_def wake_def set_sem_def ReadyToRun_def setStatus_def split: list.splits)
  show ?thesis
    using assms L by (cases data)
      (auto simp: ReadRequest_def WriteRequest_def ReadSector_def WriteSector_def Schedule_def Let_def count_def run_handler_def
        Disk_HandleInterrupt_def V)
qed

theorem disk_implements_sectors_witness:
  "\<exists>t. WriteRequest 5 (replicate 128 1) example_system = Inr t \<and> contents (disk t) = (contents example_disk)[5 := replicate 128 1] \<and>
     active (disk t) \<and> ReadRequest 5 t = Inl AssertFailed"
proof -
  have e: "0 \<le> now example_system" "\<not> active (disk example_system)" "disk example_system = example_disk"
    by (simp_all add: example_defs)
  show ?thesis
    using disk_implements_sectors [OF e(1,2), where n = 5 and n' = 5 and bs' = "[]" and data = "Some (replicate 128 1)" and writing = True] e(3)
    by (auto simp: WriteSector_def)
qed

text \<open>
  C37. Device interrupts are safe at any moment. Each handler (timer, disk, console, network) that
  runs without failing an assertion keeps the invariant of the threads and synchronisation
  objects, whatever thread it interrupts, advances no clock and leaves interrupts disabled.
  The handlers of the timer, the disk, the console and the sent packet never fail; the poll for a
  packet fails its assertion exactly when the buffer is free and the socket holds a packet that is
  addressed to another machine or longer than the buffer.
\<close>

theorem handlers_keep_kernel:
  assumes "kinv s" and "level s = IntOff" and "inHandler s" and "\<forall>r \<in> set (randoms s). 0 \<le> r"
  shows "(\<forall>s'. run_handler h a s = Inr s' \<longrightarrow> kinv s' \<and> clocks s' = clocks s \<and> level s' = IntOff) \<and>
    ((\<exists>s'. run_handler h a s = Inr s') \<longleftrightarrow> \<not> (h = NetworkReadPoll \<and> pkt_length (inHdr (network s)) = 0 \<and>
       (\<exists>hd dat r. sock (network s) = Some (hd, dat) # r \<and> (pkt_to hd \<noteq> ident (network s) \<or> pkt_length hd > MaxPacketSize))))"
proof (intro conjI allI impI)
  show "kinv s'" "clocks s' = clocks s" "level s' = IntOff" if "run_handler h a s = Inr s'" for s'
    using run_handler_kinv [OF that assms(1)] run_handler_ok [OF that] assms(2) by (simp_all add: handler_ok_def)
  show "(\<exists>s'. run_handler h a s = Inr s') \<longleftrightarrow> \<not> (h = NetworkReadPoll \<and> pkt_length (inHdr (network s)) = 0 \<and>
       (\<exists>hd dat r. sock (network s) = Some (hd, dat) # r \<and> (pkt_to hd \<noteq> ident (network s) \<or> pkt_length hd > MaxPacketSize)))"
  proof (cases h)
    case TimerHandler
    have "0 < fst (TimeOfNextInterrupt s)" "inHandler (snd (TimeOfNextInterrupt s))"
      using assms(3,4) by (auto simp: TimeOfNextInterrupt_def Random_def tick_defs smod_nonneg add_nonneg_pos split: list.splits)
    then show ?thesis
      using TimerHandler by (auto simp: run_handler_def TimerExpired_def TimerInterruptHandler_def YieldOnReturn_def Schedule_def Let_def split: prod.splits)
  next
    case ConsoleReadPoll
    then show ?thesis
      by (auto simp: run_handler_def CheckCharAvail_def Schedule_def Let_def tick_defs split: list.splits option.splits)
  next
    case NetworkReadPoll
    then show ?thesis
      by (auto simp: run_handler_def CheckPktAvail_def Schedule_def Let_def tick_defs split: list.splits option.splits if_splits)
  qed (auto simp: run_handler_def Disk_HandleInterrupt_def Console_WriteDone_def Network_SendDone_def)
qed

theorem handlers_keep_kernel_witness:
  "\<exists>s'. run_handler DiskDone 0 (example_system\<lparr>level := IntOff, inHandler := True\<rparr>) = Inr s' \<and> kinv s'"
proof -
  let ?s = "example_system\<lparr>level := IntOff, inHandler := True\<rparr>"
  have q: "queue_of ?s q = []" for q
    by (cases q) (simp_all add: example_defs Semaphore_Semaphore_def Lock_Lock_def Condition_Condition_def)
  have st: "stat ?s t = Some RUNNING \<longleftrightarrow> t = currentThread ?s" for t
    by (simp add: stat_def example_defs Thread_Thread_def)
  have sr: "stat ?s t \<noteq> Some READY" for t by (simp add: stat_def example_defs Thread_Thread_def)
  have k: "kinv ?s"
    by (rule kinv_start) (use q st sr in \<open>simp_all add: example_defs Semaphore_Semaphore_def del: queue_of.simps\<close>)
  have "level ?s = IntOff" "inHandler ?s" "\<forall>r \<in> set (randoms ?s). 0 \<le> r" by (simp_all add: example_defs)
  from handlers_keep_kernel [OF k this, of DiskDone 0] show ?thesis by auto
qed

end
