(* ===== verification/SynchDisk.thy ===== *)
theory SynchDisk
  imports Drivers Devices
begin

text \<open>
  The synchronous disk, \<^verbatim>\<open>filesys/synchdisk.{h,cc}\<close>: threads that read and write sectors, one
  request at a time, each sleeping until the disk's interrupt. The disk is the one of
  \<^theory_text>\<open>Devices\<close>, reduced to what its clients see; the array of sectors is that of \<^theory_text>\<open>FileHdr\<close>, so
  that the contract the file system relies on is what is proved here.
\<close>

section \<open>The disk as its clients see it\<close>

text \<open>
  \<open>sd_data\<close> is the buffer each thread passes; \<open>sd_log\<close> records the requests in the order in which
  the disk got them, with what was read or written.
\<close>

datatype disk_event = DidRead nat int "8 word list" | DidWrite nat int "8 word list"

record SynchDisk =
  sd_active :: bool
  sd_sectors :: sectors
  sd_data :: "nat \<Rightarrow> 8 word list"
  sd_log :: "disk_event list"

definition read_request :: "int \<Rightarrow> nat \<Rightarrow> SynchDisk \<Rightarrow> SynchDisk res" where
  "read_request n t sd = ASSERT (\<not> sd_active sd) (ASSERT (n \<ge> 0 \<and> n < NumSectors)
     (let bs = sd_sectors sd ! nat n
      in Inr (sd\<lparr>sd_active := True, sd_data := (sd_data sd)(t := bs), sd_log := sd_log sd @ [DidRead t n bs]\<rparr>)))"

definition write_request :: "int \<Rightarrow> 8 word list \<Rightarrow> nat \<Rightarrow> SynchDisk \<Rightarrow> SynchDisk res" where
  "write_request n bs t sd = ASSERT (\<not> sd_active sd) (ASSERT (n \<ge> 0 \<and> n < NumSectors)
     (Inr (sd\<lparr>sd_active := True, sd_sectors := (sd_sectors sd)[nat n := bs], sd_log := sd_log sd @ [DidWrite t n bs]\<rparr>)))"

definition request_done :: "SynchDisk \<Rightarrow> SynchDisk" where
  "request_done sd = sd\<lparr>sd_active := False\<rparr>"

section \<open>synchdisk.cc\<close>

text \<open>Semaphore 0 is \<^verbatim>\<open>semaphore\<close>, lock 0 is \<^verbatim>\<open>lock\<close>. \<^verbatim>\<open>RequestDone\<close> is the \<^verbatim>\<open>V\<close> of the disk's interrupt.\<close>

definition SynchDisk_SynchDisk :: "sectors \<Rightarrow> SynchDisk" where
  "SynchDisk_SynchDisk d = \<lparr>sd_active = False, sd_sectors = d, sd_data = (\<lambda>_. []), sd_log = []\<rparr>"

definition SynchDisk_ReadSector :: "int \<Rightarrow> SynchDisk instr list" where
  "SynchDisk_ReadSector n = [LockAcquire 0, Act (read_request n), SemP 0, LockRelease 0]"

definition SynchDisk_WriteSector :: "int \<Rightarrow> 8 word list \<Rightarrow> SynchDisk instr list" where
  "SynchDisk_WriteSector n bs = [LockAcquire 0, Act (write_request n bs), SemP 0, LockRelease 0]"

definition RequestDone :: "(SynchDisk, 'x) Kernel_scheme \<Rightarrow> (SynchDisk, 'x) Kernel_scheme" where
  "RequestDone k = Semaphore_V 0 k"

datatype sector_op = ReadOp int | WriteOp int "8 word list"

fun sector_ops :: "sector_op \<Rightarrow> SynchDisk instr list" where
  "sector_ops (ReadOp n) = SynchDisk_ReadSector n"
| "sector_ops (WriteOp n bs) = SynchDisk_WriteSector n bs"

fun on_disk :: "sector_op \<Rightarrow> bool" where
  "on_disk (ReadOp n) = (0 \<le> n \<and> n < NumSectors)"
| "on_disk (WriteOp n bs) = (0 \<le> n \<and> n < NumSectors)"

text \<open>An interrupt of the disk, in the kernel with a disk, is its handler \<^verbatim>\<open>RequestDone\<close>.\<close>

lemma disk_interrupt:
  "\<not> idle k \<Longrightarrow> level k = IntOn \<Longrightarrow> sd_active (shared k) \<Longrightarrow>
     dstep devs 0 sd_active request_done k (RequestDone (k\<lparr>shared := request_done (shared k)\<rparr>))"
  "idle k \<Longrightarrow> sd_active (shared k) \<Longrightarrow>
     dstep devs 0 sd_active request_done k (dispatch (RequestDone (k\<lparr>shared := request_done (shared k)\<rparr>)))"
  unfolding RequestDone_def by (fact dstep.served, fact dstep.idle_served)

section \<open>The array of sectors\<close>

text \<open>The requests in their order, on the array of sectors that the file system works on.\<close>

fun replay :: "sectors \<Rightarrow> disk_event list \<Rightarrow> sectors option" where
  "replay d [] = Some d"
| "replay d (DidRead t n bs # es) = (if ReadSector n d = Inr bs then replay d es else None)"
| "replay d (DidWrite t n bs # es) = (case WriteSector n bs d of Inr d' \<Rightarrow> replay d' es | Inl _ \<Rightarrow> None)"

lemma replay_append: "replay d (es @ fs) = (case replay d es of Some d' \<Rightarrow> replay d' fs | None \<Rightarrow> None)"
  by (induction d es rule: replay.induct) (auto split: sum.splits)

definition replays :: "sectors \<Rightarrow> SynchDisk \<Rightarrow> bool" where
  "replays d sd \<longleftrightarrow> replay d (sd_log sd) = Some (sd_sectors sd)"

definition disk_requests :: "(nat \<Rightarrow> SynchDisk \<Rightarrow> SynchDisk res) set" where
  "disk_requests = {f. \<exists>n. 0 \<le> n \<and> n < NumSectors \<and> (f = read_request n \<or> (\<exists>bs. f = write_request n bs))}"

interpretation sdisk: driver_clients 0 0 disk_requests sd_active request_done "replays d" "SynchDisk_SynchDisk d" sector_ops on_disk for d
proof
  show "\<exists>g'. f t g = Inr g' \<and> sd_active g' \<and> replays d g'" if "f \<in> disk_requests" "replays d g" "\<not> sd_active g" for f g t
    using that by (auto simp: disk_requests_def read_request_def write_request_def replays_def replay_append ReadSector_def WriteSector_def Let_def ASSERT_def)
  show "replays d (request_done g) \<and> \<not> sd_active (request_done g)" if "replays d g" for g
    using that by (simp add: replays_def request_done_def)
  show "replays d (SynchDisk_SynchDisk d)" "\<not> sd_active (SynchDisk_SynchDisk d)"
    by (simp_all add: replays_def SynchDisk_SynchDisk_def)
  show "\<exists>f \<in> disk_requests. sector_ops p = [LockAcquire 0, Act f, SemP 0, LockRelease 0]" if "on_disk p" for p
    using that by (cases p) (auto simp: SynchDisk_ReadSector_def SynchDisk_WriteSector_def disk_requests_def)
qed

section \<open>The disk below\<close>

text \<open>
  The requests are those of the disk of \<^theory_text>\<open>Devices\<close>, seen through its activity and its sectors,
  and the interrupt is its handler.
\<close>

definition shows_disk :: "SynchDisk \<Rightarrow> Disk \<Rightarrow> bool" where
  "shows_disk sd d \<longleftrightarrow> sd_active sd = active d \<and> sd_sectors sd = contents d"

lemma requests_of_disk:
  assumes "shows_disk sd (disk s)" and "0 \<le> now s"
  shows "case ReadRequest n s of Inl e \<Rightarrow> read_request n t sd = Inl e
      | Inr (bs, s') \<Rightarrow> \<exists>sd'. read_request n t sd = Inr sd' \<and> shows_disk sd' (disk s') \<and> sd_data sd' t = bs"
    and "case WriteRequest n bs s of Inl e \<Rightarrow> write_request n bs t sd = Inl e
      | Inr s' \<Rightarrow> \<exists>sd'. write_request n bs t sd = Inr sd' \<and> shows_disk sd' (disk s')"
    and "\<exists>s'. Disk_HandleInterrupt s = Inr s' \<and> shows_disk (request_done sd) (disk s')"
proof -
  have v: "sd_active sd = active (disk s)" "sd_sectors sd = contents (disk s)" using assms(1) by (simp_all add: shows_disk_def)
  note L = ComputeLatency_pos [OF assms(2), of n "disk s"]
  show "case ReadRequest n s of Inl e \<Rightarrow> read_request n t sd = Inl e
      | Inr (bs, s') \<Rightarrow> \<exists>sd'. read_request n t sd = Inr sd' \<and> shows_disk sd' (disk s') \<and> sd_data sd' t = bs"
    using L by (auto simp: ReadRequest_def read_request_def v Schedule_def ASSERT_def Let_def shows_disk_def count_def)
  show "case WriteRequest n bs s of Inl e \<Rightarrow> write_request n bs t sd = Inl e
      | Inr s' \<Rightarrow> \<exists>sd'. write_request n bs t sd = Inr sd' \<and> shows_disk sd' (disk s')"
    using L by (auto simp: WriteRequest_def write_request_def v Schedule_def ASSERT_def Let_def shows_disk_def count_def)
  have "disk (Semaphore_V v' s') = disk s'" for v' and s' :: "('a, 'b) System_scheme"
    by (auto simp: Semaphore_V_def Let_def wake_def set_sem_def ReadyToRun_def setStatus_def split: list.splits)
  then show "\<exists>s'. Disk_HandleInterrupt s = Inr s' \<and> shows_disk (request_done sd) (disk s')"
    by (simp add: Disk_HandleInterrupt_def shows_disk_def request_done_def v)
qed

section \<open>Properties\<close>

text \<open>Thread 1 writes sector 2 while \<^verbatim>\<open>main\<close>, which has forked it, wants to read it.\<close>

definition sevens :: "8 word list" where
  "sevens = replicate 128 7"

definition two_users :: "nat \<Rightarrow> sector_op call list" where
  "two_users = (\<lambda>_. []) (0 := [Fork 1, Yield, Op (ReadOp 2)], 1 := [Op (WriteOp 2 sevens)])"

definition blank :: sectors where
  "blank = replicate 1024 (replicate 128 0)"

abbreviation disk_system :: "SynchDisk Kernel" where
  "disk_system \<equiv> Initialize_kernel [1 \<mapsto> Thread_Thread ''user'' False 9 9] (\<lambda>t. client sector_ops (two_users t)) (\<lambda>_. 0) (SynchDisk_SynchDisk blank)"

lemma two_users_ok: "sound_clients on_disk {} 0 [1 \<mapsto> Thread_Thread ''user'' False 9 9] two_users (\<lambda>_. 0)"
  by (auto simp: sound_clients_def two_users_def Thread_Thread_def split: if_splits)

text \<open>
  C9. Concurrent calls of the synchronous disk act like calls, one after the other, on the array
  of sectors that the file system is verified against. In every interleaving of any number of
  threads, their preemptions and the interrupts of the disk and of other devices: the
  sectors are those that result from the requests in the order in which the disk got them,
  every read got the contents the sector had at that point of the order; a thread executing a
  call fails no assertion, in particular the disk never gets a request while it is busy;
  and when no thread is in a call the disk has finished.
\<close>

theorem synchdisk_linear:
  assumes "dreachable devs 0 sd_active request_done
      (Initialize_kernel created (\<lambda>t. client sector_ops (calls t)) values (SynchDisk_SynchDisk d)) k"
    and "sound_clients on_disk devs 0 created calls values"
  shows "replay d (sd_log (shared k)) = Some (sd_sectors (shared k)) \<and>
    (currThread (locks k 0) = None \<longrightarrow> \<not> sd_active (shared k)) \<and>
    (\<not> idle k \<longrightarrow> code k (currentThread k) = i # rest \<longrightarrow> \<not> lifecycle i \<longrightarrow> (\<exists>k'. step_thread k = Inr k'))"
  using sdisk.client_guarantees(1-3) [OF assms] by (auto simp: replays_def)

text \<open>
  C10. No call of the synchronous disk is forgotten. Whenever all threads sleep and the disk has no
  interrupt pending, no thread sleeps in a call of the disk: nobody holds its lock, waits for
  its lock or waits for its semaphore.
\<close>

theorem synchdisk_no_stall:
  assumes "dreachable devs 0 sd_active request_done
      (Initialize_kernel created (\<lambda>t. client sector_ops (calls t)) values (SynchDisk_SynchDisk d)) k"
    and "sound_clients on_disk devs 0 created calls values" and "idle k" and "\<not> sd_active (shared k)"
  shows "currThread (locks k 0) = None \<and> squeue (sems k 0) = [] \<and> lqueue (locks k 0) = []"
  by (rule sdisk.client_guarantees(4) [OF assms])

text \<open>The example, up to its end: \<^verbatim>\<open>main\<close> reads what thread 1 has written.\<close>

lemma blank_nth: "blank[Suc (Suc 0) := x] ! Suc (Suc 0) = x"
  by (simp add: blank_def nth_list_update)

lemma two_users_run: "\<exists>k. drun 0 sd_active request_done [40, 40, 40] disk_system = Inr k \<and> idle k \<and> \<not> sd_active (shared k) \<and>
    sd_log (shared k) = [DidWrite 1 2 sevens, DidRead 0 2 sevens] \<and> sd_data (shared k) 0 = sevens"
  by (simp add: blank_nth run_defs Let_def eval_nat_numeral two_users_def client_def SynchDisk_ReadSector_def SynchDisk_WriteSector_def
      read_request_def write_request_def request_done_def SynchDisk_SynchDisk_def Semaphore_P_def P_body_def Semaphore_V_def)

theorem synchdisk_linear_witness:
  "\<exists>k. dreachable {} 0 sd_active request_done disk_system k \<and> sd_log (shared k) = [DidWrite 1 2 sevens, DidRead 0 2 sevens] \<and>
     replay blank (sd_log (shared k)) = Some (sd_sectors (shared k))"
proof -
  obtain k where k: "drun 0 sd_active request_done [40, 40, 40] disk_system = Inr k"
      "sd_log (shared k) = [DidWrite 1 2 sevens, DidRead 0 2 sevens]" using two_users_run by blast
  have r: "dreachable {} 0 sd_active request_done disk_system k" by (rule drun_dreachable [OF dreachable.start k(1)])
  from synchdisk_linear [OF r two_users_ok] k(2) r show ?thesis by blast
qed

theorem synchdisk_no_stall_witness:
  "\<exists>k. dreachable {} 0 sd_active request_done disk_system k \<and> idle k \<and> \<not> sd_active (shared k) \<and> lqueue (locks k 0) = []"
proof -
  obtain k where k: "drun 0 sd_active request_done [40, 40, 40] disk_system = Inr k" "idle k" "\<not> sd_active (shared k)" using two_users_run by blast
  have r: "dreachable {} 0 sd_active request_done disk_system k" by (rule drun_dreachable [OF dreachable.start k(1)])
  from synchdisk_no_stall [OF r two_users_ok k(2,3)] k r show ?thesis by blast
qed

end
