(* ===== verification/PostOffice.thy ===== *)
theory PostOffice
  imports Drivers Devices
begin

text \<open>
  The post office, \<^verbatim>\<open>network/post.{h,cc}\<close>: mail boxes on top of the unreliable network device of
  \<^theory_text>\<open>Devices\<close>. A mail is laid out in a packet behind its header; the postal worker takes packets
  from the device and puts them into the box they are addressed to. A box is a \<^verbatim>\<open>SynchList\<close>
  (\<^theory_text>\<open>SynchObjects\<close>), here the sequence of its mails; the threads that send are programs of the
  kernel, verified with \<^theory_text>\<open>Drivers\<close>.
\<close>

section \<open>post.h\<close>

record MailHeader =
  mail_to :: int
  mail_from :: int
  mail_length :: int

definition MaxMailSize :: int where "MaxMailSize = MaxPacketSize - 12"

record Mail =
  pktHdr :: PacketHeader
  mailHdr :: MailHeader
  mail_data :: "8 word list"

record 'g PostOffice = "'g System" +
  netAddr :: int
  numBoxes :: int
  boxes :: "Mail list list"
  worker_buffer :: "8 word list"

text \<open>A header in memory, and what the bytes of a buffer mean as one.\<close>

definition mail_header_bytes :: "MailHeader \<Rightarrow> 8 word list" where
  "mail_header_bytes h = int_bytes (mail_to h) @ int_bytes (mail_from h) @ int_bytes (mail_length h)"

definition mail_header_of :: "8 word list \<Rightarrow> MailHeader" where
  "mail_header_of bs = (case words_of bs of
       a # b # c # _ \<Rightarrow> \<lparr>mail_to = sint a, mail_from = sint b, mail_length = uint c\<rparr>
     | _ \<Rightarrow> \<lparr>mail_to = 0, mail_from = 0, mail_length = 0\<rparr>)"

section \<open>post.cc\<close>

definition Mail_Mail :: "PacketHeader \<Rightarrow> MailHeader \<Rightarrow> 8 word list \<Rightarrow> Mail res" where
  "Mail_Mail pktH mailH msgData = ASSERT (mail_length mailH \<le> MaxMailSize)
     (Inr \<lparr>pktHdr = pktH, mailHdr = mailH, mail_data = take (nat (mail_length mailH)) msgData\<rparr>)"

definition MailBox_Put :: "PacketHeader \<Rightarrow> MailHeader \<Rightarrow> 8 word list \<Rightarrow> Mail list \<Rightarrow> Mail list res" where
  "MailBox_Put pktH mailH data messages = bindE (Mail_Mail pktH mailH data) (\<lambda>mail. Inr (messages @ [mail]))"

text \<open>\<open>None\<close>: the caller waits until there is a message.\<close>

definition MailBox_Get :: "Mail list \<Rightarrow> ((PacketHeader \<times> MailHeader \<times> 8 word list) \<times> Mail list) option" where
  "MailBox_Get messages = (case messages of
       [] \<Rightarrow> None
     | mail # r \<Rightarrow> Some ((pktHdr mail, mailHdr mail, take (nat (mail_length (mailHdr mail))) (mail_data mail)), r))"

text \<open>\<open>ma\<close> and \<open>ms\<close> are the semaphores \<^verbatim>\<open>messageAvailable\<close> and \<^verbatim>\<open>messageSent\<close>, which the interrupt handlers signal; \<open>junk\<close> is the worker's new buffer.\<close>

definition PostOffice_PostOffice :: "int \<Rightarrow> rat \<Rightarrow> int \<Rightarrow> nat \<Rightarrow> nat \<Rightarrow> (PacketHeader \<times> 8 word list) option list \<Rightarrow> 8 word list \<Rightarrow>
    ('g, 'x) PostOffice_scheme \<Rightarrow> ('g, 'x) PostOffice_scheme res" where
  "PostOffice_PostOffice addr reliability nBoxes ma ms sk junk s = Network_Network addr reliability ma ms sk
     (s\<lparr>netAddr := addr, numBoxes := nBoxes, boxes := replicate (nat nBoxes) [], worker_buffer := junk\<rparr>)"

text \<open>One round of the loop of the postal worker, after its \<^verbatim>\<open>P\<close>. \<^verbatim>\<open>Receive\<close> writes the packet over the front of the buffer.\<close>

definition PostalDelivery :: "('g, 'x) PostOffice_scheme \<Rightarrow> ('g, 'x) PostOffice_scheme res" where
  "PostalDelivery s = (let ((pktH, bs), s1) = Network_Receive s; buffer = poke 0 bs (worker_buffer s); mailH = mail_header_of buffer in
     ASSERT (0 \<le> mail_to mailH \<and> mail_to mailH < numBoxes s1) (ASSERT (mail_length mailH \<le> MaxMailSize)
     (bindE (MailBox_Put pktH mailH (drop 12 buffer) (boxes s1 ! nat (mail_to mailH))) (\<lambda>box.
        Inr (s1\<lparr>worker_buffer := buffer, boxes := (boxes s1)[nat (mail_to mailH) := box]\<rparr>)))))"

text \<open>\<^verbatim>\<open>Send\<close> up to the lock: the header and the buffer it gives to the network.\<close>

definition post_packet :: "int \<Rightarrow> int \<Rightarrow> PacketHeader \<Rightarrow> MailHeader \<Rightarrow> 8 word list \<Rightarrow> (PacketHeader \<times> 8 word list) res" where
  "post_packet addr nBoxes pktH mailH data =
     ASSERT (mail_length mailH \<le> MaxMailSize) (ASSERT (0 \<le> mail_to mailH \<and> mail_to mailH < nBoxes)
     (Inr (pktH\<lparr>pkt_from := addr, pkt_length := mail_length mailH + 12\<rparr>,
           mail_header_bytes mailH @ take (nat (mail_length mailH)) data)))"

text \<open>\<^verbatim>\<open>Receive\<close>; \<open>None\<close> while the thread waits.\<close>

definition PostOffice_Receive :: "int \<Rightarrow> ('g, 'x) PostOffice_scheme \<Rightarrow>
    ((PacketHeader \<times> MailHeader \<times> 8 word list) \<times> ('g, 'x) PostOffice_scheme) option res" where
  "PostOffice_Receive box s = ASSERT (box \<ge> 0 \<and> box < numBoxes s) (case MailBox_Get (boxes s ! nat box) of
       None \<Rightarrow> Inr None
     | Some ((pktH, mailH, data), r) \<Rightarrow> ASSERT (mail_length mailH \<le> MaxMailSize)
         (Inr (Some ((pktH, mailH, data), s\<lparr>boxes := (boxes s)[nat box := r]\<rparr>))))"

subsection \<open>Sending threads\<close>

text \<open>
  What the sending threads share: the address of the machine, the number of \<^verbatim>\<open>NetworkSendInt\<close>
  interrupts pending, and the packets given to the network. Semaphore 0 is \<^verbatim>\<open>messageSent\<close>, lock 0 is
  \<^verbatim>\<open>sendLock\<close>.
\<close>

record Outgoing =
  og_address :: int
  og_pending :: nat
  og_sent :: "(PacketHeader \<times> 8 word list) list"

definition net_send :: "PacketHeader \<Rightarrow> 8 word list \<Rightarrow> nat \<Rightarrow> Outgoing \<Rightarrow> Outgoing res" where
  "net_send h buf t og = ASSERT (pkt_length h > 0 \<and> pkt_length h \<le> MaxPacketSize \<and> pkt_from h = og_address og)
     (Inr (og\<lparr>og_pending := og_pending og + 1, og_sent := og_sent og @ [(h, take (nat (pkt_length h)) buf)]\<rparr>))"

definition PostOffice_Send :: "int \<Rightarrow> int \<Rightarrow> PacketHeader \<Rightarrow> MailHeader \<Rightarrow> 8 word list \<Rightarrow> Outgoing instr list" where
  "PostOffice_Send addr nBoxes pktH mailH data = (case post_packet addr nBoxes pktH mailH data of
       Inl e \<Rightarrow> [Act (\<lambda>_ _. Inl e)]
     | Inr (h, buf) \<Rightarrow> [LockAcquire 0, Act (net_send h buf), SemP 0, LockRelease 0])"

text \<open>The two interrupt handlers.\<close>

definition IncomingPacket :: "nat \<Rightarrow> ('g, 'x) Kernel_scheme \<Rightarrow> ('g, 'x) Kernel_scheme" where
  "IncomingPacket messageAvailable k = Semaphore_V messageAvailable k"

definition PacketSent :: "nat \<Rightarrow> ('g, 'x) Kernel_scheme \<Rightarrow> ('g, 'x) Kernel_scheme" where
  "PacketSent messageSent k = Semaphore_V messageSent k"

text \<open>An interrupt of the network, in the kernel with a network, is the handler \<^verbatim>\<open>PacketSent\<close>.\<close>

lemma network_interrupt:
  "\<not> idle k \<Longrightarrow> level k = IntOn \<Longrightarrow> sending (shared k) \<Longrightarrow>
     dstep devs 0 sending send_done k (PacketSent 0 (k\<lparr>shared := send_done (shared k)\<rparr>))"
  "idle k \<Longrightarrow> sending (shared k) \<Longrightarrow>
     dstep devs 0 sending send_done k (dispatch (PacketSent 0 (k\<lparr>shared := send_done (shared k)\<rparr>)))"
  unfolding PacketSent_def by (fact dstep.served, fact dstep.idle_served)

section \<open>Layout\<close>

lemmas post_sizes = MaxMailSize_def MaxPacketSize_def MaxWireSize_def

definition header_fits :: "MailHeader \<Rightarrow> bool" where
  "header_fits h \<longleftrightarrow> fits_int (mail_to h) \<and> fits_int (mail_from h) \<and> 0 \<le> mail_length h \<and> mail_length h < 2 ^ 32"

lemma length_mail_header_bytes [simp]: "length (mail_header_bytes h) = 12"
  by (simp add: mail_header_bytes_def)

lemma mail_header_round_trip: "header_fits h \<Longrightarrow> mail_header_of (mail_header_bytes h @ bs) = h"
  by (simp add: mail_header_of_def mail_header_bytes_def int_bytes_def header_fits_def sint_word_of_int_fits uint_word_of_int_eq
      take_bit_int_eq_self)

text \<open>The sender's side: what is on the wire when the network does not drop the packet.\<close>

lemma sent_on_wire:
  assumes "post_packet addr nBoxes pktH mailH data = Inr (h, buf)" and "Network_Send h buf s = Inr s'"
    and "wire (network s') \<noteq> wire (network s)" and "header_fits mailH" and "nat (mail_length mailH) \<le> length data"
  shows "wire (network s') = wire (network s) @ [(pktH\<lparr>pkt_from := addr, pkt_length := mail_length mailH + 12\<rparr>,
      mail_header_bytes mailH @ take (nat (mail_length mailH)) data)]"
proof -
  have p: "h = pktH\<lparr>pkt_from := addr, pkt_length := mail_length mailH + 12\<rparr>" "buf = mail_header_bytes mailH @ take (nat (mail_length mailH)) data"
    using assms(1) by (auto simp: post_packet_def ASSERT_def split: if_splits)
  have "0 \<le> mail_length mailH" using assms(4) by (simp add: header_fits_def)
  then have "length buf = nat (pkt_length h)" using assms(5) by (simp add: p nat_add_distrib)
  then have t: "take (nat (pkt_length h)) buf = buf" by simp
  have n: "network (snd (Random s1)) = network s1" for s1 :: "('a, 'b) System_scheme" by (simp add: Random_def split: list.splits)
  obtain s1 where s1: "Schedule NetworkSendDone 0 NetworkTime NetworkSendInt s = Inr s1"
    using assms(2) by (auto simp: Network_Send_def Let_def ASSERT_def split: if_splits)
  have "network s1 = network s" using s1 by (auto simp: Schedule_def Let_def ASSERT_def split: if_splits)
  then have "network s' = network s \<or> network s' = (network s)\<lparr>wire := wire (network s) @ [(h, take (nat (pkt_length h)) buf)]\<rparr>"
    using assms(2) s1 n [of s1] by (auto simp: Network_Send_def Let_def ASSERT_def split: if_splits prod.splits)
  then show ?thesis using assms(3) t p by auto
qed

text \<open>The receiver's side: polling the device, then one round of the postal worker.\<close>

lemma packet_polled:
  assumes "pkt_length (inHdr (network s)) = 0" and "sock (network s) = Some (h, bs) # r" and "pkt_to h = ident (network s)"
    and "pkt_length h \<le> MaxPacketSize" and "length bs = nat (pkt_length h)"
  shows "\<exists>s1. CheckPktAvail s = Inr s1 \<and> network s1 = (network s)\<lparr>inHdr := h, inbox := bs @ drop (length bs) (inbox (network s)), sock := r\<rparr> \<and>
    numBoxes s1 = numBoxes s \<and> boxes s1 = boxes s \<and> worker_buffer s1 = worker_buffer s"
proof -
  obtain s0 where s0: "Schedule NetworkReadPoll 0 NetworkTime NetworkRecvInt s = Inr s0" "network s0 = network s"
      "numBoxes s0 = numBoxes s" "boxes s0 = boxes s" "worker_buffer s0 = worker_buffer s"
    by (simp add: Schedule_def Let_def tick_defs)
  have V: "network (Semaphore_V v t) = network t" "numBoxes (Semaphore_V v t) = numBoxes t" "boxes (Semaphore_V v t) = boxes t"
    "worker_buffer (Semaphore_V v t) = worker_buffer t" for v and t :: "('a, 'b) PostOffice_scheme"
    by (auto simp: Semaphore_V_def Let_def wake_def set_sem_def ReadyToRun_def setStatus_def split: list.splits)
  show ?thesis using assms s0 by (simp add: CheckPktAvail_def Let_def V count_def)
qed

lemma packet_delivered:
  assumes h: "inHdr (network s) = h" "pkt_length h = mail_length mailH + 12"
    and b: "inbox (network s) = mail_header_bytes mailH @ body @ junk" "int (length body) = mail_length mailH"
    and m: "header_fits mailH" "mail_length mailH \<le> MaxMailSize" and w: "length (worker_buffer s) = 52"
  shows "if 0 \<le> mail_to mailH \<and> mail_to mailH < numBoxes s
    then \<exists>s'. PostalDelivery s = Inr s' \<and> boxes s' = (boxes s)[nat (mail_to mailH) := boxes s ! nat (mail_to mailH) @
        [\<lparr>pktHdr = h, mailHdr = mailH, mail_data = body\<rparr>]] \<and> numBoxes s' = numBoxes s \<and> pkt_length (inHdr (network s')) = 0
    else PostalDelivery s = Inl AssertFailed"
proof -
  let ?bs = "mail_header_bytes mailH @ body"
  have l: "nat (pkt_length h) = length ?bs" "pkt_length h \<noteq> 0" using h(2) b(2) by simp_all
  have nr: "Network_Receive s = ((h, ?bs), s\<lparr>network := (network s)\<lparr>inHdr := h\<lparr>pkt_length := 0\<rparr>\<rparr>\<rparr>)"
    using l by (simp add: Network_Receive_def h b Let_def)
  have buf: "poke 0 ?bs (worker_buffer s) = mail_header_bytes mailH @ body @ drop (length ?bs) (worker_buffer s)" by (simp add: poke_def)
  have nl: "nat (mail_length mailH) = length body" using b(2) by (metis nat_int)
  show ?thesis
    using m(2) by (simp add: PostalDelivery_def nr buf mail_header_round_trip [OF m(1)] Let_def MailBox_Put_def Mail_Mail_def nl ASSERT_def [of "_ \<and> _"])
qed

section \<open>The sending threads\<close>

text \<open>The requests are those of the network of \<^theory_text>\<open>Devices\<close>, which never sets \<^verbatim>\<open>sendBusy\<close>.\<close>

lemma sends_of_network:
  assumes "og_address og = ident (network s)" and "\<not> sendBusy (network s)"
  shows "(\<exists>s'. Network_Send h buf s = Inr s') \<longleftrightarrow> (\<exists>og'. net_send h buf t og = Inr og')"
    and "Network_Send h buf s = Inr s' \<Longrightarrow> \<not> sendBusy (network s')"
proof -
  have n: "network (snd (Random s1)) = network s1" for s1 :: "('a, 'b) System_scheme" by (simp add: Random_def split: list.splits)
  obtain s1 where s1: "Schedule NetworkSendDone 0 NetworkTime NetworkSendInt s = Inr s1" "network s1 = network s"
    by (simp add: Schedule_def Let_def tick_defs)
  show "(\<exists>s'. Network_Send h buf s = Inr s') \<longleftrightarrow> (\<exists>og'. net_send h buf t og = Inr og')"
    using assms s1 by (auto simp: Network_Send_def net_send_def Let_def ASSERT_def split: prod.splits)
  show "\<not> sendBusy (network s')" if "Network_Send h buf s = Inr s'"
    using that assms(2) s1 n [of s1] by (auto simp: Network_Send_def Let_def ASSERT_def split: if_splits prod.splits)
qed

datatype post_op = PostSend PacketHeader MailHeader "8 word list"

fun post_ops :: "int \<Rightarrow> int \<Rightarrow> post_op \<Rightarrow> Outgoing instr list" where
  "post_ops addr nBoxes (PostSend h m data) = PostOffice_Send addr nBoxes h m data"

fun mail_ok :: "int \<Rightarrow> post_op \<Rightarrow> bool" where
  "mail_ok nBoxes (PostSend h m data) = (0 \<le> mail_length m \<and> mail_length m \<le> MaxMailSize \<and> 0 \<le> mail_to m \<and> mail_to m < nBoxes)"

definition legal_sends :: "int \<Rightarrow> (nat \<Rightarrow> Outgoing \<Rightarrow> Outgoing res) set" where
  "legal_sends addr = {f. \<exists>h buf. f = net_send h buf \<and> 0 < pkt_length h \<and> pkt_length h \<le> MaxPacketSize \<and> pkt_from h = addr}"

definition sending :: "Outgoing \<Rightarrow> bool" where
  "sending og \<longleftrightarrow> og_pending og \<noteq> 0"

definition send_done :: "Outgoing \<Rightarrow> Outgoing" where
  "send_done og = og\<lparr>og_pending := og_pending og - 1\<rparr>"

definition outgoing_inv :: "int \<Rightarrow> Outgoing \<Rightarrow> bool" where
  "outgoing_inv addr og \<longleftrightarrow> og_address og = addr \<and> og_pending og \<le> 1 \<and>
     (\<forall>(h, bs) \<in> set (og_sent og). pkt_from h = addr \<and> 0 < pkt_length h \<and> pkt_length h \<le> MaxPacketSize)"

definition no_mail :: "int \<Rightarrow> Outgoing" where
  "no_mail addr = \<lparr>og_address = addr, og_pending = 0, og_sent = []\<rparr>"

interpretation senders: driver_clients 0 0 "legal_sends addr" sending send_done "outgoing_inv addr" "no_mail addr" "post_ops addr nBoxes" "mail_ok nBoxes"
  for addr nBoxes
proof
  show "\<exists>g'. f t g = Inr g' \<and> sending g' \<and> outgoing_inv addr g'" if "f \<in> legal_sends addr" "outgoing_inv addr g" "\<not> sending g" for f g t
    using that by (auto simp: legal_sends_def net_send_def outgoing_inv_def sending_def)
  show "outgoing_inv addr (send_done g) \<and> \<not> sending (send_done g)" if "outgoing_inv addr g" for g
    using that by (auto simp: outgoing_inv_def sending_def send_done_def)
  show "outgoing_inv addr (no_mail addr)" "\<not> sending (no_mail addr)" by (simp_all add: outgoing_inv_def no_mail_def sending_def)
  show "\<exists>f \<in> legal_sends addr. post_ops addr nBoxes p = [LockAcquire 0, Act f, SemP 0, LockRelease 0]" if "mail_ok nBoxes p" for p
    using that by (cases p) (auto simp: PostOffice_Send_def post_packet_def legal_sends_def post_sizes)
qed

section \<open>Properties\<close>

text \<open>
  C11. Mail that is not lost arrives as it was sent, in the box it was sent to. When \<^verbatim>\<open>Send\<close> on one
  machine has given a mail to its network and the network has put a packet on the wire, and
  that packet is the next one to arrive at the machine it is addressed to, whose device is ready for it:
  polling the device succeeds and so does the postal worker, provided that the receiving machine has
  that box; the mail is then the last of exactly that box, with the sender's address, the
  header and the data it was sent with, all other boxes are unchanged and the device is
  ready for the next packet; and when the box was empty, \<^verbatim>\<open>Receive\<close> returns that mail and
  empties the box. If the receiving machine does not have the box, which the sender
  checks only against its own number of boxes, the postal worker fails its assertion.
\<close>

theorem post_delivers:
  fixes r :: "('g, 'x) PostOffice_scheme"
  assumes "post_packet addr nBoxes pktH mailH data = Inr (h, buf)" and "Network_Send h buf s = Inr s'"
    and "wire (network s') \<noteq> wire (network s)" and "header_fits mailH" and "nat (mail_length mailH) \<le> length data"
    and "p = last (wire (network s'))"
    and "pkt_length (inHdr (network r)) = 0" and "sock (network r) = Some p # rest" and "pkt_to pktH = ident (network r)"
    and "length (worker_buffer r) = 52" and "int (length (boxes r)) = numBoxes r"
    and mail: "mail = \<lparr>pktHdr = pktH\<lparr>pkt_from := addr, pkt_length := mail_length mailH + 12\<rparr>, mailHdr = mailH,
       mail_data = take (nat (mail_length mailH)) data\<rparr>"
  shows "\<exists>r1. CheckPktAvail r = Inr r1 \<and>
    (if mail_to mailH < numBoxes r
     then \<exists>r2. PostalDelivery r1 = Inr r2 \<and> boxes r2 = (boxes r)[nat (mail_to mailH) := boxes r ! nat (mail_to mailH) @ [mail]] \<and>
       pkt_length (inHdr (network r2)) = 0 \<and>
       (boxes r ! nat (mail_to mailH) = [] \<longrightarrow> (\<exists>r3. PostOffice_Receive (mail_to mailH) r2 =
          Inr (Some ((pktHdr mail, mailHdr mail, mail_data mail), r3)) \<and> boxes r3 = boxes r))
     else PostalDelivery r1 = Inl AssertFailed)"
proof -
  let ?h = "pktHdr mail" and ?body = "mail_data mail" and ?to = "mail_to mailH"
  have pk: "mail_length mailH \<le> MaxMailSize" "0 \<le> ?to" using assms(1) by (auto simp: post_packet_def ASSERT_def split: if_splits)
  have len: "0 \<le> mail_length mailH" "int (length ?body) = mail_length mailH" using assms(4,5) by (simp_all add: header_fits_def mail)
  have nl: "nat (mail_length mailH + 12) = 12 + nat (mail_length mailH)" using len by (simp add: nat_add_distrib)
  have p: "p = (?h, mail_header_bytes mailH @ ?body)" using sent_on_wire [OF assms(1-5)] assms(6) by (simp add: mail)
  obtain r1 where r1: "CheckPktAvail r = Inr r1" "inHdr (network r1) = ?h" "numBoxes r1 = numBoxes r" "boxes r1 = boxes r"
      "worker_buffer r1 = worker_buffer r" "inbox (network r1) = mail_header_bytes mailH @ ?body @ drop (12 + length ?body) (inbox (network r))"
    using packet_polled [of r ?h "mail_header_bytes mailH @ ?body" rest] assms(7-9) p pk(1) len nl by (auto simp: mail post_sizes)
  note d = packet_delivered [OF r1(2) _ r1(6) len(2) assms(4) pk(1)]
  show ?thesis
  proof (cases "?to < numBoxes r")
    case True
    then obtain r2 where r2: "PostalDelivery r1 = Inr r2" "boxes r2 = (boxes r)[nat ?to := boxes r ! nat ?to @ [mail]]"
        "numBoxes r2 = numBoxes r" "pkt_length (inHdr (network r2)) = 0"
      using d pk(2) r1 assms(10) by (auto simp: mail)
    have "nat ?to < length (boxes r)" using True pk(2) assms(11) by simp
    then have box: "boxes r2 ! nat ?to = [mail]" "(boxes r2)[nat ?to := []] = boxes r" if "boxes r ! nat ?to = []"
      using that r2(2) by (simp_all add: list_update_same_conv)
    have m: "mailHdr mail = mailH" "take (nat (mail_length mailH)) (mail_data mail) = mail_data mail" by (simp_all add: mail)
    have "\<exists>r3. PostOffice_Receive ?to r2 = Inr (Some ((pktHdr mail, mailHdr mail, mail_data mail), r3)) \<and> boxes r3 = boxes r"
      if "boxes r ! nat ?to = []"
      using True r2(3) pk box [OF that] by (simp add: PostOffice_Receive_def MailBox_Get_def m)
    then show ?thesis using True r2 by (intro exI [of _ r1] conjI r1(1)) auto
  next
    case False
    then show ?thesis using d r1 assms(10) by (auto simp: mail)
  qed
qed

text \<open>
  C38. One mail at a time. In every interleaving of any number of threads that call \<^verbatim>\<open>Send\<close> with
  legal mails, at most one packet is with the network waiting for its interrupt, although
  the device itself does not keep track of it; no assertion of a call fails; every packet handed over has the
  address of this machine and a legal length; and when all threads sleep and no
  interrupt is pending, no thread sleeps in a call.
\<close>

theorem post_send_serial:
  assumes "dreachable devs 0 sending send_done (Initialize_kernel created (\<lambda>t. client (post_ops addr nBoxes) (calls t)) values (no_mail addr)) k"
    and "sound_clients (mail_ok nBoxes) devs 0 created calls values"
  shows "og_pending (shared k) \<le> 1 \<and>
    (\<forall>(h, bs) \<in> set (og_sent (shared k)). pkt_from h = addr \<and> 0 < pkt_length h \<and> pkt_length h \<le> MaxPacketSize) \<and>
    (\<not> idle k \<longrightarrow> code k (currentThread k) = i # rest \<longrightarrow> \<not> lifecycle i \<longrightarrow> (\<exists>k'. step_thread k = Inr k')) \<and>
    (idle k \<longrightarrow> og_pending (shared k) = 0 \<longrightarrow> currThread (locks k 0) = None \<and> squeue (sems k 0) = [] \<and> lqueue (locks k 0) = [])"
  using senders.client_guarantees(1,3,4) [OF assms] by (auto simp: outgoing_inv_def sending_def)

text \<open>Examples: a mail from machine 0 to itself, and a thread that sends it.\<close>

definition letter_to :: PacketHeader where "letter_to = \<lparr>pkt_to = 0, pkt_from = 0, pkt_length = 0\<rparr>"
definition letter :: MailHeader where "letter = \<lparr>mail_to = 1, mail_from = 0, mail_length = 3\<rparr>"

lemmas letter_defs = letter_to_def letter_def

definition packed :: "PacketHeader \<times> 8 word list" where
  "packed = (\<lparr>pkt_to = 0, pkt_from = 0, pkt_length = 15\<rparr>, mail_header_bytes letter @ [1, 2, 3])"

definition receiver :: "unit PostOffice" where
  "receiver = System.extend (example_system\<lparr>network := (network example_system)\<lparr>sock := [Some packed]\<rparr>\<rparr>)
     \<lparr>netAddr = 0, numBoxes = 2, boxes = [[], []], worker_buffer = replicate 52 0\<rparr>"

lemma letter_packed: "post_packet 0 2 letter_to letter [1, 2, 3] = Inr packed"
  by (simp add: post_packet_def packed_def letter_defs post_sizes)

lemma letter_sent: "\<exists>s'. Network_Send (fst packed) (snd packed) example_system = Inr s' \<and> wire (network s') = [packed]"
  by (simp add: Network_Send_def packed_def letter_defs example_defs Random_def Schedule_def tick_defs post_sizes Let_def)

theorem post_delivers_witness:
  "\<exists>r1 r2. CheckPktAvail receiver = Inr r1 \<and> PostalDelivery r1 = Inr r2 \<and>
     boxes r2 = [[], [\<lparr>pktHdr = fst packed, mailHdr = letter, mail_data = [1, 2, 3]\<rparr>]]"
proof -
  obtain s' where s': "Network_Send (fst packed) (snd packed) example_system = Inr s'" "wire (network s') = [packed]" using letter_sent by blast
  have r: "network receiver = (network example_system)\<lparr>sock := [Some packed]\<rparr>" "boxes receiver = [[], []]" "numBoxes receiver = 2"
      "worker_buffer receiver = replicate 52 0"
    by (simp_all add: receiver_def System.defs example_defs)
  have n: "wire (network example_system) = []" "inHdr (network example_system) = \<lparr>pkt_to = 0, pkt_from = 0, pkt_length = 0\<rparr>"
      "ident (network example_system) = 0" by (simp_all add: example_defs)
  have "header_fits letter" by (simp add: header_fits_def letter_def fits_int_def)
  then show ?thesis
    using post_delivers [of 0 2 letter_to letter "[1, 2, 3]" "fst packed" "snd packed" example_system s' packed receiver "[]"] letter_packed s' r n
    by (fastforce simp: letter_defs packed_def)
qed

definition one_sender :: "nat \<Rightarrow> post_op call list" where
  "one_sender = (\<lambda>_. [])(0 := [Op (PostSend letter_to letter [1, 2, 3])])"

abbreviation post_system :: "Outgoing Kernel" where
  "post_system \<equiv> Initialize_kernel Map.empty (\<lambda>t. client (post_ops 0 2) (one_sender t)) (\<lambda>_. 0) (no_mail 0)"

lemma post_run: "\<exists>k. drun 0 sending send_done [10] post_system = Inr k \<and> og_sent (shared k) = [packed]"
  by (simp add: run_defs Let_def eval_nat_numeral client_def one_sender_def PostOffice_Send_def letter_packed packed_def net_send_def no_mail_def
      Semaphore_P_def P_body_def post_sizes)

theorem post_send_serial_witness:
  "\<exists>k. dreachable {} 0 sending send_done post_system k \<and> og_sent (shared k) = [packed] \<and> og_pending (shared k) \<le> 1"
proof -
  obtain k where k: "drun 0 sending send_done [10] post_system = Inr k" "og_sent (shared k) = [packed]" using post_run by blast
  have r: "dreachable {} 0 sending send_done post_system k" by (rule drun_dreachable [OF dreachable.start k(1)])
  have "sound_clients (mail_ok 2) {} 0 Map.empty one_sender (\<lambda>_. 0)"
    by (simp add: sound_clients_def one_sender_def letter_defs post_sizes)
  from post_send_serial [OF r this] k(2) r show ?thesis by blast
qed

end
