(* ===== verification/Spec2Isabelle.thy ===== *)
theory Spec2Isabelle
  imports Boot Coff2Noff FileSys SynchObjects SynchDisk PostOffice
begin

text \<open>
  A verification of Nachos, the instructional operating system under \<^verbatim>\<open>src/code\<close>, and of the machine it
  runs on. Nachos is a kernel linked with a simulator of its hardware: simulated time and interrupts,
  a MIPS processor with address translation, a disk, a timer, a console and a network. On top of these
  the kernel has threads with semaphores, locks and conditions, user programs with demand paging and
  system calls, a file system, and a post office.

  \<^bold>\<open>How the parts are modelled\<close>

  Every routine is a function on an explicit state, with the branches of the source in their order.
  A failing \<^verbatim>\<open>ASSERT\<close>, an access outside an array and a bad pointer are the errors of \<open>error\<close>
  (theory \<open>Prelude\<close>), so that a result \<open>Inr\<close> says that none of them happens. States are records; the
  state of a component extends that of the components it uses: \<open>Interrupt\<close> to \<open>Machine\<close>, \<open>VM\<close>, \<open>Process\<close> and \<open>Programs\<close>
  on the side of user programs, and to \<open>Kernel\<close>, \<open>System\<close> and \<open>PostOffice\<close> on the side of threads and devices.
  Registers and memory are words of 32 and 8 bits. C integers are \<open>int\<close> where the source keeps them
  small, and words where it can overflow.

  \<^item> \<open>Prelude\<close>: results and assertions, rounding (\<^verbatim>\<open>threads/utility.h\<close>), bytes and words.
  \<^item> \<open>LinkedList\<close>: \<^verbatim>\<open>threads/list.cc\<close> on a heap of elements. \<open>list_priority_queue\<close> and the interpretations of
    the locales show that the pointer lists are sequences sorted by key; all theories above use the sequences.
  \<^item> \<open>BitMap\<close>, \<open>MemManage\<close>: \<^verbatim>\<open>userprog/bitmap.cc\<close> on packed words, \<^verbatim>\<open>userprog/memmanage.cc\<close>.
  \<^item> \<open>Interrupt\<close>: \<^verbatim>\<open>machine/interrupt.cc\<close>, \<^verbatim>\<open>machine/stats.cc\<close>. The locale \<open>interrupt_handlers\<close> states what handlers must keep;
    in it a tick is shown to call the handlers of exactly the interrupts that are due (\<open>serve\<close>). \<open>Devices\<close> interprets it.
  \<^item> \<open>Machine\<close>: \<^verbatim>\<open>machine/machine.cc\<close>, \<^verbatim>\<open>machine/translate.cc\<close>. Translation never leaves memory, and memory
    returns what was written.
  \<^item> \<open>MipsDecode\<close>, \<open>Mips\<close>: \<^verbatim>\<open>machine/mipssim.{h,cc}\<close>, every opcode. The locale \<open>instruction_step\<close> lists what an instruction
    does to the state, so that a property closed under it is kept by every instruction; its sublocale \<open>exn_kernel\<close> states
    what the processor needs from the kernel. \<open>Exception\<close>, \<open>Isolation\<close> and \<open>Protection\<close> interpret them with the real handler.
  \<^item> \<open>HostFile\<close>: files of the host (\<^verbatim>\<open>FILESYS_STUB\<close>), used for executables, backing files and the disk image.
  \<^item> \<open>AddrSpace\<close>, \<open>Paging\<close>: \<^verbatim>\<open>userprog/addrspace.cc\<close>, \<^verbatim>\<open>userprog/backingstore.cc\<close>: page faults are served with the right
    bytes, and the cases in which they are not. The invariant \<open>space_ok\<close> says nothing of the clock hand, which \<^verbatim>\<open>Initialize\<close> leaves
    as the memory was; \<open>hand_ok\<close> is assumed only where a victim is searched for.
  \<^item> \<open>Exception\<close>: \<^verbatim>\<open>userprog/exception.cc\<close>, \<^verbatim>\<open>threads/table.cc\<close>: traps, system calls and the table of threads.
  \<^item> \<open>PagingFrame\<close>, \<open>Isolation\<close>: what a page fault and an instruction leave alone. The locale \<open>paging_frame\<close> carries a relation
    across \<^verbatim>\<open>demandpage\<close>; other address spaces are untouched by the instructions of a program.
  \<^item> \<open>UserProcess\<close>, \<open>Protection\<close>: many programs. The \<^verbatim>\<open>USER_PROGRAM\<close> parts of \<^verbatim>\<open>Scheduler::Run\<close>, \<^verbatim>\<open>SaveUserState\<close>, \<^verbatim>\<open>RestoreUserState\<close> and
    \<^verbatim>\<open>~Thread\<close>, and \<open>sys_step\<close>, which interleaves instructions, traps and switches. \<open>process_isolation\<close>: a program's
    registers and memory change by its own instructions only, for runs whose every \<^verbatim>\<open>Exec\<close> is \<open>exec_safe\<close>.
  \<^item> \<open>Boot\<close>: the command line (\<^verbatim>\<open>threads/{system,main}.cc\<close>) and \<^verbatim>\<open>StartProcess\<close>, up to a state that satisfies the invariant
    of \<open>UserProcess\<close>.
  \<^item> \<open>Coff2Noff\<close>: \<^verbatim>\<open>bin/coff2noff.c\<close>, which makes the object files that \<open>AddrSpace\<close> loads from those of the compiler.
    \<open>coff2noff_correct\<close>: the kernel finds in its output every section of its input, page by page; \<open>coff2noff_failure\<close>:
    a run that fails leaves no output.
  \<^item> \<open>FileHdr\<close>, \<open>FsOpenFile\<close>, \<open>FsDirectory\<close>, \<open>FileSys\<close>: \<^verbatim>\<open>filesys/*.cc\<close>, from an array of sectors up to \<^verbatim>\<open>Create\<close>, \<^verbatim>\<open>Open\<close> and
    \<^verbatim>\<open>Remove\<close>. The file system is a finite map from names to byte arrays; its sectors are disjoint.
  \<^item> \<open>Threads\<close>: \<^verbatim>\<open>threads/{thread,scheduler,synch}.cc\<close>. A thread is the list of the kernel calls it still has to
    execute; a routine is atomic until it gives up the processor, because interrupts are off, and
    then leaves a resume point. \<open>kstep\<close> interleaves threads, device interrupts and preemption.
  \<^item> \<open>ThreadInv\<close>: the invariant of \<open>kstep\<close>: where threads are, no lost wake-up, exclusive locks.
  \<^item> \<open>Monitors\<close>, \<open>SynchObjects\<close>: a proof rule for monitors as a locale, and \<^verbatim>\<open>SynchList\<close>, \<^verbatim>\<open>Mailbox\<close> and \<^verbatim>\<open>Whale\<close>.
  \<^item> \<open>Devices\<close>: \<^verbatim>\<open>machine/{disk,timer,console,network}.cc\<close>. What the host delivers is a list in the state.
  \<^item> \<open>Drivers\<close>: synchronous drivers of asynchronous devices, as a locale, on the kernel with a device (\<open>dstep\<close>).
  \<^item> \<open>SynchDisk\<close>, \<open>PostOffice\<close>: \<^verbatim>\<open>filesys/synchdisk.cc\<close> and \<^verbatim>\<open>network/post.cc\<close>, interpretations of that locale, and the
    delivery of mail.

  \<^bold>\<open>How the parts fit together\<close>

  The handlers of \<open>Devices\<close> keep the invariant of \<open>ThreadInv\<close> and the contract of the interrupt loop, so that
  \<^verbatim>\<open>OneTick\<close> is verified with the real handlers. The disk of \<open>Devices\<close> implements the array of sectors of
  \<open>FileHdr\<close>; \<open>SynchDisk\<close> shows the same array for concurrent callers, which is what \<open>FileSys\<close> stands on. The
  processor of \<open>Mips\<close> runs with the handler of \<open>Exception\<close>, which serves page faults by \<open>Paging\<close>;
  with several programs, \<open>Boot\<close> establishes the invariant \<open>system_ok\<close>, and every \<open>sys_step\<close> that is \<open>exec_safe\<close> keeps it. A step that is not
  is the \<^verbatim>\<open>Exec\<close> of a program whose backing file has a name in use (two programs of equal size share a backing file,
  \<open>backing_store_collision\<close>), whose object file is a backing file, or whose size does not fit: \<open>sys_step\<close> has these steps too, and
  \<open>process_isolation\<close> assumes that the run has none.
  Post office, mailboxes and queues of threads are sequences that \<open>LinkedList\<close> implements.

  \<^bold>\<open>Loops\<close>

  Loops are structural recursion or recursion with a measure where they end. The clock search of paging and the
  loop that fires interrupts are \<open>partial_function (option)\<close>: that they return is a theorem
  (\<open>demandpage_correct\<close>, \<open>tick_fires_due\<close>), and so is that the first does not in one case (\<open>demandpage_hangs\<close>). The fuel of \<open>mult_loop\<close>
  is the 32 iterations of the source, that of \<open>read_name\<close> the 1024 characters of its buffer,
  that of \<open>alloc_scan\<close> the number of places the loop looks at. \<open>run_steps\<close> and \<open>drun\<close> only serve examples.

  \<^bold>\<open>Limits of the integers and of memory\<close>

  \<^item> The simulated clock and the counters of \<open>Statistics\<close> are \<open>int\<close>: nothing is said of a run of more than \<open>2 ^ 31\<close> ticks.
  \<^item> \<^verbatim>\<open>position + numBytes\<close> of \<^verbatim>\<open>ReadAt\<close> and \<^verbatim>\<open>WriteAt\<close> does not wrap around; no caller asks for that many bytes.
  \<^item> An access outside an array is the error \<open>OutOfBounds\<close>, not the bytes that happen to follow; so is printing a name that has no NUL.
  \<^item> Uninitialised memory (the clock hand, the buffer of the file header, directory entries, the table of threads, bitmaps) is an
    argument of the routine that finds it. Where a theorem needs something of it, that is a hypothesis (\<open>hand_ok\<close>, an empty place of the table).

  \<^bold>\<open>Not modelled\<close>

  \<^item> \<^verbatim>\<open>userprog/SynchConsole.cc\<close> uses names that are declared nowhere and does not compile.
  \<^item> \<^verbatim>\<open>threads/switch.s\<close> and stacks: the rest of a thread's program takes the place of its stack, and in \<open>UserProcess\<close> the
    place in the handler at which a program waits.
  \<^item> The order in which \<open>sys_step\<close> switches is arbitrary: which thread is next is the matter of the ready list in \<open>Threads\<close>.
  \<^item> \<^verbatim>\<open>machine/sysdep.cc\<close> (sockets, terminal, signals), \<^verbatim>\<open>threads/utility.cc\<close>, the
    interactive debugger: input and output of the host; the arguments of the builds with the network or the real file system.
  \<^item> \<^verbatim>\<open>bin\<close> without the converter, \<^verbatim>\<open>test\<close>, \<^verbatim>\<open>c++example\<close> and the test drivers: tools outside of the default target of the Makefile or that only
    print, user programs and demonstrations.
\<close>

end
